(* ===== verification/Prelude.thy ===== *)
theory Prelude
  imports Main "HOL-Library.Word"
begin

text \<open>
  Shared vocabulary of the development: the ways a C++ function can fail to return (an exception,
  a failed assertion, an out-of-range access, a loop that does not stop) as values of a sum type,
  with the bind that threads them, names for the machine integer types, and the generic lemmas on
  lists and words that the component theories use.
\<close>

section \<open>Results\<close>

text \<open>
  \<open>Throw\<close> is a C++ exception, \<open>Abort\<close> a failed \<open>GGML_ASSERT\<close> or a \<open>GGML_ABORT\<close>,
  \<open>Undefined\<close> undefined behaviour of C++ (an access outside an array, a signed overflow, a
  division by zero), and \<open>OutOfFuel\<close> says
  that the loop was still running after the given number of steps. Theorems that a routine
  terminates say that enough fuel gives a result other than \<open>OutOfFuel\<close>.
\<close>

datatype failure = Throw string | Abort string | Undefined | OutOfFuel

type_synonym 'a result = "failure + 'a"

type_synonym u8 = "8 word"
type_synonym u32 = "32 word"
type_synonym u64 = "64 word"

fun rbind :: "'a result \<Rightarrow> ('a \<Rightarrow> 'b result) \<Rightarrow> 'b result" where
  "rbind (Inl e) f = Inl e"
| "rbind (Inr x) f = f x"

fun rmap :: "('a \<Rightarrow> 'b result) \<Rightarrow> 'a list \<Rightarrow> 'b list result" where
  "rmap f [] = Inr []"
| "rmap f (x # xs) = rbind (f x) (\<lambda>y. rbind (rmap f xs) (\<lambda>ys. Inr (y # ys)))"

fun rfold :: "('a \<Rightarrow> 's \<Rightarrow> 's result) \<Rightarrow> 'a list \<Rightarrow> 's \<Rightarrow> 's result" where
  "rfold f [] s = Inr s"
| "rfold f (x # xs) s = rbind (f x s) (rfold f xs)"

definition rassert :: "string \<Rightarrow> bool \<Rightarrow> unit result" where
  "rassert msg b = (if b then Inr () else Inl (Abort msg))"

named_theorems result_simps \<open>unfolding of the result monad\<close>

lemma rbind_Inr_iff [result_simps]:
  "rbind m f = Inr y \<longleftrightarrow> (\<exists>x. m = Inr x \<and> f x = Inr y)"
  by (cases m) auto

lemma rbind_Inl_iff [result_simps]:
  "rbind m f = Inl e \<longleftrightarrow> m = Inl e \<or> (\<exists>x. m = Inr x \<and> f x = Inl e)"
  by (cases m) auto

lemma rassert_Inr_iff [result_simps]: "rassert msg b = Inr u \<longleftrightarrow> b"
  by (auto simp: rassert_def)

lemma rbind_assoc: "rbind (rbind m f) g = rbind m (\<lambda>x. rbind (f x) g)"
  by (cases m) auto

lemma rbind_cong [fundef_cong]:
  "m = m' \<Longrightarrow> (\<And>x. m' = Inr x \<Longrightarrow> f x = g x) \<Longrightarrow> rbind m f = rbind m' g"
  by (cases m') auto

lemma rmap_length: "rmap f xs = Inr ys \<Longrightarrow> length ys = length xs"
proof (induction xs arbitrary: ys)
  case (Cons x xs)
  then show ?case by (cases "f x"; cases "rmap f xs") auto
qed simp

lemma rmap_nth: "rmap f xs = Inr ys \<Longrightarrow> i < length xs \<Longrightarrow> f (xs ! i) = Inr (ys ! i)"
proof (induction xs arbitrary: ys i)
  case (Cons x xs)
  then show ?case by (cases "f x"; cases "rmap f xs"; cases i) auto
qed simp

lemma rfold_append:
  "rfold f (xs @ ys) s = rbind (rfold f xs s) (rfold f ys)"
  by (induction xs arbitrary: s) (auto simp: rbind_assoc intro!: rbind_cong)

text \<open>An invariant of the body is an invariant of the loop, and a body that cannot fail under
  the invariant makes a loop that cannot fail.\<close>

lemma rfold_invariant:
  assumes "rfold f xs s = Inr s'" and "P s"
    and "\<And>x s s'. x \<in> set xs \<Longrightarrow> P s \<Longrightarrow> f x s = Inr s' \<Longrightarrow> P s'"
  shows "P s'"
  using assms
proof (induction xs arbitrary: s)
  case (Cons x xs)
  from Cons.prems(1) obtain t where t: "f x s = Inr t" and rest: "rfold f xs t = Inr s'"
    by (auto simp: result_simps)
  have "P t" using Cons.prems(2,3) t by auto
  then show ?case using Cons.IH [OF rest] Cons.prems(3) by auto
qed simp

lemma rfold_total:
  assumes "P s"
    and "\<And>x s. x \<in> set xs \<Longrightarrow> P s \<Longrightarrow> \<exists>s'. f x s = Inr s' \<and> P s'"
  shows "\<exists>s'. rfold f xs s = Inr s' \<and> P s'"
  using assms
proof (induction xs arbitrary: s)
  case (Cons x xs)
  obtain t where t: "f x s = Inr t" and "P t" using Cons.prems by auto
  then show ?case using Cons.IH [of t] Cons.prems(2) by auto
qed simp

section \<open>Lists\<close>

text \<open>\<open>push_unique\<close> is \<open>if (std::find(v.begin(), v.end(), x) == v.end()) v.push_back(x)\<close>.\<close>

definition push_unique :: "'a \<Rightarrow> 'a list \<Rightarrow> 'a list" where
  "push_unique x xs = (if x \<in> set xs then xs else xs @ [x])"

lemma set_push_unique [simp]: "set (push_unique x xs) = insert x (set xs)"
  by (auto simp: push_unique_def)

lemma distinct_push_unique [simp]: "distinct (push_unique x xs) = distinct xs"
  by (auto simp: push_unique_def)

lemma drop_eq_Cons_nth: "i < length xs \<Longrightarrow> drop i xs = xs ! i # drop (Suc i) xs"
  by (simp add: Cons_nth_drop_Suc)

lemma map_upt_update:
  "k < n \<Longrightarrow> (map f [0..<n])[k := y] = map (\<lambda>i. if i = k then y else f i) [0..<n]"
  by (auto simp: nth_list_update intro!: nth_equalityI)

section \<open>Fixed-width arithmetic on unbounded numbers\<close>

text \<open>
  \<open>i32\<close> is the result of a signed 32-bit operation: undefined when it does not fit. \<open>u32_add\<close>,
  \<open>u32_sub\<close> and \<open>u32_dec\<close> are the unsigned operations, which wrap; \<open>u32_of_int\<close> and \<open>i32_of_u32\<close>
  convert between the two.
\<close>

definition INT32_MAX :: int where
  "INT32_MAX = 2147483647"

definition i32 :: "int \<Rightarrow> int result" where
  "i32 x = (if -2147483648 \<le> x \<and> x \<le> 2147483647 then Inr x else Inl Undefined)"

definition u32_add :: "nat \<Rightarrow> nat \<Rightarrow> nat" where
  "u32_add a b = (a + b) mod 4294967296"

definition u32_sub :: "nat \<Rightarrow> nat \<Rightarrow> nat" where
  "u32_sub a b = nat ((int a - int b) mod 4294967296)"

definition u32_dec :: "nat \<Rightarrow> nat" where
  "u32_dec a = u32_sub a 1"

definition u32_of_int :: "int \<Rightarrow> nat" where
  "u32_of_int x = nat (x mod 4294967296)"

definition i32_of_u32 :: "nat \<Rightarrow> int" where
  "i32_of_u32 a = (if a mod 4294967296 < 2147483648 then int (a mod 4294967296)
                   else int (a mod 4294967296) - 4294967296)"

lemma i32_Inr_iff [result_simps]: "i32 x = Inr y \<longleftrightarrow> y = x \<and> -2147483648 \<le> x \<and> x \<le> 2147483647"
  by (auto simp: i32_def)

lemma u32_add_small [simp]: "a + b < 4294967296 \<Longrightarrow> u32_add a b = a + b"
  by (simp add: u32_add_def)

lemma u32_sub_small [simp]: "b \<le> a \<Longrightarrow> a < 4294967296 \<Longrightarrow> u32_sub a b = a - b"
  unfolding u32_sub_def by (subst mod_pos_pos_trivial) auto

lemma u32_dec_small [simp]: "0 < a \<Longrightarrow> a < 4294967296 \<Longrightarrow> u32_dec a = a - 1"
  by (simp add: u32_dec_def)

lemma u32_of_int_small [simp]: "0 \<le> x \<Longrightarrow> x \<le> 2147483647 \<Longrightarrow> u32_of_int x = nat x"
  by (simp add: u32_of_int_def)

lemma i32_of_u32_small [simp]: "a < 2147483648 \<Longrightarrow> i32_of_u32 a = int a"
  by (simp add: i32_of_u32_def)

end
