(* ===== verification/Grammar_Elements.thy ===== *)
theory Grammar_Elements
  imports Prelude
begin

text \<open>
  The data of the GBNF grammar engine (\<open>src/llama-grammar.h\<close>) and the matching of a single
  grammar element (\<open>src/llama-grammar.cpp\<close>): grammar elements, rules, pointers into rules,
  character classes, tokens and partial UTF-8 sequences.

  A \<open>const llama_grammar_element *\<close> is a pair of a rule index and an offset in that rule, and
  \<open>suffix_at\<close> is what can be read from there on; reading past the end of the rule is the
  failure \<open>Undefined\<close>. A rule is well formed (\<open>wf_rule\<close>) when it ends with its only
  \<open>END\<close> and when the modifiers \<open>CHAR_ALT\<close> and \<open>CHAR_RNG_UPPER\<close> follow an element they
  can modify; the parser establishes it and the engine relies on it.
\<close>

section \<open>Elements, rules and pointers\<close>

datatype llama_gretype =
    LLAMA_GRETYPE_END
  | LLAMA_GRETYPE_ALT
  | LLAMA_GRETYPE_RULE_REF
  | LLAMA_GRETYPE_CHAR
  | LLAMA_GRETYPE_CHAR_NOT
  | LLAMA_GRETYPE_CHAR_RNG_UPPER
  | LLAMA_GRETYPE_CHAR_ALT
  | LLAMA_GRETYPE_CHAR_ANY
  | LLAMA_GRETYPE_TOKEN
  | LLAMA_GRETYPE_TOKEN_NOT

record llama_grammar_element =
  gtype :: llama_gretype
  gvalue :: u32

type_synonym llama_grammar_rule = "llama_grammar_element list"
type_synonym llama_grammar_rules = "llama_grammar_rule list"
type_synonym gpos = "nat \<times> nat"

abbreviation El :: "llama_gretype \<Rightarrow> u32 \<Rightarrow> llama_grammar_element" where
  "El t v \<equiv> \<lparr>gtype = t, gvalue = v\<rparr>"

record llama_partial_utf8 =
  pvalue :: u32
  n_remain :: int

type_synonym llama_token = "32 word"

definition suffix_at :: "llama_grammar_rules \<Rightarrow> gpos \<Rightarrow> llama_grammar_element list" where
  "suffix_at R p = (if fst p < length R then drop (snd p) (R ! fst p) else [])"

definition padd :: "gpos \<Rightarrow> nat \<Rightarrow> gpos" where
  "padd p n = (fst p, snd p + n)"

definition psucc :: "gpos \<Rightarrow> gpos" where
  "psucc p = (fst p, Suc (snd p))"

fun deref :: "llama_grammar_element list \<Rightarrow> llama_grammar_element result" where
  "deref [] = Inl Undefined"
| "deref (e # es) = Inr e"

definition elem_at :: "llama_grammar_rules \<Rightarrow> gpos \<Rightarrow> llama_grammar_element result" where
  "elem_at R p = deref (suffix_at R p)"

section \<open>Matching one element\<close>

definition is_eos :: "llama_grammar_element \<Rightarrow> bool" where
  "is_eos e = (case gtype e of
     LLAMA_GRETYPE_END \<Rightarrow> True
   | LLAMA_GRETYPE_ALT \<Rightarrow> True
   | _ \<Rightarrow> False)"

definition llama_grammar_is_end_of_sequence :: "llama_grammar_rules \<Rightarrow> gpos \<Rightarrow> bool result" where
  "llama_grammar_is_end_of_sequence R p = rbind (elem_at R p) (\<lambda>e. Inr (is_eos e))"

definition is_char_element :: "llama_grammar_element \<Rightarrow> bool" where
  "is_char_element e = (case gtype e of
     LLAMA_GRETYPE_CHAR \<Rightarrow> True
   | LLAMA_GRETYPE_CHAR_NOT \<Rightarrow> True
   | LLAMA_GRETYPE_CHAR_ALT \<Rightarrow> True
   | LLAMA_GRETYPE_CHAR_RNG_UPPER \<Rightarrow> True
   | LLAMA_GRETYPE_CHAR_ANY \<Rightarrow> True
   | _ \<Rightarrow> False)"

definition is_positive_char :: "llama_grammar_element \<Rightarrow> bool" where
  "is_positive_char e = (gtype e = LLAMA_GRETYPE_CHAR \<or> gtype e = LLAMA_GRETYPE_CHAR_ANY)"

text \<open>
  The \<open>do ... while (pos->type == CHAR_ALT)\<close> loop of \<open>llama_grammar_match_char\<close>: the list is
  what \<open>pos\<close> points at, the counter how far \<open>pos\<close> has advanced.
\<close>

fun match_char_loop ::
  "llama_grammar_element list \<Rightarrow> u32 \<Rightarrow> bool \<Rightarrow> nat \<Rightarrow> (bool \<times> nat) result" where
  "match_char_loop (e # e1 # es) chr found n =
     (if gtype e1 = LLAMA_GRETYPE_CHAR_RNG_UPPER then
        let found' = (found \<or> (gvalue e \<le> chr \<and> chr \<le> gvalue e1)) in
        (case es of
           [] \<Rightarrow> Inl Undefined
         | e2 # _ \<Rightarrow> if gtype e2 = LLAMA_GRETYPE_CHAR_ALT
                    then match_char_loop es chr found' (n + 2) else Inr (found', n + 2))
      else
        let found' = (if gtype e = LLAMA_GRETYPE_CHAR_ANY then True else found \<or> gvalue e = chr) in
        if gtype e1 = LLAMA_GRETYPE_CHAR_ALT
        then match_char_loop (e1 # es) chr found' (n + 1) else Inr (found', n + 1))"
| "match_char_loop _ chr found n = Inl Undefined"

definition llama_grammar_match_char ::
  "llama_grammar_rules \<Rightarrow> gpos \<Rightarrow> u32 \<Rightarrow> (bool \<times> gpos) result" where
  "llama_grammar_match_char R pos chr =
     rbind (elem_at R pos) (\<lambda>e.
     rbind (rassert ''is_positive_char || pos->type == LLAMA_GRETYPE_CHAR_NOT''
              (is_positive_char e \<or> gtype e = LLAMA_GRETYPE_CHAR_NOT)) (\<lambda>_.
     rbind (match_char_loop (suffix_at R pos) chr False 0) (\<lambda>(found, n).
     Inr (found = is_positive_char e, padd pos n))))"

text \<open>
  The same loop of \<open>llama_grammar_match_partial_char\<close>, over the range of code points that the
  partial sequence can still become; \<open>None\<close> is falling out of the loop.
\<close>

fun match_partial_loop ::
  "llama_grammar_element list \<Rightarrow> u32 \<Rightarrow> u32 \<Rightarrow> bool \<Rightarrow> bool option result" where
  "match_partial_loop (e # e1 # es) low high positive =
     (if gtype e1 = LLAMA_GRETYPE_CHAR_RNG_UPPER then
        if gvalue e \<le> high \<and> low \<le> gvalue e1 then Inr (Some positive)
        else (case es of
           [] \<Rightarrow> Inl Undefined
         | e2 # _ \<Rightarrow> if gtype e2 = LLAMA_GRETYPE_CHAR_ALT
                    then match_partial_loop es low high positive else Inr None)
      else if gtype e = LLAMA_GRETYPE_CHAR_ANY then Inr (Some True)
      else if low \<le> gvalue e \<and> gvalue e \<le> high then Inr (Some positive)
      else if gtype e1 = LLAMA_GRETYPE_CHAR_ALT
        then match_partial_loop (e1 # es) low high positive else Inr None)"
| "match_partial_loop _ low high positive = Inl Undefined"

definition partial_low :: "llama_partial_utf8 \<Rightarrow> u32" where
  "partial_low pu =
     (let low = push_bit (nat (n_remain pu) * 6) (pvalue pu) in
      if low = 0 then
        if n_remain pu = 2 then push_bit 11 1
        else if n_remain pu = 3 then push_bit 16 1
        else low
      else low)"

definition partial_high :: "llama_partial_utf8 \<Rightarrow> u32" where
  "partial_high pu =
     or (push_bit (nat (n_remain pu) * 6) (pvalue pu)) (push_bit (nat (n_remain pu) * 6) 1 - 1)"

definition llama_grammar_match_partial_char ::
  "llama_grammar_rules \<Rightarrow> gpos \<Rightarrow> llama_partial_utf8 \<Rightarrow> bool result" where
  "llama_grammar_match_partial_char R pos pu =
     rbind (elem_at R pos) (\<lambda>e.
     rbind (rassert ''is_positive_char || pos->type == LLAMA_GRETYPE_CHAR_NOT''
              (is_positive_char e \<or> gtype e = LLAMA_GRETYPE_CHAR_NOT)) (\<lambda>_.
     if n_remain pu < 0 \<or> (n_remain pu = 1 \<and> pvalue pu < 2) then Inr False
     else rbind (match_partial_loop (suffix_at R pos) (partial_low pu) (partial_high pu)
                   (is_positive_char e)) (\<lambda>r.
       case r of Some b \<Rightarrow> Inr b | None \<Rightarrow> Inr (\<not> is_positive_char e))))"

definition llama_grammar_match_token ::
  "llama_grammar_rules \<Rightarrow> gpos \<Rightarrow> llama_token \<Rightarrow> bool result" where
  "llama_grammar_match_token R pos token =
     rbind (elem_at R pos) (\<lambda>e.
     rbind (rassert ''pos->type == LLAMA_GRETYPE_TOKEN || pos->type == LLAMA_GRETYPE_TOKEN_NOT''
              (gtype e = LLAMA_GRETYPE_TOKEN \<or> gtype e = LLAMA_GRETYPE_TOKEN_NOT)) (\<lambda>_.
     if gtype e = LLAMA_GRETYPE_TOKEN then Inr (gvalue e = token)
     else if gtype e = LLAMA_GRETYPE_TOKEN_NOT then Inr (gvalue e \<noteq> token)
     else Inr False))"

section \<open>Well-formed rules\<close>

definition modifies_ok :: "llama_gretype \<Rightarrow> llama_gretype \<Rightarrow> bool" where
  "modifies_ok prev t =
     ((t = LLAMA_GRETYPE_CHAR_ALT \<longrightarrow>
         prev \<in> {LLAMA_GRETYPE_CHAR, LLAMA_GRETYPE_CHAR_NOT, LLAMA_GRETYPE_CHAR_ALT,
                 LLAMA_GRETYPE_CHAR_RNG_UPPER}) \<and>
      (t = LLAMA_GRETYPE_CHAR_RNG_UPPER \<longrightarrow>
         prev \<in> {LLAMA_GRETYPE_CHAR, LLAMA_GRETYPE_CHAR_NOT, LLAMA_GRETYPE_CHAR_ALT}))"

fun wf_seq :: "llama_gretype \<Rightarrow> llama_grammar_element list \<Rightarrow> bool" where
  "wf_seq prev [] = False"
| "wf_seq prev (e # es) =
     (if es = [] then gtype e = LLAMA_GRETYPE_END
      else gtype e \<noteq> LLAMA_GRETYPE_END \<and> modifies_ok prev (gtype e) \<and> wf_seq (gtype e) es)"

definition wf_rule :: "llama_grammar_rule \<Rightarrow> bool" where
  "wf_rule r = wf_seq LLAMA_GRETYPE_ALT r"

definition refs_below :: "nat \<Rightarrow> llama_grammar_element list \<Rightarrow> bool" where
  "refs_below n es =
     (\<forall>e \<in> set es. gtype e = LLAMA_GRETYPE_RULE_REF \<longrightarrow> unat (gvalue e) < n)"

definition wf_rules :: "llama_grammar_rules \<Rightarrow> bool" where
  "wf_rules R = (\<forall>r \<in> set R. wf_rule r \<and> refs_below (length R) r)"

text \<open>A sequence that can be read element by element from its first element: it does not begin in
  the middle of a character class.\<close>

definition is_modifier :: "llama_gretype \<Rightarrow> bool" where
  "is_modifier t = (t = LLAMA_GRETYPE_CHAR_ALT \<or> t = LLAMA_GRETYPE_CHAR_RNG_UPPER)"

definition wf_suffix :: "llama_grammar_element list \<Rightarrow> bool" where
  "wf_suffix es = (\<exists>prev. wf_seq prev es \<and> \<not> is_modifier (gtype (hd es)))"

section \<open>Character classes, as sets of ranges\<close>

text \<open>
  The reference meaning of a class: the inclusive ranges it lists (a single character is a range
  of one, \<open>.\<close> is the whole range) and what follows it in the rule.
\<close>

fun class_ranges :: "llama_grammar_element list \<Rightarrow> (u32 \<times> u32) list" where
  "class_ranges (e # e1 # es) =
     (if gtype e1 = LLAMA_GRETYPE_CHAR_RNG_UPPER then
        (gvalue e, gvalue e1) #
        (if es \<noteq> [] \<and> gtype (hd es) = LLAMA_GRETYPE_CHAR_ALT then class_ranges es else [])
      else
        (if gtype e = LLAMA_GRETYPE_CHAR_ANY then (0, - 1) else (gvalue e, gvalue e)) #
        (if gtype e1 = LLAMA_GRETYPE_CHAR_ALT then class_ranges (e1 # es) else []))"
| "class_ranges _ = []"

fun class_length :: "llama_grammar_element list \<Rightarrow> nat" where
  "class_length (e # e1 # es) =
     (if gtype e1 = LLAMA_GRETYPE_CHAR_RNG_UPPER then
        2 + (if es \<noteq> [] \<and> gtype (hd es) = LLAMA_GRETYPE_CHAR_ALT then class_length es else 0)
      else 1 + (if gtype e1 = LLAMA_GRETYPE_CHAR_ALT then class_length (e1 # es) else 0))"
| "class_length _ = 0"

definition in_ranges :: "u32 \<Rightarrow> (u32 \<times> u32) list \<Rightarrow> bool" where
  "in_ranges c rs = (\<exists>(lo, hi) \<in> set rs. lo \<le> c \<and> c \<le> hi)"

definition class_accepts :: "llama_grammar_element list \<Rightarrow> u32 \<Rightarrow> bool" where
  "class_accepts es c = (in_ranges c (class_ranges es) = is_positive_char (hd es))"

definition is_class_start :: "llama_grammar_element \<Rightarrow> bool" where
  "is_class_start e =
     (gtype e \<in> {LLAMA_GRETYPE_CHAR, LLAMA_GRETYPE_CHAR_NOT, LLAMA_GRETYPE_CHAR_ANY})"

definition is_token_element :: "llama_grammar_element \<Rightarrow> bool" where
  "is_token_element e = (gtype e \<in> {LLAMA_GRETYPE_TOKEN, LLAMA_GRETYPE_TOKEN_NOT})"

definition token_accepts :: "llama_grammar_element \<Rightarrow> llama_token \<Rightarrow> bool" where
  "token_accepts e t = (if gtype e = LLAMA_GRETYPE_TOKEN then gvalue e = t else gvalue e \<noteq> t)"

section \<open>Lemmas\<close>

lemma is_eos_iff: "is_eos e \<longleftrightarrow> gtype e = LLAMA_GRETYPE_END \<or> gtype e = LLAMA_GRETYPE_ALT"
  by (cases "gtype e") (auto simp: is_eos_def)

lemmas element_defs =
  is_eos_iff is_class_start_def is_token_element_def is_positive_char_def is_modifier_def

lemma suffix_at_padd [simp]: "suffix_at R (padd p n) = drop n (suffix_at R p)"
  by (simp add: suffix_at_def padd_def add.commute)

lemma suffix_at_psucc [simp]: "suffix_at R (psucc p) = tl (suffix_at R p)"
  by (simp add: suffix_at_def psucc_def tl_drop drop_Suc)

lemma padd_0 [simp]: "padd p 0 = p"
  by (simp add: padd_def)

lemma padd_padd [simp]: "padd (padd p m) n = padd p (m + n)"
  by (simp add: padd_def)

lemma elem_at_Inr_iff: "elem_at R p = Inr e \<longleftrightarrow> (\<exists>es. suffix_at R p = e # es)"
  by (cases "suffix_at R p") (auto simp: elem_at_def)

lemma is_end_of_sequence_Inr_iff:
  "llama_grammar_is_end_of_sequence R p = Inr b \<longleftrightarrow> (\<exists>e es. suffix_at R p = e # es \<and> b = is_eos e)"
  by (auto simp: llama_grammar_is_end_of_sequence_def result_simps elem_at_Inr_iff)

lemma wf_seq_nonempty: "wf_seq prev es \<Longrightarrow> es \<noteq> []"
  by auto

lemma wf_seq_drop: "wf_seq prev es \<Longrightarrow> i < length es \<Longrightarrow> \<exists>prev'. wf_seq prev' (drop i es)"
proof (induction i arbitrary: prev es)
  case (Suc i)
  then show ?case by (cases es) (auto split: if_splits)
qed auto

lemma wf_seq_tl: "wf_seq prev (e # es) \<Longrightarrow> gtype e \<noteq> LLAMA_GRETYPE_END \<Longrightarrow> wf_seq (gtype e) es"
  by (auto split: if_splits)

lemma in_ranges_simps [simp]:
  "in_ranges c [] = False"
  "in_ranges c ((lo, hi) # rs) = ((lo \<le> c \<and> c \<le> hi) \<or> in_ranges c rs)"
  by (auto simp: in_ranges_def)

text \<open>In a well-formed rule the loop of \<open>llama_grammar_match_char\<close> never leaves the rule, and
  finds exactly the ranges of the class.\<close>

lemma match_char_loop_spec:
  assumes "wf_seq prev es" and "gtype (hd es) \<noteq> LLAMA_GRETYPE_END"
  shows "match_char_loop es c found n = Inr (found \<or> in_ranges c (class_ranges es), n + class_length es)"
  using assms
proof (induction es c found n arbitrary: prev rule: match_char_loop.induct)
  case (1 e e1 es chr found n)
  show ?case
  proof (cases "gtype e1 = LLAMA_GRETYPE_CHAR_RNG_UPPER")
    case True
    with 1 show ?thesis by (cases es) (auto split: if_splits)
  next
    case False
    with 1 show ?thesis by (auto split: if_splits)
  qed
qed auto

lemma wf_suffixI: "wf_seq prev (e # es) \<Longrightarrow> \<not> is_modifier (gtype e) \<Longrightarrow> wf_suffix (e # es)"
  by (auto simp: wf_suffix_def)

text \<open>What follows a class is again a sequence that can be read from its first element.\<close>

lemma class_length_wf:
  assumes "wf_seq prev es" and "gtype (hd es) \<noteq> LLAMA_GRETYPE_END"
  shows "class_length es < length es \<and> 0 < class_length es \<and> wf_suffix (drop (class_length es) es)"
  using assms
proof (induction es arbitrary: prev rule: class_length.induct)
  case (1 e e1 es)
  then have wf1: "wf_seq (gtype e) (e1 # es)" by (auto split: if_splits)
  show ?case
  proof (cases "gtype e1 = LLAMA_GRETYPE_CHAR_RNG_UPPER")
    case rng: True
    with wf1 obtain e2 es2 where es: "es = e2 # es2" and wf2: "wf_seq (gtype e1) (e2 # es2)"
      by (cases es) auto
    have not_rng: "gtype e2 \<noteq> LLAMA_GRETYPE_CHAR_RNG_UPPER"
      using wf2 rng by (auto simp: modifies_ok_def split: if_splits)
    show ?thesis
    proof (cases "gtype e2 = LLAMA_GRETYPE_CHAR_ALT")
      case True
      with 1(1) [OF rng _ wf2 [folded es]] rng es show ?thesis by auto
    next
      case False
      with rng es not_rng wf_suffixI [OF wf2] show ?thesis by (simp add: is_modifier_def)
    qed
  next
    case rng: False
    show ?thesis
    proof (cases "gtype e1 = LLAMA_GRETYPE_CHAR_ALT")
      case True
      with 1(2) [OF rng _ wf1] rng show ?thesis by auto
    next
      case False
      with rng wf_suffixI [OF wf1] show ?thesis by (simp add: is_modifier_def)
    qed
  qed
qed auto

lemma wf_suffixE:
  assumes "wf_suffix es"
  obtains prev e es' where "es = e # es'" and "wf_seq prev (e # es')" and "\<not> is_modifier (gtype e)"
  using assms by (cases es) (auto simp: wf_suffix_def)

lemma match_char_spec:
  assumes "wf_suffix (suffix_at R p)" and "suffix_at R p = e # es" and "is_class_start e"
  shows "llama_grammar_match_char R p c =
           Inr (class_accepts (e # es) c, padd p (class_length (e # es)))"
proof -
  from assms obtain prev where wf: "wf_seq prev (e # es)"
    by (auto elim: wf_suffixE)
  have ne: "gtype (hd (e # es)) \<noteq> LLAMA_GRETYPE_END"
    using assms(3) by (auto simp: is_class_start_def)
  show ?thesis
    using assms match_char_loop_spec [OF wf ne, of c False 0]
    by (auto simp: llama_grammar_match_char_def elem_at_def rassert_def element_defs class_accepts_def)
qed

lemma match_char_wf_after:
  assumes "wf_suffix (e # es)" and "is_class_start e"
  shows "wf_suffix (drop (class_length (e # es)) (e # es))"
  using assms class_length_wf [of _ "e # es"] by (auto simp: is_class_start_def elim!: wf_suffixE)

lemma match_token_spec:
  assumes "suffix_at R p = e # es" and "is_token_element e"
  shows "llama_grammar_match_token R p t = Inr (token_accepts e t)"
  using assms
  by (auto simp: llama_grammar_match_token_def elem_at_def rassert_def is_token_element_def
      token_accepts_def)

lemma wf_suffix_tl:
  assumes "wf_suffix (e # es)" and "gtype e \<in> {LLAMA_GRETYPE_RULE_REF, LLAMA_GRETYPE_TOKEN,
    LLAMA_GRETYPE_TOKEN_NOT, LLAMA_GRETYPE_ALT}"
  shows "wf_suffix es"
proof -
  from assms obtain prev where "wf_seq prev (e # es)" by (auto elim: wf_suffixE)
  with assms(2) have wf: "wf_seq (gtype e) es" by (auto split: if_splits)
  then show ?thesis
    using assms(2)
    by (cases es) (auto simp: wf_suffix_def is_modifier_def modifies_ok_def split: if_splits)
qed

lemma wf_rule_suffix: "wf_rule r \<Longrightarrow> wf_suffix r"
  by (cases r) (auto simp: wf_rule_def wf_suffix_def is_modifier_def modifies_ok_def split: if_splits)

end
