(* ===== verification/Grammar_Stacks.thy ===== *)
theory Grammar_Stacks
  imports Grammar_Elements
begin

text \<open>
  The pushdown engine of \<open>src/llama-grammar.cpp\<close>: \<open>llama_grammar_advance_stack\<close>,
  \<open>llama_grammar_accept_chr\<close> and \<open>llama_grammar_accept\<close>, and the language they are meant to
  recognise. A \<open>llama_grammar_stack\<close> is a list of pointers with the top of the stack FIRST (the
  C++ vector has it last).

  The reference semantics is that of a context-free grammar: \<open>gen R es w\<close> says that the sequence
  of elements \<open>es\<close>, up to the end of its alternate, derives the word \<open>w\<close>, and \<open>stack_lang\<close>
  concatenates the languages of the positions of a stack. The main results are that advancing a
  stack keeps its language (\<open>advance_stack_spec\<close>) and that accepting a character computes the left
  derivative of the language.
\<close>

section \<open>The engine\<close>

type_synonym llama_grammar_stack = "gpos list"
type_synonym llama_grammar_stacks = "llama_grammar_stack list"

text \<open>The offsets at which the second and further alternates of a rule start.\<close>

fun alt_offsets :: "llama_grammar_element list \<Rightarrow> nat \<Rightarrow> nat list result" where
  "alt_offsets [] i = Inl Undefined"
| "alt_offsets (e # es) i =
     (if gtype e = LLAMA_GRETYPE_END then Inr []
      else if gtype e = LLAMA_GRETYPE_ALT
        then rbind (alt_offsets es (Suc i)) (\<lambda>offs. Inr (Suc i # offs))
      else alt_offsets es (Suc i))"

definition rule_alternates :: "llama_grammar_rules \<Rightarrow> nat \<Rightarrow> gpos list result" where
  "rule_alternates R k =
     (if k < length R
      then rbind (alt_offsets (R ! k) 0) (\<lambda>offs. Inr (map (\<lambda>i. (k, i)) (0 # offs)))
      else Inl Undefined)"

definition push_pos ::
  "llama_grammar_rules \<Rightarrow> gpos \<Rightarrow> llama_grammar_stack \<Rightarrow> llama_grammar_stack result" where
  "push_pos R p s =
     rbind (llama_grammar_is_end_of_sequence R p) (\<lambda>eos. Inr (if eos then s else p # s))"

definition next_stack ::
  "llama_grammar_rules \<Rightarrow> gpos \<Rightarrow> llama_grammar_stack \<Rightarrow> gpos \<Rightarrow> llama_grammar_stack result" where
  "next_stack R pos rest subpos = rbind (push_pos R (psucc pos) rest) (push_pos R subpos)"

definition expand_ref ::
  "llama_grammar_rules \<Rightarrow> gpos \<Rightarrow> llama_grammar_stack \<Rightarrow> nat \<Rightarrow> llama_grammar_stacks result" where
  "expand_ref R pos rest k = rbind (rule_alternates R k) (rmap (next_stack R pos rest))"

text \<open>
  The worklist loop. \<open>todo\<close> is the C++ vector with its back first, so the alternates of a rule,
  pushed in order, are taken in reverse order.
\<close>

fun advance_loop ::
  "nat \<Rightarrow> llama_grammar_rules \<Rightarrow> llama_grammar_stacks \<Rightarrow> llama_grammar_stacks \<Rightarrow>
     llama_grammar_stacks \<Rightarrow> llama_grammar_stacks result" where
  "advance_loop fuel R [] seen new_stacks = Inr new_stacks"
| "advance_loop 0 R (cur # todo) seen new_stacks = Inl OutOfFuel"
| "advance_loop (Suc fuel) R (cur # todo) seen new_stacks =
     (if cur \<in> set seen then advance_loop fuel R todo seen new_stacks
      else case cur of
        [] \<Rightarrow> advance_loop fuel R todo (cur # seen) (push_unique cur new_stacks)
      | pos # rest \<Rightarrow>
          rbind (elem_at R pos) (\<lambda>e.
          if gtype e = LLAMA_GRETYPE_RULE_REF then
            rbind (expand_ref R pos rest (unat (gvalue e))) (\<lambda>children.
            advance_loop fuel R (rev children @ todo) (cur # seen) new_stacks)
          else if is_class_start e \<or> is_token_element e then
            advance_loop fuel R todo (cur # seen) (push_unique cur new_stacks)
          else Inl (Abort ''fatal error'')))"

definition llama_grammar_advance_stack ::
  "nat \<Rightarrow> llama_grammar_rules \<Rightarrow> llama_grammar_stack \<Rightarrow> llama_grammar_stacks \<Rightarrow>
     llama_grammar_stacks result" where
  "llama_grammar_advance_stack fuel R stack new_stacks = advance_loop fuel R [stack] [] new_stacks"

definition llama_grammar_accept_chr ::
  "nat \<Rightarrow> llama_grammar_rules \<Rightarrow> llama_grammar_stack \<Rightarrow> u32 \<Rightarrow> llama_grammar_stacks \<Rightarrow>
     llama_grammar_stacks result" where
  "llama_grammar_accept_chr fuel R stack chr new_stacks =
     (case stack of
        [] \<Rightarrow> Inr new_stacks
      | pos # rest \<Rightarrow>
          rbind (elem_at R pos) (\<lambda>e.
          if is_token_element e then Inr new_stacks
          else rbind (llama_grammar_match_char R pos chr) (\<lambda>(matched, after).
            if matched
            then rbind (push_pos R after rest) (\<lambda>new_stack.
                 llama_grammar_advance_stack fuel R new_stack new_stacks)
            else Inr new_stacks)))"

definition accept_stacks ::
  "nat \<Rightarrow> llama_grammar_rules \<Rightarrow> llama_grammar_stacks \<Rightarrow> u32 \<Rightarrow> llama_grammar_stacks result" where
  "accept_stacks fuel R stacks chr =
     rfold (\<lambda>stack. llama_grammar_accept_chr fuel R stack chr) stacks []"

text \<open>The initial stacks (\<open>llama_grammar_init_impl\<close>): the alternates of the start rule, advanced.\<close>

definition init_stacks ::
  "nat \<Rightarrow> llama_grammar_rules \<Rightarrow> nat \<Rightarrow> llama_grammar_stacks result" where
  "init_stacks fuel R start =
     rbind (rule_alternates R start) (\<lambda>qs.
     rfold (\<lambda>q acc. rbind (push_pos R q []) (\<lambda>s. llama_grammar_advance_stack fuel R s acc)) qs [])"

text \<open>Accepting the code points of a string one after the other.\<close>

definition accept_string ::
  "nat \<Rightarrow> llama_grammar_rules \<Rightarrow> llama_grammar_stacks \<Rightarrow> u32 list \<Rightarrow> llama_grammar_stacks result" where
  "accept_string fuel R stacks cs = rfold (\<lambda>c ss. accept_stacks fuel R ss c) cs stacks"

section \<open>The language of a grammar\<close>

datatype gsym = GChar u32 | GTok llama_token

fun alts_after :: "llama_grammar_element list \<Rightarrow> llama_grammar_element list list" where
  "alts_after [] = []"
| "alts_after (e # es) =
     (if gtype e = LLAMA_GRETYPE_END then []
      else if gtype e = LLAMA_GRETYPE_ALT then es # alts_after es
      else alts_after es)"

definition alternates :: "llama_grammar_rule \<Rightarrow> llama_grammar_element list list" where
  "alternates r = r # alts_after r"

inductive gen :: "llama_grammar_rules \<Rightarrow> llama_grammar_element list \<Rightarrow> gsym list \<Rightarrow> bool"
  for R where
  gen_end: "is_eos e \<Longrightarrow> gen R (e # es) []"
| gen_char: "is_class_start e \<Longrightarrow> class_accepts (e # es) c \<Longrightarrow>
    gen R (drop (class_length (e # es)) (e # es)) w \<Longrightarrow> gen R (e # es) (GChar c # w)"
| gen_tok: "is_token_element e \<Longrightarrow> token_accepts e t \<Longrightarrow> gen R es w \<Longrightarrow>
    gen R (e # es) (GTok t # w)"
| gen_ref: "gtype e = LLAMA_GRETYPE_RULE_REF \<Longrightarrow> unat (gvalue e) < length R \<Longrightarrow>
    q \<in> set (alternates (R ! unat (gvalue e))) \<Longrightarrow> gen R q u \<Longrightarrow> gen R es v \<Longrightarrow>
    gen R (e # es) (u @ v)"

inductive_cases gen_ConsE: "gen R (e # es) w"

fun stack_lang :: "llama_grammar_rules \<Rightarrow> llama_grammar_stack \<Rightarrow> gsym list \<Rightarrow> bool" where
  "stack_lang R [] w = (w = [])"
| "stack_lang R (p # s) w = (\<exists>u v. w = u @ v \<and> gen R (suffix_at R p) u \<and> stack_lang R s v)"

definition stacks_lang :: "llama_grammar_rules \<Rightarrow> llama_grammar_stacks \<Rightarrow> gsym list set" where
  "stacks_lang R ss = {w. \<exists>s \<in> set ss. stack_lang R s w}"

definition rule_lang :: "llama_grammar_rules \<Rightarrow> nat \<Rightarrow> gsym list set" where
  "rule_lang R k = {w. \<exists>q \<in> set (alternates (R ! k)). gen R q w}"

section \<open>Well-formed and final stacks\<close>

definition wf_pos :: "llama_grammar_rules \<Rightarrow> gpos \<Rightarrow> bool" where
  "wf_pos R p = wf_suffix (suffix_at R p)"

definition wf_top :: "llama_grammar_rules \<Rightarrow> gpos \<Rightarrow> bool" where
  "wf_top R p = (wf_pos R p \<and> \<not> is_eos (hd (suffix_at R p)))"

definition wf_stack :: "llama_grammar_rules \<Rightarrow> llama_grammar_stack \<Rightarrow> bool" where
  "wf_stack R s = (\<forall>p \<in> set s. wf_top R p)"

fun final_stack :: "llama_grammar_rules \<Rightarrow> llama_grammar_stack \<Rightarrow> bool" where
  "final_stack R [] = True"
| "final_stack R (p # s) = (gtype (hd (suffix_at R p)) \<noteq> LLAMA_GRETYPE_RULE_REF)"

definition wf_stacks :: "llama_grammar_rules \<Rightarrow> llama_grammar_stacks \<Rightarrow> bool" where
  "wf_stacks R ss = (\<forall>s \<in> set ss. wf_stack R s \<and> final_stack R s)"

text \<open>One expansion of the rule reference on top of a stack.\<close>

definition push_suffix :: "llama_grammar_rules \<Rightarrow> gpos \<Rightarrow> llama_grammar_stack \<Rightarrow> llama_grammar_stack" where
  "push_suffix R p s = (if is_eos (hd (suffix_at R p)) then s else p # s)"

inductive child :: "llama_grammar_rules \<Rightarrow> llama_grammar_stack \<Rightarrow> llama_grammar_stack \<Rightarrow> bool"
  for R where
  childI: "suffix_at R p = e # es \<Longrightarrow> gtype e = LLAMA_GRETYPE_RULE_REF \<Longrightarrow>
     rule_alternates R (unat (gvalue e)) = Inr qs \<Longrightarrow> q \<in> set qs \<Longrightarrow>
     child R (p # s) (push_suffix R q (push_suffix R (psucc p) s))"

inductive_cases child_ConsE: "child R (p # s) t"
inductive_simps child_Nil_simp [simp]: "child R [] t"

section \<open>Expansion of well-formed stacks\<close>

lemma alt_offsets_spec:
  assumes "wf_seq prev es"
  shows "\<exists>offs. alt_offsets es i = Inr offs \<and> map (\<lambda>j. drop (j - i) es) offs = alts_after es \<and>
    (\<forall>j \<in> set offs. i < j \<and> wf_suffix (drop (j - i) es))"
  using assms
proof (induction es i arbitrary: prev rule: alt_offsets.induct)
  case (2 e es i)
  show ?case
  proof (cases "gtype e = LLAMA_GRETYPE_END")
    case True
    then show ?thesis by simp
  next
    case ne: False
    then have wf: "wf_seq (gtype e) es" using "2.prems" by (auto split: if_splits)
    obtain offs where offs: "alt_offsets es (Suc i) = Inr offs"
      "map (\<lambda>j. drop (j - Suc i) es) offs = alts_after es"
      "\<forall>j \<in> set offs. Suc i < j \<and> wf_suffix (drop (j - Suc i) es)"
      using "2.IH" [OF ne _ wf] "2.IH"(2) [OF ne _ wf] by (cases "gtype e = LLAMA_GRETYPE_ALT") auto
    have shift: "drop (j - i) (e # es) = drop (j - Suc i) es" if "j \<in> set offs" for j
      using offs(3) that by (auto simp: drop_Cons' Suc_diff_Suc)
    have "map (\<lambda>j. drop (j - i) (e # es)) offs = alts_after es"
      using offs(2) shift by (metis (no_types, lifting) map_cong)
    moreover have "wf_suffix es" if "gtype e = LLAMA_GRETYPE_ALT"
      using wf that by (cases es) (auto simp: wf_suffix_def is_modifier_def modifies_ok_def split: if_splits)
    ultimately show ?thesis
      using offs ne shift by auto
  qed
qed simp

lemma wf_rules_nth: "wf_rules R \<Longrightarrow> k < length R \<Longrightarrow> wf_rule (R ! k)"
  by (auto simp: wf_rules_def)

lemma rule_alternates_spec:
  assumes "wf_rules R" and "k < length R"
  shows "\<exists>qs. rule_alternates R k = Inr qs \<and> map (suffix_at R) qs = alternates (R ! k) \<and>
    qs \<noteq> [] \<and> (\<forall>q \<in> set qs. wf_pos R q)"
proof -
  from wf_rules_nth [OF assms] have wf: "wf_rule (R ! k)" .
  then obtain offs where offs: "alt_offsets (R ! k) 0 = Inr offs"
    "map (\<lambda>j. drop j (R ! k)) offs = alts_after (R ! k)"
    "\<forall>j \<in> set offs. wf_suffix (drop j (R ! k))"
    using alt_offsets_spec [of LLAMA_GRETYPE_ALT "R ! k" 0] by (auto simp: wf_rule_def)
  have "suffix_at R (k, j) = drop j (R ! k)" for j
    using assms(2) by (simp add: suffix_at_def)
  with offs wf_rule_suffix [OF wf] assms(2) show ?thesis
    by (auto simp: rule_alternates_def alternates_def wf_pos_def o_def)
qed

lemma push_pos_spec: "wf_pos R p \<Longrightarrow> push_pos R p s = Inr (push_suffix R p s)"
  by (auto simp: push_pos_def push_suffix_def wf_pos_def llama_grammar_is_end_of_sequence_def
      elem_at_def elim!: wf_suffixE)

lemma wf_topE:
  assumes "wf_top R p"
  obtains e es where "suffix_at R p = e # es" and "wf_suffix (e # es)" and "\<not> is_eos e"
    and "gtype e = LLAMA_GRETYPE_RULE_REF \<or> is_class_start e \<or> is_token_element e"
proof -
  from assms obtain e es where es: "suffix_at R p = e # es" and wf: "wf_suffix (e # es)"
    and ne: "\<not> is_eos e"
    by (cases "suffix_at R p") (auto simp: wf_top_def wf_pos_def elim: wf_suffixE)
  from wf have "\<not> is_modifier (gtype e)" by (auto elim: wf_suffixE)
  with ne have "gtype e = LLAMA_GRETYPE_RULE_REF \<or> is_class_start e \<or> is_token_element e"
    by (cases "gtype e") (auto simp: element_defs)
  with that es wf ne show ?thesis by blast
qed

lemma wf_pos_next:
  assumes "suffix_at R p = e # es" and "wf_suffix (e # es)"
    and "gtype e = LLAMA_GRETYPE_RULE_REF \<or> is_token_element e"
  shows "wf_pos R (psucc p)"
  using assms wf_suffix_tl [of e es] by (auto simp: wf_pos_def is_token_element_def)

lemma wf_stack_push: "wf_stack R s \<Longrightarrow> wf_pos R p \<Longrightarrow> wf_stack R (push_suffix R p s)"
  by (auto simp: wf_stack_def push_suffix_def wf_top_def)

lemma ref_in_range:
  assumes "wf_rules R" and "suffix_at R p = e # es" and "gtype e = LLAMA_GRETYPE_RULE_REF"
  shows "unat (gvalue e) < length R"
proof -
  have lt: "fst p < length R" and "e \<in> set (drop (snd p) (R ! fst p))"
    using assms(2) by (auto simp: suffix_at_def split: if_splits)
  then have "e \<in> set (R ! fst p)" by (blast dest: in_set_dropD)
  with lt show ?thesis using assms(1,3) by (auto simp: wf_rules_def refs_below_def)
qed

text \<open>Expanding the rule reference on top of a well-formed stack cannot fail, and produces exactly
  the children of the stack.\<close>

lemma expand_ref_spec:
  assumes wf: "wf_rules R" and ws: "wf_stack R (p # s)"
    and es: "suffix_at R p = e # es" and ref: "gtype e = LLAMA_GRETYPE_RULE_REF"
  shows "\<exists>cs. expand_ref R p s (unat (gvalue e)) = Inr cs \<and> cs \<noteq> [] \<and>
    (\<forall>t. t \<in> set cs \<longleftrightarrow> child R (p # s) t) \<and> (\<forall>t \<in> set cs. wf_stack R t)"
proof -
  have k: "unat (gvalue e) < length R" by (rule ref_in_range [OF wf es ref])
  obtain qs where qs: "rule_alternates R (unat (gvalue e)) = Inr qs" "qs \<noteq> []"
    "\<forall>q \<in> set qs. wf_pos R q"
    using rule_alternates_spec [OF wf k] by auto
  have wp: "wf_pos R (psucc p)"
    using ws es ref wf_pos_next [of R p e es] by (auto simp: wf_stack_def wf_top_def wf_pos_def)
  let ?c = "\<lambda>q. push_suffix R q (push_suffix R (psucc p) s)"
  have "rmap (next_stack R p s) qs' = Inr (map ?c qs')" if "\<forall>q \<in> set qs'. wf_pos R q" for qs'
    using that by (induction qs') (auto simp: next_stack_def push_pos_spec wp)
  then have ex: "expand_ref R p s (unat (gvalue e)) = Inr (map ?c qs)"
    using qs by (simp add: expand_ref_def)
  moreover have "t \<in> set (map ?c qs) \<longleftrightarrow> child R (p # s) t" for t
    using qs es ref by (auto intro: childI elim!: child_ConsE)
  moreover have "wf_stack R s" using ws by (simp add: wf_stack_def)
  ultimately show ?thesis
    using qs(2,3) wp by (auto intro!: wf_stack_push)
qed

lemma child_wf: "wf_rules R \<Longrightarrow> wf_stack R s \<Longrightarrow> child R s t \<Longrightarrow> wf_stack R t"
proof (elim child.cases)
  fix p e es qs q s'
  assume wf: "wf_rules R" "wf_stack R s" and st: "s = p # s'"
    "t = push_suffix R q (push_suffix R (psucc p) s')"
    "suffix_at R p = e # es" "gtype e = LLAMA_GRETYPE_RULE_REF"
    "rule_alternates R (unat (gvalue e)) = Inr qs" "q \<in> set qs"
  then have "child R (p # s') t" by (auto intro: childI)
  with wf st expand_ref_spec [of R p s' e es] show "wf_stack R t" by blast
qed

lemma child_not_final: "child R s t \<Longrightarrow> \<not> final_stack R s"
  by (auto elim!: child.cases)

section \<open>Expansion keeps the language\<close>

lemma gen_eos [simp]: "is_eos e \<Longrightarrow> gen R (e # es) w \<longleftrightarrow> w = []"
  by (auto intro: gen_end elim: gen_ConsE simp: element_defs)

lemma stack_lang_push:
  assumes "wf_pos R p"
  shows "stack_lang R (push_suffix R p s) w \<longleftrightarrow>
    (\<exists>u v. w = u @ v \<and> gen R (suffix_at R p) u \<and> stack_lang R s v)"
  using assms by (auto simp: push_suffix_def wf_pos_def elim!: wf_suffixE)

lemma gen_ref_iff:
  assumes "gtype e = LLAMA_GRETYPE_RULE_REF" and "unat (gvalue e) < length R"
  shows "gen R (e # es) w \<longleftrightarrow>
    (\<exists>q u v. q \<in> set (alternates (R ! unat (gvalue e))) \<and> w = u @ v \<and> gen R q u \<and> gen R es v)"
  using assms by (auto intro: gen_ref elim!: gen_ConsE simp: element_defs)

lemma child_lang:
  assumes wf: "wf_rules R" and ws: "wf_stack R (p # s)" and ref: "\<not> final_stack R (p # s)"
  shows "stack_lang R (p # s) w \<longleftrightarrow> (\<exists>t. child R (p # s) t \<and> stack_lang R t w)"
proof -
  from ws ref obtain e es where es: "suffix_at R p = e # es" and e: "gtype e = LLAMA_GRETYPE_RULE_REF"
    and wse: "wf_suffix (e # es)"
    by (auto simp: wf_stack_def elim: wf_topE)
  have k: "unat (gvalue e) < length R" by (rule ref_in_range [OF wf es e])
  obtain qs where qs: "rule_alternates R (unat (gvalue e)) = Inr qs"
    "map (suffix_at R) qs = alternates (R ! unat (gvalue e))" "\<forall>q \<in> set qs. wf_pos R q"
    using rule_alternates_spec [OF wf k] by auto
  have wp: "wf_pos R (psucc p)" using wf_pos_next [OF es wse] e by simp
  have alts: "set (alternates (R ! unat (gvalue e))) = suffix_at R ` set qs"
    using qs(2) by (metis list.set_map)
  have ch: "child R (p # s) t \<longleftrightarrow> (\<exists>q \<in> set qs. t = push_suffix R q (push_suffix R (psucc p) s))" for t
    using es e qs(1) by (auto intro: childI elim!: child_ConsE)
  have push: "stack_lang R (push_suffix R q (push_suffix R (psucc p) s)) w \<longleftrightarrow>
    (\<exists>u1 u2 v. w = u1 @ u2 @ v \<and> gen R (suffix_at R q) u1 \<and> gen R es u2 \<and> stack_lang R s v)"
    if "q \<in> set qs" for q
    using qs(3) that by (auto simp: stack_lang_push wp es)
  have "stack_lang R (p # s) w \<longleftrightarrow> (\<exists>x v. w = x @ v \<and> gen R (e # es) x \<and> stack_lang R s v)"
    by (simp add: es)
  also have "\<dots> \<longleftrightarrow> (\<exists>q \<in> set qs. \<exists>u1 u2 v. w = u1 @ u2 @ v \<and> gen R (suffix_at R q) u1 \<and>
      gen R es u2 \<and> stack_lang R s v)"
    (is "?L \<longleftrightarrow> ?R")
  proof
    assume ?L
    then show ?R by (fastforce simp: gen_ref_iff [OF e k] alts)
  next
    assume ?R
    then obtain q u1 u2 v where "q \<in> set qs" "w = (u1 @ u2) @ v" "gen R (suffix_at R q) u1"
      "gen R es u2" "stack_lang R s v" by auto
    moreover from this have "gen R (e # es) (u1 @ u2)"
      unfolding gen_ref_iff [OF e k] alts by blast
    ultimately show ?L by blast
  qed
  also have "\<dots> \<longleftrightarrow> (\<exists>q \<in> set qs. stack_lang R (push_suffix R q (push_suffix R (psucc p) s)) w)"
    by (rule bex_cong) (simp_all only: push)
  finally show ?thesis unfolding ch by blast
qed

text \<open>Every word of a stack is a word of a final stack that expansion reaches, even when the grammar
  is left recursive: the derivation of the word says which alternates to take.\<close>

definition reaches_word :: "llama_grammar_rules \<Rightarrow> llama_grammar_stack \<Rightarrow> gsym list \<Rightarrow> bool" where
  "reaches_word R s w = (\<exists>t. (child R)\<^sup>*\<^sup>* s t \<and> final_stack R t \<and> stack_lang R t w)"

lemma reaches_word_child: "child R s t \<Longrightarrow> reaches_word R t w \<Longrightarrow> reaches_word R s w"
  by (auto simp: reaches_word_def intro: converse_rtranclp_into_rtranclp)

lemma reaches_word_final: "final_stack R s \<Longrightarrow> stack_lang R s w \<Longrightarrow> reaches_word R s w"
  by (auto simp: reaches_word_def)

lemma gen_reaches_word:
  assumes "gen R es u" and "wf_rules R" and "wf_pos R p" and "suffix_at R p = es"
    and "stack_lang R s v" and "reaches_word R s v"
  shows "reaches_word R (push_suffix R p s) (u @ v)"
  using assms
proof (induction arbitrary: p s v)
  case (gen_end e es)
  then show ?case by (simp add: push_suffix_def)
next
  case (gen_char e es c w)
  then have "stack_lang R (p # s) ((GChar c # w) @ v)"
    using gen.gen_char [of e] by (metis stack_lang.simps(2))
  moreover have "push_suffix R p s = p # s" and "final_stack R (p # s)"
    using gen_char.hyps(1) gen_char.prems(3) by (auto simp: push_suffix_def element_defs)
  ultimately show ?case by (simp only: reaches_word_final)
next
  case (gen_tok e t es w)
  then have "stack_lang R (p # s) ((GTok t # w) @ v)"
    using gen.gen_tok [of e] by (metis stack_lang.simps(2))
  moreover have "push_suffix R p s = p # s" and "final_stack R (p # s)"
    using gen_tok.hyps(1) gen_tok.prems(3) by (auto simp: push_suffix_def element_defs)
  ultimately show ?case by (simp only: reaches_word_final)
next
  case (gen_ref e q u es v' p s v)
  let ?s1 = "push_suffix R (psucc p) s"
  have wp: "wf_pos R (psucc p)"
    using wf_pos_next [of R p e es] gen_ref by (auto simp: wf_pos_def)
  have r1: "reaches_word R ?s1 (v' @ v)"
    using gen_ref wp by (intro gen_ref.IH(2)) auto
  obtain qs where qs: "rule_alternates R (unat (gvalue e)) = Inr qs"
    "map (suffix_at R) qs = alternates (R ! unat (gvalue e))" "\<forall>q \<in> set qs. wf_pos R q"
    using rule_alternates_spec gen_ref by blast
  then obtain qp where qp: "qp \<in> set qs" "suffix_at R qp = q"
    using gen_ref.hyps(3) by (metis image_iff list.set_map)
  have l1: "stack_lang R ?s1 (v' @ v)"
    using gen_ref wp by (auto simp: stack_lang_push)
  have "reaches_word R (push_suffix R qp ?s1) (u @ v' @ v)"
    using gen_ref qs(3) qp l1 r1 by (intro gen_ref.IH(1)) auto
  moreover have "child R (p # s) (push_suffix R qp ?s1)"
    using gen_ref qs qp by (auto intro: childI)
  moreover have "push_suffix R p s = p # s"
    using gen_ref by (simp add: push_suffix_def is_eos_def)
  ultimately show ?case by (auto intro: reaches_word_child)
qed

lemma stack_lang_reaches_word:
  "wf_rules R \<Longrightarrow> wf_stack R s \<Longrightarrow> stack_lang R s w \<Longrightarrow> reaches_word R s w"
proof (induction s arbitrary: w)
  case Nil
  then show ?case by (auto simp: reaches_word_def intro!: exI [of _ "[]"])
next
  case (Cons p s)
  then obtain u v where w: "w = u @ v" and g: "gen R (suffix_at R p) u" and v: "stack_lang R s v"
    by auto
  have "reaches_word R s v" using Cons v by (auto simp: wf_stack_def)
  with g Cons.prems v have "reaches_word R (push_suffix R p s) (u @ v)"
    by (intro gen_reaches_word) (auto simp: wf_stack_def wf_top_def)
  moreover have "push_suffix R p s = p # s"
    using Cons.prems by (auto simp: push_suffix_def wf_stack_def wf_top_def)
  ultimately show ?case using w by simp
qed

lemma rtranclp_child_wf: "(child R)\<^sup>*\<^sup>* s t \<Longrightarrow> wf_rules R \<Longrightarrow> wf_stack R s \<Longrightarrow> wf_stack R t"
  by (induction rule: rtranclp_induct) (auto intro: child_wf)

lemma rtranclp_child_lang:
  "(child R)\<^sup>*\<^sup>* s t \<Longrightarrow> wf_rules R \<Longrightarrow> wf_stack R s \<Longrightarrow> stack_lang R t w \<Longrightarrow> stack_lang R s w"
proof (induction rule: converse_rtranclp_induct)
  case (step s s')
  then have "wf_stack R s'" by (blast intro: child_wf)
  with step have "stack_lang R s' w" by simp
  moreover obtain p r where "s = p # r" using step by (cases s) auto
  ultimately show ?case
    using step child_lang [of R p r w] child_not_final by blast
qed

text \<open>The final stacks that expansion reaches carry exactly the language of the stack.\<close>

definition finals_of :: "llama_grammar_rules \<Rightarrow> llama_grammar_stack \<Rightarrow> llama_grammar_stack set" where
  "finals_of R s = {t. (child R)\<^sup>*\<^sup>* s t \<and> final_stack R t}"

lemma finals_of_lang:
  assumes "wf_rules R" and "wf_stack R s"
  shows "stack_lang R s w \<longleftrightarrow> (\<exists>t \<in> finals_of R s. stack_lang R t w)"
  using assms stack_lang_reaches_word [OF assms] rtranclp_child_lang [of R s]
  by (auto simp: finals_of_def reaches_word_def)

section \<open>The worklist computes the final stacks\<close>

text \<open>
  \<open>closed_under R seen new\<close>: every stack of \<open>seen\<close> has been dealt with, a final one by being in
  \<open>new\<close> and any other by having its children in \<open>seen\<close> or in the worklist.
\<close>

definition closed_under ::
  "llama_grammar_rules \<Rightarrow> llama_grammar_stack set \<Rightarrow> llama_grammar_stack set \<Rightarrow>
     llama_grammar_stack set \<Rightarrow> bool" where
  "closed_under R seen todo new =
     (\<forall>s \<in> seen. (final_stack R s \<longrightarrow> s \<in> new) \<and> (\<forall>t. child R s t \<longrightarrow> t \<in> seen \<union> todo))"

lemma closed_under_finals:
  assumes "closed_under R seen {} new" and "s \<in> seen"
  shows "finals_of R s \<subseteq> new"
proof -
  have "t \<in> seen" if "(child R)\<^sup>*\<^sup>* s t" for t
    using that assms by (induction rule: rtranclp_induct) (auto simp: closed_under_def)
  with assms(1) show ?thesis by (auto simp: finals_of_def closed_under_def)
qed

lemma finals_of_final: "final_stack R s \<Longrightarrow> finals_of R s = {s}"
  by (auto simp: finals_of_def elim: converse_rtranclpE dest: child_not_final)

lemma finals_of_child: "child R s t \<Longrightarrow> finals_of R t \<subseteq> finals_of R s"
  by (auto simp: finals_of_def intro: converse_rtranclp_into_rtranclp)

text \<open>One iteration of the loop on a well-formed stack, as a case distinction without failures.\<close>

lemma advance_loop_step:
  assumes wf: "wf_rules R" and ws: "wf_stack R cur" and new: "cur \<notin> set seen"
  shows "final_stack R cur \<and>
      advance_loop (Suc n) R (cur # todo) seen acc =
        advance_loop n R todo (cur # seen) (push_unique cur acc) \<or>
    \<not> final_stack R cur \<and>
      (\<exists>cs. advance_loop (Suc n) R (cur # todo) seen acc =
          advance_loop n R (rev cs @ todo) (cur # seen) acc \<and> cs \<noteq> [] \<and>
        (\<forall>t. t \<in> set cs \<longleftrightarrow> child R cur t) \<and> (\<forall>t \<in> set cs. wf_stack R t))"
proof (cases cur)
  case Nil
  with new show ?thesis by simp
next
  case (Cons p s)
  with ws have "wf_top R p" by (simp add: wf_stack_def)
  then obtain e es where es: "suffix_at R p = e # es"
    and kind: "gtype e = LLAMA_GRETYPE_RULE_REF \<or> is_class_start e \<or> is_token_element e"
    by (rule wf_topE)
  show ?thesis
  proof (cases "gtype e = LLAMA_GRETYPE_RULE_REF")
    case True
    with expand_ref_spec [OF wf ws [unfolded Cons] es] new es Cons show ?thesis
      by (auto simp: elem_at_def)
  next
    case False
    with kind new es Cons show ?thesis
      by (auto simp: elem_at_def element_defs)
  qed
qed

lemma advance_loop_spec:
  assumes "advance_loop n R todo seen acc = Inr res" and "wf_rules R"
    and "\<forall>s \<in> set todo. wf_stack R s"
    and "closed_under R (set seen) (set todo) (set acc)"
  shows "(\<exists>S. set seen \<union> set todo \<subseteq> S \<and> closed_under R S {} (set res)) \<and> set acc \<subseteq> set res \<and>
    set res \<subseteq> set acc \<union> (\<Union>s \<in> set todo. finals_of R s) \<and> (distinct acc \<longrightarrow> distinct res)"
  using assms
proof (induction n arbitrary: todo seen acc)
  case 0
  then show ?case by (cases todo) auto
next
  case (Suc n)
  show ?case
  proof (cases todo)
    case Nil
    with Suc show ?thesis by auto
  next
    case (Cons cur rest)
    show ?thesis
    proof (cases "cur \<in> set seen")
      case True
      then have eq: "set seen \<union> set rest = set seen \<union> set todo" using Cons by auto
      have "closed_under R (set seen) (set rest) (set acc)"
        using Suc.prems(4) unfolding closed_under_def eq .
      with True Suc.prems Cons Suc.IH [of rest seen acc] show ?thesis
        unfolding eq by simp blast
    next
      case False
      have ws: "wf_stack R cur" using Suc.prems Cons by simp
      from advance_loop_step [OF Suc.prems(2) ws False, of n rest acc] show ?thesis
      proof (elim disjE conjE exE)
        assume fin: "final_stack R cur"
          and eq: "advance_loop (Suc n) R (cur # rest) seen acc =
            advance_loop n R rest (cur # seen) (push_unique cur acc)"
        have cl: "closed_under R (set (cur # seen)) (set rest) (set (push_unique cur acc))"
          using Suc.prems(4) Cons fin by (auto simp: closed_under_def dest: child_not_final)
        show ?thesis
          using Suc.IH [OF _ Suc.prems(2) _ cl] Suc.prems(1,3) eq Cons finals_of_final [OF fin]
          by simp
      next
        fix cs
        assume nf: "\<not> final_stack R cur"
          and eq: "advance_loop (Suc n) R (cur # rest) seen acc =
            advance_loop n R (rev cs @ rest) (cur # seen) acc"
          and cs: "\<forall>t. t \<in> set cs \<longleftrightarrow> child R cur t" "\<forall>t \<in> set cs. wf_stack R t"
        have cl: "closed_under R (set (cur # seen)) (set (rev cs @ rest)) (set acc)"
          using Suc.prems(4) Cons nf cs(1) by (auto simp: closed_under_def)
        have sub: "(\<Union>t \<in> set cs. finals_of R t) \<subseteq> finals_of R cur"
          using cs(1) by (auto dest: finals_of_child)
        show ?thesis
          using Suc.IH [OF _ Suc.prems(2) _ cl] Suc.prems(1,3) eq Cons cs(2) sub
          by (simp add: ball_Un UN_Un) blast
      qed
    qed
  qed
qed

text \<open>\<open>llama_grammar_advance_stack\<close>, when it returns, adds exactly the final stacks that expansion
  reaches; the stacks it was given stay, and no duplicates are made.\<close>

lemma advance_stack_spec:
  assumes "llama_grammar_advance_stack n R s acc = Inr res" and "wf_rules R" and "wf_stack R s"
  shows "set res = set acc \<union> finals_of R s" and "distinct acc \<Longrightarrow> distinct res"
proof -
  have main: "(\<exists>S. set [] \<union> set [s] \<subseteq> S \<and> closed_under R S {} (set res)) \<and> set acc \<subseteq> set res \<and>
    set res \<subseteq> set acc \<union> (\<Union>s \<in> set [s]. finals_of R s) \<and> (distinct acc \<longrightarrow> distinct res)"
    using assms
    by (intro advance_loop_spec) (auto simp: llama_grammar_advance_stack_def closed_under_def)
  then show "set res = set acc \<union> finals_of R s"
    using closed_under_finals by fastforce
  from main show "distinct acc \<Longrightarrow> distinct res" by simp
qed

section \<open>Accepting a character is taking a derivative\<close>

definition chr_succ ::
  "llama_grammar_rules \<Rightarrow> u32 \<Rightarrow> llama_grammar_stack \<Rightarrow> llama_grammar_stack set" where
  "chr_succ R c s = (case s of
     [] \<Rightarrow> {}
   | p # r \<Rightarrow>
      let es = suffix_at R p in
      if is_class_start (hd es) \<and> class_accepts es c
      then finals_of R (push_suffix R (padd p (class_length es)) r) else {})"

lemma wf_final_topE:
  assumes "wf_stack R (p # r)" and "final_stack R (p # r)"
  obtains e es where "suffix_at R p = e # es" and "wf_suffix (e # es)"
    and "is_class_start e \<or> is_token_element e"
  using assms by (auto simp: wf_stack_def elim!: wf_topE)

lemma wf_after_class:
  assumes "wf_stack R (p # r)" and "suffix_at R p = e # es" and "is_class_start e"
  shows "wf_pos R (padd p (class_length (e # es)))"
    and "wf_stack R (push_suffix R (padd p (class_length (e # es))) r)"
proof -
  show *: "wf_pos R (padd p (class_length (e # es)))"
    using assms match_char_wf_after [of e es] by (auto simp: wf_stack_def wf_top_def wf_pos_def)
  show "wf_stack R (push_suffix R (padd p (class_length (e # es))) r)"
    using * assms(1) by (intro wf_stack_push) (auto simp: wf_stack_def)
qed

lemma class_not_token: "is_class_start e \<Longrightarrow> \<not> is_token_element e"
  by (auto simp: element_defs)

text \<open>In a final stack \<open>llama_grammar_accept_chr\<close> does nothing or advances one stack.\<close>

lemma accept_chr_cases:
  assumes "wf_stack R s" and "final_stack R s"
  shows "(\<forall>n acc. llama_grammar_accept_chr n R s c acc = Inr acc) \<and> chr_succ R c s = {} \<or>
    (\<exists>t. wf_stack R t \<and> chr_succ R c s = finals_of R t \<and>
       (\<forall>n acc. llama_grammar_accept_chr n R s c acc = llama_grammar_advance_stack n R t acc))"
proof (cases s)
  case Nil
  then show ?thesis by (simp add: llama_grammar_accept_chr_def chr_succ_def)
next
  case (Cons p r)
  with assms obtain e es where es: "suffix_at R p = e # es" "wf_suffix (e # es)"
    and kind: "is_class_start e \<or> is_token_element e"
    using wf_final_topE by blast
  show ?thesis
  proof (cases "is_class_start e")
    case True
    note after = wf_after_class [OF assms(1) [unfolded Cons] es(1) True]
    have m: "llama_grammar_match_char R p c =
        Inr (class_accepts (e # es) c, padd p (class_length (e # es)))"
      using match_char_spec [of R p e es c] es True by simp
    show ?thesis
      using Cons es True after class_not_token [OF True] m
      by (cases "class_accepts (e # es) c")
        (auto simp: llama_grammar_accept_chr_def chr_succ_def elem_at_def push_pos_spec)
  next
    case False
    with kind Cons es show ?thesis
      by (simp add: llama_grammar_accept_chr_def chr_succ_def elem_at_def)
  qed
qed

lemma accept_chr_spec:
  assumes "llama_grammar_accept_chr n R s c acc = Inr res" and "wf_rules R"
    and "wf_stack R s" and "final_stack R s"
  shows "set res = set acc \<union> chr_succ R c s" and "distinct acc \<Longrightarrow> distinct res"
  using accept_chr_cases [OF assms(3,4), of c] assms(1,2) advance_stack_spec [of n R _ acc res]
  by auto

lemma accept_stacks_set:
  assumes "accept_stacks n R ss c = Inr res" and "wf_rules R" and "wf_stacks R ss"
  shows "set res = (\<Union>s \<in> set ss. chr_succ R c s) \<and> distinct res"
proof -
  have "set res = set acc \<union> (\<Union>s \<in> set ss'. chr_succ R c s) \<and> (distinct acc \<longrightarrow> distinct res)"
    if "rfold (\<lambda>s. llama_grammar_accept_chr n R s c) ss' acc = Inr res" "wf_stacks R ss'" for ss' acc
    using that
  proof (induction ss' arbitrary: acc)
    case (Cons s ss')
    then obtain a where a: "llama_grammar_accept_chr n R s c acc = Inr a"
      and r: "rfold (\<lambda>s. llama_grammar_accept_chr n R s c) ss' a = Inr res"
      by (auto simp: result_simps)
    have "wf_stacks R ss'" and s: "wf_stack R s" "final_stack R s"
      using Cons.prems(2) by (auto simp: wf_stacks_def)
    with Cons.IH [OF r] accept_chr_spec [OF a assms(2) s] show ?case by auto
  qed simp
  from this [of ss "[]"] assms show ?thesis by (auto simp: accept_stacks_def)
qed

lemma gen_class_iff:
  assumes "is_class_start e"
  shows "gen R (e # es) (GChar c # w) \<longleftrightarrow>
    class_accepts (e # es) c \<and> gen R (drop (class_length (e # es)) (e # es)) w"
  using assms by (auto intro: gen_char elim: gen_ConsE simp: element_defs)

lemma gen_terminal_nonempty [simp]:
  "is_class_start e \<Longrightarrow> \<not> gen R (e # es) []"
  "is_token_element e \<Longrightarrow> \<not> gen R (e # es) []"
  "is_token_element e \<Longrightarrow> \<not> gen R (e # es) (GChar c # w)"
  by (auto elim: gen_ConsE simp: element_defs)

lemma chr_succ_lang:
  assumes wf: "wf_rules R" and ws: "wf_stack R s" and fin: "final_stack R s"
  shows "(\<exists>t \<in> chr_succ R c s. stack_lang R t w) \<longleftrightarrow> stack_lang R s (GChar c # w)"
proof (cases s)
  case Nil
  then show ?thesis by (simp add: chr_succ_def)
next
  case (Cons p r)
  with ws fin obtain e es where es: "suffix_at R p = e # es" "wf_suffix (e # es)"
    and kind: "is_class_start e \<or> is_token_element e"
    using wf_final_topE by blast
  show ?thesis
  proof (cases "is_class_start e")
    case True
    note after = wf_after_class [OF ws [unfolded Cons] es(1) True]
    let ?t = "push_suffix R (padd p (class_length (e # es))) r"
    have "stack_lang R s (GChar c # w) \<longleftrightarrow>
      (\<exists>u v. w = u @ v \<and> gen R (e # es) (GChar c # u) \<and> stack_lang R r v)"
      using Cons es True
      by (auto simp: Cons_eq_append_conv)
    also have "\<dots> \<longleftrightarrow> class_accepts (e # es) c \<and> stack_lang R ?t w"
      unfolding gen_class_iff [OF True] stack_lang_push [OF after(1)] suffix_at_padd es by blast
    also have "\<dots> \<longleftrightarrow> (\<exists>t \<in> chr_succ R c s. stack_lang R t w)"
      using Cons es True finals_of_lang [OF wf after(2)] by (auto simp: chr_succ_def Let_def)
    finally show ?thesis by simp
  next
    case False
    with kind Cons es show ?thesis
      by (auto simp: chr_succ_def Cons_eq_append_conv)
  qed
qed

lemma finals_of_wf:
  "wf_rules R \<Longrightarrow> wf_stack R s \<Longrightarrow> t \<in> finals_of R s \<Longrightarrow> wf_stack R t \<and> final_stack R t"
  by (auto simp: finals_of_def intro: rtranclp_child_wf)

lemma chr_succ_wf:
  assumes "wf_rules R" and "wf_stack R s" and "final_stack R s" and "t \<in> chr_succ R c s"
  shows "wf_stack R t \<and> final_stack R t"
  using accept_chr_cases [OF assms(2,3), of c] assms finals_of_wf by blast

lemma accept_stacks_wf:
  assumes "accept_stacks n R ss c = Inr res" and "wf_rules R" and "wf_stacks R ss"
  shows "wf_stacks R res"
  using accept_stacks_set [OF assms] assms(2,3) chr_succ_wf unfolding wf_stacks_def by blast

lemma accept_stacks_lang:
  assumes "accept_stacks n R ss c = Inr res" and "wf_rules R" and "wf_stacks R ss"
  shows "stacks_lang R res = {w. GChar c # w \<in> stacks_lang R ss}"
proof -
  have "(\<exists>s \<in> set ss. \<exists>t \<in> chr_succ R c s. stack_lang R t w) \<longleftrightarrow>
      (\<exists>s \<in> set ss. stack_lang R s (GChar c # w))" for w
    using assms(2,3) chr_succ_lang by (auto simp: wf_stacks_def)
  with accept_stacks_set [OF assms] show ?thesis by (auto simp: stacks_lang_def)
qed

lemma accept_string_lang:
  assumes "accept_string n R ss cs = Inr res" and "wf_rules R" and "wf_stacks R ss"
  shows "wf_stacks R res \<and> stacks_lang R res = {w. map GChar cs @ w \<in> stacks_lang R ss}"
  using assms
proof (induction cs arbitrary: ss)
  case (Cons c cs)
  then obtain ss' where ss': "accept_stacks n R ss c = Inr ss'" "accept_string n R ss' cs = Inr res"
    by (auto simp: accept_string_def result_simps)
  with accept_stacks_wf [OF ss'(1)] accept_stacks_lang [OF ss'(1)] Cons show ?case by simp
qed (simp add: accept_string_def)

text \<open>A final stack has the empty word only when it is empty: this is how the engine knows that
  generation may end.\<close>

lemma stacks_lang_Nil:
  assumes "wf_stacks R ss"
  shows "[] \<in> stacks_lang R ss \<longleftrightarrow> [] \<in> set ss"
proof -
  have "\<not> stack_lang R s []" if s: "s \<in> set ss" and ne: "s \<noteq> []" for s
  proof -
    obtain p r where pr: "s = p # r" using ne by (cases s) auto
    have "wf_stack R (p # r)" "final_stack R (p # r)" using assms s pr by (auto simp: wf_stacks_def)
    then show ?thesis
      using pr by (auto elim!: wf_final_topE)
  qed
  then show ?thesis by (auto simp: stacks_lang_def intro: bexI [of _ "[]"])
qed

lemma init_stacks_lang:
  assumes "init_stacks n R start = Inr ss" and wf: "wf_rules R" and "start < length R"
  shows "wf_stacks R ss \<and> stacks_lang R ss = rule_lang R start"
proof -
  obtain qs where qs: "rule_alternates R start = Inr qs"
    "map (suffix_at R) qs = alternates (R ! start)" "\<forall>q \<in> set qs. wf_pos R q"
    using rule_alternates_spec [OF wf assms(3)] by auto
  have "set res = set acc \<union> (\<Union>q \<in> set qs'. finals_of R (push_suffix R q []))"
    if "rfold (\<lambda>q acc. rbind (push_pos R q []) (\<lambda>s. llama_grammar_advance_stack n R s acc)) qs' acc = Inr res"
      "\<forall>q \<in> set qs'. wf_pos R q" for qs' acc res
    using that
  proof (induction qs' arbitrary: acc)
    case (Cons q qs')
    then obtain a where a: "llama_grammar_advance_stack n R (push_suffix R q []) acc = Inr a"
      and r: "rfold (\<lambda>q acc. rbind (push_pos R q [])
          (\<lambda>s. llama_grammar_advance_stack n R s acc)) qs' a = Inr res"
      by (auto simp: result_simps push_pos_spec)
    have "wf_stack R (push_suffix R q [])"
      using Cons.prems by (intro wf_stack_push) (auto simp: wf_stack_def)
    with advance_stack_spec(1) [OF a wf] Cons.IH [OF r] Cons.prems show ?case by auto
  qed simp
  then have ss: "set ss = (\<Union>q \<in> set qs. finals_of R (push_suffix R q []))"
    using assms(1) qs by (auto simp: init_stacks_def)
  have wq: "wf_stack R (push_suffix R q [])" if "q \<in> set qs" for q
    using qs(3) that by (intro wf_stack_push) (auto simp: wf_stack_def)
  have "w \<in> stacks_lang R ss \<longleftrightarrow> (\<exists>q \<in> set qs. gen R (suffix_at R q) w)" for w
    using ss qs(3) finals_of_lang [OF wf wq] stack_lang_push [of R _ "[]" w]
    by (fastforce simp: stacks_lang_def)
  moreover have "set (alternates (R ! start)) = suffix_at R ` set qs"
    using qs(2) by (metis list.set_map)
  moreover have "wf_stacks R ss"
    using ss wq finals_of_wf [OF wf] unfolding wf_stacks_def by blast
  ultimately show ?thesis by (auto simp: rule_lang_def)
qed

section \<open>Properties\<close>

text \<open>C1. Accepting a character: whenever \<open>llama_grammar_accept\<close>'s loop over the stacks returns on a
  well-formed grammar and well-formed stacks, the new stacks are well formed and without
  duplicates, and the language they stand for is the left derivative of the old one: they accept
  \<open>w\<close> exactly when the old stacks accept the character followed by \<open>w\<close>.\<close>

theorem accept_is_derivative:
  assumes "wf_rules R" and "wf_stacks R ss" and "accept_stacks n R ss c = Inr res"
  shows "stacks_lang R res = {w. GChar c # w \<in> stacks_lang R ss} \<and> wf_stacks R res \<and> distinct res"
  using accept_stacks_lang [OF assms(3,1,2)] accept_stacks_wf [OF assms(3,1,2)]
    accept_stacks_set [OF assms(3,1,2)] by simp

text \<open>C2. The engine recognises the language of the grammar: the stacks that initialisation and then
  accepting the code points \<open>cs\<close> leave accept exactly the continuations of \<open>cs\<close> in the language of
  the start rule, and the empty stack (end of generation allowed) is among them exactly when \<open>cs\<close>
  itself is a word of the language.\<close>

theorem engine_recognises_language:
  assumes "wf_rules R" and "start < length R" and "init_stacks n R start = Inr ss0"
    and "accept_string n R ss0 cs = Inr ss"
  shows "stacks_lang R ss = {w. map GChar cs @ w \<in> rule_lang R start} \<and>
    ([] \<in> set ss \<longleftrightarrow> map GChar cs \<in> rule_lang R start)"
proof -
  note init = init_stacks_lang [OF assms(3,1,2)]
  have "wf_stacks R ss \<and> stacks_lang R ss = {w. map GChar cs @ w \<in> stacks_lang R ss0}"
    using accept_string_lang [OF assms(4,1)] init by blast
  with init stacks_lang_Nil [of R ss] show ?thesis by auto
qed

text \<open>A grammar for the witnesses: \<open>root ::= "a" root | "b"\<close>.\<close>

definition ab_rules :: llama_grammar_rules where
  "ab_rules = [[El LLAMA_GRETYPE_CHAR 97, El LLAMA_GRETYPE_RULE_REF 0, El LLAMA_GRETYPE_ALT 0,
     El LLAMA_GRETYPE_CHAR 98, El LLAMA_GRETYPE_END 0]]"

lemma ab_rules_wf: "wf_rules ab_rules"
  by (simp add: ab_rules_def wf_rules_def wf_rule_def refs_below_def modifies_ok_def)

lemmas ab_eval =
  ab_rules_def init_stacks_def rule_alternates_def push_pos_def llama_grammar_is_end_of_sequence_def
  elem_at_def suffix_at_def is_eos_def llama_grammar_advance_stack_def is_class_start_def
  is_token_element_def push_unique_def accept_stacks_def llama_grammar_accept_chr_def
  llama_grammar_match_char_def rassert_def is_positive_char_def padd_def psucc_def expand_ref_def
  next_stack_def accept_string_def

lemma ab_init: "init_stacks 9 ab_rules 0 = Inr [[(0, 0)], [(0, 3)]]"
  by (simp add: ab_eval numeral_eq_Suc)

lemma ab_accept_a: "accept_stacks 9 ab_rules [[(0, 0)], [(0, 3)]] 97 = Inr [[(0, 3)], [(0, 0)]]"
  by (simp add: ab_eval numeral_eq_Suc)

lemma ab_accept_b: "accept_string 9 ab_rules [[(0, 0)], [(0, 3)]] [97, 98] = Inr [[]]"
  by (simp add: ab_eval numeral_eq_Suc)

theorem accept_is_derivative_witness:
  "stacks_lang ab_rules [[(0, 3)], [(0, 0)]] =
     {w. GChar 97 # w \<in> stacks_lang ab_rules [[(0, 0)], [(0, 3)]]} \<and>
   wf_stacks ab_rules [[(0, 3)], [(0, 0)]] \<and> distinct [[(0::nat, 3::nat)], [(0, 0)]]"
proof -
  have "wf_stacks ab_rules [[(0, 0)], [(0, 3)]]"
    using init_stacks_lang [OF ab_init ab_rules_wf] by (simp add: ab_rules_def)
  from accept_is_derivative [OF ab_rules_wf this ab_accept_a] show ?thesis .
qed

theorem engine_recognises_language_witness:
  "stacks_lang ab_rules [[]] = {w. map GChar [97, 98] @ w \<in> rule_lang ab_rules 0} \<and>
   map GChar [97, 98] \<in> rule_lang ab_rules 0"
  using engine_recognises_language [OF ab_rules_wf _ ab_init ab_accept_b]
  by (simp add: ab_rules_def)

end
