(* ===== verification/Grammar_Left_Recursion.thy ===== *)
theory Grammar_Left_Recursion
  imports Grammar_Stacks
begin

text \<open>
  \<open>llama_grammar_detect_left_recursion\<close> and the loop of \<open>llama_grammar_init_impl\<close> that calls it,
  and what the check is for: the termination of \<open>llama_grammar_advance_stack\<close>. The check terminates
  and finds every cycle of left corners in which the rules that are skipped have a literally empty
  alternate. When every rule that derives the empty word has one, passing the check makes every
  stack expansion finite; the last section is a grammar that passes the check without meeting that
  condition, on which the engine never returns.
\<close>

section \<open>The check\<close>

record lr_state =
  rules_visited :: "bool list"
  rules_in_progress :: "bool list"
  rules_may_be_empty :: "bool list"

text \<open>The first loop: does the rule have an empty alternate?\<close>

fun scan_empty_alternate :: "llama_grammar_element list \<Rightarrow> bool \<Rightarrow> bool" where
  "scan_empty_alternate [] at_rule_start = False"
| "scan_empty_alternate (e # es) at_rule_start =
     (if is_eos e then (if at_rule_start then True else scan_empty_alternate es True)
      else scan_empty_alternate es False)"

text \<open>Marking a rule as being looked at and recording whether it has an empty alternate, and
  unmarking it at the end.\<close>

definition lr_enter :: "llama_grammar_rules \<Rightarrow> nat \<Rightarrow> lr_state \<Rightarrow> lr_state" where
  "lr_enter R i st =
     (let st1 = st\<lparr>rules_in_progress := (rules_in_progress st)[i := True]\<rparr> in
      if scan_empty_alternate (R ! i) True
      then st1\<lparr>rules_may_be_empty := (rules_may_be_empty st1)[i := True]\<rparr> else st1)"

definition lr_leave :: "nat \<Rightarrow> lr_state \<Rightarrow> lr_state" where
  "lr_leave i st = st\<lparr>rules_in_progress := (rules_in_progress st)[i := False],
     rules_visited := (rules_visited st)[i := True]\<rparr>"

fun llama_grammar_detect_left_recursion ::
    "nat \<Rightarrow> llama_grammar_rules \<Rightarrow> nat \<Rightarrow> lr_state \<Rightarrow> (bool \<times> lr_state) result"
  and detect_elements ::
    "nat \<Rightarrow> llama_grammar_rules \<Rightarrow> llama_grammar_element list \<Rightarrow> bool \<Rightarrow> lr_state \<Rightarrow>
       (bool \<times> lr_state) result" where
  "llama_grammar_detect_left_recursion 0 R i st = Inl OutOfFuel"
| "llama_grammar_detect_left_recursion (Suc fuel) R i st =
     (if \<not> (i < length R \<and> i < length (rules_in_progress st)) then Inl Undefined
      else if rules_in_progress st ! i then Inr (True, st)
      else rbind (detect_elements fuel R (R ! i) True (lr_enter R i st)) (\<lambda>(found, st').
           if found then Inr (True, st') else Inr (False, lr_leave i st')))"
| "detect_elements fuel R [] recurse st = Inr (False, st)"
| "detect_elements fuel R (e # es) recurse st =
     (if gtype e = LLAMA_GRETYPE_RULE_REF \<and> recurse then
        rbind (llama_grammar_detect_left_recursion fuel R (unat (gvalue e)) st) (\<lambda>(found, st').
        if found then Inr (True, st')
        else detect_elements fuel R es (rules_may_be_empty st' ! unat (gvalue e)) st')
      else detect_elements fuel R es (is_eos e) st)"

text \<open>The loop over the rules: \<open>True\<close> when left recursion was found (the caller returns
  \<open>nullptr\<close>).\<close>

fun check_rules :: "nat \<Rightarrow> llama_grammar_rules \<Rightarrow> nat list \<Rightarrow> lr_state \<Rightarrow> (bool \<times> lr_state) result" where
  "check_rules fuel R [] st = Inr (False, st)"
| "check_rules fuel R (i # is) st =
     (if rules_visited st ! i then check_rules fuel R is st
      else rbind (llama_grammar_detect_left_recursion fuel R i st) (\<lambda>(found, st').
        if found then Inr (True, st') else check_rules fuel R is st'))"

definition lr_init :: "nat \<Rightarrow> lr_state" where
  "lr_init n = \<lparr>rules_visited = replicate n False, rules_in_progress = replicate n False,
     rules_may_be_empty = replicate n False\<rparr>"

definition has_left_recursion :: "nat \<Rightarrow> llama_grammar_rules \<Rightarrow> bool result" where
  "has_left_recursion fuel R =
     rbind (check_rules fuel R [0..<length R] (lr_init (length R))) (\<lambda>(found, _). Inr found)"

section \<open>Left corners\<close>

text \<open>\<open>corner_refs E es True\<close>: the rules that an expansion of \<open>es\<close> can meet first, when exactly the
  rules satisfying \<open>E\<close> may be skipped.\<close>

fun corner_refs :: "(nat \<Rightarrow> bool) \<Rightarrow> llama_grammar_element list \<Rightarrow> bool \<Rightarrow> nat set" where
  "corner_refs E [] recurse = {}"
| "corner_refs E (e # es) recurse =
     (if gtype e = LLAMA_GRETYPE_RULE_REF \<and> recurse
      then insert (unat (gvalue e)) (corner_refs E es (E (unat (gvalue e))))
      else corner_refs E es (is_eos e))"

definition left_corner :: "llama_grammar_rules \<Rightarrow> (nat \<Rightarrow> bool) \<Rightarrow> nat \<Rightarrow> nat \<Rightarrow> bool" where
  "left_corner R E k i = (k \<in> corner_refs E (R ! i) True)"

definition direct_empty :: "llama_grammar_rules \<Rightarrow> nat \<Rightarrow> bool" where
  "direct_empty R k = scan_empty_alternate (R ! k) True"

definition nullable :: "llama_grammar_rules \<Rightarrow> nat \<Rightarrow> bool" where
  "nullable R k = (\<exists>q \<in> set (alternates (R ! k)). gen R q [])"

definition lr_ok :: "llama_grammar_rules \<Rightarrow> lr_state \<Rightarrow> bool" where
  "lr_ok R st = (length (rules_visited st) = length R \<and> length (rules_in_progress st) = length R \<and>
     length (rules_may_be_empty st) = length R \<and>
     (\<forall>k < length R. rules_may_be_empty st ! k \<longrightarrow> direct_empty R k))"

definition open_rules :: "lr_state \<Rightarrow> nat" where
  "open_rules st = length (filter Not (rules_in_progress st))"

section \<open>The check terminates\<close>

lemma filter_Not_update:
  "i < length xs \<Longrightarrow> \<not> xs ! i \<Longrightarrow> Suc (length (filter Not (xs[i := True]))) = length (filter Not xs)"
proof (induction xs arbitrary: i)
  case (Cons x xs)
  then show ?case by (cases i) auto
qed simp

lemma lr_enter_simps [simp]:
  "rules_in_progress (lr_enter R i st) = (rules_in_progress st)[i := True]"
  "rules_visited (lr_enter R i st) = rules_visited st"
  "rules_may_be_empty (lr_enter R i st) =
     (if direct_empty R i then (rules_may_be_empty st)[i := True] else rules_may_be_empty st)"
  by (auto simp: lr_enter_def Let_def direct_empty_def)

lemma lr_leave_simps [simp]:
  "rules_in_progress (lr_leave i st) = (rules_in_progress st)[i := False]"
  "rules_visited (lr_leave i st) = (rules_visited st)[i := True]"
  "rules_may_be_empty (lr_leave i st) = rules_may_be_empty st"
  by (auto simp: lr_leave_def)

lemma lr_enter_ok:
  assumes "lr_ok R st" and "i < length R"
  shows "lr_ok R (lr_enter R i st)"
  using assms unfolding lr_ok_def by (simp add: nth_list_update)

lemma lr_leave_ok: "lr_ok R st \<Longrightarrow> lr_ok R (lr_leave i st)"
  by (simp add: lr_ok_def)

lemma detect_total:
  shows "lr_ok R st \<Longrightarrow> wf_rules R \<Longrightarrow> i < length R \<Longrightarrow> open_rules st < fuel \<Longrightarrow>
      \<exists>b st'. llama_grammar_detect_left_recursion fuel R i st = Inr (b, st') \<and> lr_ok R st' \<and>
        (\<not> b \<longrightarrow> rules_in_progress st' = rules_in_progress st)"
    and "lr_ok R st \<Longrightarrow> wf_rules R \<Longrightarrow> refs_below (length R) es \<Longrightarrow> open_rules st < fuel \<Longrightarrow>
      \<exists>b st'. detect_elements fuel R es recurse st = Inr (b, st') \<and> lr_ok R st' \<and>
        (\<not> b \<longrightarrow> rules_in_progress st' = rules_in_progress st)"
proof (induction fuel R i st and fuel R es recurse st
    rule: llama_grammar_detect_left_recursion_detect_elements.induct)
  case (2 fuel R i st)
  show ?case
  proof (cases "rules_in_progress st ! i")
    case True
    moreover have "i < length (rules_in_progress st)" using "2.prems" by (simp add: lr_ok_def)
    ultimately show ?thesis using "2.prems"(1,3) by auto
  next
    case False
    note ok2 = lr_enter_ok [OF "2.prems"(1,3)]
    have "Suc (open_rules (lr_enter R i st)) = open_rules st"
      unfolding open_rules_def lr_enter_simps
      using "2.prems"(1,3) False by (intro filter_Not_update) (simp_all add: lr_ok_def)
    then have "open_rules (lr_enter R i st) < fuel" using "2.prems"(4) by linarith
    moreover have "refs_below (length R) (R ! i)" using "2.prems" by (auto simp: wf_rules_def)
    moreover have range: "\<not> \<not> (i < length R \<and> i < length (rules_in_progress st))"
      using "2.prems" by (simp add: lr_ok_def)
    ultimately obtain b st3 where st3: "detect_elements fuel R (R ! i) True (lr_enter R i st) = Inr (b, st3)"
      "lr_ok R st3" "\<not> b \<longrightarrow> rules_in_progress st3 = (rules_in_progress st)[i := True]"
      using "2.IH" [OF range False ok2 "2.prems"(2)] unfolding lr_enter_simps by blast
    have "(rules_in_progress st)[i := False] = rules_in_progress st"
      using False by (metis list_update_id)
    with st3 False range lr_leave_ok [OF st3(2)] show ?thesis by (cases b) auto
  qed
next
  case (4 fuel R e es recurse st)
  show ?case
  proof (cases "gtype e = LLAMA_GRETYPE_RULE_REF \<and> recurse")
    case True
    then have k: "unat (gvalue e) < length R" using "4.prems" by (auto simp: refs_below_def)
    obtain b st' where d: "llama_grammar_detect_left_recursion fuel R (unat (gvalue e)) st = Inr (b, st')"
      "lr_ok R st'" "\<not> b \<longrightarrow> rules_in_progress st' = rules_in_progress st"
      using "4.IH"(1) [OF True "4.prems"(1,2) k "4.prems"(4)] by auto
    show ?thesis
    proof (cases b)
      case True
      with d \<open>gtype e = _ \<and> recurse\<close> show ?thesis by auto
    next
      case False
      with d "4.IH"(2) [OF True d(1) _ False d(2) "4.prems"(2)] "4.prems" True show ?thesis
        by (auto simp: open_rules_def refs_below_def)
    qed
  next
    case False
    have "refs_below (length R) es" using "4.prems" by (auto simp: refs_below_def)
    with "4.IH"(3) [OF False "4.prems"(1,2) _ "4.prems"(4)] show ?thesis
      by (simp add: if_not_P [OF False])
  qed
qed auto

section \<open>The check finds every cycle of left corners\<close>

lemma detect_sound:
  shows "llama_grammar_detect_left_recursion fuel R i st = Inr (b, st') \<Longrightarrow> \<not> b \<Longrightarrow> lr_ok R st \<Longrightarrow>
      Wellfounded.accp (left_corner R (direct_empty R)) i \<and> lr_ok R st' \<and>
      rules_may_be_empty st' ! i = direct_empty R i \<and>
      (\<forall>k. rules_may_be_empty st ! k \<longrightarrow> k < length R \<longrightarrow> rules_may_be_empty st' ! k)"
    and "detect_elements fuel R es recurse st = Inr (b, st') \<Longrightarrow> \<not> b \<Longrightarrow> lr_ok R st \<Longrightarrow>
      (\<forall>k \<in> corner_refs (direct_empty R) es recurse.
         Wellfounded.accp (left_corner R (direct_empty R)) k) \<and> lr_ok R st' \<and>
      (\<forall>k. rules_may_be_empty st ! k \<longrightarrow> k < length R \<longrightarrow> rules_may_be_empty st' ! k)"
proof (induction fuel R i st and fuel R es recurse st arbitrary: b st' and b st'
    rule: llama_grammar_detect_left_recursion_detect_elements.induct)
  case (2 fuel R i st)
  have i: "i < length R" "i < length (rules_in_progress st)" and np: "\<not> rules_in_progress st ! i"
    using "2.prems"(1,2) by (auto split: if_splits)
  obtain st3 where st3: "detect_elements fuel R (R ! i) True (lr_enter R i st) = Inr (False, st3)"
    and st': "st' = lr_leave i st3"
    using "2.prems"(1,2) i np by (auto simp: result_simps split: if_splits)
  note ok2 = lr_enter_ok [OF "2.prems"(3) i(1)]
  have IH: "\<forall>k \<in> corner_refs (direct_empty R) (R ! i) True.
        Wellfounded.accp (left_corner R (direct_empty R)) k" "lr_ok R st3"
      "\<forall>k. rules_may_be_empty (lr_enter R i st) ! k \<longrightarrow> k < length R \<longrightarrow> rules_may_be_empty st3 ! k"
    using "2.IH" [OF _ np st3 _ ok2] i by blast+
  have "Wellfounded.accp (left_corner R (direct_empty R)) i"
    by (rule accpI) (use IH(1) in \<open>auto simp: left_corner_def\<close>)
  moreover have "lr_ok R st'" using IH(2) by (simp add: st' lr_ok_def)
  moreover have "rules_may_be_empty st' ! i = direct_empty R i"
  proof (cases "direct_empty R i")
    case True
    then have "rules_may_be_empty (lr_enter R i st) ! i"
      using i "2.prems"(3) by (simp add: lr_ok_def)
    with IH(3) i True show ?thesis by (simp add: st')
  next
    case False
    with IH(2) i show ?thesis by (auto simp: st' lr_ok_def)
  qed
  moreover have "\<forall>k. rules_may_be_empty st ! k \<longrightarrow> k < length R \<longrightarrow> rules_may_be_empty st' ! k"
  proof (intro allI impI)
    fix k assume "rules_may_be_empty st ! k" "k < length R"
    then have "rules_may_be_empty (lr_enter R i st) ! k"
      using "2.prems"(3) i by (simp add: nth_list_update lr_ok_def)
    with IH(3) \<open>k < length R\<close> show "rules_may_be_empty st' ! k" by (simp add: st')
  qed
  ultimately show ?case by blast
next
  case (4 fuel R e es recurse st)
  show ?case
  proof (cases "gtype e = LLAMA_GRETYPE_RULE_REF \<and> recurse")
    case True
    let ?k = "unat (gvalue e)"
    obtain st1 where d: "llama_grammar_detect_left_recursion fuel R ?k st = Inr (False, st1)"
      and rest: "detect_elements fuel R es (rules_may_be_empty st1 ! ?k) st1 = Inr (b, st')"
      using "4.prems"(1,2) True by (auto simp: result_simps split: if_splits)
    have IH1: "Wellfounded.accp (left_corner R (direct_empty R)) ?k" "lr_ok R st1"
        "rules_may_be_empty st1 ! ?k = direct_empty R ?k"
        "\<forall>k. rules_may_be_empty st ! k \<longrightarrow> k < length R \<longrightarrow> rules_may_be_empty st1 ! k"
      using "4.IH"(1) [OF True d _ "4.prems"(3)] by auto
    have "(\<forall>k \<in> corner_refs (direct_empty R) es (rules_may_be_empty st1 ! ?k).
         Wellfounded.accp (left_corner R (direct_empty R)) k) \<and> lr_ok R st' \<and>
      (\<forall>k. rules_may_be_empty st1 ! k \<longrightarrow> k < length R \<longrightarrow> rules_may_be_empty st' ! k)"
      using "4.IH"(2) [OF True d refl _ rest "4.prems"(2) IH1(2)] by simp
    with IH1 True show ?thesis by simp
  next
    case False
    with "4.IH"(3) [OF False _ "4.prems"(2,3)] "4.prems"(1) show ?thesis
      by (simp add: if_not_P [OF False])
  qed
qed auto

text \<open>\<open>rules_visited\<close> is only ever set for a rule whose call returned \<open>False\<close>, so the rules that the
  outer loop skips have been checked as well.\<close>

definition visited_acc :: "llama_grammar_rules \<Rightarrow> lr_state \<Rightarrow> bool" where
  "visited_acc R st = (\<forall>k < length R. rules_visited st ! k \<longrightarrow>
     Wellfounded.accp (left_corner R (direct_empty R)) k)"

lemma detect_visited:
  shows "llama_grammar_detect_left_recursion fuel R i st = Inr (b, st') \<Longrightarrow> \<not> b \<Longrightarrow> lr_ok R st \<Longrightarrow>
      visited_acc R st \<Longrightarrow> visited_acc R st'"
    and "detect_elements fuel R es recurse st = Inr (b, st') \<Longrightarrow> \<not> b \<Longrightarrow> lr_ok R st \<Longrightarrow>
      visited_acc R st \<Longrightarrow> visited_acc R st'"
proof (induction fuel R i st and fuel R es recurse st arbitrary: b st' and b st'
    rule: llama_grammar_detect_left_recursion_detect_elements.induct)
  case (2 fuel R i st)
  have acc: "Wellfounded.accp (left_corner R (direct_empty R)) i"
    using detect_sound(1) [OF "2.prems"(1-3)] by simp
  have i: "i < length R" "i < length (rules_in_progress st)" and np: "\<not> rules_in_progress st ! i"
    using "2.prems"(1,2) by (auto split: if_splits)
  obtain st3 where st3: "detect_elements fuel R (R ! i) True (lr_enter R i st) = Inr (False, st3)"
    and st': "st' = lr_leave i st3"
    using "2.prems"(1,2) i np by (auto simp: result_simps split: if_splits)
  note ok2 = lr_enter_ok [OF "2.prems"(3) i(1)]
  have va2: "visited_acc R (lr_enter R i st)"
    using "2.prems"(4) by (simp add: visited_acc_def)
  have "visited_acc R st3"
    using "2.IH" [OF _ np st3 _ ok2 va2] i by blast
  moreover have "length (rules_visited st3) = length R"
    using detect_sound(2) [OF st3 _ ok2] by (simp add: lr_ok_def)
  ultimately show ?case using acc i by (auto simp: visited_acc_def st' nth_list_update)
next
  case (4 fuel R e es recurse st)
  show ?case
  proof (cases "gtype e = LLAMA_GRETYPE_RULE_REF \<and> recurse")
    case True
    let ?k = "unat (gvalue e)"
    obtain st1 where d: "llama_grammar_detect_left_recursion fuel R ?k st = Inr (False, st1)"
      and rest: "detect_elements fuel R es (rules_may_be_empty st1 ! ?k) st1 = Inr (b, st')"
      using "4.prems"(1,2) True by (auto simp: result_simps split: if_splits)
    have "visited_acc R st1" using "4.IH"(1) [OF True d _ "4.prems"(3,4)] by simp
    moreover have "lr_ok R st1" using detect_sound(1) [OF d _ "4.prems"(3)] by simp
    ultimately show ?thesis using "4.IH"(2) [OF True d refl _ rest "4.prems"(2)] by simp
  next
    case False
    with "4.IH"(3) [OF False _ "4.prems"(2-4)] "4.prems"(1) show ?thesis
      by (simp add: if_not_P [OF False])
  qed
qed auto

lemma check_rules_total:
  assumes "lr_ok R st" and "wf_rules R" and "\<forall>i \<in> set is. i < length R"
    and "rules_in_progress st = replicate (length R) False" and "length R < fuel"
  shows "\<exists>b st'. check_rules fuel R is st = Inr (b, st')"
  using assms
proof (induction "is" arbitrary: st)
  case (Cons i "is")
  show ?case
  proof (cases "rules_visited st ! i")
    case True
    with Cons show ?thesis by simp
  next
    case False
    have "open_rules st < fuel" using Cons.prems(4,5) by (simp add: open_rules_def)
    with detect_total(1) [OF Cons.prems(1,2), of i fuel] Cons.prems(3)
    obtain b st' where d: "llama_grammar_detect_left_recursion fuel R i st = Inr (b, st')"
      "lr_ok R st'" "\<not> b \<longrightarrow> rules_in_progress st' = rules_in_progress st"
      by auto
    then have "\<not> b \<Longrightarrow> \<exists>b st''. check_rules fuel R is st' = Inr (b, st'')"
      using Cons.IH [of st'] Cons.prems by simp
    with False d(1) show ?thesis by (cases b) auto
  qed
qed auto

lemma check_rules_sound:
  assumes "check_rules fuel R is st = Inr (False, st')" and "lr_ok R st" and "visited_acc R st"
    and "\<forall>i \<in> set is. i < length R"
  shows "\<forall>i \<in> set is. Wellfounded.accp (left_corner R (direct_empty R)) i"
  using assms
proof (induction "is" arbitrary: st)
  case (Cons i "is")
  show ?case
  proof (cases "rules_visited st ! i")
    case True
    with Cons show ?thesis by (auto simp: visited_acc_def)
  next
    case False
    then obtain st1 where d: "llama_grammar_detect_left_recursion fuel R i st = Inr (False, st1)"
      "check_rules fuel R is st1 = Inr (False, st')"
      using Cons.prems(1) by (auto simp: result_simps split: if_splits)
    from detect_sound(1) [OF d(1) _ Cons.prems(2)] detect_visited(1) [OF d(1) _ Cons.prems(2,3)]
      Cons.IH [OF d(2)] Cons.prems(4)
    show ?thesis by simp
  qed
qed simp

section \<open>Well-founded left corners make expansion finite\<close>

abbreviation expand_acc :: "llama_grammar_rules \<Rightarrow> llama_grammar_stack \<Rightarrow> bool" where
  "expand_acc R \<equiv> Wellfounded.accp (\<lambda>t s. child R s t)"

lemma corner_refs_alts_after:
  "q \<in> set (alts_after r) \<Longrightarrow> corner_refs E q True \<subseteq> corner_refs E r b"
proof (induction r arbitrary: b)
  case (Cons e r)
  show ?case
  proof (cases "gtype e = LLAMA_GRETYPE_ALT")
    case True
    with Cons show ?thesis by (auto simp: is_eos_iff)
  next
    case False
    with Cons.prems have "q \<in> set (alts_after r)" by (auto split: if_splits)
    with Cons.IH show ?thesis by auto
  qed
qed simp

lemma corner_refs_alternates:
  "q \<in> set (alternates r) \<Longrightarrow> corner_refs E q True \<subseteq> corner_refs E r True"
  using corner_refs_alts_after [of q r E True] by (auto simp: alternates_def)

lemma final_acc: "final_stack R s \<Longrightarrow> expand_acc R s"
  by (rule accpI) (auto dest: child_not_final)

text \<open>If expanding below the reference is finite for every alternate, it is finite at the reference.\<close>

lemma ref_acc:
  assumes "wf_rules R" and "suffix_at R p = e # es" and "gtype e = LLAMA_GRETYPE_RULE_REF"
    and "\<And>q. q \<in> set (alternates (R ! unat (gvalue e))) \<Longrightarrow>
      \<forall>qp. suffix_at R qp = q \<longrightarrow> wf_pos R qp \<longrightarrow>
        expand_acc R (push_suffix R qp (push_suffix R (psucc p) s))"
  shows "expand_acc R (p # s)"
proof (rule accpI)
  fix t assume "child R (p # s) t"
  then obtain qs q where q: "rule_alternates R (unat (gvalue e)) = Inr qs" "q \<in> set qs"
    "t = push_suffix R q (push_suffix R (psucc p) s)"
    using assms(2) by (auto elim!: child_ConsE)
  have "unat (gvalue e) < length R" by (rule ref_in_range [OF assms(1-3)])
  from rule_alternates_spec [OF assms(1) this] q(1)
  have "map (suffix_at R) qs = alternates (R ! unat (gvalue e))" and "\<forall>q \<in> set qs. wf_pos R q"
    by auto
  with q(2) have "suffix_at R q \<in> set (alternates (R ! unat (gvalue e)))" and "wf_pos R q"
    by (metis image_eqI list.set_map, blast)
  with assms(4) q(3) show "expand_acc R t" by blast
qed

lemma wf_pos_kind:
  assumes "wf_pos R p"
  obtains e es where "suffix_at R p = e # es"
    and "is_eos e \<or> final_stack R (p # s) \<or> gtype e = LLAMA_GRETYPE_RULE_REF"
  using assms by (auto simp: wf_pos_def elim!: wf_suffixE)

text \<open>Inside a rule whose left corners are well founded: what lies below on the stack matters only
  when the alternate derives the empty word.\<close>

lemma corner_acc:
  assumes "Wellfounded.accp (left_corner R (nullable R)) k" and "wf_rules R"
    and "corner_refs (nullable R) (suffix_at R p) True \<subseteq> corner_refs (nullable R) (R ! k) True"
    and "wf_pos R p" and "gen R (suffix_at R p) [] \<longrightarrow> expand_acc R s"
  shows "expand_acc R (push_suffix R p s)"
  using assms
proof (induction k arbitrary: p s rule: accp_induct_rule)
  case (1 k p s)
  from 1(3-6) show ?case
  proof (induction "length (suffix_at R p)" arbitrary: p s)
    case 0
    then show ?case by (auto simp: wf_pos_def elim: wf_suffixE)
  next
    case (Suc n)
    from Suc.prems(3) obtain e es where es: "suffix_at R p = e # es"
      and kind: "is_eos e \<or> final_stack R (p # s) \<or> gtype e = LLAMA_GRETYPE_RULE_REF"
      by (rule wf_pos_kind)
    show ?case
    proof (cases "gtype e = LLAMA_GRETYPE_RULE_REF")
      case False
      with kind Suc.prems es show ?thesis by (auto simp: push_suffix_def intro: final_acc)
    next
      case ref: True
      let ?k = "unat (gvalue e)" and ?s = "push_suffix R (psucc p) s"
      have k: "?k < length R" by (rule ref_in_range [OF Suc.prems(1) es ref])
      have lc: "left_corner R (nullable R) ?k k"
        using Suc.prems(2) es ref by (auto simp: left_corner_def)
      have wp: "wf_pos R (psucc p)"
        using wf_pos_next [OF es] ref Suc.prems(3) es by (simp add: wf_pos_def)
      have below: "expand_acc R ?s" if q: "q \<in> set (alternates (R ! ?k))" "gen R q []" for q
      proof -
        have "nullable R ?k" using q by (auto simp: nullable_def)
        then have "corner_refs (nullable R) (suffix_at R (psucc p)) True
            \<subseteq> corner_refs (nullable R) (R ! k) True"
          using Suc.prems(2) es ref by simp
        moreover have "gen R (suffix_at R (psucc p)) [] \<longrightarrow> expand_acc R s"
          using Suc.prems(4) es gen_ref [OF ref k q] by fastforce
        ultimately show ?thesis
          using Suc.hyps(1) [of "psucc p" s] Suc.hyps(2) Suc.prems(1) wp es by simp
      qed
      have "expand_acc R (push_suffix R qp ?s)"
        if "q \<in> set (alternates (R ! ?k))" "suffix_at R qp = q" "wf_pos R qp" for q qp
        using 1(2) [OF lc Suc.prems(1) _ that(3)] corner_refs_alternates [OF that(1)] below [OF that(1)]
          that(2) by auto
      then have "expand_acc R (p # s)" by (intro ref_acc [OF Suc.prems(1) es ref]) auto
      moreover have "push_suffix R p s = p # s" using es ref by (simp add: push_suffix_def is_eos_iff)
      ultimately show ?thesis by simp
    qed
  qed
qed

lemma push_acc:
  assumes "wf_rules R" and "\<forall>k < length R. Wellfounded.accp (left_corner R (nullable R)) k"
    and "wf_pos R p" and "expand_acc R s"
  shows "expand_acc R (push_suffix R p s)"
  using assms(3,4)
proof (induction "length (suffix_at R p)" arbitrary: p)
  case 0
  then show ?case by (auto simp: wf_pos_def elim: wf_suffixE)
next
  case (Suc n)
  from Suc.prems(1) obtain e es where es: "suffix_at R p = e # es"
    and kind: "is_eos e \<or> final_stack R (p # s) \<or> gtype e = LLAMA_GRETYPE_RULE_REF"
    by (rule wf_pos_kind)
  show ?case
  proof (cases "gtype e = LLAMA_GRETYPE_RULE_REF")
    case False
    with kind Suc.prems es show ?thesis by (auto simp: push_suffix_def intro: final_acc)
  next
    case ref: True
    have k: "unat (gvalue e) < length R" by (rule ref_in_range [OF assms(1) es ref])
    have wp: "wf_pos R (psucc p)"
      using wf_pos_next [OF es] ref Suc.prems(1) es by (simp add: wf_pos_def)
    have "expand_acc R (push_suffix R (psucc p) s)"
      using Suc.hyps(1) [of "psucc p"] Suc.hyps(2) wp es Suc.prems(2) by simp
    then have "expand_acc R (push_suffix R qp (push_suffix R (psucc p) s))"
      if "suffix_at R qp \<in> set (alternates (R ! unat (gvalue e)))" "wf_pos R qp" for qp
      using corner_acc [OF _ assms(1) corner_refs_alternates [OF that(1)] that(2)] assms(2) k by blast
    then have "expand_acc R (p # s)" by (intro ref_acc [OF assms(1) es ref]) auto
    moreover have "push_suffix R p s = p # s" using es ref by (simp add: push_suffix_def is_eos_iff)
    ultimately show ?thesis by simp
  qed
qed

lemma stack_acc:
  assumes "wf_rules R" and "\<forall>k < length R. Wellfounded.accp (left_corner R (nullable R)) k"
    and "wf_stack R s"
  shows "expand_acc R s"
  using assms(3)
proof (induction s)
  case Nil
  show ?case by (rule final_acc) simp
next
  case (Cons p s)
  then have "expand_acc R (push_suffix R p s)"
    using push_acc [OF assms(1,2), of p s] by (auto simp: wf_stack_def wf_top_def)
  moreover have "push_suffix R p s = p # s"
    using Cons.prems by (auto simp: push_suffix_def wf_stack_def wf_top_def)
  ultimately show ?case by simp
qed

section \<open>The worklist terminates\<close>

text \<open>\<open>steps_bound R s n\<close>: from any worklist with \<open>s\<close> on top, at most \<open>n\<close> iterations deal with \<open>s\<close> and
  everything it expands to.\<close>

definition steps_bound :: "llama_grammar_rules \<Rightarrow> llama_grammar_stacks \<Rightarrow> nat \<Rightarrow> bool" where
  "steps_bound R ts n = (\<forall>m todo seen acc. \<exists>k seen' acc'. m \<le> k \<and>
     advance_loop (n + m) R (ts @ todo) seen acc = advance_loop k R todo seen' acc')"

lemma steps_bound_Nil: "steps_bound R [] 0"
  by (auto simp: steps_bound_def)

lemma steps_bound_Cons:
  assumes "steps_bound R [t] n1" and "steps_bound R ts n2"
  shows "steps_bound R (t # ts) (n1 + n2)"
  unfolding steps_bound_def
proof (intro allI)
  fix m todo seen acc
  obtain k seen1 acc1 where k: "n2 + m \<le> k"
    "advance_loop (n1 + (n2 + m)) R ([t] @ (ts @ todo)) seen acc = advance_loop k R (ts @ todo) seen1 acc1"
    using assms(1) unfolding steps_bound_def by blast
  obtain k' seen2 acc2 where k': "k - n2 \<le> k'"
    "advance_loop (n2 + (k - n2)) R (ts @ todo) seen1 acc1 = advance_loop k' R todo seen2 acc2"
    using assms(2) unfolding steps_bound_def by blast
  from k k' show "\<exists>k seen' acc'. m \<le> k \<and>
      advance_loop (n1 + n2 + m) R ((t # ts) @ todo) seen acc = advance_loop k R todo seen' acc'"
    by (intro exI [of _ k'] exI [of _ seen2] exI [of _ acc2]) (simp add: add.assoc)
qed

lemma steps_bound_list:
  "\<forall>t \<in> set ts. \<exists>n. steps_bound R [t] n \<Longrightarrow> \<exists>n. steps_bound R ts n"
  by (induction ts) (auto intro: steps_bound_Nil steps_bound_Cons)

lemma acc_steps_bound:
  assumes "expand_acc R s" and "wf_rules R" and "wf_stack R s"
  shows "\<exists>n. steps_bound R [s] n"
  using assms
proof (induction s rule: accp_induct_rule)
  case (1 s)
  show ?case
  proof (cases "final_stack R s")
    case True
    have "steps_bound R [s] 1"
      unfolding steps_bound_def
    proof (intro allI)
      fix m todo seen acc
      show "\<exists>k seen' acc'. m \<le> k \<and>
          advance_loop (1 + m) R ([s] @ todo) seen acc = advance_loop k R todo seen' acc'"
        using advance_loop_step [OF 1(3,4), of seen m todo acc] True
        by (cases "s \<in> set seen") (auto intro: exI [of _ m])
    qed
    then show ?thesis ..
  next
    case False
    then obtain p r where s: "s = p # r" by (cases s) auto
    obtain cs where cs: "\<forall>m todo seen acc. s \<notin> set seen \<longrightarrow> advance_loop (Suc m) R (s # todo) seen acc =
        advance_loop m R (rev cs @ todo) (s # seen) acc" "\<forall>t \<in> set cs. child R s t \<and> wf_stack R t"
    proof -
      from 1(4) False s obtain e es where es: "suffix_at R p = e # es" and ref: "gtype e = LLAMA_GRETYPE_RULE_REF"
        by (auto simp: wf_stack_def elim: wf_topE)
      obtain cs where "expand_ref R p r (unat (gvalue e)) = Inr cs"
        "\<forall>t. t \<in> set cs \<longleftrightarrow> child R (p # r) t" "\<forall>t \<in> set cs. wf_stack R t"
        using expand_ref_spec [OF 1(3) 1(4) [unfolded s] es ref] by auto
      with es ref s show thesis by (intro that [of cs]) (auto simp: elem_at_def)
    qed
    have "\<exists>n. steps_bound R (rev cs) n"
      using 1(2) cs(2) 1(3) by (intro steps_bound_list) auto
    then obtain n where n: "steps_bound R (rev cs) n" ..
    have "steps_bound R [s] (Suc n)"
      unfolding steps_bound_def
    proof (intro allI)
      fix m todo seen acc
      show "\<exists>k seen' acc'. m \<le> k \<and>
          advance_loop (Suc n + m) R ([s] @ todo) seen acc = advance_loop k R todo seen' acc'"
      proof (cases "s \<in> set seen")
        case True
        then show ?thesis by (auto intro!: exI [of _ "n + m"])
      next
        case False
        with cs(1) n show ?thesis unfolding steps_bound_def by simp
      qed
    qed
    then show ?thesis ..
  qed
qed

lemma advance_terminates:
  assumes "wf_rules R" and "\<forall>k < length R. Wellfounded.accp (left_corner R (nullable R)) k"
    and "wf_stack R s"
  shows "\<exists>n. \<forall>m \<ge> n. \<forall>acc. \<exists>res. llama_grammar_advance_stack m R s acc = Inr res"
proof -
  obtain n where n: "steps_bound R [s] n"
    using acc_steps_bound [OF stack_acc [OF assms] assms(1,3)] by blast
  have "\<exists>res. llama_grammar_advance_stack m R s acc = Inr res" if "n \<le> m" for m acc
    using n that unfolding steps_bound_def llama_grammar_advance_stack_def
    by (metis advance_loop.simps(1) append.right_neutral le_add_diff_inverse)
  then show ?thesis by blast
qed

section \<open>The check answers exactly\<close>

abbreviation corner_path :: "llama_grammar_rules \<Rightarrow> nat \<Rightarrow> nat \<Rightarrow> bool" where
  "corner_path R \<equiv> (left_corner R (direct_empty R))\<^sup>+\<^sup>+"

lemma accp_no_cycle: "Wellfounded.accp r x \<Longrightarrow> \<not> r\<^sup>+\<^sup>+ x x"
proof (induction rule: accp_induct_rule)
  case (1 x)
  show ?case
  proof
    assume "r\<^sup>+\<^sup>+ x x"
    then obtain y where y: "r\<^sup>*\<^sup>* x y" "r y x"
      by (metis rtranclp.rtrancl_refl tranclp.cases tranclp_into_rtranclp)
    then have "r\<^sup>+\<^sup>+ y y" by (meson rtranclp_into_tranclp2)
    with 1(2) y(2) show False by blast
  qed
qed

lemma detect_cycle:
  shows "llama_grammar_detect_left_recursion fuel R i st = Inr (True, st') \<Longrightarrow> lr_ok R st \<Longrightarrow>
      wf_rules R \<Longrightarrow> open_rules st < fuel \<Longrightarrow>
      (\<forall>j < length R. rules_in_progress st ! j \<longrightarrow> corner_path R i j) \<Longrightarrow>
      \<exists>k < length R. corner_path R k k"
    and "detect_elements fuel R es recurse st = Inr (True, st') \<Longrightarrow> lr_ok R st \<Longrightarrow>
      wf_rules R \<Longrightarrow> open_rules st < fuel \<Longrightarrow> refs_below (length R) es \<Longrightarrow>
      (\<forall>k \<in> corner_refs (direct_empty R) es recurse. \<forall>j < length R.
         rules_in_progress st ! j \<longrightarrow> corner_path R k j) \<Longrightarrow>
      \<exists>k < length R. corner_path R k k"
proof (induction fuel R i st and fuel R es recurse st arbitrary: st' and st'
    rule: llama_grammar_detect_left_recursion_detect_elements.induct)
  case (2 fuel R i st)
  have i: "i < length R" "i < length (rules_in_progress st)"
    using "2.prems"(1) by (auto split: if_splits)
  show ?case
  proof (cases "rules_in_progress st ! i")
    case True
    with i "2.prems"(5) show ?thesis by blast
  next
    case np: False
    have found: "detect_elements fuel R (R ! i) True (lr_enter R i st) = Inr (True, st')"
      using "2.prems"(1) i np by (auto simp: result_simps split: if_splits)
    have "Suc (open_rules (lr_enter R i st)) = open_rules st"
      unfolding open_rules_def lr_enter_simps using np i by (intro filter_Not_update) simp_all
    then have op: "open_rules (lr_enter R i st) < fuel" using "2.prems"(4) by linarith
    have refs: "refs_below (length R) (R ! i)" using "2.prems"(3) i by (simp add: wf_rules_def)
    have "corner_path R k j"
      if k: "left_corner R (direct_empty R) k i" and j: "j < length R" "(rules_in_progress st)[i := True] ! j"
      for k j
    proof (cases "j = i")
      case True
      with k show ?thesis by blast
    next
      case False
      with j "2.prems"(5) have "corner_path R i j" by simp
      with k show ?thesis by (rule tranclp_into_tranclp2)
    qed
    then have "\<forall>k \<in> corner_refs (direct_empty R) (R ! i) True. \<forall>j < length R.
        rules_in_progress (lr_enter R i st) ! j \<longrightarrow> corner_path R k j"
      by (simp add: left_corner_def)
    with "2.IH" [OF _ np found lr_enter_ok [OF "2.prems"(2) i(1)] "2.prems"(3) op refs] i
    show ?thesis by blast
  qed
next
  case (4 fuel R e es recurse st)
  show ?case
  proof (cases "gtype e = LLAMA_GRETYPE_RULE_REF \<and> recurse")
    case True
    let ?k = "unat (gvalue e)"
    have k: "?k < length R" using "4.prems"(5) True by (simp add: refs_below_def)
    obtain b st1 where d: "llama_grammar_detect_left_recursion fuel R ?k st = Inr (b, st1)"
      and ok1: "lr_ok R st1" and ip: "\<not> b \<longrightarrow> rules_in_progress st1 = rules_in_progress st"
      using detect_total(1) [OF "4.prems"(2,3) k "4.prems"(4)] by blast
    show ?thesis
    proof (cases b)
      case b: True
      with d have "llama_grammar_detect_left_recursion fuel R ?k st = Inr (True, st1)" by simp
      from "4.IH"(1) [OF True this "4.prems"(2-4)] "4.prems"(6) True show ?thesis by simp
    next
      case b: False
      have exact: "rules_may_be_empty st1 ! ?k = direct_empty R ?k"
        using detect_sound(1) [OF d b "4.prems"(2)] by simp
      have rest: "detect_elements fuel R es (direct_empty R ?k) st1 = Inr (True, st')"
        using "4.prems"(1) True d b exact by simp
      show ?thesis
        using "4.IH"(2) [OF True d refl b, unfolded exact, OF rest ok1 "4.prems"(3)] "4.prems"(4-6) True ip b
        by (simp add: open_rules_def refs_below_def)
    qed
  next
    case False
    show ?thesis
      using "4.IH"(3) [OF False _ "4.prems"(2-4)] "4.prems"(1,5,6)
      by (simp add: if_not_P [OF False] refs_below_def)
  qed
qed auto

lemma check_rules_cycle:
  assumes "check_rules fuel R is st = Inr (True, st')" and "lr_ok R st" and "wf_rules R"
    and "\<forall>i \<in> set is. i < length R" and "rules_in_progress st = replicate (length R) False"
    and "length R < fuel"
  shows "\<exists>k < length R. corner_path R k k"
  using assms
proof (induction "is" arbitrary: st)
  case (Cons i "is")
  have op: "open_rules st < fuel" using Cons.prems(5,6) by (simp add: open_rules_def)
  show ?case
  proof (cases "rules_visited st ! i")
    case True
    with Cons show ?thesis by simp
  next
    case False
    have i: "i < length R" using Cons.prems(4) by simp
    obtain b st1 where d: "llama_grammar_detect_left_recursion fuel R i st = Inr (b, st1)"
      and ok1: "lr_ok R st1" and ip: "\<not> b \<longrightarrow> rules_in_progress st1 = rules_in_progress st"
      using detect_total(1) [OF Cons.prems(2,3) i op] by blast
    show ?thesis
    proof (cases b)
      case True
      with d detect_cycle(1) [OF _ Cons.prems(2,3) op] Cons.prems(5) show ?thesis by simp
    next
      case b: False
      then show ?thesis
        using Cons.IH [OF _ ok1 Cons.prems(3)] Cons.prems(1,4-6) d ip False by simp
    qed
  qed
qed simp

lemma lr_init_ok: "lr_ok R (lr_init (length R))" "visited_acc R (lr_init (length R))"
  by (auto simp: lr_ok_def lr_init_def visited_acc_def)

text \<open>C4. The left recursion check terminates and answers exactly: with fuel for one nested call per
  rule it returns, and it reports left recursion if and only if some rule can reach itself through
  first positions, where the rules that may be skipped are those with an empty alternate.\<close>

theorem left_recursion_check_exact:
  assumes "wf_rules R" and "length R < fuel"
  shows "has_left_recursion fuel R =
    Inr (\<exists>k < length R. (left_corner R (direct_empty R))\<^sup>+\<^sup>+ k k)"
proof -
  let ?st = "lr_init (length R)"
  have ip: "rules_in_progress ?st = replicate (length R) False" by (simp add: lr_init_def)
  obtain b st' where c: "check_rules fuel R [0..<length R] ?st = Inr (b, st')"
    using check_rules_total [OF lr_init_ok(1) assms(1) _ ip assms(2), of "[0..<length R]"] by auto
  have "b \<longleftrightarrow> (\<exists>k < length R. corner_path R k k)"
  proof (cases b)
    case True
    with c check_rules_cycle [OF _ lr_init_ok(1) assms(1) _ ip assms(2)] show ?thesis by auto
  next
    case False
    have "Wellfounded.accp (left_corner R (direct_empty R)) k" if "k < length R" for k
      using check_rules_sound [OF c [unfolded False [THEN eq_False [THEN iffD2]]] lr_init_ok] that by simp
    then have "\<not> (\<exists>k < length R. corner_path R k k)" by (meson accp_no_cycle)
    with False show ?thesis by simp
  qed
  with c show ?thesis by (simp add: has_left_recursion_def)
qed

lemma has_left_recursion_False:
  assumes "has_left_recursion fuel R = Inr False"
  shows "\<forall>k < length R. Wellfounded.accp (left_corner R (direct_empty R)) k"
proof -
  obtain st' where c: "check_rules fuel R [0..<length R] (lr_init (length R)) = Inr (False, st')"
    using assms by (auto simp: has_left_recursion_def result_simps)
  from check_rules_sound [OF c lr_init_ok] show ?thesis by simp
qed

section \<open>Termination of the engine on checked grammars\<close>

lemma scan_empty_alts:
  assumes "scan_empty_alternate es b" and "wf_seq prev es"
  shows "b \<and> is_eos (hd es) \<or> (\<exists>q \<in> set (alts_after es). q \<noteq> [] \<and> is_eos (hd q))"
  using assms
proof (induction es b arbitrary: prev rule: scan_empty_alternate.induct)
  case (2 e es b)
  show ?case
  proof (cases "is_eos e \<and> b")
    case False
    with 2(3) have ne: "es \<noteq> []" by (auto split: if_splits)
    with "2.prems"(2) have wf: "wf_seq (gtype e) es" and nend: "gtype e \<noteq> LLAMA_GRETYPE_END"
      by auto
    show ?thesis
    proof (cases "is_eos e")
      case True
      with False 2 wf have "is_eos (hd es) \<or> (\<exists>q \<in> set (alts_after es). q \<noteq> [] \<and> is_eos (hd q))"
        by auto
      with True nend ne show ?thesis by (auto simp: is_eos_iff)
    next
      case False
      with 2 wf have "\<exists>q \<in> set (alts_after es). q \<noteq> [] \<and> is_eos (hd q)" by auto
      with False nend show ?thesis by (auto simp: is_eos_iff)
    qed
  qed simp
qed simp

lemma direct_empty_nullable: "wf_rules R \<Longrightarrow> k < length R \<Longrightarrow> direct_empty R k \<Longrightarrow> nullable R k"
proof -
  assume wf: "wf_rules R" and k: "k < length R" and d: "direct_empty R k"
  have ws: "wf_seq LLAMA_GRETYPE_ALT (R ! k)" using wf_rules_nth [OF wf k] by (simp add: wf_rule_def)
  have "\<exists>q \<in> set (alternates (R ! k)). q \<noteq> [] \<and> is_eos (hd q)"
    using scan_empty_alts [OF d [unfolded direct_empty_def] ws] wf_seq_nonempty [OF ws]
    by (auto simp: alternates_def)
  then obtain q where q: "q \<in> set (alternates (R ! k))" "q \<noteq> []" "is_eos (hd q)" by blast
  then have "gen R q []" by (metis gen_end list.exhaust_sel)
  with q(1) show "nullable R k" by (auto simp: nullable_def)
qed

lemma corner_refs_cong:
  assumes "\<forall>k < n. E k = E' k" and "refs_below n es"
  shows "corner_refs E es b = corner_refs E' es b"
  using assms(2) by (induction es arbitrary: b) (auto simp: refs_below_def assms(1))

lemma corner_refs_below: "refs_below n es \<Longrightarrow> k \<in> corner_refs E es b \<Longrightarrow> k < n"
  by (induction es arbitrary: b) (auto simp: refs_below_def split: if_splits)

text \<open>The grammars on which the check is complete: a rule derives the empty word only when it has an
  empty alternate.\<close>

definition empty_by_alternate :: "llama_grammar_rules \<Rightarrow> bool" where
  "empty_by_alternate R = (\<forall>k < length R. nullable R k \<longrightarrow> direct_empty R k)"

lemma checked_corners_acc:
  assumes "wf_rules R" and "has_left_recursion fuel R = Inr False" and "empty_by_alternate R"
  shows "\<forall>k < length R. Wellfounded.accp (left_corner R (nullable R)) k"
proof -
  have eq: "\<forall>k < length R. direct_empty R k = nullable R k"
    using direct_empty_nullable [OF assms(1)] assms(3) by (auto simp: empty_by_alternate_def)
  have lc: "left_corner R (direct_empty R) k i = left_corner R (nullable R) k i"
    if "i < length R" for k i
    using corner_refs_cong [OF eq, of "R ! i" True] assms(1) that
    by (auto simp: left_corner_def wf_rules_def)
  have "Wellfounded.accp (left_corner R (nullable R)) k"
    if "Wellfounded.accp (left_corner R (direct_empty R)) k" "k < length R" for k
    using that
  proof (induction rule: accp_induct_rule)
    case (1 k)
    show ?case
    proof (rule accpI)
      fix j assume j: "left_corner R (nullable R) j k"
      then have "j < length R"
        using corner_refs_below [of "length R" "R ! k"] assms(1) 1(3)
        by (auto simp: left_corner_def wf_rules_def)
      with j 1 lc show "Wellfounded.accp (left_corner R (nullable R)) j" by blast
    qed
  qed
  with has_left_recursion_False [OF assms(2)] show ?thesis by blast
qed

lemma accept_chr_terminates:
  assumes "wf_rules R" and "\<forall>k < length R. Wellfounded.accp (left_corner R (nullable R)) k"
    and "wf_stack R s" and "final_stack R s"
  shows "\<exists>n. \<forall>m \<ge> n. \<forall>acc. \<exists>res. llama_grammar_accept_chr m R s c acc = Inr res"
  using accept_chr_cases [OF assms(3,4), of c] advance_terminates [OF assms(1,2)] by metis

lemma rfold_terminates:
  assumes "\<forall>x \<in> set xs. \<exists>n. \<forall>m \<ge> n. \<forall>acc. \<exists>res. f m x acc = Inr res"
  shows "\<exists>n. \<forall>m \<ge> (n::nat). \<forall>acc. \<exists>res. rfold (f m) xs acc = Inr res"
  using assms
proof (induction xs)
  case (Cons x xs)
  then obtain n1 n2 where n: "\<forall>m \<ge> n1. \<forall>acc. \<exists>res. f m x acc = Inr res"
    "\<forall>m \<ge> n2. \<forall>acc. \<exists>res. rfold (f m) xs acc = Inr res" by auto
  have "\<exists>res. rfold (f m) (x # xs) acc = Inr res" if "max n1 n2 \<le> m" for m acc
    using n that by (metis max.bounded_iff rbind.simps(2) rfold.simps(2))
  then show ?case by blast
qed simp

text \<open>C3. On a well-formed grammar that passes the left recursion check, and whose rules derive the
  empty word only through an empty alternate, the engine terminates: with enough fuel both the
  construction of the initial stacks and the acceptance of a character return stacks; no exception,
  no abort and no access outside a rule is possible.\<close>

theorem engine_terminates:
  assumes "wf_rules R" and "has_left_recursion fuel R = Inr False" and "empty_by_alternate R"
    and "start < length R" and "wf_stacks R ss"
  shows "\<exists>n. \<forall>m \<ge> n. (\<exists>res. init_stacks m R start = Inr res) \<and> (\<exists>res. accept_stacks m R ss c = Inr res)"
proof -
  note acc = checked_corners_acc [OF assms(1-3)]
  obtain n1 where n1: "\<forall>m \<ge> n1. \<forall>acc. \<exists>res. rfold (\<lambda>s. llama_grammar_accept_chr m R s c) ss acc = Inr res"
    using rfold_terminates [of ss "\<lambda>m s. llama_grammar_accept_chr m R s c"]
      accept_chr_terminates [OF assms(1) acc] assms(5) by (auto simp: wf_stacks_def)
  obtain qs where qs: "rule_alternates R start = Inr qs" "\<forall>q \<in> set qs. wf_pos R q"
    using rule_alternates_spec [OF assms(1,4)] by auto
  have "\<exists>n. \<forall>m \<ge> n. \<forall>acc. \<exists>res.
      rbind (push_pos R q []) (\<lambda>s. llama_grammar_advance_stack m R s acc) = Inr res" if "q \<in> set qs" for q
    using advance_terminates [OF assms(1) acc, of "push_suffix R q []"] qs(2) that
      wf_stack_push [of R "[]" q] by (simp add: push_pos_spec wf_stack_def)
  then obtain n2 where n2: "\<forall>m \<ge> n2. \<forall>acc. \<exists>res. rfold (\<lambda>q acc. rbind (push_pos R q [])
      (\<lambda>s. llama_grammar_advance_stack m R s acc)) qs acc = Inr res"
    using rfold_terminates [of qs "\<lambda>m q acc. rbind (push_pos R q [])
      (\<lambda>s. llama_grammar_advance_stack m R s acc)"] by blast
  have "(\<exists>res. init_stacks m R start = Inr res) \<and> (\<exists>res. accept_stacks m R ss c = Inr res)"
    if "max n1 n2 \<le> m" for m
    using n1 n2 that qs(1) by (simp add: init_stacks_def accept_stacks_def)
  then show ?thesis by blast
qed

lemma ab_checked: "has_left_recursion 2 ab_rules = Inr False"
  by code_simp

lemma ab_empty_by_alternate: "empty_by_alternate ab_rules"
  by (simp add: empty_by_alternate_def ab_rules_def nullable_def alternates_def is_class_start_def)

theorem engine_terminates_witness:
  "\<exists>n. \<forall>m \<ge> n. (\<exists>res. init_stacks m ab_rules 0 = Inr res) \<and>
     (\<exists>res. accept_stacks m ab_rules [[(0, 0)], [(0, 3)]] 97 = Inr res)"
proof -
  have "0 < length ab_rules" by (simp add: ab_rules_def)
  moreover have "wf_stacks ab_rules [[(0, 0)], [(0, 3)]]"
    using init_stacks_lang [OF ab_init ab_rules_wf] by (simp add: ab_rules_def)
  ultimately show ?thesis
    by (rule engine_terminates [OF ab_rules_wf ab_checked ab_empty_by_alternate])
qed

theorem left_recursion_check_exact_witness:
  "has_left_recursion 2 ab_rules =
    Inr (\<exists>k < length ab_rules. (left_corner ab_rules (direct_empty ab_rules))\<^sup>+\<^sup>+ k k)"
  by (rule left_recursion_check_exact [OF ab_rules_wf]) (simp add: ab_rules_def)

section \<open>A grammar that passes the check and never returns\<close>

text \<open>\<open>root ::= b root "x"\<close>, \<open>b ::= c\<close>, \<open>c ::= "c" | \<close>: \<open>b\<close> derives the empty word, but only through
  \<open>c\<close>, so the check does not see that \<open>root\<close> is left recursive.\<close>

definition hidden_rules :: llama_grammar_rules where
  "hidden_rules =
    [[El LLAMA_GRETYPE_RULE_REF 1, El LLAMA_GRETYPE_RULE_REF 0, El LLAMA_GRETYPE_CHAR 120,
      El LLAMA_GRETYPE_END 0],
     [El LLAMA_GRETYPE_RULE_REF 2, El LLAMA_GRETYPE_END 0],
     [El LLAMA_GRETYPE_CHAR 99, El LLAMA_GRETYPE_ALT 0, El LLAMA_GRETYPE_END 0]]"

definition hidden_seen :: "nat \<Rightarrow> llama_grammar_stack set" where
  "hidden_seen j = (\<Union>i < j. {(0, 0) # replicate i (0, Suc (Suc 0)), (1, 0) # (0, 1) # replicate i (0, Suc (Suc 0)),
     (0, 1) # replicate i (0, Suc (Suc 0))})"

lemma hidden_loop:
  "set seen \<subseteq> hidden_seen j \<Longrightarrow>
    advance_loop n hidden_rules (((0, 0) # replicate j (0, Suc (Suc 0))) # todo) seen acc = Inl OutOfFuel"
proof (induction n arbitrary: j todo seen acc rule: less_induct)
  case (less n)
  let ?r = "replicate j (0::nat, Suc (Suc 0))"
  let ?A = "(0, 0) # ?r" and ?B = "(1, 0) # (0, 1) # ?r" and ?D = "(0, 1) # ?r"
  have notin: "?A \<notin> set seen" "?B \<notin> set seen" "?D \<notin> set seen"
    using less.prems by (auto simp: hidden_seen_def)
  have sub: "set (?D # ?B # ?A # seen) \<subseteq> hidden_seen (Suc j)"
    using less.prems by (auto simp: hidden_seen_def less_Suc_eq)
  have IH: "advance_loop k hidden_rules (((0, 0) # (0, Suc (Suc 0)) # ?r) # todo') (?D # ?B # ?A # seen) acc =
      Inl OutOfFuel" if "k < n" for k todo'
    using less.IH [OF that sub] by simp
  have "n = 0 \<or> n = Suc 0 \<or> n = Suc (Suc 0) \<or> (\<exists>k. n = Suc (Suc (Suc k)))" by presburger
  with notin IH show ?case
    by (auto simp: hidden_rules_def elem_at_def suffix_at_def expand_ref_def
        rule_alternates_def next_stack_def push_pos_def llama_grammar_is_end_of_sequence_def is_eos_def
        psucc_def)
qed

text \<open>C5. The condition in the termination theorem is needed: this well-formed grammar passes the left
  recursion check, and building its initial stacks does not return, whatever the fuel.\<close>

theorem hidden_left_recursion_diverges:
  "wf_rules hidden_rules \<and> has_left_recursion 4 hidden_rules = Inr False \<and>
   (\<forall>n. init_stacks n hidden_rules 0 = Inl OutOfFuel)"
proof (intro conjI allI)
  show "wf_rules hidden_rules"
    by (simp add: hidden_rules_def wf_rules_def wf_rule_def refs_below_def modifies_ok_def)
  show "has_left_recursion 4 hidden_rules = Inr False"
    by code_simp
  fix n
  have "advance_loop n hidden_rules [[(0, 0)]] [] [] = Inl OutOfFuel"
    using hidden_loop [of "[]" 0 n "[]" "[]"] by simp
  then show "init_stacks n hidden_rules 0 = Inl OutOfFuel"
    by (simp add: init_stacks_def rule_alternates_def hidden_rules_def push_pos_def
        llama_grammar_is_end_of_sequence_def elem_at_def suffix_at_def is_eos_def
        llama_grammar_advance_stack_def)
qed

end
