(* ===== verification/Grammar_Reject.thy ===== *)
theory Grammar_Reject
  imports Grammar_Left_Recursion "HOL-Library.Multiset"
begin

text \<open>
  Filtering the candidate tokens of a sampling step (\<open>llama_grammar_reject_candidates\<close> and
  \<open>llama_grammar_reject_candidates_for_stack\<close> of \<open>src/llama-grammar.cpp\<close>). A candidate points
  into the zero-terminated code points of its token; the pointer is the list and a position in it.

  The two functions call each other: the depth of the recursion is bounded by the number of code
  points of a candidate, which is the first argument of the model; the second one is the fuel of the
  stack expansion.
\<close>

section \<open>Candidates\<close>

record llama_grammar_candidate =
  cindex :: nat
  cps :: "u32 list"
  cp_pos :: nat
  cpartial :: llama_partial_utf8
  cid :: llama_token

definition cp_at :: "llama_grammar_candidate \<Rightarrow> u32 result" where
  "cp_at tok = (if cp_pos tok < length (cps tok) then Inr (cps tok ! cp_pos tok) else Inl Undefined)"

definition cand_next :: "llama_grammar_candidate \<Rightarrow> llama_grammar_candidate" where
  "cand_next tok = tok\<lparr>cp_pos := cp_pos tok + 1\<rparr>"

definition cand_prev :: "llama_grammar_candidate \<Rightarrow> llama_grammar_candidate" where
  "cand_prev tok = tok\<lparr>cp_pos := cp_pos tok - 1\<rparr>"

section \<open>The filter\<close>

text \<open>The loops over the candidates for an empty stack, for a stack whose top is a token, and for a
  stack whose top is a character class (which also collects the candidates to look at further).\<close>

definition reject_at_end ::
  "llama_grammar_candidate \<Rightarrow> llama_grammar_candidate list \<Rightarrow> llama_grammar_candidate list result" where
  "reject_at_end tok rejects =
     rbind (cp_at tok) (\<lambda>c.
     Inr (if c \<noteq> 0 \<or> n_remain (cpartial tok) \<noteq> 0 then rejects @ [tok] else rejects))"

definition reject_at_token ::
  "llama_grammar_rules \<Rightarrow> gpos \<Rightarrow> llama_grammar_candidate \<Rightarrow> llama_grammar_candidate list \<Rightarrow>
     llama_grammar_candidate list result" where
  "reject_at_token R pos tok rejects =
     rbind (cp_at tok) (\<lambda>c.
     if c = 0 then Inr (if n_remain (cpartial tok) \<noteq> 0 then rejects @ [tok] else rejects)
     else rbind (llama_grammar_match_token R pos (cid tok)) (\<lambda>b.
       Inr (if \<not> b then rejects @ [tok] else rejects)))"

definition reject_at_char ::
  "llama_grammar_rules \<Rightarrow> gpos \<Rightarrow> llama_grammar_candidate \<Rightarrow>
     llama_grammar_candidate list \<times> llama_grammar_candidate list \<Rightarrow>
     (llama_grammar_candidate list \<times> llama_grammar_candidate list) result" where
  "reject_at_char R pos tok acc =
     rbind (cp_at tok) (\<lambda>c.
     if c = 0 then
       if n_remain (cpartial tok) \<noteq> 0 then
         rbind (llama_grammar_match_partial_char R pos (cpartial tok)) (\<lambda>b.
         Inr (if \<not> b then (fst acc @ [tok], snd acc) else acc))
       else Inr acc
     else rbind (llama_grammar_match_char R pos c) (\<lambda>(matched, after).
       Inr (if matched then (fst acc, snd acc @ [cand_next tok]) else (fst acc @ [tok], snd acc))))"

text \<open>\<open>llama_grammar_reject_candidates\<close>, over the filter for one stack.\<close>

definition reject_over ::
  "(llama_grammar_stack \<Rightarrow> llama_grammar_candidate list \<Rightarrow> llama_grammar_candidate list result) \<Rightarrow>
     llama_grammar_stacks \<Rightarrow> llama_grammar_candidate list \<Rightarrow> llama_grammar_candidate list result" where
  "reject_over for_stack stacks candidates =
     rbind (rassert ''!stacks.empty()'' (stacks \<noteq> [])) (\<lambda>_.
     if candidates = [] then Inr []
     else rbind (for_stack (hd stacks) candidates) (\<lambda>rejects.
       rfold for_stack (tl stacks) rejects))"

fun llama_grammar_reject_candidates_for_stack ::
  "nat \<Rightarrow> nat \<Rightarrow> llama_grammar_rules \<Rightarrow> llama_grammar_stack \<Rightarrow> llama_grammar_candidate list \<Rightarrow>
     llama_grammar_candidate list result" where
  "llama_grammar_reject_candidates_for_stack d fuel R [] candidates =
     rfold reject_at_end candidates []"
| "llama_grammar_reject_candidates_for_stack 0 fuel R (pos # rest) candidates = Inl OutOfFuel"
| "llama_grammar_reject_candidates_for_stack (Suc d) fuel R (pos # rest) candidates =
     rbind (elem_at R pos) (\<lambda>e.
     if is_token_element e then rfold (reject_at_token R pos) candidates []
     else
       rbind (rfold (reject_at_char R pos) candidates ([], [])) (\<lambda>(rejects, next_candidates).
       rbind (llama_grammar_match_char R pos 0) (\<lambda>(matched, after).
       rbind (push_pos R after rest) (\<lambda>stack_after.
       rbind (llama_grammar_advance_stack fuel R stack_after []) (\<lambda>next_stacks.
       rbind (reject_over (llama_grammar_reject_candidates_for_stack d fuel R)
                next_stacks next_candidates) (\<lambda>next_rejects.
       Inr (rejects @ map cand_prev next_rejects)))))))"

definition llama_grammar_reject_candidates ::
  "nat \<Rightarrow> nat \<Rightarrow> llama_grammar_rules \<Rightarrow> llama_grammar_stacks \<Rightarrow> llama_grammar_candidate list \<Rightarrow>
     llama_grammar_candidate list result" where
  "llama_grammar_reject_candidates d fuel R =
     reject_over (llama_grammar_reject_candidates_for_stack d fuel R)"

section \<open>Which candidates fit\<close>

text \<open>
  The code points a candidate still has to match, and the reference predicate: the code points can be
  consumed along some expansion of the stack, a token element takes the rest of the token when its
  identifier matches, and a pending incomplete sequence may still become an accepted character.
\<close>

definition rest_cps :: "llama_grammar_candidate \<Rightarrow> u32 list" where
  "rest_cps tok = takeWhile (\<lambda>c. c \<noteq> 0) (drop (cp_pos tok) (cps tok))"

definition wf_cand :: "llama_grammar_candidate \<Rightarrow> bool" where
  "wf_cand tok = (0 \<in> set (drop (cp_pos tok) (cps tok)))"

definition overlaps :: "u32 \<Rightarrow> u32 \<Rightarrow> (u32 \<times> u32) list \<Rightarrow> bool" where
  "overlaps low high rs = (\<exists>(lo, hi) \<in> set rs. lo \<le> high \<and> low \<le> hi)"

definition partial_match :: "llama_grammar_element list \<Rightarrow> llama_partial_utf8 \<Rightarrow> bool" where
  "partial_match es pu =
     (\<not> (n_remain pu < 0 \<or> (n_remain pu = 1 \<and> pvalue pu < 2)) \<and>
      overlaps (partial_low pu) (partial_high pu) (class_ranges es) = is_positive_char (hd es))"

fun passes :: "llama_grammar_rules \<Rightarrow> llama_partial_utf8 \<Rightarrow> llama_token \<Rightarrow> u32 list \<Rightarrow>
    llama_grammar_stack \<Rightarrow> bool" where
  "passes R pu i [] s =
     (n_remain pu = 0 \<or>
      (s \<noteq> [] \<and> is_class_start (hd (suffix_at R (hd s))) \<and> partial_match (suffix_at R (hd s)) pu))"
| "passes R pu i (c # cs) s =
     (s \<noteq> [] \<and>
      (if is_token_element (hd (suffix_at R (hd s))) then token_accepts (hd (suffix_at R (hd s))) i
       else \<exists>t \<in> chr_succ R c s. passes R pu i cs t))"

abbreviation cand_passes :: "llama_grammar_rules \<Rightarrow> llama_grammar_candidate \<Rightarrow> llama_grammar_stack \<Rightarrow> bool" where
  "cand_passes R tok s \<equiv> passes R (cpartial tok) (cid tok) (rest_cps tok) s"

section \<open>The incomplete sequence at the end of a token\<close>

lemma overlaps_simps [simp]:
  "overlaps low high [] = False"
  "overlaps low high ((lo, hi) # rs) = ((lo \<le> high \<and> low \<le> hi) \<or> overlaps low high rs)"
  by (auto simp: overlaps_def)

lemma match_partial_loop_spec:
  assumes "wf_seq prev es" "gtype (hd es) \<noteq> LLAMA_GRETYPE_END"
    "gtype (hd es) = LLAMA_GRETYPE_CHAR_ANY \<Longrightarrow> positive"
  shows "\<exists>r. match_partial_loop es low high positive = Inr r \<and>
    (case r of Some b \<Rightarrow> b | None \<Rightarrow> \<not> positive) = (overlaps low high (class_ranges es) = positive)"
  using assms
proof (induction es low high positive arbitrary: prev rule: match_partial_loop.induct)
  case (1 e e1 es low high positive)
  have wf1: "wf_seq (gtype e) (e1 # es)" using "1.prems"(1,2) by (auto split: if_splits)
  show ?case
  proof (cases "gtype e1 = LLAMA_GRETYPE_CHAR_RNG_UPPER")
    case True
    with wf1 obtain e2 es2 where es: "es = e2 # es2" and wf2: "wf_seq (gtype e1) es" by (cases es) auto
    then show ?thesis
      using True "1.IH"(1) [of e2 es2 "gtype e1"]
      by (cases "gtype e2 = LLAMA_GRETYPE_CHAR_ALT") auto
  next
    case False
    then show ?thesis
      using "1.IH"(2) [of "gtype e"] wf1 "1.prems"(3)
      by (cases "gtype e1 = LLAMA_GRETYPE_CHAR_ALT") auto
  qed
qed auto

lemma match_partial_spec:
  assumes "wf_suffix (suffix_at R p)" and "suffix_at R p = e # es" and "is_class_start e"
  shows "llama_grammar_match_partial_char R p pu = Inr (partial_match (e # es) pu)"
proof -
  from assms obtain prev where wf: "wf_seq prev (e # es)" by (auto elim: wf_suffixE)
  have "gtype (hd (e # es)) \<noteq> LLAMA_GRETYPE_END" and
    any: "gtype (hd (e # es)) = LLAMA_GRETYPE_CHAR_ANY \<Longrightarrow> is_positive_char e"
    using assms(3) by (auto simp: element_defs)
  from match_partial_loop_spec [OF wf this, of "partial_low pu" "partial_high pu"] obtain r
    where r: "match_partial_loop (e # es) (partial_low pu) (partial_high pu) (is_positive_char e) = Inr r"
      "(case r of Some b \<Rightarrow> b | None \<Rightarrow> \<not> is_positive_char e) =
       (overlaps (partial_low pu) (partial_high pu) (class_ranges (e # es)) = is_positive_char e)" by blast
  have ok: "is_positive_char e \<or> gtype e = LLAMA_GRETYPE_CHAR_NOT"
    using assms(3) by (auto simp: element_defs)
  show ?thesis
    unfolding partial_match_def list.sel r(2) [symmetric]
    by (cases r) (simp_all add: llama_grammar_match_partial_char_def elem_at_def rassert_def ok r(1) assms(2))
qed

text \<open>
  What \<open>llama_grammar_match_partial_char\<close> decides about a token that ends inside a UTF-8
  sequence, where \<open>partial_low\<close> and \<open>partial_high\<close> bound the code points the sequence can become
  and the ranges of the class are not reversed: for a class \<open>[...]\<close> it answers yes if and only if
  some of these code points is in the class, and for an inverted class \<open>[^...]\<close> if and only if all
  of them are.
\<close>

lemma match_partial_char_range:
  assumes "wf_suffix (suffix_at R p)" "suffix_at R p = e # es" "is_class_start e"
    and "0 \<le> n_remain pu" "\<not> (n_remain pu = 1 \<and> pvalue pu < 2)"
    and "partial_low pu \<le> partial_high pu"
    and "\<forall>(lo, hi) \<in> set (class_ranges (e # es)). lo \<le> hi"
  shows "llama_grammar_match_partial_char R p pu =
    Inr (if is_positive_char e
         then \<exists>c. partial_low pu \<le> c \<and> c \<le> partial_high pu \<and> class_accepts (e # es) c
         else \<forall>c. partial_low pu \<le> c \<and> c \<le> partial_high pu \<longrightarrow> class_accepts (e # es) c)"
proof -
  let ?low = "partial_low pu" and ?high = "partial_high pu" and ?rs = "class_ranges (e # es)"
  have meet: "overlaps ?low ?high ?rs \<longleftrightarrow> (\<exists>c. ?low \<le> c \<and> c \<le> ?high \<and> in_ranges c ?rs)"
  proof
    assume "overlaps ?low ?high ?rs"
    then obtain lo hi where r: "(lo, hi) \<in> set ?rs" "lo \<le> ?high" "?low \<le> hi"
      by (auto simp: overlaps_def)
    then have "lo \<le> hi" using assms(7) by auto
    then have "?low \<le> max lo ?low \<and> max lo ?low \<le> ?high \<and> in_ranges (max lo ?low) ?rs"
      using r assms(6) by (auto simp: in_ranges_def intro!: bexI [OF _ r(1)])
    then show "\<exists>c. ?low \<le> c \<and> c \<le> ?high \<and> in_ranges c ?rs" by blast
  next
    assume "\<exists>c. ?low \<le> c \<and> c \<le> ?high \<and> in_ranges c ?rs"
    then obtain c lo hi where "?low \<le> c" "c \<le> ?high" "(lo, hi) \<in> set ?rs" "lo \<le> c" "c \<le> hi"
      by (auto simp: in_ranges_def)
    then show "overlaps ?low ?high ?rs"
      unfolding overlaps_def by (intro bexI [of _ "(lo, hi)"]) (auto intro: order_trans)
  qed
  have "\<not> (n_remain pu < 0 \<or> (n_remain pu = 1 \<and> pvalue pu < 2))" using assms(4,5) by auto
  then show ?thesis
    using match_partial_spec [OF assms(1-3), of pu] meet
    by (auto simp: partial_match_def class_accepts_def)
qed

definition e_acute_rules :: llama_grammar_rules where
  "e_acute_rules = [[El LLAMA_GRETYPE_CHAR_NOT 0xe9, El LLAMA_GRETYPE_END 0]]"

text \<open>
  The comment of the function promises an answer for "some continuation" in both cases. For
  \<open>[^\<close>U+00E9\<open>]\<close> and the lead byte \<open>0xC3\<close> it answers no, although U+00E8 would be accepted.
\<close>

lemma partial_char_rejects_allowed:
  "llama_grammar_match_partial_char e_acute_rules (0, 0) \<lparr>pvalue = 3, n_remain = 1\<rparr> = Inr False"
  "llama_grammar_match_char e_acute_rules (0, 0) 0xe8 = Inr (True, (0, 1))"
  by code_simp+

section \<open>The filter keeps exactly the candidates that fit\<close>

lemma cp_at_spec:
  assumes "wf_cand tok"
  shows "cp_at tok = Inr (case rest_cps tok of [] \<Rightarrow> 0 | c # _ \<Rightarrow> c)"
proof -
  obtain y ys where d: "drop (cp_pos tok) (cps tok) = y # ys"
    using assms by (cases "drop (cp_pos tok) (cps tok)") (auto simp: wf_cand_def)
  then have "cp_pos tok < length (cps tok)" by (metis drop_all linorder_not_le list.distinct(1))
  then show ?thesis using d by (auto simp: cp_at_def rest_cps_def drop_eq_Cons_nth)
qed

lemma rest_cps_nonzero: "0 \<notin> set (rest_cps tok)"
  by (auto simp: rest_cps_def dest: set_takeWhileD)

lemma cand_next_spec:
  assumes "wf_cand tok" "rest_cps tok = c # cs"
  shows "wf_cand (cand_next tok)" "rest_cps (cand_next tok) = cs" "cand_prev (cand_next tok) = tok"
    "cpartial (cand_next tok) = cpartial tok" "cid (cand_next tok) = cid tok"
proof -
  obtain ys where ys: "drop (cp_pos tok) (cps tok) = c # ys" "c \<noteq> 0"
    using assms(2) by (cases "drop (cp_pos tok) (cps tok)") (auto simp: rest_cps_def split: if_splits)
  then have "drop (Suc (cp_pos tok)) (cps tok) = ys" by (metis drop_Suc list.sel(3) tl_drop)
  then show "wf_cand (cand_next tok)" "rest_cps (cand_next tok) = cs"
    using assms ys by (auto simp: wf_cand_def rest_cps_def cand_next_def)
qed (simp_all add: cand_next_def cand_prev_def)

text \<open>A loop that appends the elements with a property.\<close>

lemma rfold_filter:
  assumes "\<And>x acc. x \<in> set xs \<Longrightarrow> f x acc = Inr (if P x then acc @ [x] else acc)"
  shows "rfold f xs acc = Inr (acc @ filter P xs)"
  using assms by (induction xs arbitrary: acc) auto

lemma reject_at_end_spec:
  assumes "\<forall>tok\<in>set ts. wf_cand tok"
  shows "rfold reject_at_end ts [] = Inr (filter (\<lambda>tok. \<not> cand_passes R tok []) ts)"
proof -
  have "reject_at_end tok acc = Inr (if \<not> cand_passes R tok [] then acc @ [tok] else acc)"
    if "tok \<in> set ts" for tok acc
    using that assms rest_cps_nonzero [of tok]
    by (cases "rest_cps tok") (auto simp: reject_at_end_def cp_at_spec)
  then show ?thesis by (simp add: rfold_filter)
qed

lemma reject_at_token_spec:
  assumes "\<forall>tok\<in>set ts. wf_cand tok" "suffix_at R p = e # es" "is_token_element e"
  shows "rfold (reject_at_token R p) ts [] = Inr (filter (\<lambda>tok. \<not> cand_passes R tok (p # s)) ts)"
proof -
  have nc: "\<not> is_class_start e" using assms(3) class_not_token by blast
  have "reject_at_token R p tok acc = Inr (if \<not> cand_passes R tok (p # s) then acc @ [tok] else acc)"
    if "tok \<in> set ts" for tok acc
    using that assms nc rest_cps_nonzero [of tok] match_token_spec [OF assms(2,3)]
    by (cases "rest_cps tok") (auto simp: reject_at_token_def cp_at_spec)
  then show ?thesis by (simp add: rfold_filter)
qed

text \<open>The loop for a character class: the rejects are the candidates that fail here, and the others
  with code points left are the next candidates.\<close>

definition fails_here :: "llama_grammar_element list \<Rightarrow> llama_grammar_candidate \<Rightarrow> bool" where
  "fails_here es tok = (case rest_cps tok of
     [] \<Rightarrow> n_remain (cpartial tok) \<noteq> 0 \<and> \<not> partial_match es (cpartial tok)
   | c # _ \<Rightarrow> \<not> class_accepts es c)"

definition goes_on :: "llama_grammar_element list \<Rightarrow> llama_grammar_candidate \<Rightarrow> bool" where
  "goes_on es tok = (case rest_cps tok of [] \<Rightarrow> False | c # _ \<Rightarrow> class_accepts es c)"

lemma reject_at_char_spec:
  assumes "\<forall>tok\<in>set ts. wf_cand tok" "wf_suffix (suffix_at R p)" "suffix_at R p = e # es" "is_class_start e"
  shows "rfold (reject_at_char R p) ts (rs, ns) =
    Inr (rs @ filter (fails_here (e # es)) ts, ns @ map cand_next (filter (goes_on (e # es)) ts))"
  using assms(1)
proof (induction ts arbitrary: rs ns)
  case (Cons tok ts)
  have "reject_at_char R p tok (rs, ns) =
      Inr (if fails_here (e # es) tok then rs @ [tok] else rs,
           if goes_on (e # es) tok then ns @ [cand_next tok] else ns)"
    using Cons.prems rest_cps_nonzero [of tok] match_char_spec [OF assms(2-4)]
      match_partial_spec [OF assms(2-4)]
    by (cases "rest_cps tok") (auto simp: reject_at_char_def cp_at_spec fails_here_def goes_on_def)
  then show ?case using Cons by simp
qed simp

definition filters ::
  "(llama_grammar_candidate list \<Rightarrow> llama_grammar_candidate list result) \<Rightarrow>
   (llama_grammar_candidate \<Rightarrow> bool) \<Rightarrow> (llama_grammar_candidate \<Rightarrow> bool) \<Rightarrow> bool" where
  "filters g Q P \<longleftrightarrow>
     (\<forall>ts. (\<forall>tok\<in>set ts. Q tok) \<longrightarrow> (\<exists>rej. g ts = Inr rej \<and> mset rej = filter_mset P (mset ts)))"

lemma filters_rfold:
  assumes "\<forall>s\<in>set ss. filters (g s) Q (\<lambda>tok. \<not> P tok s)"
  shows "filters (rfold g ss) Q (\<lambda>tok. \<forall>s\<in>set ss. \<not> P tok s)"
  using assms
proof (induction ss)
  case Nil
  then show ?case by (simp add: filters_def)
next
  case (Cons s ss)
  show ?case unfolding filters_def
  proof (intro allI impI)
    fix ts assume Q: "\<forall>tok\<in>set ts. Q tok"
    then obtain r1 where r1: "g s ts = Inr r1" "mset r1 = filter_mset (\<lambda>tok. \<not> P tok s) (mset ts)"
      using Cons.prems by (auto simp: filters_def)
    have "set_mset (mset r1) \<subseteq> set_mset (mset ts)" unfolding r1(2) by simp
    then have "\<forall>tok\<in>set r1. Q tok" using Q by auto
    moreover have "filters (rfold g ss) Q (\<lambda>tok. \<forall>s\<in>set ss. \<not> P tok s)" using Cons by simp
    ultimately obtain r2 where "rfold g ss r1 = Inr r2"
        "mset r2 = filter_mset (\<lambda>tok. \<forall>s\<in>set ss. \<not> P tok s) (mset r1)"
      unfolding filters_def by blast
    then show "\<exists>rej. rfold g (s # ss) ts = Inr rej \<and>
        mset rej = filter_mset (\<lambda>tok. \<forall>s'\<in>set (s # ss). \<not> P tok s') (mset ts)"
      using r1 by (simp add: filter_filter_mset)
  qed
qed

lemma filters_reject_over:
  assumes "ss \<noteq> []" "\<forall>s\<in>set ss. filters (g s) Q (\<lambda>tok. \<not> P tok s)"
  shows "filters (reject_over g ss) Q (\<lambda>tok. \<forall>s\<in>set ss. \<not> P tok s)"
proof -
  have "reject_over g ss ts = (if ts = [] then Inr [] else rfold g ss ts)" for ts
    using assms(1) by (cases ss) (auto simp: reject_over_def rassert_def)
  then show ?thesis using filters_rfold [OF assms(2)] by (auto simp: filters_def)
qed

text \<open>The filter for a stack whose top is a character class, from the filter for the stacks that
  follow.\<close>

lemma chr_succ_class:
  assumes "suffix_at R p = e # es" "is_class_start e"
  shows "chr_succ R c (p # s) =
    (if class_accepts (e # es) c then finals_of R (push_suffix R (padd p (class_length (e # es))) s) else {})"
  using assms by (simp add: chr_succ_def)

lemma image_mset_inverse:
  "(\<And>x. x \<in># M \<Longrightarrow> g (f x) = x) \<Longrightarrow> image_mset g (image_mset f M) = M"
  by (induction M) auto

lemma reject_class_mset:
  assumes ts: "\<forall>tok\<in>set ts. wf_cand tok" and p: "suffix_at R p = e # es" "is_class_start e"
    and F: "F = finals_of R (push_suffix R (padd p (class_length (e # es))) s)"
    and nr: "mset nr = filter_mset (\<lambda>tok. \<forall>t\<in>F. \<not> cand_passes R tok t)
                         (mset (map cand_next (filter (goes_on (e # es)) ts)))"
  shows "mset (filter (fails_here (e # es)) ts @ map cand_prev nr) =
         filter_mset (\<lambda>tok. \<not> cand_passes R tok (p # s)) (mset ts)"
proof -
  let ?go = "goes_on (e # es)" and ?fail = "fails_here (e # es)"
  have goes: "\<exists>c cs. rest_cps tok = c # cs \<and> class_accepts (e # es) c" if "?go tok" for tok
    using that by (auto simp: goes_on_def split: list.splits)
  have nt: "\<not> is_token_element e" using p(2) class_not_token by blast
  have "image_mset cand_prev (mset nr) = image_mset cand_prev (image_mset cand_next
      (filter_mset (\<lambda>tok. \<forall>t\<in>F. \<not> cand_passes R (cand_next tok) t) (filter_mset ?go (mset ts))))"
    unfolding nr by (simp add: filter_mset_image_mset)
  also have "\<dots> = filter_mset (\<lambda>tok. \<forall>t\<in>F. \<not> cand_passes R (cand_next tok) t) (filter_mset ?go (mset ts))"
  proof (rule image_mset_inverse)
    fix tok
    assume "tok \<in># filter_mset (\<lambda>tok. \<forall>t\<in>F. \<not> cand_passes R (cand_next tok) t) (filter_mset ?go (mset ts))"
    then have "wf_cand tok" "?go tok" using ts by auto
    then show "cand_prev (cand_next tok) = tok" using goes [of tok] cand_next_spec(3) by blast
  qed
  also have "\<dots> = filter_mset (\<lambda>tok. ?go tok \<and> \<not> cand_passes R tok (p # s)) (mset ts)"
    unfolding filter_filter_mset
  proof (rule filter_mset_cong [OF refl])
    fix tok assume "tok \<in># mset ts"
    then have wf: "wf_cand tok" using ts by simp
    show "(?go tok \<and> (\<forall>t\<in>F. \<not> cand_passes R (cand_next tok) t)) =
        (?go tok \<and> \<not> cand_passes R tok (p # s))"
    proof (cases "?go tok")
      case True
      then obtain c cs where c: "rest_cps tok = c # cs" "class_accepts (e # es) c" using goes by blast
      then show ?thesis
        using True cand_next_spec [OF wf c(1)] chr_succ_class [OF p, of c s] nt p F by simp
    qed simp
  qed
  finally have prev: "mset (map cand_prev nr) = filter_mset (\<lambda>tok. ?go tok \<and> \<not> cand_passes R tok (p # s)) (mset ts)"
    by simp
  have "mset (filter ?fail ts) = filter_mset (\<lambda>tok. \<not> ?go tok \<and> \<not> cand_passes R tok (p # s)) (mset ts)"
    unfolding mset_filter
    using nt p chr_succ_class [OF p]
    by (intro filter_mset_cong [OF refl]) (auto simp: fails_here_def goes_on_def split: list.splits)
  then have "mset (filter ?fail ts @ map cand_prev nr) =
      filter_mset (\<lambda>tok. \<not> ?go tok \<and> \<not> cand_passes R tok (p # s)) (mset ts) +
      filter_mset (\<lambda>tok. ?go tok \<and> \<not> cand_passes R tok (p # s)) (mset ts)"
    using prev by simp
  also have "\<dots> = filter_mset (\<lambda>tok. \<not> cand_passes R tok (p # s)) (mset ts)"
    by (induction ts) auto
  finally show ?thesis .
qed

lemma eventually_list:
  "(\<And>x. x \<in> set xs \<Longrightarrow> \<exists>n. \<forall>m \<ge> n. P m x) \<Longrightarrow> \<exists>n. \<forall>m \<ge> (n :: nat). \<forall>x \<in> set xs. P m x"
proof (induction xs)
  case (Cons x xs)
  obtain n1 where n1: "\<forall>m \<ge> n1. P m x" using Cons.prems [of x] by auto
  obtain n2 where n2: "\<forall>m \<ge> n2. \<forall>x \<in> set xs. P m x" using Cons.IH Cons.prems by auto
  have "\<forall>m \<ge> max n1 n2. \<forall>y \<in> set (x # xs). P m y" using n1 n2 by simp
  then show ?case by blast
qed simp

text \<open>What the filter needs of the expansion of stacks: it returns, and it returns some stack.\<close>

definition expands :: "llama_grammar_rules \<Rightarrow> bool" where
  "expands R \<longleftrightarrow> (\<forall>t. wf_stack R t \<longrightarrow> finals_of R t \<noteq> {} \<and>
     (\<exists>n. \<forall>m \<ge> n. \<exists>res. llama_grammar_advance_stack m R t [] = Inr res))"

lemma filters_class:
  assumes wf: "wf_rules R" and s: "wf_stack R (p # r)"
    and p: "suffix_at R p = e # es" "wf_suffix (e # es)" "is_class_start e"
    and adv: "llama_grammar_advance_stack m R (push_suffix R (padd p (class_length (e # es))) r) [] = Inr res"
    and nxt: "filters (reject_over (llama_grammar_reject_candidates_for_stack d m R) res)
      (\<lambda>tok. wf_cand tok \<and> length (rest_cps tok) < d) (\<lambda>tok. \<forall>t\<in>set res. \<not> cand_passes R tok t)"
  shows "filters (llama_grammar_reject_candidates_for_stack (Suc d) m R (p # r))
    (\<lambda>tok. wf_cand tok \<and> length (rest_cps tok) \<le> d) (\<lambda>tok. \<not> cand_passes R tok (p # r))"
  unfolding filters_def
proof (intro allI impI)
  fix ts assume Q: "\<forall>tok\<in>set ts. wf_cand tok \<and> length (rest_cps tok) \<le> d"
  let ?F = "finals_of R (push_suffix R (padd p (class_length (e # es))) r)"
  let ?ns = "map cand_next (filter (goes_on (e # es)) ts)"
  note after = wf_after_class [OF s p(1,3)]
  have res: "set res = ?F" using advance_stack_spec(1) [OF adv wf] after by simp
  have "wf_cand (cand_next tok) \<and> length (rest_cps (cand_next tok)) < d"
    if "tok \<in> set ts" "goes_on (e # es) tok" for tok
    using that Q cand_next_spec(1,2) [of tok] by (cases "rest_cps tok") (auto simp: goes_on_def)
  then have "\<forall>tok\<in>set ?ns. wf_cand tok \<and> length (rest_cps tok) < d" by auto
  then obtain nr where nr: "reject_over (llama_grammar_reject_candidates_for_stack d m R) res ?ns = Inr nr"
      "mset nr = filter_mset (\<lambda>tok. \<forall>t\<in>?F. \<not> cand_passes R tok t) (mset ?ns)"
    using nxt unfolding filters_def res by blast
  have "llama_grammar_reject_candidates_for_stack (Suc d) m R (p # r) ts =
      Inr (filter (fails_here (e # es)) ts @ map cand_prev nr)"
    using reject_at_char_spec [of ts R p e es "[]" "[]"] Q p match_char_spec [of R p e es 0] after adv nr(1)
      class_not_token [OF p(3)]
    by (simp add: elem_at_def push_pos_spec)
  then show "\<exists>rej. llama_grammar_reject_candidates_for_stack (Suc d) m R (p # r) ts = Inr rej \<and>
      mset rej = filter_mset (\<lambda>tok. \<not> cand_passes R tok (p # r)) (mset ts)"
    using reject_class_mset [OF _ p(1,3) refl nr(2)] Q by blast
qed

lemma filters_for_stack_step:
  assumes wf: "wf_rules R" and ex: "expands R" and s: "wf_stack R s" "final_stack R s"
    and nxt: "\<And>t. 0 < d \<Longrightarrow> wf_stack R t \<Longrightarrow> final_stack R t \<Longrightarrow>
      \<exists>n. \<forall>m \<ge> n. filters (llama_grammar_reject_candidates_for_stack d m R t)
        (\<lambda>tok. wf_cand tok \<and> length (rest_cps tok) < d) (\<lambda>tok. \<not> cand_passes R tok t)"
  shows "\<exists>n. \<forall>m \<ge> n. filters (llama_grammar_reject_candidates_for_stack (Suc d) m R s)
           (\<lambda>tok. wf_cand tok \<and> length (rest_cps tok) \<le> d) (\<lambda>tok. \<not> cand_passes R tok s)"
proof (cases s)
  case Nil
  then show ?thesis using reject_at_end_spec [of _ R] by (auto simp: filters_def)
next
  case (Cons p r)
  obtain e es where p: "suffix_at R p = e # es" "wf_suffix (e # es)"
    and kind: "is_class_start e \<or> is_token_element e"
    using wf_final_topE s Cons by blast
  show ?thesis
  proof (cases "is_class_start e")
    case False
    then have "is_token_element e" using kind by blast
    then show ?thesis using Cons p reject_at_token_spec [of _ R p e es r] by (auto simp: filters_def elem_at_def)
  next
    case True
    let ?t = "push_suffix R (padd p (class_length (e # es))) r"
    note after = wf_after_class [OF s(1) [unfolded Cons] p(1) True]
    obtain n1 where n1: "\<forall>m \<ge> n1. \<exists>res. llama_grammar_advance_stack m R ?t [] = Inr res"
      and ne: "finals_of R ?t \<noteq> {}" using ex after(2) unfolding expands_def by blast
    then obtain fs where "llama_grammar_advance_stack n1 R ?t [] = Inr fs" by blast
    then have fs: "set fs = finals_of R ?t" using advance_stack_spec(1) [OF _ wf after(2)] by fastforce
    have "\<forall>t\<in>set fs. wf_stack R t \<and> final_stack R t"
      using finals_of_wf [OF wf after(2)] fs by (auto simp: finals_of_def)
    then have "\<exists>n. \<forall>m \<ge> n. \<forall>t \<in> set fs. 0 < d \<longrightarrow> filters (llama_grammar_reject_candidates_for_stack d m R t)
        (\<lambda>tok. wf_cand tok \<and> length (rest_cps tok) < d) (\<lambda>tok. \<not> cand_passes R tok t)"
      using nxt by (intro eventually_list) blast
    then obtain n2 where n2: "\<And>m t. n2 \<le> m \<Longrightarrow> t \<in> set fs \<Longrightarrow> 0 < d \<Longrightarrow>
        filters (llama_grammar_reject_candidates_for_stack d m R t)
        (\<lambda>tok. wf_cand tok \<and> length (rest_cps tok) < d) (\<lambda>tok. \<not> cand_passes R tok t)" by blast
    have "filters (llama_grammar_reject_candidates_for_stack (Suc d) m R (p # r))
        (\<lambda>tok. wf_cand tok \<and> length (rest_cps tok) \<le> d) (\<lambda>tok. \<not> cand_passes R tok (p # r))"
      if m: "max n1 n2 \<le> m" for m
    proof -
      obtain res where res: "llama_grammar_advance_stack m R ?t [] = Inr res" using n1 m by auto
      have set_res: "set res = set fs" using advance_stack_spec(1) [OF res wf after(2)] fs by simp
      then have "res \<noteq> []" using ne fs by auto
      have "filters (reject_over (llama_grammar_reject_candidates_for_stack d m R) res)
        (\<lambda>tok. wf_cand tok \<and> length (rest_cps tok) < d) (\<lambda>tok. \<forall>t\<in>set res. \<not> cand_passes R tok t)"
      proof (cases "d = 0")
        case True
        then show ?thesis using \<open>res \<noteq> []\<close> by (auto simp: filters_def reject_over_def rassert_def)
      next
        case False
        then show ?thesis using n2 m set_res by (intro filters_reject_over \<open>res \<noteq> []\<close>) simp
      qed
      then show ?thesis using filters_class [OF wf s(1) [unfolded Cons] p True res] by blast
    qed
    then show ?thesis using Cons by blast
  qed
qed

lemma filters_for_stack:
  assumes wf: "wf_rules R" and ex: "expands R" and s: "wf_stack R s" "final_stack R s"
  shows "\<exists>n. \<forall>m \<ge> n. filters (llama_grammar_reject_candidates_for_stack (Suc d) m R s)
           (\<lambda>tok. wf_cand tok \<and> length (rest_cps tok) \<le> d) (\<lambda>tok. \<not> cand_passes R tok s)"
  using s
proof (induction d arbitrary: s)
  case (Suc d)
  then show ?case by (intro filters_for_stack_step [OF wf ex]) (simp_all add: less_Suc_eq_le)
next
  case 0
  then show ?case by (intro filters_for_stack_step [OF wf ex]) simp_all
qed

lemma expands_checked:
  assumes "wf_rules R" and "has_left_recursion fuel R = Inr False" and "empty_by_alternate R"
  shows "expands R"
  unfolding expands_def
proof (intro allI impI conjI)
  note acc = checked_corners_acc [OF assms]
  fix t assume t: "wf_stack R t"
  show "\<exists>n. \<forall>m \<ge> n. \<exists>res. llama_grammar_advance_stack m R t [] = Inr res"
    using advance_terminates [OF assms(1) acc t] by blast
  have "expand_acc R t" by (rule stack_acc [OF assms(1) acc t])
  then show "finals_of R t \<noteq> {}" using t
  proof (induction rule: accp_induct_rule)
    case (1 t)
    show ?case
    proof (cases "final_stack R t")
      case True
      then show ?thesis by (simp add: finals_of_final)
    next
      case False
      then obtain p s where ps: "t = p # s" by (cases t) auto
      then obtain e es where e: "suffix_at R p = e # es" "gtype e = LLAMA_GRETYPE_RULE_REF"
        using "1.prems" False by (auto simp: wf_stack_def elim!: wf_topE)
      then obtain c where c: "child R t c" "wf_stack R c"
        using expand_ref_spec [OF assms(1) "1.prems" [unfolded ps] e] ps by (metis list.set_sel(1))
      then show ?thesis using "1.IH" [of c] finals_of_child [OF c(1)] by blast
    qed
  qed
qed



section \<open>The filter agrees with acceptance\<close>

lemma rfold_total_elements:
  "(\<And>x acc. x \<in> set xs \<Longrightarrow> \<exists>res. f x acc = Inr res) \<Longrightarrow> \<exists>res. rfold f xs acc = Inr res"
  using rfold_total [of "\<lambda>_. True" acc xs f] by simp

lemma accept_string_terminates:
  assumes wf: "wf_rules R" and acc: "\<forall>k < length R. Wellfounded.accp (left_corner R (nullable R)) k"
    and ss: "wf_stacks R ss"
  shows "\<exists>n. \<forall>m \<ge> n. \<forall>ss'. set ss' = set ss \<longrightarrow> (\<exists>res. accept_string m R ss' cs = Inr res)"
  using ss
proof (induction cs arbitrary: ss)
  case (Cons c cs)
  have "\<exists>n. \<forall>m \<ge> n. \<forall>s \<in> set ss. \<forall>acc. \<exists>res. llama_grammar_accept_chr m R s c acc = Inr res"
    using Cons.prems accept_chr_terminates [OF wf acc] by (intro eventually_list) (auto simp: wf_stacks_def)
  then obtain n1 where n1: "\<And>m s acc. n1 \<le> m \<Longrightarrow> s \<in> set ss \<Longrightarrow>
      \<exists>res. llama_grammar_accept_chr m R s c acc = Inr res" by blast
  have one: "\<exists>res. accept_stacks m R ss' c = Inr res" if "n1 \<le> m" "set ss' = set ss" for m ss'
    unfolding accept_stacks_def using n1 that by (intro rfold_total_elements) auto
  obtain xs where xs: "accept_stacks n1 R ss c = Inr xs" using one by blast
  obtain n2 where n2: "\<forall>m \<ge> n2. \<forall>ss'. set ss' = set xs \<longrightarrow> (\<exists>res. accept_string m R ss' cs = Inr res)"
    using Cons.IH [OF accept_stacks_wf [OF xs wf Cons.prems]] by blast
  have "\<exists>res. accept_string m R ss' (c # cs) = Inr res" if m: "max n1 n2 \<le> m" and eq: "set ss' = set ss" for m ss'
  proof -
    have "n1 \<le> m" using m by simp
    then obtain ys where ys: "accept_stacks m R ss' c = Inr ys" using one eq by blast
    have "wf_stacks R ss'" using Cons.prems eq by (simp add: wf_stacks_def)
    then have "set ys = set xs"
      using accept_stacks_set [OF ys wf] accept_stacks_set [OF xs wf Cons.prems] eq by simp
    then obtain res where "accept_string m R ys cs = Inr res"
      using n2 m by (meson max.boundedE)
    then show ?thesis using ys by (simp add: accept_string_def)
  qed
  then show ?case by blast
qed (simp add: accept_string_def)

definition no_tokens :: "llama_grammar_rules \<Rightarrow> bool" where
  "no_tokens R = (\<forall>r \<in> set R. \<forall>e \<in> set r. \<not> is_token_element e)"

lemma no_tokens_top:
  assumes "no_tokens R" "wf_stack R (p # r)"
  shows "\<not> is_token_element (hd (suffix_at R p))"
proof -
  obtain e es where es: "suffix_at R p = e # es" using assms(2) by (auto simp: wf_stack_def elim: wf_topE)
  then have "fst p < length R" "e \<in> set (drop (snd p) (R ! fst p))"
    by (auto simp: suffix_at_def split: if_splits)
  then have "fst p < length R" "e \<in> set (R ! fst p)" by (auto dest: in_set_dropD)
  then show ?thesis using assms(1) es by (auto simp: no_tokens_def)
qed

lemma passes_accept_string:
  assumes wf: "wf_rules R" and nt: "no_tokens R" and pu: "n_remain pu = 0"
    and "wf_stacks R ss" "accept_string m R ss cs = Inr res"
  shows "(\<exists>s \<in> set ss. passes R pu i cs s) \<longleftrightarrow> res \<noteq> []"
  using assms(4,5)
proof (induction cs arbitrary: ss)
  case Nil
  then show ?case using pu by (cases ss) (auto simp: accept_string_def)
next
  case (Cons c cs)
  obtain ys where ys: "accept_stacks m R ss c = Inr ys" "accept_string m R ys cs = Inr res"
    using Cons.prems(2) by (auto simp: accept_string_def result_simps)
  have "passes R pu i (c # cs) s \<longleftrightarrow> (\<exists>t \<in> chr_succ R c s. passes R pu i cs t)" if "s \<in> set ss" for s
  proof (cases s)
    case (Cons p r)
    then have "\<not> is_token_element (hd (suffix_at R p))"
      using that \<open>wf_stacks R ss\<close> no_tokens_top [OF nt, of p r] by (auto simp: wf_stacks_def)
    then show ?thesis using Cons by simp
  qed (simp add: chr_succ_def)
  then show ?case
    using Cons.IH [OF accept_stacks_wf [OF ys(1) wf Cons.prems(1)] ys(2)]
      accept_stacks_set [OF ys(1) wf Cons.prems(1)] by auto
qed

text \<open>
  C13. The filter and the engine agree: in a grammar without token elements, a candidate token that
  ends with a complete character is kept by \<open>llama_grammar_reject_candidates\<close> if and only if
  accepting its code points one after the other leaves some stack, so a token that the filter lets
  through never makes the grammar fail afterwards, and a rejected one always would.
\<close>

theorem filter_agrees_with_accept:
  assumes "wf_rules R" "has_left_recursion fuel R = Inr False" "empty_by_alternate R" "no_tokens R"
    and "wf_stacks R ss" "ss \<noteq> []" "wf_cand tok" "n_remain (cpartial tok) = 0"
  shows "\<exists>n. \<forall>m \<ge> n. \<exists>rej res.
    llama_grammar_reject_candidates (Suc (length (rest_cps tok))) m R ss [tok] = Inr rej \<and>
    accept_string m R ss (rest_cps tok) = Inr res \<and> (rej = [] \<longleftrightarrow> res \<noteq> [])"
proof -
  let ?d = "length (rest_cps tok)"
  have "\<exists>n. \<forall>m \<ge> n. \<forall>s \<in> set ss. filters (llama_grammar_reject_candidates_for_stack (Suc ?d) m R s)
      (\<lambda>tok. wf_cand tok \<and> length (rest_cps tok) \<le> ?d) (\<lambda>tok. \<not> cand_passes R tok s)"
    using assms(5) filters_for_stack [OF assms(1) expands_checked [OF assms(1-3)]]
    by (intro eventually_list) (auto simp: wf_stacks_def)
  then obtain n1 where n1: "\<And>m s. n1 \<le> m \<Longrightarrow> s \<in> set ss \<Longrightarrow>
      filters (llama_grammar_reject_candidates_for_stack (Suc ?d) m R s)
      (\<lambda>tok. wf_cand tok \<and> length (rest_cps tok) \<le> ?d) (\<lambda>tok. \<not> cand_passes R tok s)" by blast
  obtain n2 where n2: "\<And>m. n2 \<le> m \<Longrightarrow> \<exists>res. accept_string m R ss (rest_cps tok) = Inr res"
    using accept_string_terminates [OF assms(1) checked_corners_acc [OF assms(1-3)] assms(5)] by blast
  have "\<exists>rej res. llama_grammar_reject_candidates (Suc ?d) m R ss [tok] = Inr rej \<and>
    accept_string m R ss (rest_cps tok) = Inr res \<and> (rej = [] \<longleftrightarrow> res \<noteq> [])" if m: "max n1 n2 \<le> m" for m
  proof -
    have "filters (llama_grammar_reject_candidates (Suc ?d) m R ss)
        (\<lambda>tok. wf_cand tok \<and> length (rest_cps tok) \<le> ?d) (\<lambda>tok. \<forall>s \<in> set ss. \<not> cand_passes R tok s)"
      unfolding llama_grammar_reject_candidates_def
      using n1 m assms(6) by (intro filters_reject_over) auto
    moreover have "\<forall>x \<in> set [tok]. wf_cand x \<and> length (rest_cps x) \<le> ?d" using assms(7) by simp
    ultimately obtain rej where rej: "llama_grammar_reject_candidates (Suc ?d) m R ss [tok] = Inr rej"
        "mset rej = filter_mset (\<lambda>tok. \<forall>s \<in> set ss. \<not> cand_passes R tok s) (mset [tok])"
      unfolding filters_def by blast
    obtain res where res: "accept_string m R ss (rest_cps tok) = Inr res" using n2 m by auto
    have "rej = [] \<longleftrightarrow> (\<exists>s \<in> set ss. cand_passes R tok s)"
      using rej(2) by (auto split: if_splits)
    then show ?thesis using rej(1) res passes_accept_string [OF assms(1,4,8,5) res] by blast
  qed
  then show ?thesis by blast
qed

theorem filter_agrees_with_accept_witness:
  "\<exists>n. \<forall>m \<ge> n. \<exists>rej res.
    llama_grammar_reject_candidates
      (Suc (length (rest_cps \<lparr>cindex = 0, cps = [97, 98, 0], cp_pos = 0,
         cpartial = \<lparr>pvalue = 0, n_remain = 0\<rparr>, cid = 7\<rparr>))) m ab_rules [[(0, 0)], [(0, 3)]]
      [\<lparr>cindex = 0, cps = [97, 98, 0], cp_pos = 0, cpartial = \<lparr>pvalue = 0, n_remain = 0\<rparr>, cid = 7\<rparr>] = Inr rej \<and>
    accept_string m ab_rules [[(0, 0)], [(0, 3)]] (rest_cps \<lparr>cindex = 0, cps = [97, 98, 0], cp_pos = 0,
         cpartial = \<lparr>pvalue = 0, n_remain = 0\<rparr>, cid = 7\<rparr>) = Inr res \<and> (rej = [] \<longleftrightarrow> res \<noteq> [])"
proof -
  have "wf_stacks ab_rules [[(0, 0)], [(0, 3)]]"
    using init_stacks_lang [OF ab_init ab_rules_wf] by (simp add: ab_rules_def)
  moreover have "no_tokens ab_rules" by (simp add: no_tokens_def ab_rules_def is_token_element_def)
  ultimately show ?thesis
    by (intro filter_agrees_with_accept [OF ab_rules_wf ab_checked ab_empty_by_alternate])
      (simp_all add: wf_cand_def)
qed

end
