(* ===== verification/Unicode.thy ===== *)
theory Unicode
  imports Prelude
begin

text \<open>
  UTF-8 and code points: the encoder and decoder of \<open>src/unicode.cpp\<close>, the codec of
  \<open>common/unicode.cpp\<close> with its completeness test, and the byte-level alphabet of the BPE
  tokenizers. A \<open>std::string\<close> is a list of bytes; a \<open>size_t &offset\<close> argument is passed and
  returned. The locale \<open>utf8_codec\<close> is what the clients of a codec rely on (decoding undoes
  encoding wherever the encoded bytes stand, and decoding advances inside the string); both codecs
  interpret it, and unique decipherability is proved once from it.
\<close>

unbundle bit_operations_syntax

section \<open>Encoding and decoding one code point\<close>

definition unicode_cpt_to_utf8 :: "u32 \<Rightarrow> u8 list result" where
  "unicode_cpt_to_utf8 cpt =
     (if cpt \<le> 0x7f then Inr [ucast cpt]
      else if 0x80 \<le> cpt \<and> cpt \<le> 0x7ff then
        Inr [ucast (0xc0 OR (drop_bit 6 cpt AND 0x1f)), ucast (0x80 OR (cpt AND 0x3f))]
      else if 0x800 \<le> cpt \<and> cpt \<le> 0xffff then
        Inr [ucast (0xe0 OR (drop_bit 12 cpt AND 0x0f)), ucast (0x80 OR (drop_bit 6 cpt AND 0x3f)),
             ucast (0x80 OR (cpt AND 0x3f))]
      else if 0x10000 \<le> cpt \<and> cpt \<le> 0x10ffff then
        Inr [ucast (0xf0 OR (drop_bit 18 cpt AND 0x07)), ucast (0x80 OR (drop_bit 12 cpt AND 0x3f)),
             ucast (0x80 OR (drop_bit 6 cpt AND 0x3f)), ucast (0x80 OR (cpt AND 0x3f))]
      else Inl (Throw ''invalid codepoint''))"

definition unicode_cpts_to_utf8 :: "u32 list \<Rightarrow> u8 list result" where
  "unicode_cpts_to_utf8 cps =
     rfold (\<lambda>c r. rbind (unicode_cpt_to_utf8 c) (\<lambda>s. Inr (r @ s))) cps []"

definition utf8_lookup :: "nat list" where
  "utf8_lookup = [1, 1, 1, 1, 1, 1, 1, 1, 1, 1, 1, 1, 2, 2, 3, 4]"

definition unicode_len_utf8 :: "u8 \<Rightarrow> nat" where
  "unicode_len_utf8 src = utf8_lookup ! unat (drop_bit 4 src)"

abbreviation is_cont :: "u8 \<Rightarrow> bool" where
  "is_cont b \<equiv> b AND 0xc0 = 0x80"

definition unicode_cpt_from_utf8 :: "u8 list \<Rightarrow> nat \<Rightarrow> (u32 \<times> nat) result" where
  "unicode_cpt_from_utf8 utf8 offset =
     (if \<not> offset < length utf8 then Inl (Abort ''offset < utf8.size()'')
      else let b0 = utf8 ! offset; b1 = utf8 ! (offset + 1);
               b2 = utf8 ! (offset + 2); b3 = utf8 ! (offset + 3) in
      if b0 AND 0x80 = 0 then Inr (ucast b0, offset + 1)
      else if b0 AND 0x40 = 0 then Inl (Throw ''invalid character'')
      else if b0 AND 0x20 = 0 then
        (if offset + 1 \<ge> length utf8 \<or> \<not> is_cont b1 then Inl (Throw ''invalid character'')
         else Inr (push_bit 6 (ucast (b0 AND 0x1f)) OR ucast (b1 AND 0x3f), offset + 2))
      else if b0 AND 0x10 = 0 then
        (if offset + 2 \<ge> length utf8 \<or> \<not> is_cont b1 \<or> \<not> is_cont b2
         then Inl (Throw ''invalid character'')
         else Inr (push_bit 12 (ucast (b0 AND 0x0f)) OR push_bit 6 (ucast (b1 AND 0x3f))
                   OR ucast (b2 AND 0x3f), offset + 3))
      else if b0 AND 0x08 = 0 then
        (if offset + 3 \<ge> length utf8 \<or> \<not> is_cont b1 \<or> \<not> is_cont b2 \<or> \<not> is_cont b3
         then Inl (Throw ''invalid character'')
         else Inr (push_bit 18 (ucast (b0 AND 0x07)) OR push_bit 12 (ucast (b1 AND 0x3f))
                   OR push_bit 6 (ucast (b2 AND 0x3f)) OR ucast (b3 AND 0x3f), offset + 4))
      else Inl (Throw ''failed to convert utf8 to codepoint''))"


text \<open>The masks as sets of bits.\<close>

lemma mask_numerals:
  "(0x3f :: 'a::len word) = mask 6" "(0x1f :: 'a word) = mask 5" "(0x0f :: 'a word) = mask 4"
  "(0x07 :: 'a word) = mask 3" "(0x80 :: 'a word) = push_bit 7 (mask 1)"
  "(0xc0 :: 'a word) = push_bit 6 (mask 2)" "(0xe0 :: 'a word) = push_bit 5 (mask 3)"
  "(0xf0 :: 'a word) = push_bit 4 (mask 4)" "(0x40 :: 'a word) = push_bit 6 (mask 1)"
  "(0x20 :: 'a word) = push_bit 5 (mask 1)" "(0x10 :: 'a word) = push_bit 4 (mask 1)"
  "(0x08 :: 'a word) = push_bit 3 (mask 1)"
  by (simp_all add: mask_eq_exp_minus_1 push_bit_eq_mult)

lemma bit_push_mask:
  "bit (push_bit m (mask k) :: 'a::len word) n \<longleftrightarrow> n < LENGTH('a) \<and> m \<le> n \<and> n < m + k"
  by (auto simp: bit_push_bit_iff bit_mask_iff)

lemma bit_low_mask: "bit (mask k :: 'a::len word) n \<longleftrightarrow> n < LENGTH('a) \<and> n < k"
  by (auto simp: bit_mask_iff)

lemma and_low_masks:
  "(w :: 'a::len word) AND 0x3f = take_bit 6 w" "w AND 0x1f = take_bit 5 w"
  "w AND 0x0f = take_bit 4 w" "w AND 0x07 = take_bit 3 w"
  by (simp_all only: mask_numerals take_bit_eq_mask)

lemma and_bit_zero_iff:
  "b AND (push_bit n (mask 1) :: 'a::len word) = 0 \<longleftrightarrow> \<not> bit b n"
proof
  assume *: "b AND push_bit n (mask 1) = 0"
  show "\<not> bit b n"
  proof
    assume b: "bit b n"
    have "bit (b AND push_bit n (mask 1)) n"
      using b bit_imp_le_length [OF b] by (simp only: bit_and_iff bit_push_mask) simp
    then show False unfolding * by simp
  qed
next
  assume "\<not> bit b n"
  then show "b AND push_bit n (mask 1) = 0"
    by (intro bit_word_eqI) (auto simp only: bit_and_iff bit_push_mask le_less_Suc_eq bit_0_eq, auto simp: le_less_Suc_eq)
qed

lemma test_masks:
  fixes b :: u8
  shows "b AND 0x80 = 0 \<longleftrightarrow> \<not> bit b 7" "b AND 0x40 = 0 \<longleftrightarrow> \<not> bit b 6"
    "b AND 0x20 = 0 \<longleftrightarrow> \<not> bit b 5" "b AND 0x10 = 0 \<longleftrightarrow> \<not> bit b 4" "b AND 0x08 = 0 \<longleftrightarrow> \<not> bit b 3"
  unfolding mask_numerals by (rule and_bit_zero_iff)+

text \<open>A lead or continuation byte carries its payload in the low bits and its class in the high
  bits.\<close>

definition tagged :: "u32 \<Rightarrow> nat \<Rightarrow> u32 \<Rightarrow> u8" where
  "tagged m k x = ucast (push_bit k m OR take_bit k x)"

lemma bit_tagged: "bit (tagged m k x) n \<longleftrightarrow> n < 8 \<and> (if n < k then bit x n else bit m (n - k))"
  by (auto simp: tagged_def bit_simps)

lemma take_bit_tagged: "k \<le> 8 \<Longrightarrow> ucast (take_bit k (tagged m k x)) = take_bit k x"
  by (intro bit_word_eqI) (auto simp: bit_simps bit_tagged)

lemma drop_bit_tagged: "k \<le> 8 \<Longrightarrow> drop_bit k (tagged m k x) = ucast (take_bit (8 - k) m)"
  by (intro bit_word_eqI) (auto simp: bit_simps bit_tagged)

lemma tagged_forms:
  "ucast (0xc0 OR (x AND 0x1f)) = tagged 6 5 x" "ucast (0x80 OR (x AND 0x3f)) = tagged 2 6 x"
  "ucast (0xe0 OR (x AND 0x0f)) = tagged 14 4 x" "ucast (0xf0 OR (x AND 0x07)) = tagged 30 3 x"
  by (simp_all add: tagged_def and_low_masks)

lemma is_cont_tagged [simp]: "is_cont (tagged 2 6 x)"
  unfolding mask_numerals
  by (intro bit_word_eqI) (auto simp only: bit_and_iff bit_push_mask bit_tagged, 
    auto simp: bit_tagged numeral_eq_Suc bit_Suc less_Suc_eq)

lemma lead_tests [simp]:
  "bit (tagged 6 5 x) 7" "bit (tagged 6 5 x) 6" "\<not> bit (tagged 6 5 x) 5"
  "bit (tagged 14 4 x) 7" "bit (tagged 14 4 x) 6" "bit (tagged 14 4 x) 5" "\<not> bit (tagged 14 4 x) 4"
  "bit (tagged 30 3 x) 7" "bit (tagged 30 3 x) 6" "bit (tagged 30 3 x) 5" "bit (tagged 30 3 x) 4"
  "\<not> bit (tagged 30 3 x) 3"
  by (simp_all add: bit_tagged)

lemma take_bit_lt: "(c :: u32) < 2 ^ n \<Longrightarrow> n < 32 \<Longrightarrow> take_bit n c = c"
  by (simp add: take_bit_eq_mod word_less_nat_alt word_arith_nat_mod)

lemma take_drop_bit_lt: "(c :: u32) < 2 ^ (n + k) \<Longrightarrow> n + k < 32 \<Longrightarrow> take_bit n (drop_bit k c) = drop_bit k c"
  using take_bit_lt [of c "n + k"] by (metis drop_bit_take_bit add_diff_cancel_right')

lemma recombine_or: "push_bit n (drop_bit n c) OR take_bit n c = (c :: u32)"
  by (intro bit_word_eqI) (auto simp: bit_simps)

lemma recombine_or3:
  "push_bit 12 (drop_bit 12 c) OR push_bit 6 (take_bit 6 (drop_bit 6 c)) OR take_bit 6 c = (c :: u32)"
proof (rule bit_word_eqI)
  fix n :: nat
  show "n < LENGTH(32) \<Longrightarrow> bit (push_bit 12 (drop_bit 12 c) OR push_bit 6 (take_bit 6 (drop_bit 6 c))
    OR take_bit 6 c) n = bit c n"
    by (cases "n < 12") (auto simp: bit_simps)
qed

lemma recombine_or4:
  "push_bit 18 (drop_bit 18 c) OR push_bit 12 (take_bit 6 (drop_bit 12 c))
   OR push_bit 6 (take_bit 6 (drop_bit 6 c)) OR take_bit 6 c = (c :: u32)"
proof (rule bit_word_eqI)
  fix n :: nat
  show "n < LENGTH(32) \<Longrightarrow> bit (push_bit 18 (drop_bit 18 c) OR push_bit 12 (take_bit 6 (drop_bit 12 c))
    OR push_bit 6 (take_bit 6 (drop_bit 6 c)) OR take_bit 6 c) n = bit c n"
    by (cases "n < 12"; cases "n < 18") (auto simp: bit_simps)
qed

lemma unicode_cpt_to_utf8_tagged:
  "c \<le> 0x7f \<Longrightarrow> unicode_cpt_to_utf8 c = Inr [ucast c]"
  "0x7f < c \<Longrightarrow> c \<le> 0x7ff \<Longrightarrow> unicode_cpt_to_utf8 c = Inr [tagged 6 5 (drop_bit 6 c), tagged 2 6 c]"
  "0x7ff < c \<Longrightarrow> c \<le> 0xffff \<Longrightarrow> unicode_cpt_to_utf8 c =
     Inr [tagged 14 4 (drop_bit 12 c), tagged 2 6 (drop_bit 6 c), tagged 2 6 c]"
  "0xffff < c \<Longrightarrow> c \<le> 0x10ffff \<Longrightarrow> unicode_cpt_to_utf8 c =
     Inr [tagged 30 3 (drop_bit 18 c), tagged 2 6 (drop_bit 12 c), tagged 2 6 (drop_bit 6 c), tagged 2 6 c]"
  "0x10ffff < c \<Longrightarrow> unicode_cpt_to_utf8 c = Inl (Throw ''invalid codepoint'')"
  by (auto simp: unicode_cpt_to_utf8_def tagged_forms word_le_nat_alt word_less_nat_alt)

lemma unicode_cpt_to_utf8_cases:
  assumes "unicode_cpt_to_utf8 c = Inr bs"
  obtains (one) "c \<le> 0x7f" "bs = [ucast c]"
  | (two) "0x7f < c" "c \<le> 0x7ff" "bs = [tagged 6 5 (drop_bit 6 c), tagged 2 6 c]"
  | (three) "0x7ff < c" "c \<le> 0xffff"
      "bs = [tagged 14 4 (drop_bit 12 c), tagged 2 6 (drop_bit 6 c), tagged 2 6 c]"
  | (four) "0xffff < c" "c \<le> 0x10ffff" "bs = [tagged 30 3 (drop_bit 18 c),
      tagged 2 6 (drop_bit 12 c), tagged 2 6 (drop_bit 6 c), tagged 2 6 c]"
  using assms unicode_cpt_to_utf8_tagged [of c] by (metis Inr_inject Inl_Inr_False linorder_not_le)

lemma cpt_from_utf8_encoded:
  assumes "unicode_cpt_to_utf8 c = Inr bs"
  shows "unicode_cpt_from_utf8 (pre @ bs @ post) (length pre) = Inr (c, length pre + length bs)"
  using assms
proof (cases rule: unicode_cpt_to_utf8_cases)
  case one
  then have c: "c < 2 ^ 7" by (simp add: word_le_nat_alt word_less_nat_alt)
  have low: "bit c n \<Longrightarrow> n < 7" for n
    using take_bit_lt [OF c, simplified] by (metis bit_take_bit_iff)
  then have nb: "\<not> bit (ucast c :: u8) 7" by (auto simp: bit_simps)
  have "ucast (ucast c :: u8) = c"
    by (intro bit_word_eqI) (auto simp: bit_simps dest: low)
  then show ?thesis using one nb by (simp add: unicode_cpt_from_utf8_def test_masks nth_append)
next
  case two
  then have "c < 2 ^ (5 + 6)" by (simp add: word_le_nat_alt word_less_nat_alt)
  then have "take_bit 5 (drop_bit 6 c) = drop_bit 6 c" by (rule take_drop_bit_lt) simp
  then show ?thesis using two
    by (simp add: unicode_cpt_from_utf8_def test_masks nth_append and_low_masks take_bit_tagged recombine_or)
next
  case three
  then have "c < 2 ^ (4 + 12)" by (simp add: word_le_nat_alt word_less_nat_alt)
  then have "take_bit 4 (drop_bit 12 c) = drop_bit 12 c" by (rule take_drop_bit_lt) simp
  then show ?thesis using three
    by (simp add: unicode_cpt_from_utf8_def test_masks nth_append and_low_masks take_bit_tagged recombine_or3)
next
  case four
  then have "c < 2 ^ (3 + 18)" by (simp add: word_le_nat_alt word_less_nat_alt)
  then have "take_bit 3 (drop_bit 18 c) = drop_bit 18 c" by (rule take_drop_bit_lt) simp
  then show ?thesis using four
    by (simp add: unicode_cpt_from_utf8_def test_masks nth_append and_low_masks take_bit_tagged recombine_or4)
qed

lemma cpt_from_utf8_progress:
  "unicode_cpt_from_utf8 s i = Inr (c, j) \<Longrightarrow> i < j \<and> j \<le> length s"
  by (auto simp: unicode_cpt_from_utf8_def Let_def split: if_splits)

section \<open>Strings of code points\<close>

function unicode_cpts_from_loop :: "u8 list \<Rightarrow> nat \<Rightarrow> u32 list" where
  "unicode_cpts_from_loop utf8 offset =
     (if offset < length utf8 then
        case unicode_cpt_from_utf8 utf8 offset of
          Inr (c, offset') \<Rightarrow> c # unicode_cpts_from_loop utf8 offset'
        | Inl _ \<Rightarrow> 0xFFFD # unicode_cpts_from_loop utf8 (offset + 1)
      else [])"
  by auto
termination
  by (relation "measure (\<lambda>(s, i). length s - i)") (auto dest: cpt_from_utf8_progress)

declare unicode_cpts_from_loop.simps [simp del]

definition unicode_cpts_from_utf8 :: "u8 list \<Rightarrow> u32 list" where
  "unicode_cpts_from_utf8 utf8 = unicode_cpts_from_loop utf8 0"

section \<open>The interface of a UTF-8 codec\<close>

locale utf8_codec =
  fixes enc :: "u32 \<Rightarrow> u8 list result"
    and dec :: "u8 list \<Rightarrow> nat \<Rightarrow> (u32 \<times> nat) option"
  assumes dec_enc: "enc c = Inr bs \<Longrightarrow> dec (pre @ bs @ post) (length pre) = Some (c, length pre + length bs)"
    and dec_progress: "dec s i = Some (c, j) \<Longrightarrow> i < j \<and> j \<le> length s"
begin

lemma enc_nonempty: "enc c = Inr bs \<Longrightarrow> bs \<noteq> []"
  using dec_enc [of c bs "[]" "[]"] dec_progress [of bs 0 c "length bs"] by auto

lemma enc_prefix_free:
  assumes "enc c = Inr bs" "enc d = Inr ds" "bs @ x = ds @ y"
  shows "c = d \<and> bs = ds \<and> x = y"
proof -
  have "dec (bs @ x) 0 = Some (c, length bs)" "dec (ds @ y) 0 = Some (d, length ds)"
    using dec_enc [OF assms(1), of "[]" x] dec_enc [OF assms(2), of "[]" y] by simp_all
  then show ?thesis using assms by auto
qed

lemma enc_inj: "enc c = Inr bs \<Longrightarrow> enc d = Inr bs \<Longrightarrow> c = d"
  using enc_prefix_free [of c bs d bs "[]" "[]"] by simp

lemma enc_unique:
  assumes "rmap enc cs = Inr bss" "rmap enc ds = Inr dss" "concat bss = concat dss"
  shows "cs = ds"
  using assms
proof (induction cs arbitrary: bss ds dss)
  case Nil
  then have "concat dss = []" by simp
  with Nil.prems(2) show ?case by (cases ds) (auto simp: result_simps dest: enc_nonempty)
next
  case (Cons c cs)
  then obtain bs rest where c: "enc c = Inr bs" "rmap enc cs = Inr rest" "bss = bs # rest"
    by (auto simp: result_simps)
  then have "concat dss \<noteq> []"
    unfolding Cons.prems(3) [symmetric] using enc_nonempty [OF c(1)] by simp
  with Cons.prems(2) obtain d dt es rest' where d: "ds = d # dt" "enc d = Inr es"
      "rmap enc dt = Inr rest'" "dss = es # rest'"
    by (cases ds) (auto simp: result_simps)
  have "c = d" "concat rest = concat rest'"
    using enc_prefix_free [OF c(1) d(2)] Cons.prems(3) c(3) d(4) by auto
  then show ?case using Cons.IH [OF c(2) d(3)] d(1) by simp
qed

end

definition dec_unicode :: "u8 list \<Rightarrow> nat \<Rightarrow> (u32 \<times> nat) option" where
  "dec_unicode s i = (case unicode_cpt_from_utf8 s i of Inr r \<Rightarrow> Some r | Inl _ \<Rightarrow> None)"

interpretation ucodec: utf8_codec unicode_cpt_to_utf8 dec_unicode
  by unfold_locales
    (auto simp: dec_unicode_def cpt_from_utf8_encoded split: sum.splits dest: cpt_from_utf8_progress)

lemma unicode_cpts_to_utf8_acc:
  "rfold (\<lambda>c r. rbind (unicode_cpt_to_utf8 c) (\<lambda>s. Inr (r @ s))) cps acc =
   rbind (rmap unicode_cpt_to_utf8 cps) (\<lambda>bss. Inr (acc @ concat bss))"
proof (induction cps arbitrary: acc)
  case (Cons c cps)
  then show ?case by (cases "unicode_cpt_to_utf8 c"; cases "rmap unicode_cpt_to_utf8 cps") auto
qed simp

lemma unicode_cpts_to_utf8_rmap:
  "unicode_cpts_to_utf8 cps = Inr bs \<longleftrightarrow> (\<exists>bss. rmap unicode_cpt_to_utf8 cps = Inr bss \<and> bs = concat bss)"
  by (auto simp: unicode_cpts_to_utf8_def unicode_cpts_to_utf8_acc result_simps)

lemma cpts_from_loop_encoded:
  "rmap unicode_cpt_to_utf8 cps = Inr bss \<Longrightarrow>
   unicode_cpts_from_loop (pre @ concat bss @ post) (length pre) =
     cps @ unicode_cpts_from_loop (pre @ concat bss @ post) (length (pre @ concat bss))"
proof (induction cps arbitrary: bss pre)
  case (Cons c cps)
  then obtain bs rest where c: "unicode_cpt_to_utf8 c = Inr bs" "rmap unicode_cpt_to_utf8 cps = Inr rest"
      "bss = bs # rest"
    by (auto simp: result_simps)
  show ?case
    using cpt_from_utf8_encoded [OF c(1), of pre "concat rest @ post"] Cons.IH [OF c(2), of "pre @ bs"]
      ucodec.enc_nonempty [OF c(1)]
    by (subst unicode_cpts_from_loop.simps) (simp add: c(3))
qed simp

lemma cpts_from_loop_end: "length s \<le> i \<Longrightarrow> unicode_cpts_from_loop s i = []"
  by (simp add: unicode_cpts_from_loop.simps)

lemma unicode_cpt_to_utf8_total: "c \<le> 0x10ffff \<Longrightarrow> \<exists>bs. unicode_cpt_to_utf8 c = Inr bs"
  using unicode_cpt_to_utf8_tagged [of c] by (metis linorder_not_le)

lemma unicode_cpts_to_utf8_total:
  "\<forall>c\<in>set cps. c \<le> 0x10ffff \<Longrightarrow> \<exists>bss. rmap unicode_cpt_to_utf8 cps = Inr bss"
  by (induction cps) (auto dest!: unicode_cpt_to_utf8_total)

text \<open>
  C6. Code points survive a round trip through UTF-8: every sequence of code points up to
  \<open>0x10FFFF\<close> is encoded without an exception, and \<open>unicode_cpts_from_utf8\<close> reads exactly that
  sequence back from the encoded bytes.
\<close>

theorem unicode_roundtrip:
  assumes "\<forall>c\<in>set cps. c \<le> 0x10ffff"
  shows "\<exists>bs. unicode_cpts_to_utf8 cps = Inr bs \<and> unicode_cpts_from_utf8 bs = cps"
proof -
  obtain bss where bss: "rmap unicode_cpt_to_utf8 cps = Inr bss"
    using unicode_cpts_to_utf8_total [OF assms] by blast
  moreover have "unicode_cpts_from_utf8 (concat bss) = cps"
    using cpts_from_loop_encoded [OF bss, of "[]" "[]"]
    by (simp add: unicode_cpts_from_utf8_def cpts_from_loop_end)
  ultimately show ?thesis by (auto simp: unicode_cpts_to_utf8_rmap)
qed

theorem unicode_roundtrip_witness:
  "\<exists>bs. unicode_cpts_to_utf8 [0x24, 0xe9, 0x20ac, 0x1f600] = Inr bs \<and>
        unicode_cpts_from_utf8 bs = [0x24, 0xe9, 0x20ac, 0x1f600]"
  by (rule unicode_roundtrip) simp

section \<open>The codec of the common library\<close>

datatype utf8_parse_result =
    SUCCESS u32 nat
  | INCOMPLETE
  | INVALID

definition common_utf8_sequence_length :: "u8 \<Rightarrow> nat" where
  "common_utf8_sequence_length first_byte = utf8_lookup ! unat (drop_bit 4 first_byte)"

definition common_parse_utf8_codepoint :: "u8 list \<Rightarrow> nat \<Rightarrow> utf8_parse_result" where
  "common_parse_utf8_codepoint input offset =
     (if offset \<ge> length input then INCOMPLETE
      else let b0 = input ! offset; b1 = input ! (offset + 1);
               b2 = input ! (offset + 2); b3 = input ! (offset + 3) in
      if b0 AND 0x80 = 0 then SUCCESS (ucast b0) 1
      else if b0 AND 0x40 = 0 then INVALID
      else if b0 AND 0x20 = 0 then
        (if offset + 1 \<ge> length input then INCOMPLETE
         else if \<not> is_cont b1 then INVALID
         else SUCCESS (push_bit 6 (ucast (b0 AND 0x1f)) OR ucast (b1 AND 0x3f)) 2)
      else if b0 AND 0x10 = 0 then
        (if offset + 2 \<ge> length input then INCOMPLETE
         else if \<not> is_cont b1 \<or> \<not> is_cont b2 then INVALID
         else SUCCESS (push_bit 12 (ucast (b0 AND 0x0f)) OR push_bit 6 (ucast (b1 AND 0x3f))
                       OR ucast (b2 AND 0x3f)) 3)
      else if b0 AND 0x08 = 0 then
        (if offset + 3 \<ge> length input then INCOMPLETE
         else if \<not> is_cont b1 \<or> \<not> is_cont b2 \<or> \<not> is_cont b3 then INVALID
         else SUCCESS (push_bit 18 (ucast (b0 AND 0x07)) OR push_bit 12 (ucast (b1 AND 0x3f))
                       OR push_bit 6 (ucast (b2 AND 0x3f)) OR ucast (b3 AND 0x3f)) 4)
      else INVALID)"

definition common_unicode_cpt_to_utf8 :: "u32 \<Rightarrow> u8 list result" where
  "common_unicode_cpt_to_utf8 cpt =
     (if cpt \<le> 0x7f then Inr [ucast cpt]
      else if 0x80 \<le> cpt \<and> cpt \<le> 0x7ff then
        Inr [ucast (0xc0 OR (drop_bit 6 cpt AND 0x1f)), ucast (0x80 OR (cpt AND 0x3f))]
      else if 0x800 \<le> cpt \<and> cpt \<le> 0xffff then
        Inr [ucast (0xe0 OR (drop_bit 12 cpt AND 0x0f)), ucast (0x80 OR (drop_bit 6 cpt AND 0x3f)),
             ucast (0x80 OR (cpt AND 0x3f))]
      else if 0x10000 \<le> cpt \<and> cpt \<le> 0x10ffff then
        Inr [ucast (0xf0 OR (drop_bit 18 cpt AND 0x07)), ucast (0x80 OR (drop_bit 12 cpt AND 0x3f)),
             ucast (0x80 OR (drop_bit 6 cpt AND 0x3f)), ucast (0x80 OR (cpt AND 0x3f))]
      else Inl (Throw ''invalid codepoint''))"

definition common_unicode_cpts_to_utf8 :: "u32 list \<Rightarrow> u8 list result" where
  "common_unicode_cpts_to_utf8 cps =
     rfold (\<lambda>c r. rbind (common_unicode_cpt_to_utf8 c) (\<lambda>s. Inr (r @ s))) cps []"

text \<open>The loop of \<open>common_utf8_is_complete\<close> over the last bytes, from the last one backwards:
  the list is the reversed string and \<open>i\<close> the number of bytes looked at.\<close>

fun is_complete_loop :: "u8 list \<Rightarrow> nat \<Rightarrow> bool" where
  "is_complete_loop (c # cs) i =
     (if i \<le> 4 then
        if c AND 0xc0 \<noteq> 0x80 then
          let expected = (if c \<ge> 0xf0 then 4 else if c \<ge> 0xe0 then 3 else if c \<ge> 0xc0 then 2 else 1)
          in i \<ge> (expected :: nat)
        else is_complete_loop cs (i + 1)
      else False)"
| "is_complete_loop [] i = False"

definition common_utf8_is_complete :: "u8 list \<Rightarrow> bool" where
  "common_utf8_is_complete s = (s = [] \<or> is_complete_loop (rev s) 1)"

definition dec_common :: "u8 list \<Rightarrow> nat \<Rightarrow> (u32 \<times> nat) option" where
  "dec_common s i = (case common_parse_utf8_codepoint s i of SUCCESS c n \<Rightarrow> Some (c, i + n) | _ \<Rightarrow> None)"

lemma dec_common_unicode: "dec_common s i = dec_unicode s i"
  by (simp add: dec_common_def dec_unicode_def common_parse_utf8_codepoint_def
      unicode_cpt_from_utf8_def Let_def)

lemma common_enc_unicode: "common_unicode_cpt_to_utf8 = unicode_cpt_to_utf8"
  by (rule ext) (simp only: common_unicode_cpt_to_utf8_def unicode_cpt_to_utf8_def)

interpretation ccodec: utf8_codec common_unicode_cpt_to_utf8 dec_common
  unfolding common_enc_unicode dec_common_unicode [abs_def] by (rule ucodec.utf8_codec_axioms)

lemma drop_bit_push: "drop_bit n (push_bit n (drop_bit n b)) = drop_bit n (b :: 'a::len word)"
  by (intro bit_word_eqI) (auto simp: bit_simps dest: bit_imp_le_length)

lemma unat_drop: "unat (drop_bit n (w :: u8)) = unat w div 2 ^ n"
  unfolding unat_drop_bit_eq by (rule drop_bit_eq_div)

lemma is_cont_range: "is_cont b \<longleftrightarrow> 128 \<le> unat b \<and> unat b < 192"
proof -
  have hi: "b AND 0xc0 = push_bit 6 (drop_bit 6 b)" for b :: u8
    unfolding mask_numerals by (intro bit_word_eqI) (auto simp only: bit_and_iff bit_push_mask, auto simp: bit_simps)
  have "is_cont b \<longleftrightarrow> drop_bit 6 b = 2"
  proof
    assume "is_cont b"
    then have "drop_bit 6 (b AND 0xc0) = drop_bit 6 0x80" by simp
    then show "drop_bit 6 b = 2"
      unfolding hi by (simp add: drop_bit_push)
  qed (simp add: hi)
  also have "\<dots> \<longleftrightarrow> unat b div 64 = 2"
    using unat_drop [of 6 b] by (simp add: word_unat_eq_iff)
  also have "\<dots> \<longleftrightarrow> 128 \<le> unat b \<and> unat b < 192" by auto
  finally show ?thesis .
qed

lemma tagged_range:
  "192 \<le> unat (tagged 6 5 x)" "unat (tagged 6 5 x) < 224"
  "224 \<le> unat (tagged 14 4 x)" "unat (tagged 14 4 x) < 240"
  "240 \<le> unat (tagged 30 3 x)"
proof -
  have "drop_bit 5 (tagged 6 5 x) = 6" "drop_bit 4 (tagged 14 4 x) = 14" "drop_bit 3 (tagged 30 3 x) = 30"
    by (simp_all add: drop_bit_tagged)
  then have "unat (tagged 6 5 x) div 32 = 6" "unat (tagged 14 4 x) div 16 = 14" "unat (tagged 30 3 x) div 8 = 30"
    using unat_drop [of 5 "tagged 6 5 x"] unat_drop [of 4 "tagged 14 4 x"] unat_drop [of 3 "tagged 30 3 x"]
    by simp_all
  then show "192 \<le> unat (tagged 6 5 x)" "unat (tagged 6 5 x) < 224"
  "224 \<le> unat (tagged 14 4 x)" "unat (tagged 14 4 x) < 240"
  "240 \<le> unat (tagged 30 3 x)" by auto
qed

lemma lead_not_cont:
  "\<not> is_cont (tagged 6 5 x)" "\<not> is_cont (tagged 14 4 x)" "\<not> is_cont (tagged 30 3 x)"
  unfolding is_cont_range using tagged_range [of x] by simp_all

lemma lead_class:
  "\<not> 0xf0 \<le> tagged 6 5 x" "\<not> 0xe0 \<le> tagged 6 5 x" "0xc0 \<le> tagged 6 5 x"
  "\<not> 0xf0 \<le> tagged 14 4 x" "0xe0 \<le> tagged 14 4 x" "0xf0 \<le> tagged 30 3 x"
  using tagged_range [of x] by (simp_all add: word_le_nat_alt)

lemma unat_ascii: "c \<le> 0x7f \<Longrightarrow> unat (ucast (c :: u32) :: u8) = unat c"
  by (simp add: unsigned_ucast_eq word_le_nat_alt take_bit_nat_eq_self)

text \<open>
  \<open>common_utf8_is_complete\<close> tells exactly whether a text stops inside a UTF-8 sequence: a
  text that ends with the first \<open>k\<close> bytes of the encoding of a code point is complete if and only
  if these are all of its bytes, whatever the bytes before them are.
\<close>

lemma is_complete_ends:
  assumes "unicode_cpt_to_utf8 c = Inr bs" "0 < k" "k \<le> length bs"
  shows "common_utf8_is_complete (s @ take k bs) \<longleftrightarrow> k = length bs"
  using assms(1)
proof (cases rule: unicode_cpt_to_utf8_cases)
  case one
  then show ?thesis using assms(2,3)
    by (auto simp: common_utf8_is_complete_def is_cont_range unat_ascii word_le_nat_alt)
next
  case two
  then have "k = 1 \<or> k = 2" using assms(2,3) by auto
  then show ?thesis
    by (elim disjE) (simp_all add: two common_utf8_is_complete_def lead_not_cont lead_class)
next
  case three
  then have "k = 1 \<or> k = 2 \<or> k = 3" using assms(2,3) by auto
  then show ?thesis
    by (elim disjE) (simp_all add: three common_utf8_is_complete_def lead_not_cont lead_class)
next
  case four
  then have "k = 1 \<or> k = 2 \<or> k = 3 \<or> k = 4" using assms(2,3) by auto
  then show ?thesis
    by (elim disjE) (simp_all add: four common_utf8_is_complete_def lead_not_cont lead_class)
qed

section \<open>Bytes as printable code points\<close>

text \<open>
  The byte-level BPE alphabet: bytes that print stand for themselves, and the others for the code
  points from 256 on, in order. Both tables are built by the same three loops over printable bytes
  followed by a loop over all bytes.
\<close>

definition byte_ranges :: "nat list" where
  "byte_ranges = [0x21..<0x7F] @ [0xA1..<0xAD] @ [0xAE..<0x100]"

definition byte_map_add :: "nat \<Rightarrow> (u8 \<rightharpoonup> u8 list) \<Rightarrow> (u8 \<rightharpoonup> u8 list) result" where
  "byte_map_add ch m = rbind (unicode_cpt_to_utf8 (of_nat ch)) (\<lambda>s. Inr (m(of_nat ch \<mapsto> s)))"

definition byte_map_fill ::
  "nat \<Rightarrow> (u8 \<rightharpoonup> u8 list) \<times> nat \<Rightarrow> ((u8 \<rightharpoonup> u8 list) \<times> nat) result" where
  "byte_map_fill ch mn =
     (if fst mn (of_nat ch) = None
      then rbind (unicode_cpt_to_utf8 (256 + of_nat (snd mn)))
             (\<lambda>s. Inr ((fst mn)(of_nat ch \<mapsto> s), Suc (snd mn)))
      else Inr mn)"

definition unicode_byte_to_utf8_map :: "(u8 \<rightharpoonup> u8 list) result" where
  "unicode_byte_to_utf8_map =
     rbind (rfold byte_map_add byte_ranges Map.empty) (\<lambda>m.
     rbind (rfold byte_map_fill [0..<256] (m, 0)) (\<lambda>mn.
     Inr (fst mn)))"

definition utf8_map_add :: "nat \<Rightarrow> (u8 list \<rightharpoonup> u8) \<Rightarrow> (u8 list \<rightharpoonup> u8) result" where
  "utf8_map_add ch m = rbind (unicode_cpt_to_utf8 (of_nat ch)) (\<lambda>s. Inr (m(s \<mapsto> of_nat ch)))"

definition utf8_map_fill ::
  "nat \<Rightarrow> (u8 list \<rightharpoonup> u8) \<times> nat \<Rightarrow> ((u8 list \<rightharpoonup> u8) \<times> nat) result" where
  "utf8_map_fill ch mn =
     rbind (unicode_cpt_to_utf8 (of_nat ch)) (\<lambda>k.
     if fst mn k = None
     then rbind (unicode_cpt_to_utf8 (256 + of_nat (snd mn)))
            (\<lambda>s. Inr ((fst mn)(s \<mapsto> of_nat ch), Suc (snd mn)))
     else Inr mn)"

definition unicode_utf8_to_byte_map :: "(u8 list \<rightharpoonup> u8) result" where
  "unicode_utf8_to_byte_map =
     rbind (rfold utf8_map_add byte_ranges Map.empty) (\<lambda>m.
     rbind (rfold utf8_map_fill [0..<256] (m, 0)) (\<lambda>mn.
     Inr (fst mn)))"

definition map_at :: "('k \<rightharpoonup> 'v) \<Rightarrow> 'k \<Rightarrow> 'v result" where
  "map_at m k = (case m k of None \<Rightarrow> Inl (Throw ''out_of_range'') | Some v \<Rightarrow> Inr v)"

definition unicode_byte_to_utf8 :: "u8 \<Rightarrow> u8 list result" where
  "unicode_byte_to_utf8 byte = rbind unicode_byte_to_utf8_map (\<lambda>m. map_at m byte)"

definition unicode_utf8_to_byte :: "u8 list \<Rightarrow> u8 result" where
  "unicode_utf8_to_byte utf8 = rbind unicode_utf8_to_byte_map (\<lambda>m. map_at m utf8)"

definition unicode_byte_encoding_process :: "u8 list list \<Rightarrow> u8 list list result" where
  "unicode_byte_encoding_process bpe_words =
     rmap (\<lambda>word.
       rbind (rfold (\<lambda>c text. rbind (unicode_cpt_to_utf8 c) (\<lambda>s. Inr (text @ s)))
                (unicode_cpts_from_utf8 word) []) (\<lambda>text_utf.
       rfold (\<lambda>c tok. rbind (unicode_byte_to_utf8 c) (\<lambda>s. Inr (tok @ s))) text_utf [])) bpe_words"

definition code_bytes :: "nat \<Rightarrow> u8 list" where
  "code_bytes c = (case unicode_cpt_to_utf8 (of_nat c) of Inr bs \<Rightarrow> bs | Inl _ \<Rightarrow> [])"

lemma code_bytes: "c \<le> 0x10ffff \<Longrightarrow> unicode_cpt_to_utf8 (of_nat c) = Inr (code_bytes c)"
proof -
  assume "c \<le> 0x10ffff"
  then have "(of_nat c :: u32) \<le> 0x10ffff"
    by (simp add: word_le_nat_alt unat_of_nat take_bit_nat_eq_self)
  then show ?thesis using unicode_cpt_to_utf8_total [of "of_nat c"] by (auto simp: code_bytes_def)
qed

lemma code_bytes_inj:
  assumes "c \<le> 0x10ffff" "d \<le> 0x10ffff"
  shows "code_bytes c = code_bytes d \<longleftrightarrow> c = d"
proof
  assume "code_bytes c = code_bytes d"
  then have "(of_nat c :: u32) = of_nat d"
    using ucodec.enc_inj code_bytes [OF assms(1)] code_bytes [OF assms(2)] by metis
  then have "unat (of_nat c :: u32) = unat (of_nat d :: u32)" by simp
  then show "c = d" using assms by (simp add: unat_of_nat take_bit_nat_eq_self)
qed simp

definition holes :: "nat \<Rightarrow> nat" where
  "holes j = length (filter (\<lambda>k. k \<notin> set byte_ranges) [0..<j])"

definition byte_cpt :: "nat \<Rightarrow> nat" where
  "byte_cpt k = (if k \<in> set byte_ranges then k else 256 + holes k)"

lemma holes_Suc: "holes (Suc j) = (if j \<in> set byte_ranges then holes j else Suc (holes j))"
  by (simp add: holes_def)

lemma holes_le: "holes j \<le> j"
  by (induction j) (auto simp: holes_Suc, simp add: holes_def)

lemma holes_mono: "i \<le> j \<Longrightarrow> holes i \<le> holes j"
  by (induction rule: dec_induct) (auto simp: holes_Suc)

lemma byte_ranges_lt: "k \<in> set byte_ranges \<Longrightarrow> k < 256"
  by (auto simp: byte_ranges_def)

lemma byte_cpt_inj: "i < 256 \<Longrightarrow> j < 256 \<Longrightarrow> byte_cpt i = byte_cpt j \<longleftrightarrow> i = j"
proof (induction i j rule: linorder_wlog)
  case (le i j)
  have "holes i < holes j" if "i < j" "i \<notin> set byte_ranges"
    using that holes_mono [of "Suc i" j] by (simp add: holes_Suc)
  then show ?case using le by (cases "i = j") (auto simp: byte_cpt_def dest: byte_ranges_lt)
next
  case (sym i j)
  then show ?case by auto
qed

lemma byte_cpt_le: "k < 256 \<Longrightarrow> byte_cpt k \<le> 0x10ffff"
  using holes_le [of k] by (simp add: byte_cpt_def)

definition byte_tab :: "nat set \<Rightarrow> (u8 \<rightharpoonup> u8 list)" where
  "byte_tab K b = (if unat b \<in> K then Some (code_bytes (byte_cpt (unat b))) else None)"

lemma byte_tab_update:
  "k < 256 \<Longrightarrow> (byte_tab K)(of_nat k \<mapsto> code_bytes (byte_cpt k)) = byte_tab (insert k K)"
  by (rule ext) (auto simp: byte_tab_def unat_of_nat take_bit_nat_eq_self)

lemma byte_loop1:
  "set ks \<subseteq> set byte_ranges \<Longrightarrow>
   rfold byte_map_add ks (byte_tab K) = Inr (byte_tab (K \<union> set ks))"
proof (induction ks arbitrary: K)
  case (Cons k ks)
  then have k: "k < 256" "byte_cpt k = k" by (auto simp: byte_cpt_def dest: byte_ranges_lt)
  have "byte_map_add k (byte_tab K) = Inr (byte_tab (insert k K))"
    using k byte_tab_update [of k K] by (simp add: byte_map_add_def code_bytes)
  then show ?case using Cons by simp
qed simp

lemma holes_code: "j \<le> 256 \<Longrightarrow>
  unicode_cpt_to_utf8 (256 + of_nat (holes j)) = Inr (code_bytes (256 + holes j))"
  using code_bytes [of "256 + holes j"] holes_le [of j] by simp

lemma byte_loop2:
  assumes "K = set byte_ranges" "j \<le> 256"
  shows "rfold byte_map_fill [0..<j] (byte_tab K, 0) = Inr (byte_tab (K \<union> {..<j}), holes j)"
  using assms(2)
proof (induction j)
  case 0
  then show ?case by (simp add: holes_def)
next
  case (Suc j)
  have "unat (of_nat j :: u8) = j" using Suc.prems by (simp add: unat_of_nat take_bit_nat_eq_self)
  then have "byte_map_fill j (byte_tab (K \<union> {..<j}), holes j) =
      Inr (byte_tab (K \<union> {..<Suc j}), holes (Suc j))"
    using Suc.prems byte_tab_update [of j "K \<union> {..<j}"] holes_code [of j] assms(1)
    by (auto simp: byte_map_fill_def byte_tab_def [of _ "of_nat j"] holes_Suc byte_cpt_def
        lessThan_Suc insert_absorb)
  then show ?case using Suc by (simp add: rfold_append)
qed

lemma byte_to_utf8_map_eq: "unicode_byte_to_utf8_map = Inr (byte_tab {..<256})"
proof -
  have "byte_tab {} = Map.empty" by (rule ext) (simp add: byte_tab_def)
  moreover have "set byte_ranges \<union> {..<256} = {..<256}" by (auto dest: byte_ranges_lt)
  ultimately show ?thesis
    unfolding unicode_byte_to_utf8_map_def
    using byte_loop1 [of byte_ranges "{}"] byte_loop2 [of "set byte_ranges" 256] by simp
qed

text \<open>The second table is the inverse of the first at every stage.\<close>

definition inverse_of :: "nat set \<Rightarrow> (u8 list \<rightharpoonup> u8) \<Rightarrow> bool" where
  "inverse_of K m \<longleftrightarrow>
     (\<forall>k<256. m (code_bytes (byte_cpt k)) = (if k \<in> K then Some (of_nat k) else None)) \<and>
     (\<forall>c<256. m (code_bytes c) \<noteq> None \<longrightarrow> c \<in> set byte_ranges)"

lemma inverse_of_update:
  assumes "inverse_of K m" "k < 256"
  shows "inverse_of (insert k K) (m(code_bytes (byte_cpt k) \<mapsto> of_nat k))"
proof -
  have "code_bytes (byte_cpt i) = code_bytes (byte_cpt k) \<longleftrightarrow> i = k" if "i < 256" for i
    using that assms(2) code_bytes_inj [OF byte_cpt_le byte_cpt_le] byte_cpt_inj by metis
  moreover have "c \<in> set byte_ranges" if "c < 256" "code_bytes c = code_bytes (byte_cpt k)" for c
    using that code_bytes_inj [OF _ byte_cpt_le [OF assms(2)], of c]
    by (auto simp: byte_cpt_def split: if_splits)
  ultimately show ?thesis using assms(1) by (auto simp: inverse_of_def)
qed

lemma utf8_loop1:
  "set ks \<subseteq> set byte_ranges \<Longrightarrow> inverse_of K m \<Longrightarrow>
   \<exists>m'. rfold utf8_map_add ks m = Inr m' \<and> inverse_of (K \<union> set ks) m'"
proof (induction ks arbitrary: K m)
  case (Cons k ks)
  then have k: "k < 256" "byte_cpt k = k" by (auto simp: byte_cpt_def dest: byte_ranges_lt)
  obtain m1 where m1: "utf8_map_add k m = Inr m1" "inverse_of (insert k K) m1"
    using k inverse_of_update [OF Cons.prems(2) k(1)] by (simp add: utf8_map_add_def code_bytes)
  then show ?case using Cons.IH [OF _ m1(2)] Cons.prems(1) by simp
qed auto

lemma utf8_loop2:
  assumes "inverse_of (set byte_ranges) m" "j \<le> 256"
  shows "\<exists>m'. rfold utf8_map_fill [0..<j] (m, 0) = Inr (m', holes j) \<and>
              inverse_of (set byte_ranges \<union> {..<j}) m'"
  using assms(2)
proof (induction j)
  case 0
  then show ?case using assms(1) by (simp add: holes_def)
next
  case (Suc j)
  then obtain m' where m': "rfold utf8_map_fill [0..<j] (m, 0) = Inr (m', holes j)"
      and inv: "inverse_of (set byte_ranges \<union> {..<j}) m'" by auto
  have "\<exists>m2. utf8_map_fill j (m', holes j) = Inr (m2, holes (Suc j)) \<and>
             inverse_of (set byte_ranges \<union> {..<Suc j}) m2"
  proof (cases "j \<in> set byte_ranges")
    case True
    then have "m' (code_bytes j) = Some (of_nat j)"
      using inv Suc.prems by (auto simp: inverse_of_def byte_cpt_def dest: spec [of _ j])
    then show ?thesis using True inv Suc.prems
      by (simp add: utf8_map_fill_def code_bytes holes_Suc lessThan_Suc insert_absorb)
  next
    case False
    then have "m' (code_bytes j) = None"
      using inv Suc.prems unfolding inverse_of_def by (metis Suc_le_eq)
    then show ?thesis
      using False inverse_of_update [OF inv, of j] Suc.prems holes_code [of j]
      by (simp add: utf8_map_fill_def code_bytes holes_Suc lessThan_Suc byte_cpt_def)
  qed
  then show ?case using m' by (auto simp: rfold_append)
qed

lemma utf8_to_byte_code: "unicode_utf8_to_byte (code_bytes (byte_cpt (unat b))) = Inr b"
proof -
  have b: "unat b < 256" using unsigned_less [of b] by simp
  have "inverse_of {} Map.empty" by (simp add: inverse_of_def)
  from utf8_loop1 [OF subset_refl this] obtain m1
    where m1: "rfold utf8_map_add byte_ranges Map.empty = Inr m1" "inverse_of (set byte_ranges) m1"
    by auto
  from utf8_loop2 [OF m1(2), of 256] obtain m2
    where m2: "rfold utf8_map_fill [0..<256] (m1, 0) = Inr (m2, holes 256)"
      "inverse_of (set byte_ranges \<union> {..<256}) m2" by auto
  have "m2 (code_bytes (byte_cpt (unat b))) = Some b"
    using m2(2) b by (simp add: inverse_of_def)
  then show ?thesis using m1(1) m2(1)
    by (simp add: unicode_utf8_to_byte_def unicode_utf8_to_byte_map_def map_at_def)
qed

text \<open>
  The byte-level alphabet is lossless: both tables are built without an exception, every byte has
  an image under \<open>unicode_byte_to_utf8\<close>, and \<open>unicode_utf8_to_byte\<close> maps the image back to the
  byte.
\<close>

lemma byte_alphabet_roundtrip:
  "\<exists>s. unicode_byte_to_utf8 b = Inr s \<and> unicode_utf8_to_byte s = Inr b"
  using unsigned_less [of b] utf8_to_byte_code [of b]
  by (simp add: unicode_byte_to_utf8_def byte_to_utf8_map_eq map_at_def byte_tab_def)

text \<open>
  \<open>unicode_cpts_from_utf8\<close> replaces invalid input by \<open>0xFFFD\<close> so that no exception leaves the
  tokenizer, but four bytes that encode a number above \<open>0x10FFFF\<close> are decoded, and encoding that
  number again throws.
\<close>

lemma byte_encoding_throws:
  "unicode_cpts_from_utf8 [0xf4, 0x90, 0x80, 0x80] = [0x110000]"
  "unicode_byte_encoding_process [[0xf4, 0x90, 0x80, 0x80]] = Inl (Throw ''invalid codepoint'')"
proof -
  show d: "unicode_cpts_from_utf8 [0xf4, 0x90, 0x80, 0x80] = [0x110000]" by code_simp
  show "unicode_byte_encoding_process [[0xf4, 0x90, 0x80, 0x80]] = Inl (Throw ''invalid codepoint'')"
    by (simp add: unicode_byte_encoding_process_def d unicode_cpt_to_utf8_def)
qed

end
