(* ===== verification/Grammar_Utf8.thy ===== *)
theory Grammar_Utf8
  imports Grammar_Elements Unicode
begin

text \<open>
  The two UTF-8 decoders of \<open>src/llama-grammar.cpp\<close>. The first reads one code point of the
  grammar text; the second decodes the piece of a token, starting from the incomplete sequence that
  the previous tokens have left and returning the one that this piece leaves. A C string is the list
  of its bytes before the terminating zero, and reading at the end of the list is reading that zero.
\<close>

unbundle bit_operations_syntax

section \<open>Decoding one code point of a grammar\<close>

fun decode_tail :: "u8 list \<Rightarrow> nat \<Rightarrow> u32 \<Rightarrow> u32 \<times> u8 list" where
  "decode_tail (b # bs) (Suc n) v =
     (if b \<noteq> 0 then decode_tail bs n (push_bit 6 v + ucast (b AND 0x3F)) else (v, b # bs))"
| "decode_tail bs _ v = (v, bs)"

definition decode_utf8 :: "u8 list \<Rightarrow> u32 \<times> u8 list" where
  "decode_utf8 src =
     (let first_byte = (case src of [] \<Rightarrow> 0 | b # _ \<Rightarrow> b);
          len = utf8_lookup ! unat (drop_bit 4 first_byte);
          msk = push_bit (8 - len) 1 - 1 :: u8
      in decode_tail (tl src) (len - 1) (ucast (first_byte AND msk)))"

section \<open>Decoding the piece of a token\<close>

definition piece_lookup :: "int list" where
  "piece_lookup = [1, 1, 1, 1, 1, 1, 1, 1, 0, 0, 0, 0, 2, 2, 3, 4]"

text \<open>The loop that continues the previous sequence; \<open>None\<close> is its early return.\<close>

fun continue_loop :: "u8 list \<Rightarrow> u32 \<Rightarrow> int \<Rightarrow> (u8 list \<times> u32 \<times> int) option" where
  "continue_loop (b # bs) v n =
     (if b \<noteq> 0 \<and> n > 0 then
        if drop_bit 6 b \<noteq> 2 then None
        else continue_loop bs (push_bit 6 v + ucast (b AND 0x3F)) (n - 1)
      else Some (b # bs, v, n))"
| "continue_loop [] v n = Some ([], v, n)"

fun sequence_loop :: "u8 list \<Rightarrow> u32 \<Rightarrow> int \<Rightarrow> u8 list \<times> u32 \<times> int" where
  "sequence_loop (b # bs) v n =
     (if b \<noteq> 0 \<and> n > 0 then sequence_loop bs (push_bit 6 v + ucast (b AND 0x3F)) (n - 1)
      else (b # bs, v, n))"
| "sequence_loop [] v n = ([], v, n)"

lemma sequence_loop_length: "sequence_loop bs v n = (bs', v', n') \<Longrightarrow> length bs' \<le> length bs"
  by (induction bs v n rule: sequence_loop.induct) (auto split: if_splits)

function decode_loop ::
  "u8 list \<Rightarrow> u32 \<Rightarrow> int \<Rightarrow> u32 list \<Rightarrow> u32 list \<times> llama_partial_utf8" where
  "decode_loop [] v n cps = (cps @ [0], \<lparr>pvalue = v, n_remain = n\<rparr>)"
| "decode_loop (b # bs) v n cps =
     (if b = 0 then (cps @ [0], \<lparr>pvalue = v, n_remain = n\<rparr>)
      else let n1 = piece_lookup ! unat (drop_bit 4 b) - 1 in
      if n1 < 0 then ([0], \<lparr>pvalue = 0, n_remain = n1\<rparr>)
      else let msk = push_bit (nat (7 - n1)) 1 - 1 :: u8;
               r = sequence_loop bs (ucast (b AND msk)) n1
           in decode_loop (fst r) (fst (snd r)) (snd (snd r))
                (if snd (snd r) = 0 then cps @ [fst (snd r)] else cps))"
  by pat_completeness auto
termination
proof (relation "measure (\<lambda>(bs, _). length bs)")
  fix b bs n1 msk r
  show "((fst r, fst (snd r), snd (snd r), c), (b # bs, v, n, cps)) \<in> measure (\<lambda>(bs, _). length bs)"
    if "r = sequence_loop bs (ucast (b AND msk)) n1" for c cps :: "u32 list" and v n
    using sequence_loop_length [of bs "ucast (b AND msk)" n1 "fst r" "fst (snd r)" "snd (snd r)"] that
    by (simp add: less_Suc_eq_le)
qed simp

declare decode_loop.simps [simp del]

definition decode_utf8_piece :: "u8 list \<Rightarrow> llama_partial_utf8 \<Rightarrow> u32 list \<times> llama_partial_utf8" where
  "decode_utf8_piece src partial_start =
     (case continue_loop src (pvalue partial_start) (n_remain partial_start) of
        None \<Rightarrow> ([0], \<lparr>pvalue = 0, n_remain = -1\<rparr>)
      | Some (bs, v, n) \<Rightarrow>
          decode_loop bs v n (if n_remain partial_start > 0 \<and> n = 0 then [v] else []))"

section \<open>Decoding in pieces\<close>

lemma decode_loop_acc:
  "decode_loop bs v n cps = (c, p) \<Longrightarrow> 0 \<le> n_remain p \<Longrightarrow>
   decode_loop bs v n (pre @ cps) = (pre @ c, p)"
proof (induction bs v n cps arbitrary: c rule: decode_loop.induct)
  case (1 v n cps)
  then show ?case by (auto simp: decode_loop.simps)
next
  case (2 b bs v n cps)
  show ?case
  proof (cases "b = 0 \<or> piece_lookup ! unat (drop_bit 4 b) - 1 < 0")
    case True
    then show ?thesis using "2.prems" by (auto simp: decode_loop.simps Let_def)
  next
    case False
    then show ?thesis using "2.prems" "2.IH" [OF _ refl _ refl refl, of c]
      by (auto simp: decode_loop.simps(2) [of b bs] Let_def split: if_splits)
  qed
qed

lemma sequence_loop_nonneg:
  "sequence_loop bs v n = (bs', v', n') \<Longrightarrow> 0 \<le> n \<Longrightarrow> 0 \<le> n'"
  by (induction bs v n rule: sequence_loop.induct) (auto split: if_splits)

lemma sequence_loop_append:
  assumes "0 \<notin> set a" "sequence_loop a v n = (a', v', n')"
  shows "sequence_loop (a @ b) v n = (if 0 < n' then sequence_loop b v' n' else (a' @ b, v', n')) \<and>
         0 \<notin> set a' \<and> (0 < n' \<longrightarrow> a' = [])"
  using assms
  by (induction a v n rule: sequence_loop.induct) (cases b; auto split: if_splits)+

lemma continue_sequence: "continue_loop bs v n = Some r \<Longrightarrow> sequence_loop bs v n = r"
  by (induction bs v n rule: continue_loop.induct) (auto split: if_splits)

lemma continue_loop_append:
  assumes "0 \<notin> set a" "continue_loop a v n = Some (a', v', n')"
  shows "continue_loop (a @ b) v n = (if 0 < n' then continue_loop b v' n' else Some (a' @ b, v', n')) \<and>
         0 \<notin> set a' \<and> (0 < n' \<longrightarrow> a' = [] \<and> 0 < n)"
  using assms
  by (induction a v n rule: continue_loop.induct) (cases b; auto split: if_splits)+

lemma decode_piece_stopped:
  "n \<le> 0 \<Longrightarrow> decode_utf8_piece b \<lparr>pvalue = v, n_remain = n\<rparr> = decode_loop b v n []"
  by (cases b) (auto simp: decode_utf8_piece_def)

lemma decode_piece_failed: "0 \<le> n_remain (snd (decode_utf8_piece b p)) \<Longrightarrow>
  \<exists>r. continue_loop b (pvalue p) (n_remain p) = Some r"
  by (cases "continue_loop b (pvalue p) (n_remain p)") (auto simp: decode_utf8_piece_def)

lemma decode_loop_append:
  assumes "0 \<notin> set a" "n \<le> 0" "decode_loop a v n cps = (c1, p1)" "0 \<le> n_remain p1"
    "decode_utf8_piece b p1 = (c2, p2)" "0 \<le> n_remain p2"
  shows "decode_loop (a @ b) v n cps = (butlast c1 @ c2, p2)"
  using assms
proof (induction a v n cps arbitrary: c1 rule: decode_loop.induct)
  case (1 v n cps)
  then show ?case using decode_loop_acc [of b v n "[]" c2 p2 cps]
    by (auto simp: decode_loop.simps(1) decode_piece_stopped)
next
  case (2 x a v n cps)
  define n1 where "n1 = piece_lookup ! unat (drop_bit 4 x) - 1"
  define v1 where "v1 = (ucast (x AND (push_bit (nat (7 - n1)) 1 - 1)) :: u32)"
  obtain a' v' n' where s: "sequence_loop a v1 n1 = (a', v', n')" by (metis prod_cases3)
  have n1: "0 \<le> n1" and x: "x \<noteq> 0"
    using "2.prems" by (auto simp: decode_loop.simps(2) n1_def Let_def split: if_splits)
  have step: "decode_loop (x # ys) v n cps = decode_loop zs w m (if m = 0 then cps @ [w] else cps)"
    if "sequence_loop ys v1 n1 = (zs, w, m)" for ys zs w m
    using that n1 x by (simp add: decode_loop.simps(2) Let_def n1_def v1_def)
  have n': "0 \<le> n'" using sequence_loop_nonneg [OF s n1] .
  have app: "sequence_loop (a @ b) v1 n1 = (if 0 < n' then sequence_loop b v' n' else (a' @ b, v', n'))"
    "0 \<notin> set a'" "0 < n' \<longrightarrow> a' = []"
    using sequence_loop_append [OF _ s, of b] "2.prems"(1) by auto
  show ?case
  proof (cases "0 < n'")
    case True
    then have p1: "p1 = \<lparr>pvalue = v', n_remain = n'\<rparr>" "c1 = cps @ [0]"
      using "2.prems"(3) step [OF s] app(3) by (auto simp: decode_loop.simps(1))
    obtain b' w m where c: "continue_loop b v' n' = Some (b', w, m)"
      using decode_piece_failed [of b p1] "2.prems"(5,6) p1 by auto
    have "decode_loop b' w m (if m = 0 then [w] else []) = (c2, p2)"
      using "2.prems"(5) True c p1 by (simp add: decode_utf8_piece_def)
    then have "decode_loop b' w m (cps @ (if m = 0 then [w] else [])) = (cps @ c2, p2)"
      by (rule decode_loop_acc) (rule "2.prems"(6))
    then show ?thesis
      using step [of "a @ b" b' w m] app(1) True continue_sequence [OF c] p1
      by (auto split: if_splits)
  next
    case False
    then have "n' = 0" using n' by simp
    then show ?thesis
      using "2.IH" [OF x refl _ refl refl, folded n1_def, folded v1_def, unfolded s, of c1]
        "2.prems"(3-6) step [OF s] step [of "a @ b" "a' @ b" v' n'] app n1 by simp
  qed
qed

section \<open>Decoding what was encoded\<close>

lemma lookup_range:
  fixes b :: u8
  shows "unat b < 128 \<Longrightarrow> piece_lookup ! unat (drop_bit 4 b) = 1"
  "192 \<le> unat b \<Longrightarrow> unat b < 224 \<Longrightarrow> piece_lookup ! unat (drop_bit 4 b) = 2"
  "224 \<le> unat b \<Longrightarrow> unat b < 240 \<Longrightarrow> piece_lookup ! unat (drop_bit 4 b) = 3"
  "240 \<le> unat b \<Longrightarrow> piece_lookup ! unat (drop_bit 4 b) = 4"
proof -
  have d: "unat (drop_bit 4 b) = unat b div 16" using unat_drop [of 4 b] by simp
  have b: "unat b < 256" using unsigned_less [of b] by simp
  show "unat b < 128 \<Longrightarrow> piece_lookup ! unat (drop_bit 4 b) = 1"
  proof -
    assume "unat b < 128"
    then have "unat b div 16 \<in> {0,1,2,3,4,5,6,7}" by auto
    then show ?thesis unfolding d by (auto simp: piece_lookup_def)
  qed
  show "192 \<le> unat b \<Longrightarrow> unat b < 224 \<Longrightarrow> piece_lookup ! unat (drop_bit 4 b) = 2"
  proof -
    assume "192 \<le> unat b" "unat b < 224"
    then have "unat b div 16 \<in> {12,13}" by auto
    then show ?thesis unfolding d by (auto simp: piece_lookup_def)
  qed
  show "224 \<le> unat b \<Longrightarrow> unat b < 240 \<Longrightarrow> piece_lookup ! unat (drop_bit 4 b) = 3"
  proof -
    assume "224 \<le> unat b" "unat b < 240"
    then have "unat b div 16 = 14" by auto
    then show ?thesis unfolding d by (auto simp: piece_lookup_def)
  qed
  show "240 \<le> unat b \<Longrightarrow> piece_lookup ! unat (drop_bit 4 b) = 4"
  proof -
    assume "240 \<le> unat b"
    then have "unat b div 16 = 15" using b by auto
    then show ?thesis unfolding d by (auto simp: piece_lookup_def)
  qed
qed

lemma take_bit_lead: "even m \<Longrightarrow> k < 8 \<Longrightarrow> ucast (take_bit (Suc k) (tagged m k x)) = take_bit k x"
  by (intro bit_word_eqI) (auto simp: bit_simps bit_tagged bit_0 less_Suc_eq)

lemma lead_payload:
  "ucast (tagged 6 5 x AND (push_bit 6 1 - 1)) = take_bit 5 x"
  "ucast (tagged 14 4 x AND (push_bit 5 1 - 1)) = take_bit 4 x"
  "ucast (tagged 30 3 x AND (push_bit 4 1 - 1)) = take_bit 3 x"
  using take_bit_lead [of 6 5 x] take_bit_lead [of 14 4 x] take_bit_lead [of 30 3 x]
  by (simp_all add: and_low_masks)

lemma cont_payload: "ucast (tagged 2 6 x AND 0x3f) = take_bit 6 x"
  by (simp add: and_low_masks take_bit_tagged)

lemma tagged_nonzero [simp]:
  "tagged 2 6 x \<noteq> 0" "tagged 6 5 x \<noteq> 0" "tagged 14 4 x \<noteq> 0" "tagged 30 3 x \<noteq> 0"
proof -
  have "128 \<le> unat (tagged 2 6 x)" using is_cont_tagged [of x] unfolding is_cont_range by blast
  then show "tagged 2 6 x \<noteq> 0" by auto
qed (use tagged_range [of x] in auto)

lemma ascii_payload: "c \<le> 0x7f \<Longrightarrow> ucast ((ucast (c :: u32) :: u8) AND (push_bit 7 1 - 1)) = c"
proof -
  assume "c \<le> 0x7f"
  then have "take_bit 7 c = c" by (intro take_bit_lt) (simp_all add: word_le_nat_alt word_less_nat_alt)
  then have low: "bit c n \<Longrightarrow> n < 7" for n by (metis bit_take_bit_iff)
  have "(push_bit 7 1 - 1 :: u8) = mask 7" by (simp add: mask_eq_exp_minus_1)
  then show ?thesis
    by (simp only: flip: take_bit_eq_mask) (intro bit_word_eqI, auto simp: bit_simps dest: low)
qed

lemma recombine_add: "push_bit 6 (drop_bit (k + 6) c) + take_bit 6 (drop_bit k c) = drop_bit k (c :: u32)"
  using bits_ident [of 6 "drop_bit k c"] by (simp add: add.commute)

lemma decode_loop_encoded:
  assumes "unicode_cpt_to_utf8 c = Inr bs" "c \<noteq> 0"
  shows "decode_loop (bs @ rest) v n cps = decode_loop rest c 0 (cps @ [c])"
  using assms(1)
proof (cases rule: unicode_cpt_to_utf8_cases)
  case one
  have "unat c \<noteq> 0" using assms(2) by (simp add: unat_eq_zero)
  then have "(ucast c :: u8) \<noteq> 0" using unat_ascii [OF one(1)] by (metis unsigned_0)
  moreover have "unat (ucast c :: u8) < 128" using one unat_ascii [OF one(1)] by (simp add: word_le_nat_alt)
  moreover have "sequence_loop rest c 0 = (rest, c, 0)" by (cases rest) auto
  ultimately show ?thesis using one ascii_payload [OF one(1)]
    by (simp add: decode_loop.simps(2) lookup_range)
next
  case two
  then have "c < 2 ^ (5 + 6)" by (simp add: word_le_nat_alt word_less_nat_alt)
  then have "take_bit 5 (drop_bit 6 c) = drop_bit 6 c" by (rule take_drop_bit_lt) simp
  moreover have "sequence_loop rest c 0 = (rest, c, 0)" by (cases rest) auto
  ultimately show ?thesis using two recombine_add [of 0 c] tagged_range [of "drop_bit 6 c"]
    by (simp add: decode_loop.simps(2) lookup_range lead_payload [simplified] cont_payload)
next
  case three
  then have "c < 2 ^ (4 + 12)" by (simp add: word_le_nat_alt word_less_nat_alt)
  then have "take_bit 4 (drop_bit 12 c) = drop_bit 12 c" by (rule take_drop_bit_lt) simp
  moreover have "sequence_loop rest c 0 = (rest, c, 0)" by (cases rest) auto
  ultimately show ?thesis
    using three recombine_add [of 0 c] recombine_add [of 6 c] tagged_range [of "drop_bit 12 c"]
    by (simp add: decode_loop.simps(2) lookup_range lead_payload [simplified] cont_payload)
next
  case four
  then have "c < 2 ^ (3 + 18)" by (simp add: word_le_nat_alt word_less_nat_alt)
  then have "take_bit 3 (drop_bit 18 c) = drop_bit 18 c" by (rule take_drop_bit_lt) simp
  moreover have "sequence_loop rest c 0 = (rest, c, 0)" by (cases rest) auto
  ultimately show ?thesis
    using four recombine_add [of 0 c] recombine_add [of 6 c] recombine_add [of 12 c]
      tagged_range [of "drop_bit 18 c"]
    by (simp add: decode_loop.simps(2) lookup_range lead_payload [simplified] cont_payload)
qed

lemma decode_loop_encoded_list:
  "rmap unicode_cpt_to_utf8 cs = Inr bss \<Longrightarrow> 0 \<notin> set cs \<Longrightarrow>
   \<exists>v'. decode_loop (concat bss) v 0 cps = (cps @ cs @ [0], \<lparr>pvalue = v', n_remain = 0\<rparr>)"
proof (induction cs arbitrary: bss v cps)
  case Nil
  then show ?case by (auto simp: decode_loop.simps(1))
next
  case (Cons c cs)
  then obtain bs rest where c: "unicode_cpt_to_utf8 c = Inr bs" "rmap unicode_cpt_to_utf8 cs = Inr rest"
      "bss = bs # rest" by (auto simp: result_simps)
  show ?case
    using Cons.IH [OF c(2), of c "cps @ [c]"] Cons.prems(2) decode_loop_encoded [OF c(1)] c(3) by auto
qed

text \<open>
  The decoder of token pieces reads back what the encoder of \<open>src/unicode.cpp\<close> wrote: the
  UTF-8 text of any sequence of non-zero code points up to \<open>0x10FFFF\<close>, decoded with no incomplete
  sequence pending, gives exactly these code points, the terminating zero, and nothing pending.
\<close>

lemma decode_piece_roundtrip:
  assumes "\<forall>c\<in>set cs. c \<le> 0x10ffff" "0 \<notin> set cs"
  shows "\<exists>bs v. unicode_cpts_to_utf8 cs = Inr bs \<and>
           decode_utf8_piece bs \<lparr>pvalue = 0, n_remain = 0\<rparr> = (cs @ [0], \<lparr>pvalue = v, n_remain = 0\<rparr>)"
proof -
  obtain bss where bss: "rmap unicode_cpt_to_utf8 cs = Inr bss"
    using unicode_cpts_to_utf8_total [OF assms(1)] by blast
  then have "unicode_cpts_to_utf8 cs = Inr (concat bss)" by (simp add: unicode_cpts_to_utf8_rmap)
  then show ?thesis
    using decode_loop_encoded_list [OF bss assms(2), of 0 "[]"] by (simp add: decode_piece_stopped)
qed

text \<open>
  Splitting a text between tokens does not change what the grammar sees: when the first part of
  a text (without zero bytes) decodes and the second part decodes from the incomplete sequence that
  the first one left, then decoding the whole text gives the code points of both parts, in order, and
  the incomplete sequence that the second part left.
\<close>

lemma decode_in_pieces:
  assumes "0 \<notin> set a" "decode_utf8_piece a p0 = (c1, p1)" "0 \<le> n_remain p1"
    "decode_utf8_piece b p1 = (c2, p2)" "0 \<le> n_remain p2"
  shows "decode_utf8_piece (a @ b) p0 = (butlast c1 @ c2, p2)"
proof -
  have "\<exists>r. continue_loop a (pvalue p0) (n_remain p0) = Some r"
    using assms(2,3) by (intro decode_piece_failed) simp
  then obtain a' v n where c: "continue_loop a (pvalue p0) (n_remain p0) = Some (a', v, n)"
    by (metis prod_cases3)
  note app = continue_loop_append [OF assms(1) c, of b]
  show ?thesis
  proof (cases "0 < n")
    case True
    then have "p1 = \<lparr>pvalue = v, n_remain = n\<rparr>" "c1 = [0]"
      using assms(2) c app by (auto simp: decode_utf8_piece_def decode_loop.simps(1))
    then show ?thesis using True app assms(4)
      by (cases "continue_loop b v n") (auto simp: decode_utf8_piece_def)
  next
    case False
    then show ?thesis
      using decode_loop_append [of a' n v _ c1 p1 b c2 p2] assms(2-5) c app
      by (simp add: decode_utf8_piece_def)
  qed
qed

text \<open>
  The documented result for an invalid sequence, \<open>n_remain = -1\<close>, is only given when the invalid
  byte starts a piece or a sequence: a two-byte lead followed by an ASCII letter in the same piece
  decodes to a code point.
\<close>

lemma invalid_sequence_decodes:
  "decode_utf8_piece [0xc3, 0x41] \<lparr>pvalue = 0, n_remain = 0\<rparr> = ([0xc1, 0], \<lparr>pvalue = 0xc1, n_remain = 0\<rparr>)"
  "decode_utf8_piece [0x41] (snd (decode_utf8_piece [0xc3] \<lparr>pvalue = 0, n_remain = 0\<rparr>)) =
     ([0], \<lparr>pvalue = 0, n_remain = -1\<rparr>)"
  by code_simp+

end
