(* ===== verification/Grammar_Parser.thy ===== *)
theory Grammar_Parser
  imports Grammar_Utf8 "HOL-Library.AList"
begin

text \<open>
  The parser of GBNF grammars (\<open>llama_grammar_parser\<close> of \<open>src/llama-grammar.cpp\<close>). The grammar
  text is the list of bytes of a C string; a \<open>const char *\<close> into it is the rest of the list, and
  reading at its end is reading the terminating zero (\<open>peek\<close>). The exceptions carry the source's
  messages. The symbol table is an association list in the order of insertion: every name occurs
  once, so no lookup depends on the order.

  The vocabulary, which only \<open><token>\<close> elements need, is an optional tokenizer function.

  \<open>parse_sequence\<close> and \<open>parse_alternates\<close> call each other; they take the depth of the calls as
  fuel, and the length of the text bounds it.
\<close>

type_synonym ctext = "u8 list"
type_synonym vocab_tokenize = "(ctext \<Rightarrow> llama_token list) option"

definition peek :: "ctext \<Rightarrow> u8" where
  "peek src = (case src of [] \<Rightarrow> 0 | c # _ \<Rightarrow> c)"

abbreviation ch :: "char \<Rightarrow> u8" where
  "ch c \<equiv> of_char c"

definition to_chars :: "ctext \<Rightarrow> string" where
  "to_chars t = map (\<lambda>b. char_of (unat b)) t"

definition throw_at :: "string \<Rightarrow> ctext \<Rightarrow> 'a result" where
  "throw_at msg src = Inl (Throw (msg @ to_chars src))"

section \<open>Lexical elements\<close>

definition is_digit_char :: "u8 \<Rightarrow> bool" where
  "is_digit_char c = (ch CHR ''0'' \<le> c \<and> c \<le> ch CHR ''9'')"

definition is_word_char :: "u8 \<Rightarrow> bool" where
  "is_word_char c = ((ch CHR ''a'' \<le> c \<and> c \<le> ch CHR ''z'') \<or> (ch CHR ''A'' \<le> c \<and> c \<le> ch CHR ''Z'') \<or>
     c = ch CHR ''-'' \<or> is_digit_char c)"

fun digits :: "nat \<Rightarrow> ctext" where
  "digits n = (if n < 10 then [of_nat (48 + n)] else digits (n div 10) @ [of_nat (48 + n mod 10)])"

declare digits.simps [simp del]

definition hex_value :: "u8 \<Rightarrow> u32 option" where
  "hex_value c =
     (if ch CHR ''a'' \<le> c \<and> c \<le> ch CHR ''f'' then Some (ucast c - 97 + 10)
      else if ch CHR ''A'' \<le> c \<and> c \<le> ch CHR ''F'' then Some (ucast c - 65 + 10)
      else if ch CHR ''0'' \<le> c \<and> c \<le> ch CHR ''9'' then Some (ucast c - 48)
      else None)"

text \<open>The loop stops before the end when the text ends or a character is no hex digit; the number of
  characters that are missing then is not zero.\<close>

fun hex_loop :: "ctext \<Rightarrow> nat \<Rightarrow> u32 \<Rightarrow> u32 \<times> ctext \<times> nat" where
  "hex_loop (c # cs) (Suc n) v =
     (if c = 0 then (v, c # cs, Suc n)
      else case hex_value c of
        Some h \<Rightarrow> hex_loop cs n (push_bit 4 v + h)
      | None \<Rightarrow> (push_bit 4 v, c # cs, Suc n))"
| "hex_loop cs n v = (v, cs, n)"

definition parse_hex :: "ctext \<Rightarrow> nat \<Rightarrow> (u32 \<times> ctext) result" where
  "parse_hex src sz =
     (case hex_loop src sz 0 of (v, pos, missing) \<Rightarrow>
        if missing \<noteq> 0 then throw_at (''expecting '' @ to_chars (digits sz) @ '' hex chars at '') src
        else Inr (v, pos))"

definition skip_comment :: "ctext \<Rightarrow> ctext" where
  "skip_comment = dropWhile (\<lambda>c. c \<noteq> 0 \<and> c \<noteq> 13 \<and> c \<noteq> 10)"

lemma skip_comment_length: "length (skip_comment cs) \<le> length cs"
  by (simp add: skip_comment_def length_dropWhile_le)

function parse_space :: "ctext \<Rightarrow> bool \<Rightarrow> ctext" where
  "parse_space [] newline_ok = []"
| "parse_space (c # cs) newline_ok =
     (if c = ch CHR '' '' \<or> c = 9 \<or> c = ch CHR ''#'' \<or> (newline_ok \<and> (c = 13 \<or> c = 10)) then
        if c = ch CHR ''#'' then parse_space (skip_comment cs) newline_ok
        else parse_space cs newline_ok
      else c # cs)"
  by pat_completeness auto
termination
  by (relation "measure (\<lambda>(cs, _). length cs)") (auto simp: less_Suc_eq_le skip_comment_length)

definition parse_name :: "ctext \<Rightarrow> (ctext \<times> ctext) result" where
  "parse_name src =
     (let name = takeWhile is_word_char src in
      if name = [] then throw_at ''expecting name at '' src
      else Inr (name, dropWhile is_word_char src))"

definition parse_int :: "ctext \<Rightarrow> (ctext \<times> ctext) result" where
  "parse_int src =
     (let ds = takeWhile is_digit_char src in
      if ds = [] then throw_at ''expecting integer at '' src
      else Inr (ds, dropWhile is_digit_char src))"

definition digits_value :: "ctext \<Rightarrow> int" where
  "digits_value ds = foldl (\<lambda>v d. 10 * v + (uint d - 48)) 0 ds"

text \<open>\<open>std::stoul\<close> and \<open>std::stoull\<close>: a number that does not fit in 64 bits is an exception.\<close>

definition stoull :: "string \<Rightarrow> ctext \<Rightarrow> u64 result" where
  "stoull fname ds = (if digits_value ds < 2 ^ 64 then Inr (of_int (digits_value ds)) else Inl (Throw fname))"

definition parse_char :: "ctext \<Rightarrow> (u32 \<times> ctext) result" where
  "parse_char src =
     (if peek src = 92 then
        let c = peek (tl src); rest = drop 2 src in
        if c = ch CHR ''x'' then parse_hex rest 2
        else if c = ch CHR ''u'' then parse_hex rest 4
        else if c = ch CHR ''U'' then parse_hex rest 8
        else if c = ch CHR ''t'' then Inr (9, rest)
        else if c = ch CHR ''r'' then Inr (13, rest)
        else if c = ch CHR ''n'' then Inr (10, rest)
        else if c = 92 \<or> c = 34 \<or> c = ch CHR ''['' \<or> c = ch CHR '']'' then Inr (ucast c, rest)
        else throw_at ''unknown escape at '' src
      else if peek src \<noteq> 0 then Inr (decode_utf8 src)
      else Inl (Throw ''unexpected end of input''))"

definition parse_token :: "vocab_tokenize \<Rightarrow> ctext \<Rightarrow> (u32 \<times> ctext) result" where
  "parse_token vocab src =
     (if peek src \<noteq> ch CHR ''<'' then throw_at (''expecting '' @ [CHR 0x27] @ ''<'' @ [CHR 0x27] @ '' at '') src
      else let pos = tl src in
      if peek pos = ch CHR ''['' then
        rbind (parse_int (tl pos)) (\<lambda>(ds, pos).
        rbind (stoull ''stoul'' ds) (\<lambda>token_id.
        if peek pos \<noteq> ch CHR '']'' then throw_at (''expecting '' @ [CHR 0x27] @ '']'' @ [CHR 0x27] @ '' at '') pos
        else let pos = tl pos in
        if peek pos \<noteq> ch CHR ''>'' then throw_at (''expecting '' @ [CHR 0x27] @ ''>'' @ [CHR 0x27] @ '' at '') pos
        else Inr (ucast token_id, tl pos)))
      else (case vocab of
        None \<Rightarrow> throw_at ''no vocab to parse token at '' src
      | Some tokenize \<Rightarrow>
          let body = takeWhile (\<lambda>c. c \<noteq> 0 \<and> c \<noteq> ch CHR ''>'') pos;
              pos = dropWhile (\<lambda>c. c \<noteq> 0 \<and> c \<noteq> ch CHR ''>'') pos in
          if peek pos \<noteq> ch CHR ''>'' then throw_at (''expecting '' @ [CHR 0x27] @ ''>'' @ [CHR 0x27] @ '' at '') pos
          else let piece = ch CHR ''<'' # body @ [ch CHR ''>''] in
          case tokenize piece of
            [t] \<Rightarrow> Inr (t, tl pos)
          | _ \<Rightarrow> Inl (Throw (''invalid token '' @ [CHR 0x27] @ to_chars piece @ [CHR 0x27]))))"

section \<open>The symbol table and the rules\<close>

record llama_grammar_parser =
  symbol_ids :: "(ctext \<times> u32) list"
  prules :: llama_grammar_rules

definition next_id :: "llama_grammar_parser \<Rightarrow> u32" where
  "next_id st = of_nat (length (symbol_ids st))"

definition get_symbol_id :: "ctext \<Rightarrow> llama_grammar_parser \<Rightarrow> u32 \<times> llama_grammar_parser" where
  "get_symbol_id name st =
     (case map_of (symbol_ids st) name of
        Some i \<Rightarrow> (i, st)
      | None \<Rightarrow> (next_id st, st\<lparr>symbol_ids := symbol_ids st @ [(name, next_id st)]\<rparr>))"

definition generated_name :: "ctext \<Rightarrow> u32 \<Rightarrow> ctext" where
  "generated_name base_name i = base_name @ [ch CHR ''_''] @ digits (unat i)"

definition generate_symbol_id :: "ctext \<Rightarrow> llama_grammar_parser \<Rightarrow> u32 \<times> llama_grammar_parser" where
  "generate_symbol_id base_name st =
     (let i = next_id st in
      (i, st\<lparr>symbol_ids := AList.update (generated_name base_name i) i (symbol_ids st)\<rparr>))"

text \<open>\<open>rule_id + 1\<close> is computed in 32 bits; it wraps only for the very last identifier, which a
  table of less than \<open>2^32\<close> symbols never hands out together with its own rule.\<close>

definition resize :: "nat \<Rightarrow> llama_grammar_rules \<Rightarrow> llama_grammar_rules" where
  "resize n rs = take n rs @ replicate (n - length rs) []"

definition add_rule :: "u32 \<Rightarrow> llama_grammar_rule \<Rightarrow> llama_grammar_parser \<Rightarrow> llama_grammar_parser" where
  "add_rule rule_id rule st =
     (let rs = (if length (prules st) \<le> unat rule_id then resize (unat (rule_id + 1)) (prules st)
                else prules st) in
      st\<lparr>prules := rs[unat rule_id := rule]\<rparr>)"

section \<open>Sequences\<close>

text \<open>The local variables of \<open>parse_sequence\<close> with the rule it extends and the parser.\<close>

record seq_state =
  spos :: ctext
  srule :: llama_grammar_rule
  last_sym_start :: nat
  n_prev_rules :: u64
  sparser :: llama_grammar_parser

definition MAX_REPETITION_THRESHOLD :: u64 where
  "MAX_REPETITION_THRESHOLD = 2000"

text \<open>The loop that synthesizes the optional repetitions: \<open>k\<close> iterations are left and \<open>first\<close>
  says that this is iteration 0.\<close>

fun rec_rules ::
  "nat \<Rightarrow> bool \<Rightarrow> bool \<Rightarrow> llama_grammar_rule \<Rightarrow> ctext \<Rightarrow> u32 \<Rightarrow> llama_grammar_parser \<Rightarrow>
     u32 \<times> llama_grammar_parser" where
  "rec_rules 0 first no_max prev_rule rule_name last_rec_rule_id st = (last_rec_rule_id, st)"
| "rec_rules (Suc k) first no_max prev_rule rule_name last_rec_rule_id st =
     (let (rec_rule_id, st') = generate_symbol_id rule_name st;
          ref = (if \<not> first \<or> no_max
                 then [El LLAMA_GRETYPE_RULE_REF (if no_max then rec_rule_id else last_rec_rule_id)] else []);
          rec_rule = prev_rule @ ref @ [El LLAMA_GRETYPE_ALT 0, El LLAMA_GRETYPE_END 0]
      in rec_rules k False no_max prev_rule rule_name rec_rule_id (add_rule rec_rule_id rec_rule st'))"

definition handle_repetitions :: "ctext \<Rightarrow> u64 \<Rightarrow> u64 \<Rightarrow> seq_state \<Rightarrow> seq_state result" where
  "handle_repetitions rule_name min_times max_times s =
     (let no_max = (max_times = - 1) in
      if last_sym_start s = length (srule s)
      then throw_at ''expecting preceding item to */+/?/{ at '' (spos s)
      else
      let prev_rule = drop (last_sym_start s) (srule s);
          total_rules = (if \<not> no_max \<and> max_times > 0 then max_times
                         else if min_times > 0 then min_times else 1) in
      if n_prev_rules s * total_rules \<ge> MAX_REPETITION_THRESHOLD
      then Inl (Throw ''number of rules that are going to be repeated multiplied by the new repetition exceeds sane defaults, please reduce the number of repetitions or rule complexity'')
      else
      let rule1 = (if min_times = 0 then take (last_sym_start s) (srule s)
                   else srule s @ concat (replicate (unat min_times - 1) prev_rule));
          n_opt = (if no_max then 1 else max_times - min_times);
          (last_rec_rule_id, st) = rec_rules (unat n_opt) True no_max prev_rule rule_name 0 (sparser s);
          rule2 = (if n_opt > 0 then rule1 @ [El LLAMA_GRETYPE_RULE_REF last_rec_rule_id] else rule1) in
      rbind (rassert ''n_prev_rules >= 1'' (n_prev_rules s * total_rules \<ge> 1)) (\<lambda>_.
      Inr (s\<lparr>srule := rule2, n_prev_rules := n_prev_rules s * total_rules, sparser := st\<rparr>)))"

lemma decode_tail_length: "length (snd (decode_tail bs n v)) \<le> length bs"
proof (induction bs n v rule: decode_tail.induct)
  case (1 b bs n v)
  then show ?case by (auto intro: le_SucI)
qed auto

lemma hex_loop_length: "hex_loop cs n v = (v', rest, k) \<Longrightarrow> length rest \<le> length cs"
  by (induction cs n v rule: hex_loop.induct) (auto split: if_splits option.splits)

lemma decode_utf8_shorter: "src \<noteq> [] \<Longrightarrow> length (snd (decode_utf8 src)) < length src"
  using decode_tail_length [of "tl src"] by (cases src) (simp_all add: decode_utf8_def Let_def less_Suc_eq_le)

lemma parse_hex_shorter: "parse_hex src n = Inr (c, rest) \<Longrightarrow> length rest \<le> length src"
  using hex_loop_length [of src n 0]
  by (auto simp: parse_hex_def throw_at_def split: prod.splits if_splits)

lemma parse_char_shorter:
  assumes "parse_char src = Inr (c, rest)"
  shows "length rest < length src"
proof -
  have ne: "src \<noteq> []" using assms by (auto simp: parse_char_def peek_def)
  have hex: "length rest < length src" if "parse_hex (drop 2 src) n = Inr (c, rest)" for n
    using parse_hex_shorter [OF that] ne by (cases src) auto
  have dec: "length rest < length src" if "decode_utf8 src = (c, rest)"
    using decode_utf8_shorter [OF ne] that by simp
  show ?thesis
    using assms ne hex dec
    by (auto simp: parse_char_def Let_def throw_at_def split: if_splits)
qed

text \<open>The loops over the characters of a literal and of a class, up to the closing \<open>"\<close> and \<open>]\<close>.\<close>

function parse_literal :: "ctext \<Rightarrow> llama_grammar_rule \<Rightarrow> (ctext \<times> llama_grammar_rule) result" where
  "parse_literal pos rule =
     (if peek pos = 34 then Inr (pos, rule)
      else if peek pos = 0 then Inl (Throw ''unexpected end of input'')
      else rbind (parse_char pos) (\<lambda>r. parse_literal (snd r) (rule @ [El LLAMA_GRETYPE_CHAR (fst r)])))"
  by pat_completeness auto
termination
  by (relation "measure (\<lambda>(pos, _). length pos)") (auto dest: parse_char_shorter)

definition class_char ::
  "ctext \<Rightarrow> llama_gretype \<Rightarrow> nat \<Rightarrow> llama_grammar_rule \<Rightarrow> (ctext \<times> llama_grammar_rule) result" where
  "class_char pos start_type last_sym rule =
     rbind (parse_char pos) (\<lambda>(c, pos).
     let ty = (if last_sym < length rule then LLAMA_GRETYPE_CHAR_ALT else start_type);
         rule = rule @ [El ty c] in
     if peek pos = ch CHR ''-'' \<and> peek (tl pos) \<noteq> ch CHR '']'' then
       if peek (tl pos) = 0 then Inl (Throw ''unexpected end of input'')
       else rbind (parse_char (tl pos)) (\<lambda>(c2, pos).
         Inr (pos, rule @ [El LLAMA_GRETYPE_CHAR_RNG_UPPER c2]))
     else Inr (pos, rule))"

lemma class_char_shorter: "class_char pos ty k rule = Inr (rest, rule') \<Longrightarrow> length rest < length pos"
  by (auto simp: class_char_def result_simps Let_def split: if_splits dest!: parse_char_shorter)

function parse_class ::
  "ctext \<Rightarrow> llama_gretype \<Rightarrow> nat \<Rightarrow> llama_grammar_rule \<Rightarrow> (ctext \<times> llama_grammar_rule) result" where
  "parse_class pos start_type last_sym rule =
     (if peek pos = ch CHR '']'' then Inr (pos, rule)
      else if peek pos = 0 then Inl (Throw ''unexpected end of input'')
      else rbind (class_char pos start_type last_sym rule) (\<lambda>r.
        parse_class (fst r) start_type last_sym (snd r)))"
  by pat_completeness auto
termination
  by (relation "measure (\<lambda>(pos, _). length pos)") (auto dest: class_char_shorter)

declare parse_literal.simps [simp del] parse_class.simps [simp del]

text \<open>The bounds of \<open>{m}\<close>, \<open>{m,}\<close> and \<open>{m,n}\<close>, read after the opening brace.\<close>

definition parse_max_times :: "bool \<Rightarrow> ctext \<Rightarrow> (u64 \<times> ctext) result" where
  "parse_max_times is_nested pos =
     (if is_digit_char (peek pos) then
        rbind (parse_int pos) (\<lambda>(ds, int_end).
        rbind (stoull ''stoull'' ds) (\<lambda>max_times.
        Inr (max_times, parse_space int_end is_nested)))
      else Inr (- 1, pos))"

definition parse_bounds :: "bool \<Rightarrow> ctext \<Rightarrow> (u64 \<times> u64 \<times> ctext) result" where
  "parse_bounds is_nested pos =
     (if \<not> is_digit_char (peek pos) then throw_at ''expecting an int at '' pos
      else rbind (parse_int pos) (\<lambda>(ds, int_end).
      rbind (stoull ''stoull'' ds) (\<lambda>min_times.
      let pos = parse_space int_end is_nested in
      if peek pos = ch CHR ''}'' then Inr (min_times, min_times, parse_space (tl pos) is_nested)
      else if peek pos = ch CHR '','' then
        rbind (parse_max_times is_nested (parse_space (tl pos) is_nested)) (\<lambda>(max_times, pos).
        if peek pos \<noteq> ch CHR ''}'' then throw_at (''expecting '' @ [CHR 0x27] @ ''}'' @ [CHR 0x27] @ '' at '') pos
        else Inr (min_times, max_times, parse_space (tl pos) is_nested))
      else throw_at (''expecting '' @ [CHR 0x27] @ '','' @ [CHR 0x27] @ '' at '') pos)))"

definition parse_repetition :: "ctext \<Rightarrow> bool \<Rightarrow> seq_state \<Rightarrow> seq_state result" where
  "parse_repetition rule_name is_nested s =
     rbind (parse_bounds is_nested (parse_space (tl (spos s)) is_nested)) (\<lambda>(min_times, max_times, pos).
     let has_max = (max_times \<noteq> - 1) in
     if min_times > MAX_REPETITION_THRESHOLD \<or> (has_max \<and> max_times > MAX_REPETITION_THRESHOLD)
     then Inl (Throw ''number of repetitions exceeds sane defaults, please reduce the number of repetitions'')
     else handle_repetitions rule_name min_times max_times (s\<lparr>spos := pos\<rparr>))"

text \<open>A new symbol: it starts at the end of the rule, and the rule grows by the given elements.\<close>

definition new_symbol :: "llama_grammar_rule \<Rightarrow> ctext \<Rightarrow> seq_state \<Rightarrow> seq_state" where
  "new_symbol es pos s =
     s\<lparr>spos := pos, last_sym_start := length (srule s), n_prev_rules := 1, srule := srule s @ es\<rparr>"

text \<open>One iteration of the loop of \<open>parse_sequence\<close>, without the grouping; \<open>None\<close> is the \<open>break\<close>.\<close>

definition seq_item ::
  "vocab_tokenize \<Rightarrow> ctext \<Rightarrow> bool \<Rightarrow> seq_state \<Rightarrow> seq_state option result" where
  "seq_item vocab rule_name is_nested s =
     (let c = peek (spos s); pos1 = tl (spos s) in
      if c = 34 then
        rbind (parse_literal pos1 (srule s)) (\<lambda>(pos, rule).
        Inr (Some (s\<lparr>spos := parse_space (tl pos) is_nested, last_sym_start := length (srule s),
                    n_prev_rules := 1, srule := rule\<rparr>)))
      else if c = ch CHR ''['' then
        let start_type = (if peek pos1 = ch CHR ''^'' then LLAMA_GRETYPE_CHAR_NOT else LLAMA_GRETYPE_CHAR);
            pos = (if peek pos1 = ch CHR ''^'' then tl pos1 else pos1) in
        rbind (parse_class pos start_type (length (srule s)) (srule s)) (\<lambda>(pos, rule).
        Inr (Some (s\<lparr>spos := parse_space (tl pos) is_nested, last_sym_start := length (srule s),
                    n_prev_rules := 1, srule := rule\<rparr>)))
      else if c = ch CHR ''<'' \<or> c = ch CHR ''!'' then
        let ty = (if c = ch CHR ''!'' then LLAMA_GRETYPE_TOKEN_NOT else LLAMA_GRETYPE_TOKEN);
            pos = (if c = ch CHR ''!'' then pos1 else spos s) in
        rbind (parse_token vocab pos) (\<lambda>(t, token_end).
        Inr (Some (new_symbol [El ty t] (parse_space token_end is_nested) s)))
      else if is_word_char c then
        rbind (parse_name (spos s)) (\<lambda>(name, name_end).
        let (ref_rule_id, st) = get_symbol_id name (sparser s) in
        Inr (Some (new_symbol [El LLAMA_GRETYPE_RULE_REF ref_rule_id] (parse_space name_end is_nested)
                     (s\<lparr>sparser := st\<rparr>))))
      else if c = ch CHR ''.'' then
        Inr (Some (new_symbol [El LLAMA_GRETYPE_CHAR_ANY 0] (parse_space pos1 is_nested) s))
      else if c = ch CHR ''*'' then
        rbind (handle_repetitions rule_name 0 (- 1) (s\<lparr>spos := parse_space pos1 is_nested\<rparr>)) (\<lambda>s. Inr (Some s))
      else if c = ch CHR ''+'' then
        rbind (handle_repetitions rule_name 1 (- 1) (s\<lparr>spos := parse_space pos1 is_nested\<rparr>)) (\<lambda>s. Inr (Some s))
      else if c = ch CHR ''?'' then
        rbind (handle_repetitions rule_name 0 1 (s\<lparr>spos := parse_space pos1 is_nested\<rparr>)) (\<lambda>s. Inr (Some s))
      else if c = ch CHR ''{'' then
        rbind (parse_repetition rule_name is_nested s) (\<lambda>s. Inr (Some s))
      else Inr None)"

text \<open>
  \<open>parse_sequence\<close> and \<open>parse_alternates\<close> call each other. The loops take the parser of a nested
  group (\<open>grp\<close>) as an argument, and \<open>parse_alternates\<close> recurses on the depth of the nesting;
  every iteration reads at least one byte, so the loops run at most once more than there are bytes.
\<close>

type_synonym group_parser = "ctext \<Rightarrow> u32 \<Rightarrow> llama_grammar_parser \<Rightarrow> (ctext \<times> llama_grammar_parser) result"

definition seq_group :: "group_parser \<Rightarrow> ctext \<Rightarrow> bool \<Rightarrow> seq_state \<Rightarrow> seq_state result" where
  "seq_group grp rule_name is_nested s =
     (let pos = parse_space (tl (spos s)) True;
          n_rules_before = next_id (sparser s);
          (sub_rule_id, st) = generate_symbol_id rule_name (sparser s) in
      rbind (grp pos sub_rule_id st) (\<lambda>(pos, st).
      if peek pos \<noteq> ch CHR '')'' then throw_at (''expecting '' @ [CHR 0x27] @ '')'' @ [CHR 0x27] @ '' at '') pos
      else Inr \<lparr>spos = parse_space (tl pos) is_nested,
                srule = srule s @ [El LLAMA_GRETYPE_RULE_REF sub_rule_id],
                last_sym_start = length (srule s),
                n_prev_rules = ucast (max 1 (next_id st - n_rules_before)),
                sparser = st\<rparr>))"

primrec seq_loop ::
  "nat \<Rightarrow> group_parser \<Rightarrow> vocab_tokenize \<Rightarrow> ctext \<Rightarrow> bool \<Rightarrow> seq_state \<Rightarrow> seq_state result" where
  "seq_loop 0 grp vocab rule_name is_nested s = Inl OutOfFuel"
| "seq_loop (Suc fuel) grp vocab rule_name is_nested s =
     (if peek (spos s) = 0 then Inr s
      else if peek (spos s) = ch CHR ''('' then
        rbind (seq_group grp rule_name is_nested s) (seq_loop fuel grp vocab rule_name is_nested)
      else rbind (seq_item vocab rule_name is_nested s) (\<lambda>r.
        case r of None \<Rightarrow> Inr s | Some s' \<Rightarrow> seq_loop fuel grp vocab rule_name is_nested s'))"

definition parse_sequence ::
  "group_parser \<Rightarrow> vocab_tokenize \<Rightarrow> ctext \<Rightarrow> ctext \<Rightarrow> llama_grammar_rule \<Rightarrow> bool \<Rightarrow> llama_grammar_parser \<Rightarrow>
     seq_state result" where
  "parse_sequence grp vocab src rule_name rule is_nested st =
     seq_loop (Suc (length src)) grp vocab rule_name is_nested
       \<lparr>spos = src, srule = rule, last_sym_start = length rule, n_prev_rules = 1, sparser = st\<rparr>"

primrec alternates_loop ::
  "nat \<Rightarrow> group_parser \<Rightarrow> vocab_tokenize \<Rightarrow> ctext \<Rightarrow> bool \<Rightarrow> seq_state \<Rightarrow> seq_state result" where
  "alternates_loop 0 grp vocab rule_name is_nested s = Inl OutOfFuel"
| "alternates_loop (Suc fuel) grp vocab rule_name is_nested s =
     (if peek (spos s) = ch CHR ''|'' then
        rbind (parse_sequence grp vocab (parse_space (tl (spos s)) True) rule_name
                 (srule s @ [El LLAMA_GRETYPE_ALT 0]) is_nested (sparser s))
          (alternates_loop fuel grp vocab rule_name is_nested)
      else Inr s)"

primrec parse_alternates ::
  "nat \<Rightarrow> vocab_tokenize \<Rightarrow> ctext \<Rightarrow> bool \<Rightarrow> group_parser" where
  "parse_alternates 0 vocab rule_name is_nested src rule_id st = Inl OutOfFuel"
| "parse_alternates (Suc depth) vocab rule_name is_nested src rule_id st =
     (let grp = parse_alternates depth vocab rule_name True in
      rbind (parse_sequence grp vocab src rule_name [] is_nested st) (\<lambda>s.
      rbind (alternates_loop (Suc (length src)) grp vocab rule_name is_nested s) (\<lambda>s.
      Inr (spos s, add_rule rule_id (srule s @ [El LLAMA_GRETYPE_END 0]) (sparser s)))))"

section \<open>Rules and grammars\<close>

definition parse_rule ::
  "nat \<Rightarrow> vocab_tokenize \<Rightarrow> ctext \<Rightarrow> llama_grammar_parser \<Rightarrow> (ctext \<times> llama_grammar_parser) result" where
  "parse_rule fuel vocab src st =
     rbind (parse_name src) (\<lambda>(name, name_end).
     let pos = parse_space name_end False;
         (rule_id, st) = get_symbol_id name st in
     if \<not> (peek pos = ch CHR '':'' \<and> peek (tl pos) = ch CHR '':'' \<and> peek (drop 2 pos) = ch CHR ''='')
     then throw_at ''expecting ::= at '' pos
     else
       rbind (parse_alternates fuel vocab name False (parse_space (drop 3 pos) True) rule_id st) (\<lambda>(pos, st).
       if peek pos = 13 then Inr (parse_space (drop (if peek (tl pos) = 10 then 2 else 1) pos) True, st)
       else if peek pos = 10 then Inr (parse_space (tl pos) True, st)
       else if peek pos \<noteq> 0 then throw_at ''expecting newline or end at '' pos
       else Inr (parse_space pos True, st)))"

primrec rules_loop ::
  "nat \<Rightarrow> vocab_tokenize \<Rightarrow> nat \<Rightarrow> ctext \<Rightarrow> llama_grammar_parser \<Rightarrow> llama_grammar_parser result" where
  "rules_loop 0 vocab depth pos st = Inl OutOfFuel"
| "rules_loop (Suc fuel) vocab depth pos st =
     (if peek pos = 0 then Inr st
      else rbind (parse_rule depth vocab pos st) (\<lambda>(pos, st). rules_loop fuel vocab depth pos st))"

definition check_element :: "llama_grammar_parser \<Rightarrow> llama_grammar_element \<Rightarrow> unit result" where
  "check_element st e =
     (if gtype e = LLAMA_GRETYPE_RULE_REF \<and>
         (unat (gvalue e) \<ge> length (prules st) \<or> prules st ! unat (gvalue e) = [])
      then case filter (\<lambda>kv. snd kv = gvalue e) (symbol_ids st) of
             [] \<Rightarrow> Inr ()
           | kv # _ \<Rightarrow> Inl (Throw (''Undefined rule identifier '' @ [CHR 0x27] @ to_chars (fst kv) @ [CHR 0x27]))
      else Inr ())"

definition check_rule :: "llama_grammar_parser \<Rightarrow> llama_grammar_rule \<Rightarrow> unit result" where
  "check_rule st rule =
     (if rule = [] then Inl (Throw ''Undefined rule'')
      else rbind (rmap (check_element st) rule) (\<lambda>_. Inr ()))"

text \<open>The body of the \<open>try\<close> block of \<open>parse\<close>.\<close>

definition parse_grammar ::
  "vocab_tokenize \<Rightarrow> ctext \<Rightarrow> llama_grammar_parser \<Rightarrow> llama_grammar_parser result" where
  "parse_grammar vocab src st =
     (let pos = parse_space src True in
      rbind (rules_loop (Suc (length pos)) vocab (Suc (length pos)) pos st) (\<lambda>st.
      rbind (rmap (check_rule st) (prules st)) (\<lambda>_. Inr st)))"

text \<open>\<open>parse\<close> catches every exception, clears the rules and returns \<open>false\<close> (\<open>None\<close>; the callers
  do not look at the parser then). Failures that are no exceptions are not caught.\<close>

definition parse ::
  "vocab_tokenize \<Rightarrow> ctext \<Rightarrow> llama_grammar_parser \<Rightarrow> llama_grammar_parser option result" where
  "parse vocab src st =
     (case parse_grammar vocab src st of
        Inr st' \<Rightarrow> Inr (Some st')
      | Inl (Throw msg) \<Rightarrow> Inr None
      | Inl e \<Rightarrow> Inl e)"

definition new_parser :: llama_grammar_parser where
  "new_parser = \<lparr>symbol_ids = [], prules = []\<rparr>"

end
