(* ===== verification/Grammar_Parser_Correct.thy ===== *)
theory Grammar_Parser_Correct
  imports Grammar_Parser
begin

text \<open>
  Correctness of the grammar parser. \<open>answers r P\<close> says that a function returned a value with the
  property \<open>P\<close> or threw one of its exceptions (it did not abort and did not run out of fuel); its
  rules carry the proofs through the layers of the parser: lexical elements, the symbol table, the
  repetition operators, items, sequences, alternates, rules. The invariant \<open>wf_parser\<close> says what the
  symbol table and the finished rules look like, \<open>wf_seqst\<close> what a rule under construction does.
\<close>

section \<open>Functions that answer or throw\<close>

definition answers :: "'a result \<Rightarrow> ('a \<Rightarrow> bool) \<Rightarrow> bool" where
  "answers r P = (case r of Inl (Throw m) \<Rightarrow> True | Inl _ \<Rightarrow> False | Inr x \<Rightarrow> P x)"

lemma answers_simps [simp]:
  "answers (Inr x) P \<longleftrightarrow> P x" "answers (Inl (Throw m)) P" "answers (throw_at msg src) P"
  by (auto simp: answers_def throw_at_def)

lemma answers_bind:
  "answers r Q \<Longrightarrow> (\<And>x. Q x \<Longrightarrow> answers (f x) P) \<Longrightarrow> answers (rbind r f) P"
  by (cases r) (auto simp: answers_def)

lemma answers_weaken: "answers r Q \<Longrightarrow> (\<And>x. Q x \<Longrightarrow> P x) \<Longrightarrow> answers r P"
  by (auto simp: answers_def split: sum.splits failure.splits)

lemma answers_Inr: "answers r P \<Longrightarrow> r = Inr x \<Longrightarrow> P x"
  by simp

lemma parse_space_length: "length (parse_space cs b) \<le> length cs"
  by (induction cs b rule: parse_space.induct)
    (auto simp: less_Suc_eq_le intro: le_SucI le_trans [OF _ skip_comment_length])

lemma parse_space_tl: "pos \<noteq> [] \<Longrightarrow> length (parse_space (tl pos) b) < length pos"
  using parse_space_length [of "tl pos" b] by (cases pos) auto

lemma parse_space_lt: "length pos < n \<Longrightarrow> length (parse_space pos b) < n"
  using parse_space_length [of pos b] by simp

lemma peek_nonempty: "peek pos \<noteq> 0 \<Longrightarrow> pos \<noteq> []"
  by (auto simp: peek_def)

definition name_like :: "ctext \<Rightarrow> bool" where
  "name_like name = (\<forall>c \<in> set name. is_word_char c)"

lemma parse_name_answers:
  "answers (parse_name src) (\<lambda>(name, rest). length rest < length src \<and> name_like name)"
proof -
  have "length src = length (takeWhile is_word_char src) + length (dropWhile is_word_char src)"
    by (metis length_append takeWhile_dropWhile_id)
  then show ?thesis
    by (auto simp: parse_name_def Let_def name_like_def dest: set_takeWhileD)
qed

lemma parse_int_answers: "answers (parse_int src) (\<lambda>(ds, rest). length rest \<le> length src)"
  by (auto simp: parse_int_def Let_def length_dropWhile_le)

lemma stoull_answers: "answers (stoull n ds) (\<lambda>_. True)"
  by (simp add: stoull_def)

lemma parse_char_answers: "answers (parse_char src) (\<lambda>(c, rest). length rest < length src)"
proof -
  have hex: "answers (parse_hex t n) (\<lambda>_. True)" for t n
    by (auto simp: parse_hex_def split: prod.splits)
  have "answers (parse_char src) (\<lambda>_. True)"
    using hex by (auto simp: parse_char_def Let_def)
  then show ?thesis using parse_char_shorter [of src] by (cases "parse_char src") (auto simp: answers_def)
qed

lemma dropWhile_tl_length: "length (tl (dropWhile P xs)) \<le> length xs"
  by (metis diff_le_self le_trans length_dropWhile_le length_tl)

lemma parse_token_answers: "answers (parse_token vocab src) (\<lambda>(t, rest). length rest < length src)"
proof (cases "peek src = ch CHR ''<''")
  case True
  then have ne: "src \<noteq> []" by (auto simp: peek_def)
  then have len: "length b \<le> length (tl (tl src)) \<Longrightarrow> length (tl (tl b)) < length src" for b :: ctext
    by (cases src) auto
  have id: "answers (rbind (parse_int (tl (tl src))) (\<lambda>(ds, pos).
        rbind (stoull ''stoul'' ds) (\<lambda>token_id.
        if peek pos \<noteq> ch CHR '']'' then throw_at (''expecting '' @ [CHR 0x27] @ '']'' @ [CHR 0x27] @ '' at '') pos
        else let pos = tl pos in
        if peek pos \<noteq> ch CHR ''>'' then throw_at (''expecting '' @ [CHR 0x27] @ ''>'' @ [CHR 0x27] @ '' at '') pos
        else Inr (ucast token_id, tl pos)))) (\<lambda>(t, rest). length rest < length src)"
    by (rule answers_bind [OF parse_int_answers], clarify, rule answers_bind [OF stoull_answers])
      (use len in \<open>auto simp: Let_def simp del: length_tl\<close>)
  have nm: "length (tl (dropWhile P (tl src))) < length src" for P
    using dropWhile_tl_length [of P "tl src"] ne by (cases src) auto
  show ?thesis using True id nm
    by (auto simp: parse_token_def Let_def split: option.splits list.splits)
qed (auto simp: parse_token_def)

lemma parse_literal_answers:
  "answers (parse_literal pos rule) (\<lambda>(pos', rule'). length pos' \<le> length pos \<and>
     (\<exists>cs. rule' = rule @ map (El LLAMA_GRETYPE_CHAR) cs))"
proof (induction pos rule rule: parse_literal.induct)
  case (1 pos rule)
  show ?case
  proof (cases "peek pos = 34 \<or> peek pos = 0")
    case True
    then show ?thesis by (auto simp: parse_literal.simps [of pos] intro: exI [of _ "[]"])
  next
    case False
    have "answers (parse_literal (snd x) (rule @ [El LLAMA_GRETYPE_CHAR (fst x)]))
        (\<lambda>(pos', rule'). length pos' \<le> length pos \<and> (\<exists>cs. rule' = rule @ map (El LLAMA_GRETYPE_CHAR) cs))"
      if "parse_char pos = Inr x" for x
    proof (rule answers_weaken [OF 1])
      show "peek pos \<noteq> 34" "peek pos \<noteq> 0" "parse_char pos = Inr x" using False that by auto
      fix r assume "case r of (pos', rule') \<Rightarrow> length pos' \<le> length (snd x) \<and>
         (\<exists>cs. rule' = (rule @ [El LLAMA_GRETYPE_CHAR (fst x)]) @ map (El LLAMA_GRETYPE_CHAR) cs)"
      then show "case r of (pos', rule') \<Rightarrow> length pos' \<le> length pos \<and>
         (\<exists>cs. rule' = rule @ map (El LLAMA_GRETYPE_CHAR) cs)"
        using parse_char_shorter [of pos "fst x" "snd x"] that
        by (auto intro: exI [of _ "fst x # _"])
    qed
    then show ?thesis using False parse_char_answers [of pos]
      by (cases "parse_char pos") (auto simp: parse_literal.simps [of pos] answers_def [of "Inl _"])
  qed
qed

section \<open>Rules under construction\<close>

text \<open>A rule without its final \<open>END\<close>, read after an element of type \<open>prev\<close>.\<close>

fun open_seq :: "llama_gretype \<Rightarrow> llama_grammar_element list \<Rightarrow> bool" where
  "open_seq prev [] = True"
| "open_seq prev (e # es) =
     (gtype e \<noteq> LLAMA_GRETYPE_END \<and> modifies_ok prev (gtype e) \<and> open_seq (gtype e) es)"

definition last_type :: "llama_gretype \<Rightarrow> llama_grammar_element list \<Rightarrow> llama_gretype" where
  "last_type prev es = (if es = [] then prev else gtype (last es))"

definition item_start :: "llama_grammar_element list \<Rightarrow> bool" where
  "item_start es = (es = [] \<or> \<not> is_modifier (gtype (hd es)))"

lemma open_seq_append: "open_seq prev (a @ b) \<longleftrightarrow> open_seq prev a \<and> open_seq (last_type prev a) b"
  by (induction a arbitrary: prev) (auto simp: last_type_def)

lemma open_seq_item: "item_start b \<Longrightarrow> open_seq p b = open_seq q b"
  by (cases b) (auto simp: item_start_def is_modifier_def modifies_ok_def)

lemma open_seq_append_item:
  "item_start b \<Longrightarrow> open_seq prev (a @ b) \<longleftrightarrow> open_seq prev a \<and> open_seq LLAMA_GRETYPE_ALT b"
  using open_seq_item [of b "last_type prev a" LLAMA_GRETYPE_ALT] by (simp add: open_seq_append)

lemma wf_seq_open: "wf_seq prev (es @ [El LLAMA_GRETYPE_END v]) \<longleftrightarrow> open_seq prev es"
  by (induction es arbitrary: prev) auto

lemma wf_rule_open: "wf_rule (es @ [El LLAMA_GRETYPE_END v]) \<longleftrightarrow> open_seq LLAMA_GRETYPE_ALT es"
  by (simp add: wf_rule_def wf_seq_open)

lemma item_start_append [simp]:
  "item_start [] " "item_start (a @ b) \<longleftrightarrow> (if a = [] then item_start b else item_start a)"
  by (auto simp: item_start_def)

lemma open_seq_replicate:
  "item_start b \<Longrightarrow> open_seq LLAMA_GRETYPE_ALT b \<Longrightarrow> open_seq LLAMA_GRETYPE_ALT (concat (replicate n b))"
proof (induction n)
  case (Suc n)
  then have "item_start (concat (replicate n b))"
    by (cases "b = []"; cases n) (auto simp: item_start_def)
  then show ?case using Suc by (simp add: open_seq_append_item)
qed simp

definition literal_like :: "llama_grammar_element list \<Rightarrow> bool" where
  "literal_like es = (item_start es \<and> open_seq LLAMA_GRETYPE_ALT es \<and> (\<forall>e \<in> set es. is_char_element e))"

lemma literal_like_chars: "literal_like (map (El LLAMA_GRETYPE_CHAR) cs)"
proof -
  have "open_seq p (map (El LLAMA_GRETYPE_CHAR) cs)" for p
    by (induction cs arbitrary: p) (auto simp: modifies_ok_def)
  then show ?thesis by (cases cs) (auto simp: literal_like_def item_start_def is_modifier_def is_char_element_def)
qed

definition class_like :: "llama_grammar_element list \<Rightarrow> bool" where
  "class_like es = (literal_like es \<and> last_type LLAMA_GRETYPE_CHAR es \<noteq> LLAMA_GRETYPE_CHAR_ANY)"

lemma class_like_snoc:
  assumes "class_like es" "ty = LLAMA_GRETYPE_CHAR \<or> ty = LLAMA_GRETYPE_CHAR_NOT"
  shows "class_like (es @ [El (if es \<noteq> [] then LLAMA_GRETYPE_CHAR_ALT else ty) c])"
    "class_like (es @ [El (if es \<noteq> [] then LLAMA_GRETYPE_CHAR_ALT else ty) c, El LLAMA_GRETYPE_CHAR_RNG_UPPER c2])"
proof -
  have "last_type p es \<in> {LLAMA_GRETYPE_CHAR, LLAMA_GRETYPE_CHAR_NOT, LLAMA_GRETYPE_CHAR_ALT,
      LLAMA_GRETYPE_CHAR_RNG_UPPER}" if "es \<noteq> []" for p
  proof -
    have "is_char_element (last es)" "gtype (last es) \<noteq> LLAMA_GRETYPE_CHAR_ANY"
      using assms(1) that by (auto simp: class_like_def literal_like_def last_type_def)
    then show ?thesis using that by (cases "gtype (last es)") (auto simp: last_type_def is_char_element_def)
  qed
  then show "class_like (es @ [El (if es \<noteq> [] then LLAMA_GRETYPE_CHAR_ALT else ty) c])"
    "class_like (es @ [El (if es \<noteq> [] then LLAMA_GRETYPE_CHAR_ALT else ty) c, El LLAMA_GRETYPE_CHAR_RNG_UPPER c2])"
    using assms
    by (cases "es = []"; auto simp: class_like_def literal_like_def open_seq_append last_type_def
        item_start_def is_modifier_def is_char_element_def modifies_ok_def)+
qed

definition extends :: "nat \<Rightarrow> llama_grammar_rule \<Rightarrow> llama_grammar_rule \<Rightarrow> bool" where
  "extends k rule rule' =
     (k \<le> length rule' \<and> take k rule' = take k rule \<and> (class_like (drop k rule) \<longrightarrow> class_like (drop k rule')))"

lemma class_char_answers:
  assumes "k \<le> length rule" "ty = LLAMA_GRETYPE_CHAR \<or> ty = LLAMA_GRETYPE_CHAR_NOT"
  shows "answers (class_char pos ty k rule) (\<lambda>(pos', rule'). length pos' < length pos \<and> extends k rule rule')"
  unfolding class_char_def
proof (rule answers_bind [OF parse_char_answers], clarify)
  fix c and rest :: ctext
  assume rest: "length rest < length pos"
  let ?e = "El (if k < length rule then LLAMA_GRETYPE_CHAR_ALT else ty) c"
  have e: "?e = El (if drop k rule \<noteq> [] then LLAMA_GRETYPE_CHAR_ALT else ty) c" using assms(1) by auto
  have ext: "extends k rule (rule @ [?e])" "extends k rule ((rule @ [?e]) @ [El LLAMA_GRETYPE_CHAR_RNG_UPPER c2])" for c2
    unfolding extends_def e using assms class_like_snoc [of "drop k rule" ty c] by auto
  have "answers (parse_char (tl rest)) (\<lambda>(c, r). length r < length pos)"
    by (rule answers_weaken [OF parse_char_answers]) (use rest in auto)
  then have "answers (rbind (parse_char (tl rest)) (\<lambda>(c2, pos).
      Inr (pos, (rule @ [?e]) @ [El LLAMA_GRETYPE_CHAR_RNG_UPPER c2])))
      (\<lambda>(pos', rule'). length pos' < length pos \<and> extends k rule rule')"
    by (rule answers_bind) (use ext in auto)
  then show "answers (let ty = if k < length rule then LLAMA_GRETYPE_CHAR_ALT else ty;
         rule = rule @ [El ty c] in
     if peek rest = ch CHR ''-'' \<and> peek (tl rest) \<noteq> ch CHR '']'' then
       if peek (tl rest) = 0 then Inl (Throw ''unexpected end of input'')
       else rbind (parse_char (tl rest)) (\<lambda>(c2, pos). Inr (pos, rule @ [El LLAMA_GRETYPE_CHAR_RNG_UPPER c2]))
     else Inr (rest, rule)) (\<lambda>(pos', rule'). length pos' < length pos \<and> extends k rule rule')"
    using ext(1) rest by (simp add: Let_def)
qed

lemma extends_trans: "extends k a b \<Longrightarrow> extends k b c \<Longrightarrow> extends k a c"
  by (auto simp: extends_def)

lemma parse_class_answers:
  assumes "k \<le> length rule" "ty = LLAMA_GRETYPE_CHAR \<or> ty = LLAMA_GRETYPE_CHAR_NOT"
  shows "answers (parse_class pos ty k rule) (\<lambda>(pos', rule'). length pos' \<le> length pos \<and> extends k rule rule')"
  using assms(1)
proof (induction "length pos" arbitrary: pos rule rule: less_induct)
  case less
  have "answers (rbind (class_char pos ty k rule) (\<lambda>r. parse_class (fst r) ty k (snd r)))
      (\<lambda>(pos', rule'). length pos' \<le> length pos \<and> extends k rule rule')"
  proof (rule answers_bind [OF class_char_answers [OF less.prems assms(2)]], clarsimp)
    fix a :: ctext and b
    assume ab: "length a < length pos" "extends k rule b"
    then have "k \<le> length b" by (simp add: extends_def)
    then show "answers (parse_class a ty k b) (\<lambda>(pos', rule'). length pos' \<le> length pos \<and> extends k rule rule')"
      using ab by (intro answers_weaken [OF less.hyps [of a b]]) (auto intro: extends_trans)
  qed
  moreover have "extends k rule rule" using less.prems by (simp add: extends_def)
  ultimately show ?case by (simp add: parse_class.simps [of pos])
qed

section \<open>The symbol table\<close>

abbreviation nsym :: "llama_grammar_parser \<Rightarrow> nat" where
  "nsym st \<equiv> length (symbol_ids st)"

lemma unat_digit: "n < 10 \<Longrightarrow> unat (48 + of_nat n :: u8) = 48 + n"
  using unat_of_nat [of "48 + n", where 'a = 8] by simp

lemma digit_word_char: "n < 10 \<Longrightarrow> is_word_char (48 + of_nat n)"
  by (simp add: is_word_char_def is_digit_char_def word_le_nat_alt unat_digit)

lemma digits_word: "name_like (digits n)"
proof (induction n rule: digits.induct)
  case (1 n)
  then show ?case
    using digit_word_char [of n] digit_word_char [of "n mod 10"]
    by (subst digits.simps) (auto simp: name_like_def)
qed

lemma digits_nonempty: "digits n \<noteq> []"
  by (subst digits.simps) auto

definition digits_nat :: "ctext \<Rightarrow> nat" where
  "digits_nat ds = foldl (\<lambda>v d. 10 * v + (unat d - 48)) 0 ds"

lemma digits_nat_digits: "digits_nat (digits n) = n"
proof (induction n rule: digits.induct)
  case (1 n)
  then show ?case by (subst digits.simps) (auto simp: digits_nat_def unat_digit)
qed

lemma underscore_no_word: "\<not> is_word_char (ch CHR ''_'')"
  by (simp add: is_word_char_def is_digit_char_def)

lemma generated_name_inj:
  assumes "name_like a" "name_like b" "generated_name a i = generated_name b j"
  shows "i = j"
proof -
  have tw: "takeWhile is_word_char (generated_name c k) = c \<and>
      dropWhile is_word_char (generated_name c k) = ch CHR ''_'' # digits (unat k)" if "name_like c" for c k
    using that underscore_no_word unfolding generated_name_def name_like_def
    by (simp add: takeWhile_append2 dropWhile_append2)
  then have "digits (unat i) = digits (unat j)" using assms by (metis list.inject)
  then show ?thesis by (metis digits_nat_digits word_unat_eq_iff)
qed

lemma generated_not_name: "name_like b \<Longrightarrow> \<not> name_like (generated_name a i)"
  using underscore_no_word by (auto simp: generated_name_def name_like_def)

definition refs_ok :: "nat \<Rightarrow> llama_grammar_element list \<Rightarrow> bool" where
  "refs_ok n es = (\<forall>e \<in> set es. gtype e = LLAMA_GRETYPE_RULE_REF \<longrightarrow> unat (gvalue e) < n)"

text \<open>The table numbers its names from 0 in the order they were added; a name is one of the grammar, or
  one that was generated with its own number. Every rule that is present is well formed and refers to
  numbers of the table only.\<close>

definition wf_parser :: "llama_grammar_parser \<Rightarrow> bool" where
  "wf_parser st \<longleftrightarrow>
     map snd (symbol_ids st) = map of_nat [0..<nsym st] \<and>
     distinct (map fst (symbol_ids st)) \<and>
     (\<forall>(k, i) \<in> set (symbol_ids st). name_like k \<or> (\<exists>b. name_like b \<and> k = generated_name b i)) \<and>
     length (prules st) \<le> nsym st \<and>
     (\<forall>r \<in> set (prules st). r \<noteq> [] \<longrightarrow> wf_rule r \<and> refs_ok (nsym st) r)"

lemma refs_ok_mono: "refs_ok m es \<Longrightarrow> m \<le> n \<Longrightarrow> refs_ok n es"
  by (fastforce simp: refs_ok_def)

lemma refs_ok_simps [simp]:
  "refs_ok n []" "refs_ok n (a @ b) \<longleftrightarrow> refs_ok n a \<and> refs_ok n b"
  "refs_ok n (e # es) \<longleftrightarrow> (gtype e = LLAMA_GRETYPE_RULE_REF \<longrightarrow> unat (gvalue e) < n) \<and> refs_ok n es"
  by (auto simp: refs_ok_def)

lemma symbol_id_range:
  assumes "wf_parser st" "(k, i) \<in> set (symbol_ids st)"
  shows "unat i < nsym st"
proof -
  have "i \<in> set (map snd (symbol_ids st))" using assms(2) by force
  moreover have "map snd (symbol_ids st) = map of_nat [0..<nsym st]" using assms(1) by (simp add: wf_parser_def)
  ultimately have "i \<in> set (map of_nat [0..<nsym st])" by simp
  then obtain j where "j < nsym st" "i = of_nat j" by auto
  then show ?thesis using unat_of_nat [of j, where 'a = 32] by (simp add: mod_less_eq_dividend le_less_trans)
qed

definition keeps :: "llama_grammar_parser \<Rightarrow> llama_grammar_parser \<Rightarrow> bool" where
  "keeps st st' \<longleftrightarrow> nsym st \<le> nsym st' \<and> (nsym st' < 2 ^ 32 \<longrightarrow> wf_parser st \<longrightarrow> wf_parser st')"

lemma keeps_refl: "keeps st st"
  by (simp add: keeps_def)

lemma keeps_trans: "keeps a b \<Longrightarrow> keeps b c \<Longrightarrow> keeps a c"
  by (auto simp: keeps_def)

text \<open>Adding a name with the next number.\<close>

lemma wf_parser_new_symbol:
  assumes "wf_parser st" "name_like k \<or> (\<exists>b. name_like b \<and> k = generated_name b (next_id st))"
    "k \<notin> fst ` set (symbol_ids st)"
  shows "wf_parser (st\<lparr>symbol_ids := symbol_ids st @ [(k, next_id st)]\<rparr>)"
  using assms unfolding wf_parser_def
  by (auto simp: next_id_def intro: refs_ok_mono)

lemma next_id_unat: "nsym st < 2 ^ 32 \<Longrightarrow> unat (next_id st) = nsym st"
  by (simp add: next_id_def unat_of_nat)

lemma get_symbol_id_keeps:
  assumes "get_symbol_id name st = (i, st')" "name_like name"
  shows "keeps st st'" "nsym st' < 2 ^ 32 \<Longrightarrow> wf_parser st \<Longrightarrow> unat i < nsym st'"
proof -
  show "keeps st st'"
    using assms wf_parser_new_symbol [of st name]
    by (auto simp: get_symbol_id_def keeps_def map_of_eq_None_iff split: option.splits)
  show "unat i < nsym st'" if "nsym st' < 2 ^ 32" "wf_parser st"
    using assms(1) that next_id_unat [of st] symbol_id_range [OF that(2)]
    by (auto simp: get_symbol_id_def split: option.splits dest: map_of_SomeD)
qed

lemma generated_fresh:
  assumes "wf_parser st" "nsym st < 2 ^ 32" "name_like base"
  shows "generated_name base (next_id st) \<notin> fst ` set (symbol_ids st)"
proof
  assume "generated_name base (next_id st) \<in> fst ` set (symbol_ids st)"
  then obtain i where i: "(generated_name base (next_id st), i) \<in> set (symbol_ids st)" by auto
  then have "name_like (generated_name base (next_id st)) \<or>
      (\<exists>b. name_like b \<and> generated_name base (next_id st) = generated_name b i)"
    using assms(1) by (auto simp: wf_parser_def)
  then have "i = next_id st"
    using generated_not_name [OF assms(3)] generated_name_inj [OF assms(3)] by metis
  then show False using symbol_id_range [OF assms(1) i] next_id_unat [OF assms(2)] by simp
qed

lemma update_new: "k \<notin> fst ` set al \<Longrightarrow> AList.update k v al = al @ [(k, v)]"
  by (induction al) auto

lemma length_update: "length al \<le> length (AList.update k v al)"
  by (induction al) auto

lemma generate_symbol_id_keeps:
  assumes "generate_symbol_id base st = (i, st')" "name_like base"
  shows "keeps st st'" "nsym st' < 2 ^ 32 \<Longrightarrow> wf_parser st \<Longrightarrow> unat i < nsym st'" "prules st' = prules st"
proof -
  have st': "i = next_id st" "st' = st\<lparr>symbol_ids := AList.update (generated_name base i) i (symbol_ids st)\<rparr>"
    using assms(1) by (auto simp: generate_symbol_id_def Let_def)
  then have le: "nsym st \<le> nsym st'" by (simp add: length_update)
  have new: "st' = st\<lparr>symbol_ids := symbol_ids st @ [(generated_name base i, i)]\<rparr>"
    if "nsym st' < 2 ^ 32" "wf_parser st"
    using update_new [OF generated_fresh [OF that(2) _ assms(2)], of i] st' le that(1) by simp
  show "keeps st st'"
    unfolding keeps_def
  proof (intro conjI impI le)
    assume *: "nsym st' < 2 ^ 32" "wf_parser st"
    show "wf_parser st'"
      unfolding new [OF *] st'(1)
      using wf_parser_new_symbol [OF *(2)] generated_fresh [OF *(2) _ assms(2)] assms(2) le *(1) by auto
  qed
  show "unat i < nsym st'" if "nsym st' < 2 ^ 32" "wf_parser st"
    using new [OF that] next_id_unat [of st] st'(1) that(1) le by simp
  show "prules st' = prules st" using st' by simp
qed

lemma set_list_update_resize:
  assumes "unat i < n" "n < 2 ^ 32"
  shows "set (prules (add_rule i rule st)) \<subseteq> insert rule (insert [] (set (prules st)))"
    "length (prules (add_rule i rule st)) \<le> max (length (prules st)) n"
proof -
  have "unat (i + 1) = Suc (unat i)" using assms by (simp add: unat_plus_if')
  then show "set (prules (add_rule i rule st)) \<subseteq> insert rule (insert [] (set (prules st)))"
    "length (prules (add_rule i rule st)) \<le> max (length (prules st)) n"
    using assms
    by (auto simp: add_rule_def Let_def resize_def set_replicate_conv_if dest!: set_update_subset_insert [THEN subsetD] in_set_takeD)
qed

lemma add_rule_keeps:
  assumes "nsym st < 2 ^ 32 \<Longrightarrow> wf_parser st \<Longrightarrow> unat i < nsym st \<and> wf_rule rule \<and> refs_ok (nsym st) rule"
  shows "keeps st (add_rule i rule st)" "symbol_ids (add_rule i rule st) = symbol_ids st"
proof -
  show sym: "symbol_ids (add_rule i rule st) = symbol_ids st" by (simp add: add_rule_def Let_def)
  show "keeps st (add_rule i rule st)"
    unfolding keeps_def sym
  proof (intro conjI impI order_refl)
    assume *: "nsym st < 2 ^ 32" "wf_parser st"
    then show "wf_parser (add_rule i rule st)"
      using assms [OF *] set_list_update_resize [of i "nsym st" rule st] unfolding wf_parser_def sym
      by auto
  qed
qed

definition item_ok :: "nat \<Rightarrow> llama_grammar_element list \<Rightarrow> bool" where
  "item_ok n es = (item_start es \<and> open_seq LLAMA_GRETYPE_ALT es \<and> refs_ok n es)"

lemma item_ok_mono: "item_ok m es \<Longrightarrow> m \<le> n \<Longrightarrow> item_ok n es"
  by (auto simp: item_ok_def intro: refs_ok_mono)

lemma item_ok_append: "item_ok n a \<Longrightarrow> item_ok n b \<Longrightarrow> item_ok n (a @ b)"
  by (auto simp: item_ok_def open_seq_append_item)

lemma item_ok_single:
  "t \<in> {LLAMA_GRETYPE_ALT, LLAMA_GRETYPE_CHAR_ANY, LLAMA_GRETYPE_TOKEN, LLAMA_GRETYPE_TOKEN_NOT} \<Longrightarrow>
     item_ok n [El t v]"
  "item_ok n [El LLAMA_GRETYPE_RULE_REF v] \<longleftrightarrow> unat v < n"
  "item_ok n [El LLAMA_GRETYPE_RULE_REF v, El LLAMA_GRETYPE_ALT 0] \<longleftrightarrow> unat v < n"
  by (auto simp: item_ok_def item_start_def is_modifier_def modifies_ok_def)

lemma item_ok_Nil [simp]: "item_ok n []"
  by (simp add: item_ok_def)

lemma item_ok_wf_rule: "item_ok n es \<Longrightarrow> wf_rule (es @ [El LLAMA_GRETYPE_END 0]) \<and> refs_ok n (es @ [El LLAMA_GRETYPE_END 0])"
  by (simp add: item_ok_def wf_rule_open)

lemma item_ok_replicate: "item_ok n b \<Longrightarrow> item_ok n (concat (replicate k b))"
  by (induction k) (auto intro: item_ok_append)

text \<open>An open rule whose last symbol starts at \<open>last_sym_start\<close>.\<close>

definition wf_seqst :: "seq_state \<Rightarrow> bool" where
  "wf_seqst s \<longleftrightarrow> last_sym_start s \<le> length (srule s) \<and>
     item_ok (nsym (sparser s)) (take (last_sym_start s) (srule s)) \<and>
     item_ok (nsym (sparser s)) (drop (last_sym_start s) (srule s))"

lemma wf_seqst_rule: "wf_seqst s \<Longrightarrow> item_ok (nsym (sparser s)) (srule s)"
  using item_ok_append [of _ "take (last_sym_start s) (srule s)" "drop (last_sym_start s) (srule s)"]
  by (simp add: wf_seqst_def)

definition keeps_seq :: "seq_state \<Rightarrow> seq_state \<Rightarrow> bool" where
  "keeps_seq s s' \<longleftrightarrow> nsym (sparser s) \<le> nsym (sparser s') \<and>
     (nsym (sparser s') < 2 ^ 32 \<longrightarrow> wf_parser (sparser s) \<longrightarrow> wf_seqst s \<longrightarrow>
        wf_parser (sparser s') \<and> wf_seqst s')"

lemma keeps_seq_trans: "keeps_seq a b \<Longrightarrow> keeps_seq b c \<Longrightarrow> keeps_seq a c"
  by (auto simp: keeps_seq_def)

definition np_ok :: "seq_state \<Rightarrow> bool" where
  "np_ok s \<longleftrightarrow> 1 \<le> unat (n_prev_rules s) \<and> unat (n_prev_rules s) \<le> 2 ^ 32"

lemma rec_rules_mono:
  "name_like name \<Longrightarrow> rec_rules k first no_max prev name lst st = (i, st') \<Longrightarrow> nsym st \<le> nsym st'"
proof (induction k arbitrary: first lst st)
  case (Suc k)
  obtain j st1 where g: "generate_symbol_id name st = (j, st1)" by fastforce
  have "nsym st \<le> nsym st1" using generate_symbol_id_keeps(1) [OF g Suc.prems(1)] by (simp add: keeps_def)
  also have "nsym st1 \<le> nsym st'"
    using Suc.prems(2) Suc.IH [OF Suc.prems(1)] g by (fastforce simp: Let_def add_rule_def)
  finally show ?case .
qed simp

lemma rec_rules_wf:
  assumes "rec_rules k first no_max prev name lst st = (i, st')" "name_like name" "nsym st' < 2 ^ 32"
    "wf_parser st" "item_ok (nsym st) prev" "first \<or> unat lst < nsym st"
  shows "wf_parser st' \<and> ((first \<longrightarrow> 0 < k) \<longrightarrow> unat i < nsym st')"
  using assms
proof (induction k arbitrary: first lst st)
  case (Suc k)
  obtain j st1 where g: "generate_symbol_id name st = (j, st1)" by fastforce
  let ?open = "prev @ (if \<not> first \<or> no_max then [El LLAMA_GRETYPE_RULE_REF (if no_max then j else lst)] else [])
    @ [El LLAMA_GRETYPE_ALT 0]"
  let ?st2 = "add_rule j (?open @ [El LLAMA_GRETYPE_END 0]) st1"
  have rest: "rec_rules k False no_max prev name j ?st2 = (i, st')"
    using Suc.prems(1) g by (simp add: Let_def)
  have sym2: "symbol_ids ?st2 = symbol_ids st1" by (simp add: add_rule_def Let_def)
  note gk = generate_symbol_id_keeps [OF g Suc.prems(2)]
  have lt: "nsym st1 < 2 ^ 32" using rec_rules_mono [OF Suc.prems(2) rest] sym2 Suc.prems(3) by simp
  have le: "nsym st \<le> nsym st1" and wf1: "wf_parser st1"
    using gk(1) lt Suc.prems(4) by (auto simp: keeps_def)
  have j: "unat j < nsym st1" using gk(2) lt Suc.prems(4) by blast
  have "item_ok (nsym st1) ?open"
    using Suc.prems(5,6) le j item_ok_mono [OF Suc.prems(5) le]
    by (auto intro!: item_ok_append simp: item_ok_single)
  then have "keeps st1 ?st2" using add_rule_keeps(1) [of st1 j "?open @ [El LLAMA_GRETYPE_END 0]"] j item_ok_wf_rule by blast
  then have "wf_parser ?st2" using wf1 lt sym2 by (simp add: keeps_def)
  then show ?case
    using Suc.IH [OF rest Suc.prems(2,3)] sym2 j item_ok_mono [OF Suc.prems(5) le] by simp
qed auto

lemma np_mult:
  fixes n t :: u64
  assumes "1 \<le> unat n" "unat n \<le> 2 ^ 32" "1 \<le> unat t" "unat t \<le> 2000"
  shows "unat (n * t) = unat n * unat t"
proof -
  have "unat n * unat t \<le> 2 ^ 32 * 2000" using assms by (intro mult_le_mono) auto
  then show ?thesis by (simp add: unat_mult_lem [THEN iffD1])
qed

lemma handle_repetitions_answers:
  assumes "np_ok s" "name_like name" "unat mn \<le> 2000" "mx = - 1 \<or> unat mx \<le> 2000"
  shows "answers (handle_repetitions name mn mx s)
    (\<lambda>s'. spos s' = spos s \<and> np_ok s' \<and> keeps_seq s s')"
proof -
  define total where "total = (if mx \<noteq> - 1 \<and> mx > 0 then mx else if mn > 0 then mn else 1)"
  have total: "1 \<le> unat total" "unat total \<le> 2000"
    using assms(3,4) by (auto simp: total_def word_less_nat_alt)
  then have mult: "unat (n_prev_rules s * total) = unat (n_prev_rules s) * unat total"
    using assms(1) np_mult by (auto simp: np_ok_def)
  define prev where "prev = drop (last_sym_start s) (srule s)"
  define n_opt where "n_opt = (if mx = - 1 then 1 else mx - mn)"
  define rule1 where "rule1 = (if mn = 0 then take (last_sym_start s) (srule s)
                   else srule s @ concat (replicate (unat mn - 1) prev))"
  obtain i st where rr: "rec_rules (unat n_opt) True (mx = - 1) prev name 0 (sparser s) = (i, st)" by fastforce
  define s' where "s' = s\<lparr>srule := (if n_opt > 0 then rule1 @ [El LLAMA_GRETYPE_RULE_REF i] else rule1),
    n_prev_rules := n_prev_rules s * total, sparser := st\<rparr>"
  have wf: "wf_parser st \<and> wf_seqst s'" if "nsym st < 2 ^ 32" "wf_parser (sparser s)" "wf_seqst s"
  proof -
    have ps: "item_ok (nsym (sparser s)) prev" "item_ok (nsym (sparser s)) (take (last_sym_start s) (srule s))"
      and l: "last_sym_start s \<le> length (srule s)" using that(3) by (auto simp: wf_seqst_def prev_def)
    note r = rec_rules_wf [OF rr assms(2) that(1,2) ps(1)]
    have le: "nsym (sparser s) \<le> nsym st" by (rule rec_rules_mono [OF assms(2) rr])
    have "item_ok (nsym st) (prev @ concat (replicate (unat mn - 1) prev))"
      using item_ok_mono [OF ps(1) le] item_ok_replicate by (blast intro: item_ok_append)
    then have "\<exists>x. rule1 = take (last_sym_start s) (srule s) @ x \<and> item_ok (nsym st) x"
    proof (cases "mn = 0")
      case False
      then have "rule1 = take (last_sym_start s) (srule s) @ prev @ concat (replicate (unat mn - 1) prev)"
        by (simp add: rule1_def) (simp add: prev_def)
      then show ?thesis using \<open>item_ok (nsym st) (prev @ _)\<close> by blast
    qed (simp add: rule1_def)
    then obtain x where x: "rule1 = take (last_sym_start s) (srule s) @ x" "item_ok (nsym st) x" by blast
    have "item_ok (nsym st) (x @ [El LLAMA_GRETYPE_RULE_REF i])" if "n_opt > 0"
      using x(2) r that by (intro item_ok_append) (auto simp: item_ok_single word_less_nat_alt)
    then show ?thesis
      using r x l item_ok_mono [OF ps(2) le] by (auto simp: wf_seqst_def s'_def)
  qed
  have "keeps_seq s s'"
    using wf rec_rules_mono [OF assms(2) rr] by (auto simp: keeps_seq_def s'_def)
  moreover have "np_ok s'" if "\<not> n_prev_rules s * total \<ge> MAX_REPETITION_THRESHOLD"
    using that mult total assms(1)
    by (auto simp: np_ok_def s'_def MAX_REPETITION_THRESHOLD_def word_le_nat_alt not_le)
  moreover have "n_prev_rules s * total \<ge> 1"
    using mult total assms(1) by (auto simp: np_ok_def word_le_nat_alt)
  moreover have "handle_repetitions name mn mx s =
      (if last_sym_start s = length (srule s) then throw_at ''expecting preceding item to */+/?/{ at '' (spos s)
       else if n_prev_rules s * total \<ge> MAX_REPETITION_THRESHOLD
       then Inl (Throw ''number of rules that are going to be repeated multiplied by the new repetition exceeds sane defaults, please reduce the number of repetitions or rule complexity'')
       else rbind (rassert ''n_prev_rules >= 1'' (n_prev_rules s * total \<ge> 1)) (\<lambda>_. Inr s'))"
    unfolding handle_repetitions_def s'_def n_opt_def [symmetric] prev_def [symmetric] total_def [symmetric]
      rule1_def [symmetric] Let_def
    by (simp add: rr [unfolded n_opt_def] n_opt_def [symmetric] rr)
  ultimately show ?thesis by (auto simp: s'_def rassert_def)
qed

section \<open>Items, sequences and alternates\<close>

text \<open>What one item of a sequence does: it reads at least one byte and keeps the invariants.\<close>

definition advances :: "seq_state \<Rightarrow> seq_state \<Rightarrow> bool" where
  "advances s s' \<longleftrightarrow> length (spos s') < length (spos s) \<and> np_ok s' \<and> keeps_seq s s'"

lemma tl_le: "length (parse_space (tl p) b) \<le> length p"
  using parse_space_length [of "tl p" b] by simp

lemma parse_max_times_answers:
  "answers (parse_max_times nested pos) (\<lambda>(mx, rest). length rest \<le> length pos)"
  unfolding parse_max_times_def
  by (auto intro!: answers_bind [OF parse_int_answers] answers_bind [OF stoull_answers]
        intro: le_trans [OF parse_space_length])

lemma parse_bounds_answers:
  "answers (parse_bounds nested pos) (\<lambda>(mn, mx, rest). length rest \<le> length pos)"
proof (cases "is_digit_char (peek pos)")
  case True
  have "answers (rbind (parse_max_times nested (parse_space (tl p) nested)) (\<lambda>(max_times, q).
        if peek q \<noteq> ch CHR ''}'' then throw_at (''expecting '' @ [CHR 0x27] @ ''}'' @ [CHR 0x27] @ '' at '') q
        else Inr (mn, max_times, parse_space (tl q) nested))) (\<lambda>(mn, mx, rest). length rest \<le> length pos)"
    if p: "length p \<le> length pos" for p and mn :: u64
  proof -
    have "length (parse_space (tl q) nested) \<le> length pos" if "length q \<le> length (parse_space (tl p) nested)" for q
      using tl_le [of q nested] that tl_le [of p nested] p by linarith
    then show ?thesis by (intro answers_bind [OF parse_max_times_answers]) auto
  qed
  note mx = this
  have ib: "answers (rbind (parse_int pos) (\<lambda>(ds, int_end). rbind (stoull ''stoull'' ds) (\<lambda>mn. k mn int_end)))
      (\<lambda>(mn, mx, rest). length rest \<le> length pos)"
    if k: "\<And>mn int_end. length int_end \<le> length pos \<Longrightarrow>
       answers (k mn int_end) (\<lambda>(mn, mx, rest). length rest \<le> length pos)"
    for k :: "u64 \<Rightarrow> ctext \<Rightarrow> (u64 \<times> u64 \<times> ctext) result"
    by (rule answers_bind [OF parse_int_answers], clarify, rule answers_bind [OF stoull_answers]) (rule k)
  have sp: "length (parse_space b nested) \<le> length pos \<and>
      length (parse_space (tl (parse_space b nested)) nested) \<le> length pos" if "length b \<le> length pos" for b
    using that parse_space_length [of b nested] tl_le [of "parse_space b nested" nested] by linarith
  show ?thesis
    unfolding parse_bounds_def Let_def
    by (subst if_not_P, use True in simp, rule ib) (use mx sp in simp)
qed (simp add: parse_bounds_def)

lemma parse_repetition_answers:
  assumes "np_ok s" "name_like name" "spos s \<noteq> []"
  shows "answers (parse_repetition name nested s) (advances s)"
  unfolding parse_repetition_def
proof (rule answers_bind [OF parse_bounds_answers], clarify)
  fix mn mx and rest :: ctext
  assume rest: "length rest \<le> length (parse_space (tl (spos s)) nested)"
  let ?s = "s\<lparr>spos := rest\<rparr>"
  have lt: "length rest < length (spos s)" using rest parse_space_tl [OF assms(3)] by (rule le_less_trans)
  have "answers (handle_repetitions name mn mx ?s) (advances s)"
    if "\<not> (mn > MAX_REPETITION_THRESHOLD \<or> (mx \<noteq> - 1 \<and> mx > MAX_REPETITION_THRESHOLD))"
  proof (rule answers_weaken [OF handle_repetitions_answers])
    show "np_ok ?s" "name_like name" using assms by (simp_all add: np_ok_def)
    show "unat mn \<le> 2000" "mx = - 1 \<or> unat mx \<le> 2000"
      using that by (auto simp: MAX_REPETITION_THRESHOLD_def word_less_nat_alt not_less)
    show "advances s x" if "spos x = spos ?s \<and> np_ok x \<and> keeps_seq ?s x" for x
      using that lt by (auto simp: advances_def keeps_seq_def wf_seqst_def)
  qed
  then show "answers (let has_max = mx \<noteq> - 1 in
     if MAX_REPETITION_THRESHOLD < mn \<or> (has_max \<and> MAX_REPETITION_THRESHOLD < mx)
     then Inl (Throw ''number of repetitions exceeds sane defaults, please reduce the number of repetitions'')
     else handle_repetitions name mn mx ?s) (advances s)"
    by (simp add: Let_def)
qed

lemma simple_repetition_answers:
  assumes "np_ok s" "name_like name" "spos s \<noteq> []" "unat mn \<le> 2000" "mx = - 1 \<or> unat mx \<le> 2000"
  shows "answers (rbind (handle_repetitions name mn mx (s\<lparr>spos := parse_space (tl (spos s)) nested\<rparr>))
    (\<lambda>s. Inr (Some s))) (\<lambda>r. case r of None \<Rightarrow> True | Some s' \<Rightarrow> advances s s')"
proof (rule answers_bind [OF handle_repetitions_answers])
  show "np_ok (s\<lparr>spos := parse_space (tl (spos s)) nested\<rparr>)" using assms(1) by (simp add: np_ok_def)
qed (use assms parse_space_tl [OF assms(3)] in \<open>auto simp: advances_def keeps_seq_def wf_seqst_def\<close>)

text \<open>An item that appends elements after the present rule.\<close>

lemma appends_advances:
  assumes "length pos < length (spos s)" "keeps (sparser s) st"
    "nsym st < 2 ^ 32 \<Longrightarrow> wf_parser (sparser s) \<Longrightarrow> item_ok (nsym st) es"
  shows "advances s \<lparr>spos = pos, srule = srule s @ es, last_sym_start = length (srule s),
    n_prev_rules = 1, sparser = st\<rparr>"
  using assms item_ok_mono wf_seqst_rule [of s]
  by (auto simp: advances_def np_ok_def keeps_seq_def keeps_def wf_seqst_def)

lemma literal_item: "literal_like es \<Longrightarrow> item_ok n es"
  by (auto simp: literal_like_def item_ok_def refs_ok_def is_char_element_def split: llama_gretype.splits)

abbreviation item_result :: "seq_state \<Rightarrow> seq_state option \<Rightarrow> bool" where
  "item_result s r \<equiv> (case r of None \<Rightarrow> True | Some s' \<Rightarrow> advances s s')"

lemma char_item_answers:
  assumes ne: "spos s \<noteq> []" and len: "length pos \<le> length (tl (spos s))"
    and r: "answers r (\<lambda>(pos', rule'). length pos' \<le> length pos \<and>
      (\<exists>es. rule' = srule s @ es \<and> literal_like es))"
  shows "answers (rbind r (\<lambda>(pos, rule).
      Inr (Some (s\<lparr>spos := parse_space (tl pos) nested, last_sym_start := length (srule s),
                  n_prev_rules := 1, srule := rule\<rparr>)))) (item_result s)"
proof (rule answers_bind [OF r], clarify)
  fix pos' :: ctext and es assume *: "length pos' \<le> length pos" "literal_like es"
  have "length (parse_space (tl pos') nested) < length (spos s)"
    using tl_le [of pos' nested] *(1) len ne by (cases "spos s") auto
  then have "advances s \<lparr>spos = parse_space (tl pos') nested, srule = srule s @ es,
      last_sym_start = length (srule s), n_prev_rules = 1, sparser = sparser s\<rparr>"
    using *(2) by (intro appends_advances) (auto simp: keeps_refl literal_item)
  then show "answers (Inr (Some (s\<lparr>spos := parse_space (tl pos') nested, last_sym_start := length (srule s),
                  n_prev_rules := 1, srule := srule s @ es\<rparr>))) (item_result s)"
    by (cases s) simp
qed

lemma class_items:
  assumes "ty = LLAMA_GRETYPE_CHAR \<or> ty = LLAMA_GRETYPE_CHAR_NOT"
  shows "answers (parse_class pos ty (length rule) rule) (\<lambda>(pos', rule'). length pos' \<le> length pos \<and>
      (\<exists>es. rule' = rule @ es \<and> literal_like es))"
proof (rule answers_weaken [OF parse_class_answers [OF order_refl assms]], clarify)
  fix a b assume "extends (length rule) rule b"
  then have "b = rule @ drop (length rule) b" "class_like (drop (length rule) b)"
    by (auto simp: extends_def class_like_def literal_like_def last_type_def)
      (metis append_take_drop_id)+
  then show "\<exists>es. b = rule @ es \<and> literal_like es" by (auto simp: class_like_def)
qed

lemma new_symbol_advances:
  assumes "length pos < length (spos s)" "keeps (sparser s) st"
    "nsym st < 2 ^ 32 \<Longrightarrow> wf_parser (sparser s) \<Longrightarrow> item_ok (nsym st) es"
  shows "advances s (new_symbol es pos (s\<lparr>sparser := st\<rparr>))"
  using appends_advances [OF assms] by (cases s) (simp add: new_symbol_def)

lemma token_item_answers:
  assumes "length pos \<le> length (spos s)" "ty \<in> {LLAMA_GRETYPE_TOKEN, LLAMA_GRETYPE_TOKEN_NOT}"
  shows "answers (rbind (parse_token vocab pos) (\<lambda>(t, token_end).
        Inr (Some (new_symbol [El ty t] (parse_space token_end nested) s)))) (item_result s)"
proof (rule answers_bind [OF parse_token_answers], clarify)
  fix t and rest :: ctext assume "length rest < length pos"
  then have "length (parse_space rest nested) < length (spos s)"
    using assms(1) parse_space_length [of rest nested] by linarith
  then have "advances s (new_symbol [El ty t] (parse_space rest nested) (s\<lparr>sparser := sparser s\<rparr>))"
    by (rule new_symbol_advances) (use assms(2) in \<open>auto simp: keeps_refl item_ok_single\<close>)
  then show "answers (Inr (Some (new_symbol [El ty t] (parse_space rest nested) s))) (item_result s)" by simp
qed

lemma name_item_answers:
  "answers (rbind (parse_name (spos s)) (\<lambda>(name, name_end).
        let (ref_rule_id, st) = get_symbol_id name (sparser s) in
        Inr (Some (new_symbol [El LLAMA_GRETYPE_RULE_REF ref_rule_id] (parse_space name_end nested)
                     (s\<lparr>sparser := st\<rparr>))))) (item_result s)"
proof (rule answers_bind [OF parse_name_answers], clarify)
  fix name and rest :: ctext assume *: "length rest < length (spos s)" "name_like name"
  obtain i st where g: "get_symbol_id name (sparser s) = (i, st)" by fastforce
  have "advances s (new_symbol [El LLAMA_GRETYPE_RULE_REF i] (parse_space rest nested) (s\<lparr>sparser := st\<rparr>))"
    by (rule new_symbol_advances [OF parse_space_lt [OF *(1)]])
      (use get_symbol_id_keeps [OF g *(2)] in \<open>auto simp: item_ok_single\<close>)
  then show "answers (let (ref_rule_id, st) = get_symbol_id name (sparser s) in
        Inr (Some (new_symbol [El LLAMA_GRETYPE_RULE_REF ref_rule_id] (parse_space rest nested)
                     (s\<lparr>sparser := st\<rparr>)))) (item_result s)" by (simp add: g)
qed

lemma any_item_advances:
  "spos s \<noteq> [] \<Longrightarrow> advances s (new_symbol [El LLAMA_GRETYPE_CHAR_ANY 0] (parse_space (tl (spos s)) nested) s)"
  using new_symbol_advances [of "parse_space (tl (spos s)) nested" s "sparser s"] parse_space_tl [of "spos s" nested]
  by (simp add: keeps_refl item_ok_single)

lemma literal_items:
  "answers (parse_literal pos rule) (\<lambda>(pos', rule'). length pos' \<le> length pos \<and>
      (\<exists>es. rule' = rule @ es \<and> literal_like es))"
  by (rule answers_weaken [OF parse_literal_answers]) (use literal_like_chars in blast)

lemma seq_item_answers:
  assumes ne: "spos s \<noteq> []" and np: "np_ok s" and name: "name_like name"
  shows "answers (seq_item vocab name nested s) (item_result s)"
proof -
  note lit = char_item_answers [OF ne order_refl literal_items]
  have cls: "answers (rbind (parse_class p ty (length (srule s)) (srule s)) (\<lambda>(pos, rule).
      Inr (Some (s\<lparr>spos := parse_space (tl pos) nested, last_sym_start := length (srule s),
                  n_prev_rules := 1, srule := rule\<rparr>)))) (item_result s)"
    if "length p \<le> length (tl (spos s))" "ty = LLAMA_GRETYPE_CHAR \<or> ty = LLAMA_GRETYPE_CHAR_NOT" for p ty
    by (rule char_item_answers [OF ne that(1) class_items [OF that(2)]])
  note rep = simple_repetition_answers [OF np name ne, of _ _ nested]
  have braces: "answers (rbind (parse_repetition name nested s) (\<lambda>s. Inr (Some s))) (item_result s)"
    by (rule answers_bind [OF parse_repetition_answers [OF np name ne]]) simp
  show ?thesis
    unfolding seq_item_def Let_def
    using lit cls [of "tl (spos s)"] cls [of "tl (tl (spos s))"] token_item_answers [of "spos s" s] token_item_answers [of "tl (spos s)" s]
      name_item_answers [of s nested] any_item_advances [OF ne, of nested] rep [of 0 "- 1"] rep [of 1 "- 1"] rep [of 0 1] braces
    by simp
qed

text \<open>The contract of the parser of a nested group, on texts of less than \<open>n\<close> bytes.\<close>

definition group_result :: "ctext \<Rightarrow> u32 \<Rightarrow> llama_grammar_parser \<Rightarrow> ctext \<times> llama_grammar_parser \<Rightarrow> bool" where
  "group_result pos i st r \<longleftrightarrow> length (fst r) \<le> length pos \<and> nsym st \<le> nsym (snd r) \<and>
     (nsym (snd r) < 2 ^ 32 \<longrightarrow> wf_parser st \<longrightarrow> unat i < nsym st \<longrightarrow> wf_parser (snd r))"

definition group_ok :: "nat \<Rightarrow> group_parser \<Rightarrow> bool" where
  "group_ok n grp \<longleftrightarrow> (\<forall>pos i st. length pos < n \<longrightarrow> answers (grp pos i st) (group_result pos i st))"

lemma ucast_max_range:
  "1 \<le> unat (ucast (max 1 (x :: u32)) :: u64)" "unat (ucast (max 1 x) :: u64) \<le> 2 ^ 32"
proof -
  have lt: "unat (max 1 x) < 2 ^ 32" using unsigned_less [of "max 1 x"] by simp
  then have "unat (ucast (max 1 x) :: u64) = unat (max 1 x)"
    by (simp add: unsigned_ucast_eq take_bit_nat_eq_self)
  moreover have "1 \<le> unat (max 1 x)" by (simp add: max_def word_le_nat_alt)
  ultimately show "1 \<le> unat (ucast (max 1 x) :: u64)" "unat (ucast (max 1 x) :: u64) \<le> 2 ^ 32" using lt by simp_all
qed

lemma seq_group_answers:
  assumes grp: "group_ok n grp" and ne: "spos s \<noteq> []" and len: "length (spos s) \<le> n" and name: "name_like name"
  shows "answers (seq_group grp name nested s) (advances s)"
proof -
  obtain i st where g: "generate_symbol_id name (sparser s) = (i, st)" by fastforce
  note gk = generate_symbol_id_keeps [OF g name]
  let ?pos = "parse_space (tl (spos s)) True"
  have pos: "length ?pos < length (spos s)" by (rule parse_space_tl [OF ne])
  have "answers (rbind (grp ?pos i st) (\<lambda>(pos, st).
      if peek pos \<noteq> ch CHR '')'' then throw_at (''expecting '' @ [CHR 0x27] @ '')'' @ [CHR 0x27] @ '' at '') pos
      else Inr \<lparr>spos = parse_space (tl pos) nested, srule = srule s @ [El LLAMA_GRETYPE_RULE_REF i],
                last_sym_start = length (srule s),
                n_prev_rules = ucast (max 1 (next_id st - next_id (sparser s))), sparser = st\<rparr>)) (advances s)"
  proof (rule answers_bind)
    show "answers (grp ?pos i st) (group_result ?pos i st)" using grp pos len by (auto simp: group_ok_def)
    fix r assume r: "group_result ?pos i st r"
    let ?s = "\<lparr>spos = parse_space (tl (fst r)) nested, srule = srule s @ [El LLAMA_GRETYPE_RULE_REF i],
                last_sym_start = length (srule s),
                n_prev_rules = ucast (max 1 (next_id (snd r) - next_id (sparser s))), sparser = snd r\<rparr>"
    have le: "nsym (sparser s) \<le> nsym (snd r)" using gk(1) r by (auto simp: keeps_def group_result_def)
    have "wf_parser (snd r) \<and> item_ok (nsym (snd r)) [El LLAMA_GRETYPE_RULE_REF i]"
      if "nsym (snd r) < 2 ^ 32" "wf_parser (sparser s)"
      using gk that r by (auto simp: keeps_def group_result_def item_ok_single)
    then have "keeps_seq s ?s"
      using le item_ok_mono [OF wf_seqst_rule [of s] le] by (auto simp: keeps_seq_def wf_seqst_def)
    moreover have "length (parse_space (tl (fst r)) nested) < length (spos s)"
      using tl_le [of "fst r" nested] r pos by (auto simp: group_result_def)
    ultimately have "advances s ?s"
      using ucast_max_range by (auto simp: advances_def np_ok_def)
    then show "answers (case r of (pos, st) \<Rightarrow>
      if peek pos \<noteq> ch CHR '')'' then throw_at (''expecting '' @ [CHR 0x27] @ '')'' @ [CHR 0x27] @ '' at '') pos
      else Inr \<lparr>spos = parse_space (tl pos) nested, srule = srule s @ [El LLAMA_GRETYPE_RULE_REF i],
                last_sym_start = length (srule s),
                n_prev_rules = ucast (max 1 (next_id st - next_id (sparser s))), sparser = st\<rparr>) (advances s)"
      by (cases r) simp
  qed
  then show ?thesis unfolding seq_group_def Let_def g by simp
qed

definition seq_result :: "seq_state \<Rightarrow> seq_state \<Rightarrow> bool" where
  "seq_result s s' \<longleftrightarrow> length (spos s') \<le> length (spos s) \<and> keeps_seq s s'"

lemma advances_result: "advances s t \<Longrightarrow> seq_result t u \<Longrightarrow> seq_result s u"
  using keeps_seq_trans [of s t u] by (auto simp: advances_def seq_result_def)

lemma keeps_seq_refl: "keeps_seq s s"
  by (simp add: keeps_seq_def)

lemma seq_loop_answers:
  assumes "group_ok n grp" "name_like name" "np_ok s" "length (spos s) \<le> n" "length (spos s) < fuel"
  shows "answers (seq_loop fuel grp vocab name nested s) (seq_result s)"
  using assms(3-5)
proof (induction fuel arbitrary: s)
  case (Suc fuel)
  have rest: "answers (seq_loop fuel grp vocab name nested t) (seq_result s)" if "advances s t" for t
    by (rule answers_weaken [OF Suc.IH [of t]])
      (use that Suc.prems advances_result [OF that] in \<open>auto simp: advances_def\<close>)
  show ?case
  proof (cases "peek (spos s) = 0")
    case True
    then show ?thesis by (simp add: seq_result_def keeps_seq_refl)
  next
    case False
    note ne = peek_nonempty [OF False]
    have "answers (rbind (seq_group grp name nested s) (seq_loop fuel grp vocab name nested)) (seq_result s)"
      by (rule answers_bind [OF seq_group_answers [OF assms(1) ne Suc.prems(2) assms(2)]]) (rule rest)
    moreover have "answers (rbind (seq_item vocab name nested s) (\<lambda>r.
        case r of None \<Rightarrow> Inr s | Some s' \<Rightarrow> seq_loop fuel grp vocab name nested s')) (seq_result s)"
      by (rule answers_bind [OF seq_item_answers [OF ne Suc.prems(1) assms(2)]])
        (auto split: option.splits simp: seq_result_def [of s s] keeps_seq_refl intro: rest)
    ultimately show ?thesis using False by simp
  qed
qed simp

lemma parse_sequence_answers:
  assumes "group_ok n grp" "name_like name" "length src \<le> n"
  shows "answers (parse_sequence grp vocab src name rule nested st)
    (\<lambda>s. length (spos s) \<le> length src \<and> nsym st \<le> nsym (sparser s) \<and>
      (nsym (sparser s) < 2 ^ 32 \<longrightarrow> wf_parser st \<longrightarrow> item_ok (nsym st) rule \<longrightarrow>
         wf_parser (sparser s) \<and> item_ok (nsym (sparser s)) (srule s)))"
  unfolding parse_sequence_def
  by (rule answers_weaken [OF seq_loop_answers [OF assms(1,2)]])
    (use assms(3) in \<open>auto simp: np_ok_def seq_result_def keeps_seq_def wf_seqst_def [of "seq_state.make _ _ _ _ _"]
      wf_seqst_def [of "\<lparr>spos = _, srule = _, last_sym_start = _, n_prev_rules = _, sparser = _\<rparr>"] intro: wf_seqst_rule\<close>)

text \<open>Between the alternates of a rule.\<close>

definition alts_result :: "seq_state \<Rightarrow> seq_state \<Rightarrow> bool" where
  "alts_result s s' \<longleftrightarrow> length (spos s') \<le> length (spos s) \<and> nsym (sparser s) \<le> nsym (sparser s') \<and>
     (nsym (sparser s') < 2 ^ 32 \<longrightarrow> wf_parser (sparser s) \<longrightarrow> item_ok (nsym (sparser s)) (srule s) \<longrightarrow>
        wf_parser (sparser s') \<and> item_ok (nsym (sparser s')) (srule s'))"

lemma alternates_loop_answers:
  assumes "group_ok n grp" "name_like name" "length (spos s) \<le> n" "length (spos s) < fuel"
  shows "answers (alternates_loop fuel grp vocab name nested s) (alts_result s)"
  using assms(3,4)
proof (induction fuel arbitrary: s)
  case (Suc fuel)
  show ?case
  proof (cases "peek (spos s) = ch CHR ''|''")
    case True
    then have ne: "spos s \<noteq> []" by (auto simp: peek_def)
    let ?pos = "parse_space (tl (spos s)) True" and ?rule = "srule s @ [El LLAMA_GRETYPE_ALT 0]"
    have pos: "length ?pos < length (spos s)" by (rule parse_space_tl [OF ne])
    have rule: "item_ok k ?rule" if "item_ok k (srule s)" for k
      using that by (intro item_ok_append) (auto simp: item_ok_single)
    have "answers (rbind (parse_sequence grp vocab ?pos name ?rule nested (sparser s))
        (alternates_loop fuel grp vocab name nested)) (alts_result s)"
    proof (rule answers_bind [OF parse_sequence_answers [OF assms(1,2)]])
      show "length ?pos \<le> n" using pos Suc.prems(1) by simp
      fix t :: seq_state assume t: "length (spos t) \<le> length ?pos \<and> nsym (sparser s) \<le> nsym (sparser t) \<and>
        (nsym (sparser t) < 2 ^ 32 \<longrightarrow> wf_parser (sparser s) \<longrightarrow> item_ok (nsym (sparser s)) ?rule \<longrightarrow>
         wf_parser (sparser t) \<and> item_ok (nsym (sparser t)) (srule t))"
      then have len: "length (spos t) < length (spos s)" using pos by linarith
      show "answers (alternates_loop fuel grp vocab name nested t) (alts_result s)"
        by (rule answers_weaken [OF Suc.IH [of t]])
          (use t len Suc.prems rule in \<open>auto simp: alts_result_def\<close>)
    qed
    then show ?thesis using True by simp
  qed (simp add: alts_result_def)
qed simp

lemma parse_alternates_ok: "name_like name \<Longrightarrow> length src < depth \<Longrightarrow>
  answers (parse_alternates depth vocab name nested src i st) (group_result src i st)"
proof (induction depth arbitrary: nested src i st)
  case (Suc depth)
  let ?grp = "parse_alternates depth vocab name True"
  have grp: "group_ok depth ?grp"
    using Suc.IH [OF Suc.prems(1)] by (auto simp: group_ok_def)
  have len: "length src \<le> depth" using Suc.prems(2) by simp
  have "answers (rbind (parse_sequence ?grp vocab src name [] nested st) (\<lambda>s.
      rbind (alternates_loop (Suc (length src)) ?grp vocab name nested s) (\<lambda>s.
      Inr (spos s, add_rule i (srule s @ [El LLAMA_GRETYPE_END 0]) (sparser s))))) (group_result src i st)"
  proof (rule answers_bind [OF parse_sequence_answers [OF grp Suc.prems(1) len]])
    fix s :: seq_state assume s: "length (spos s) \<le> length src \<and> nsym st \<le> nsym (sparser s) \<and>
      (nsym (sparser s) < 2 ^ 32 \<longrightarrow> wf_parser st \<longrightarrow> item_ok (nsym st) [] \<longrightarrow>
         wf_parser (sparser s) \<and> item_ok (nsym (sparser s)) (srule s))"
    show "answers (rbind (alternates_loop (Suc (length src)) ?grp vocab name nested s) (\<lambda>s.
      Inr (spos s, add_rule i (srule s @ [El LLAMA_GRETYPE_END 0]) (sparser s)))) (group_result src i st)"
    proof (rule answers_bind [OF alternates_loop_answers [OF grp Suc.prems(1)]])
      show "length (spos s) \<le> depth" "length (spos s) < Suc (length src)" using s len by auto
      fix t assume t: "alts_result s t"
      let ?r = "srule t @ [El LLAMA_GRETYPE_END 0]"
      have sym: "symbol_ids (add_rule i ?r (sparser t)) = symbol_ids (sparser t)" by (simp add: add_rule_def Let_def)
      have "wf_parser (add_rule i ?r (sparser t))"
        if h: "nsym (sparser t) < 2 ^ 32" "wf_parser st" "unat i < nsym st"
      proof -
        have "wf_parser (sparser t) \<and> item_ok (nsym (sparser t)) (srule t)" "nsym st \<le> nsym (sparser t)"
          using s t h by (auto simp: alts_result_def)
        then show ?thesis
          using add_rule_keeps(1) [of "sparser t" i ?r] item_ok_wf_rule [of "nsym (sparser t)" "srule t"] h sym
          by (auto simp: keeps_def)
      qed
      then show "answers (Inr (spos t, add_rule i ?r (sparser t))) (group_result src i st)"
        using s t sym by (auto simp: group_result_def alts_result_def)
    qed
  qed
  then show ?case by (simp add: Let_def)
qed simp

section \<open>Grammars\<close>

lemma parse_rule_answers:
  assumes "length src \<le> depth"
  shows "answers (parse_rule depth vocab src st) (\<lambda>(pos, st'). length pos < length src \<and> keeps st st')"
  unfolding parse_rule_def
proof (rule answers_bind [OF parse_name_answers], clarify)
  fix name and rest :: ctext assume n: "length rest < length src" "name_like name"
  obtain i st1 where g: "get_symbol_id name st = (i, st1)" by fastforce
  note gk = get_symbol_id_keeps [OF g n(2)]
  let ?pos = "parse_space rest False"
  let ?src = "parse_space (drop 3 ?pos) True"
  have len: "length ?src < length src"
    using parse_space_length [of "drop 3 ?pos" True] parse_space_length [of rest False] n(1) by simp
  have body: "answers (rbind (parse_alternates depth vocab name False ?src i st1) (\<lambda>(pos, st).
       if peek pos = 13 then Inr (parse_space (drop (if peek (tl pos) = 10 then 2 else 1) pos) True, st)
       else if peek pos = 10 then Inr (parse_space (tl pos) True, st)
       else if peek pos \<noteq> 0 then throw_at ''expecting newline or end at '' pos
       else Inr (parse_space pos True, st))) (\<lambda>(pos, st'). length pos < length src \<and> keeps st st')"
  proof (rule answers_bind [OF parse_alternates_ok [OF n(2)]])
    show "length ?src < depth" using len assms by simp
    fix r assume r: "group_result ?src i st1 r"
    have "keeps st (snd r)" using r gk by (auto simp: group_result_def keeps_def)
    moreover have l: "length (parse_space (drop k (fst r)) True) < length src" for k
      using parse_space_length [of "drop k (fst r)" True] r len by (auto simp: group_result_def)
    ultimately show "answers (case r of (pos, st) \<Rightarrow>
       if peek pos = 13 then Inr (parse_space (drop (if peek (tl pos) = 10 then 2 else 1) pos) True, st)
       else if peek pos = 10 then Inr (parse_space (tl pos) True, st)
       else if peek pos \<noteq> 0 then throw_at ''expecting newline or end at '' pos
       else Inr (parse_space pos True, st)) (\<lambda>(pos, st'). length pos < length src \<and> keeps st st')"
      using l [of 0] l [of "Suc 0"] by (cases r) (auto simp: drop_Suc)
  qed
  show "answers (let pos = parse_space rest False; (rule_id, st) = get_symbol_id name st in
     if \<not> (peek pos = ch CHR '':'' \<and> peek (tl pos) = ch CHR '':'' \<and> peek (drop 2 pos) = ch CHR ''='')
     then throw_at ''expecting ::= at '' pos
     else
       rbind (parse_alternates depth vocab name False (parse_space (drop 3 pos) True) rule_id st) (\<lambda>(pos, st).
       if peek pos = 13 then Inr (parse_space (drop (if peek (tl pos) = 10 then 2 else 1) pos) True, st)
       else if peek pos = 10 then Inr (parse_space (tl pos) True, st)
       else if peek pos \<noteq> 0 then throw_at ''expecting newline or end at '' pos
       else Inr (parse_space pos True, st))) (\<lambda>(pos, st'). length pos < length src \<and> keeps st st')"
    using body by (simp add: Let_def g)
qed

lemma rules_loop_answers:
  assumes "length pos \<le> depth" "length pos < fuel"
  shows "answers (rules_loop fuel vocab depth pos st) (keeps st)"
  using assms
proof (induction fuel arbitrary: pos st)
  case (Suc fuel)
  have "answers (rbind (parse_rule depth vocab pos st) (\<lambda>(pos, st). rules_loop fuel vocab depth pos st)) (keeps st)"
  proof (rule answers_bind [OF parse_rule_answers [OF Suc.prems(1)]], clarify)
    fix p :: ctext and st' assume "length p < length pos" "keeps st st'"
    then show "answers (rules_loop fuel vocab depth p st') (keeps st)"
      using Suc.prems by (intro answers_weaken [OF Suc.IH [of p st']]) (auto intro: keeps_trans)
  qed
  then show ?case by (simp add: keeps_refl)
qed simp

lemma rmap_answers: "(\<And>x. x \<in> set xs \<Longrightarrow> answers (f x) (\<lambda>_. True)) \<Longrightarrow> answers (rmap f xs) (\<lambda>_. True)"
proof (induction xs)
  case (Cons x xs)
  have "answers (f x) (\<lambda>_. True)" "answers (rmap f xs) (\<lambda>_. True)" using Cons by auto
  then show ?case by (auto intro!: answers_bind)
qed simp

lemma check_rule_answers: "answers (check_rule st rule) (\<lambda>_. True)"
  by (auto simp: check_rule_def check_element_def split: list.splits
      intro!: answers_bind [OF rmap_answers])

lemma parse_grammar_answers: "answers (parse_grammar vocab src st) (\<lambda>_. True)"
  unfolding parse_grammar_def Let_def
  by (rule answers_bind [OF rules_loop_answers]) (auto intro!: answers_bind [OF rmap_answers] check_rule_answers)


lemma rmap_Inr_elem: "rmap f xs = Inr ys \<Longrightarrow> x \<in> set xs \<Longrightarrow> \<exists>y. f x = Inr y"
  by (induction xs arbitrary: ys) (auto simp: result_simps)

lemma symbol_for_id:
  assumes "wf_parser st" "unat i < nsym st"
  shows "filter (\<lambda>kv. snd kv = i) (symbol_ids st) \<noteq> []"
proof -
  have "map snd (symbol_ids st) = map of_nat [0..<nsym st]" using assms(1) by (simp add: wf_parser_def)
  then have "map snd (symbol_ids st) ! unat i = i" using assms(2) by simp
  then have "snd (symbol_ids st ! unat i) = i" using assms(2) by simp
  then show ?thesis using nth_mem [OF assms(2)] by (auto simp: filter_empty_conv)
qed

lemma checked_rules_wf:
  assumes "wf_parser st" "rmap (check_rule st) (prules st) = Inr us"
  shows "wf_rules (prules st)"
  unfolding wf_rules_def
proof
  fix r assume r: "r \<in> set (prules st)"
  then obtain u where u: "check_rule st r = Inr u" using rmap_Inr_elem [OF assms(2)] by blast
  then have ne: "r \<noteq> []" and el: "\<forall>e \<in> set r. \<exists>y. check_element st e = Inr y"
    using rmap_Inr_elem [of "check_element st" r]
    by (auto simp: check_rule_def result_simps split: if_splits)
  have wr: "wf_rule r" "refs_ok (nsym st) r" using assms(1) r ne by (auto simp: wf_parser_def)
  have "unat (gvalue e) < length (prules st)" if e: "e \<in> set r" "gtype e = LLAMA_GRETYPE_RULE_REF" for e
  proof (rule ccontr)
    assume "\<not> unat (gvalue e) < length (prules st)"
    moreover have "unat (gvalue e) < nsym st" using wr(2) e by (auto simp: refs_ok_def)
    ultimately show False
      using el e symbol_for_id [OF assms(1)]
      by (fastforce simp: check_element_def split: list.splits)
  qed
  then show "wf_rule r \<and> refs_below (length (prules st)) r" using wr(1) by (simp add: refs_below_def)
qed

lemma new_parser_wf: "wf_parser new_parser"
  by (simp add: wf_parser_def new_parser_def)

lemma parse_grammar_invariant:
  assumes "parse_grammar vocab src new_parser = Inr st" "length (symbol_ids st) < 2 ^ 32"
  shows "wf_parser st"
proof -
  have l: "rules_loop (Suc (length (parse_space src True))) vocab (Suc (length (parse_space src True)))
      (parse_space src True) new_parser = Inr st"
    using assms(1) by (auto simp: parse_grammar_def Let_def result_simps)
  have "keeps new_parser st" by (rule answers_Inr [OF rules_loop_answers l]) auto
  then show ?thesis using new_parser_wf assms(2) by (simp add: keeps_def)
qed

lemma parse_grammar_wf:
  assumes "parse_grammar vocab src new_parser = Inr st" "length (symbol_ids st) < 2 ^ 32"
  shows "wf_rules (prules st)"
  using checked_rules_wf [OF parse_grammar_invariant [OF assms]] assms(1)
  by (auto simp: parse_grammar_def Let_def result_simps)

lemma parse_Some: "parse vocab src st = Inr (Some st') \<Longrightarrow> parse_grammar vocab src st = Inr st'"
  by (auto simp: parse_def split: sum.splits failure.splits)

text \<open>
  C15. The grammar that the parser returns is well formed: every rule is present and ends with its
  only \<open>END\<close>, range and alternative elements only follow an element they can modify, and every
  reference names a rule of the grammar. This is what the engine relies on (C1 to C4 and C12). The
  number of symbols must fit the 32 bit rule identifiers.
\<close>

theorem parse_wf_rules:
  assumes "parse vocab src new_parser = Inr (Some st)" "length (symbol_ids st) < 2 ^ 32"
  shows "wf_rules (prules st)"
  by (rule parse_grammar_wf [OF parse_Some [OF assms(1)] assms(2)])

text \<open>
  The symbol table never confuses two rules: in the table of a parsed grammar different names
  have different identifiers and no name occurs twice, although the parser invents names for groups
  and repetitions. (Names of the grammar cannot contain the underscore of an invented name.)
\<close>

lemma parse_symbols_distinct:
  assumes "parse vocab src new_parser = Inr (Some st)" "length (symbol_ids st) < 2 ^ 32"
  shows "distinct (map fst (symbol_ids st)) \<and> distinct (map snd (symbol_ids st))"
proof -
  have wf: "wf_parser st" by (rule parse_grammar_invariant [OF parse_Some [OF assms(1)] assms(2)])
  have "inj_on (of_nat :: nat \<Rightarrow> u32) {0..<nsym st}"
  proof (rule inj_onI)
    fix a b assume ab: "a \<in> {0..<nsym st}" "b \<in> {0..<nsym st}" "(of_nat a :: u32) = of_nat b"
    then have "unat (of_nat a :: u32) = unat (of_nat b :: u32)" by simp
    then show "a = b" using ab(1,2) assms(2) by (simp add: unat_of_nat)
  qed
  then show ?thesis using wf by (simp add: wf_parser_def distinct_map)
qed

definition ab_text :: ctext where
  "ab_text = map of_char (''root ::= [a] root | [b]'')"

theorem parse_wf_rules_witness:
  "wf_rules (prules \<lparr>symbol_ids = [(map of_char ''root'', 0)],
     prules = [[El LLAMA_GRETYPE_CHAR 97, El LLAMA_GRETYPE_RULE_REF 0, El LLAMA_GRETYPE_ALT 0,
                El LLAMA_GRETYPE_CHAR 98, El LLAMA_GRETYPE_END 0]]\<rparr>)"
proof -
  have "parse None ab_text new_parser = Inr (Some \<lparr>symbol_ids = [(map of_char ''root'', 0)],
     prules = [[El LLAMA_GRETYPE_CHAR 97, El LLAMA_GRETYPE_RULE_REF 0, El LLAMA_GRETYPE_ALT 0,
                El LLAMA_GRETYPE_CHAR 98, El LLAMA_GRETYPE_END 0]]\<rparr>)"
    by code_simp
  then show ?thesis by (rule parse_wf_rules) simp
qed

text \<open>
  Reversed bounds such as \<open>[a]{5,2}\<close> are not rejected: the number of optional repetitions is computed
  as \<open>max_times - min_times\<close> in 64 bits and wraps, so the loop that synthesizes rules is entered with
  \<open>2^64 - 3\<close> iterations to go.
\<close>

lemma reversed_bounds_wrap:
  assumes "last_sym_start s \<noteq> length (srule s)" "n_prev_rules s = 1"
  shows "\<exists>s'. handle_repetitions name 5 2 s = Inr s' \<and>
    sparser s' = snd (rec_rules (2 ^ 64 - 3) True False (drop (last_sym_start s) (srule s)) name 0 (sparser s))"
proof -
  have "unat (2 - 5 :: u64) = 2 ^ 64 - 3" by simp
  then show ?thesis
    using assms
    by (simp add: handle_repetitions_def Let_def MAX_REPETITION_THRESHOLD_def rassert_def split: prod.split)
qed

end
