(* ===== verification/Grammar_Api.thy ===== *)
theory Grammar_Api
  imports Grammar_Reject Grammar_Parser_Correct
begin

text \<open>
  The grammar object and its operations (\<open>llama_grammar\<close> of \<open>src/llama-grammar.h\<close> and the
  functions of \<open>src/llama-grammar.cpp\<close> below "grammar - external"): construction from a grammar
  text, filtering the candidates of a sampling step, accepting a sampled token, lazy grammars that
  wait for a trigger.

  The vocabulary (\<open>llama-vocab.cpp\<close>) enters as the functions \<open>token_to_piece\<close> and
  \<open>is_eog\<close>; the regular expressions of the C++ library as \<open>regex_match\<close> and
  \<open>regex_search\<close>, which return the positions and lengths of the groups of a match. A logit is
  \<open>None\<close> for \<open>-INFINITY\<close>.
\<close>

section \<open>The grammar object\<close>

type_synonym bytes = "u8 list"

type_synonym smatch = "(nat \<times> nat) list"

record llama_grammar =
  has_vocab :: bool
  grules :: llama_grammar_rules
  stacks :: llama_grammar_stacks
  gpartial :: llama_partial_utf8
  lazy :: bool
  awaiting_trigger :: bool
  trigger_buffer :: bytes
  trigger_buffer_positions :: "(llama_token \<times> nat \<times> nat) list"
  trigger_tokens :: "llama_token list"
  trigger_patterns :: "bytes list"

text \<open>The copy of the rules up to their \<open>END\<close>.\<close>

definition copy_rule :: "llama_grammar_rule \<Rightarrow> llama_grammar_rule result" where
  "copy_rule r =
     (if \<exists>e \<in> set r. gtype e = LLAMA_GRETYPE_END
      then Inr (takeWhile (\<lambda>e. gtype e \<noteq> LLAMA_GRETYPE_END) r @ [El LLAMA_GRETYPE_END 0])
      else Inl Undefined)"

definition zero_partial :: llama_partial_utf8 where
  "zero_partial = \<lparr>pvalue = 0, n_remain = 0\<rparr>"

text \<open>\<open>llama_grammar_init_impl\<close> on rules: \<open>None\<close> is the null pointer.\<close>

definition llama_grammar_init_rules ::
  "nat \<Rightarrow> llama_grammar_rules \<Rightarrow> nat \<Rightarrow> llama_grammar option result" where
  "llama_grammar_init_rules fuel rules start_rule_index =
     rbind (rmap copy_rule rules) (\<lambda>vec_rules.
     rbind (has_left_recursion (Suc (length vec_rules)) vec_rules) (\<lambda>lr.
     if lr then Inr None
     else rbind (init_stacks fuel vec_rules start_rule_index) (\<lambda>ss.
       Inr (Some \<lparr>has_vocab = False, grules = vec_rules, stacks = ss, gpartial = zero_partial,
                  lazy = False, awaiting_trigger = False, trigger_buffer = [],
                  trigger_buffer_positions = [], trigger_tokens = [], trigger_patterns = []\<rparr>))))"

text \<open>\<open>llama_grammar_init_impl\<close> on a grammar text. A pattern that is not a regular expression makes
  the constructor of \<open>std::regex\<close> throw.\<close>

definition llama_grammar_init_impl ::
  "nat \<Rightarrow> (bytes \<Rightarrow> bool) \<Rightarrow> vocab_tokenize \<Rightarrow> ctext \<Rightarrow> ctext \<Rightarrow> bool \<Rightarrow> bytes list \<Rightarrow> llama_token list \<Rightarrow>
     llama_grammar option result" where
  "llama_grammar_init_impl fuel regex_ok vocab grammar_str grammar_root is_lazy patterns tokens =
     rbind (parse vocab grammar_str new_parser) (\<lambda>r.
     case r of
       None \<Rightarrow> Inr None
     | Some parser \<Rightarrow>
         if prules parser = [] then Inr None
         else (case map_of (symbol_ids parser) grammar_root of
           None \<Rightarrow> Inr None
         | Some root \<Rightarrow>
             rbind (rmap copy_rule (prules parser)) (\<lambda>vec_rules.
             rbind (has_left_recursion (Suc (length vec_rules)) vec_rules) (\<lambda>lr.
             if lr then Inr None
             else rbind (init_stacks fuel vec_rules (unat root)) (\<lambda>ss.
             rbind (rmap (\<lambda>p. if regex_ok p then Inr p else Inl (Throw ''regex_error'')) patterns) (\<lambda>pats.
             Inr (Some \<lparr>has_vocab = (vocab \<noteq> None), grules = vec_rules, stacks = ss, gpartial = zero_partial,
                        lazy = is_lazy, awaiting_trigger = is_lazy, trigger_buffer = [],
                        trigger_buffer_positions = [], trigger_tokens = tokens, trigger_patterns = pats\<rparr>)))))))"

section \<open>Accepting a token\<close>

text \<open>The loop over the code points for one stack, which stops when no stack is left.\<close>

fun follow_code_points ::
  "nat \<Rightarrow> llama_grammar_rules \<Rightarrow> u32 list \<Rightarrow> llama_grammar_stacks \<Rightarrow> llama_grammar_stacks result" where
  "follow_code_points fuel R [] current_stacks = Inr current_stacks"
| "follow_code_points fuel R (c # cs) current_stacks =
     rbind (accept_stacks fuel R current_stacks c) (\<lambda>next_stacks.
     if next_stacks = [] then Inr next_stacks else follow_code_points fuel R cs next_stacks)"

definition accept_token_stack ::
  "nat \<Rightarrow> llama_grammar_rules \<Rightarrow> llama_token \<Rightarrow> u32 list \<Rightarrow> llama_grammar_stack \<Rightarrow> llama_grammar_stacks \<Rightarrow>
     llama_grammar_stacks result" where
  "accept_token_stack fuel R token cs stack stacks_new =
     (case stack of
        [] \<Rightarrow> Inr stacks_new
      | pos # rest \<Rightarrow>
          rbind (elem_at R pos) (\<lambda>e.
          if is_token_element e then
            rbind (llama_grammar_match_token R pos token) (\<lambda>b.
            if b then rbind (push_pos R (psucc pos) rest) (\<lambda>new_stack.
                      llama_grammar_advance_stack fuel R new_stack stacks_new)
            else Inr stacks_new)
          else rbind (follow_code_points fuel R cs [stack]) (\<lambda>surviving.
            Inr (foldl (\<lambda>acc s. push_unique s acc) stacks_new surviving))))"

definition llama_grammar_accept_token ::
  "nat \<Rightarrow> llama_token \<Rightarrow> bytes \<Rightarrow> llama_grammar \<Rightarrow> llama_grammar result" where
  "llama_grammar_accept_token fuel token piece g =
     (let (code_points, partial) = decode_utf8_piece piece (gpartial g) in
      rbind (rfold (accept_token_stack fuel (grules g) token (butlast code_points)) (stacks g) []) (\<lambda>stacks_new.
      if stacks_new = []
      then Inl (Throw (''Unexpected empty grammar stack after accepting piece: '' @ to_chars piece @
                       '' ('' @ to_chars (digits (unat token)) @ '')''))
      else Inr (g\<lparr>stacks := stacks_new, gpartial := partial\<rparr>)))"

definition llama_grammar_accept_str ::
  "nat \<Rightarrow> bytes \<Rightarrow> llama_grammar \<Rightarrow> llama_grammar result" where
  "llama_grammar_accept_str fuel piece g =
     (let (code_points, partial) = decode_utf8_piece piece (gpartial g) in
      rbind (accept_string fuel (grules g) (stacks g) (butlast code_points)) (\<lambda>stacks_new.
      if stacks_new = []
      then throw_at ''Unexpected empty grammar stack after accepting piece: '' piece
      else Inr (g\<lparr>stacks := stacks_new, gpartial := partial\<rparr>)))"

section \<open>Triggers of lazy grammars\<close>

definition find_start_pos :: "smatch \<Rightarrow> nat" where
  "find_start_pos m =
     (case filter (\<lambda>(pos, len). len > 0) (tl m) of
        [] \<Rightarrow> fst (hd m)
      | (pos, _) # _ \<Rightarrow> pos)"

definition trigger_find ::
  "(bytes \<Rightarrow> bytes \<Rightarrow> smatch option) \<Rightarrow> (bytes \<Rightarrow> bytes \<Rightarrow> smatch option) \<Rightarrow> bytes \<Rightarrow> bytes \<Rightarrow> nat option" where
  "trigger_find regex_match regex_search pattern input =
     (case (if pattern \<noteq> [] \<and> hd pattern = ch CHR ''^'' \<and> last pattern = ch CHR ''$''
            then regex_match pattern input else None) of
        Some m \<Rightarrow> Some (find_start_pos m)
      | None \<Rightarrow> (case regex_search pattern input of
            Some m \<Rightarrow> Some (find_start_pos m)
          | None \<Rightarrow> None))"

fun first_trigger ::
  "(bytes \<Rightarrow> bytes \<Rightarrow> nat option) \<Rightarrow> bytes list \<Rightarrow> bytes \<Rightarrow> nat option" where
  "first_trigger tfind [] buffer = None"
| "first_trigger tfind (p # ps) buffer =
     (case tfind p buffer of Some start \<Rightarrow> Some start | None \<Rightarrow> first_trigger tfind ps buffer)"

text \<open>Replaying the buffered tokens that overlap the match, the first one from where the match starts.\<close>

definition replay_token ::
  "nat \<Rightarrow> bytes \<Rightarrow> nat \<Rightarrow> llama_token \<times> nat \<times> nat \<Rightarrow> llama_grammar \<Rightarrow> llama_grammar result" where
  "replay_token fuel buffer start entry g =
     (case entry of (tok, tok_start, tok_end) \<Rightarrow>
        if tok_end \<le> start then Inr g
        else let piece_start = (if tok_start < start then start else tok_start);
                 piece_len = tok_end - piece_start
             in llama_grammar_accept_token fuel tok (take piece_len (drop piece_start buffer)) g)"

definition llama_grammar_accept_impl ::
  "nat \<Rightarrow> (bytes \<Rightarrow> bytes \<Rightarrow> nat option) \<Rightarrow> (llama_token \<Rightarrow> bytes) \<Rightarrow> (llama_token \<Rightarrow> bool) \<Rightarrow> llama_token \<Rightarrow>
     llama_grammar \<Rightarrow> llama_grammar result" where
  "llama_grammar_accept_impl fuel tfind token_to_piece is_eog token g =
     rbind (rassert ''grammar.vocab != nullptr'' (has_vocab g)) (\<lambda>_.
     let piece = token_to_piece token in
     if awaiting_trigger g then
       if token \<in> set (trigger_tokens g) then
         llama_grammar_accept_token fuel token piece (g\<lparr>awaiting_trigger := False, trigger_buffer := []\<rparr>)
       else
         let n = length (trigger_buffer g);
             g1 = g\<lparr>trigger_buffer_positions := trigger_buffer_positions g @ [(token, n, n + length piece)],
                    trigger_buffer := trigger_buffer g @ piece\<rparr> in
         (case first_trigger tfind (trigger_patterns g1) (trigger_buffer g1) of
            Some start \<Rightarrow>
              rbind (rfold (replay_token fuel (trigger_buffer g1) start) (trigger_buffer_positions g1)
                       (g1\<lparr>awaiting_trigger := False\<rparr>)) (\<lambda>g2.
              Inr (g2\<lparr>trigger_buffer := [], trigger_buffer_positions := []\<rparr>))
          | None \<Rightarrow> Inr g1)
     else if is_eog token then
       if [] \<in> set (stacks g) then Inr g else Inl (Abort ''fatal error'')
     else llama_grammar_accept_token fuel token piece g)"

section \<open>Filtering the candidates\<close>

record 'l llama_token_data =
  tid :: llama_token
  logit :: "'l option"

definition ban :: "'l llama_token_data \<Rightarrow> 'l llama_token_data" where
  "ban d = d\<lparr>logit := None\<rparr>"

definition ban_at :: "nat \<Rightarrow> 'l llama_token_data list \<Rightarrow> 'l llama_token_data list" where
  "ban_at i ds = (if i < length ds then ds[i := ban (ds ! i)] else ds)"

definition collect_candidate ::
  "(llama_token \<Rightarrow> bytes) \<Rightarrow> (llama_token \<Rightarrow> bool) \<Rightarrow> bool \<Rightarrow> llama_partial_utf8 \<Rightarrow> nat \<Rightarrow>
     'l llama_token_data list \<times> llama_grammar_candidate list \<Rightarrow>
     'l llama_token_data list \<times> llama_grammar_candidate list" where
  "collect_candidate token_to_piece is_eog allow_eog partial i acc =
     (let (ds, cands) = acc; tok = tid (ds ! i); piece = token_to_piece tok in
      if is_eog tok then (if allow_eog then ds else ban_at i ds, cands)
      else if piece = [] \<or> hd piece = 0 then (ban_at i ds, cands)
      else let (code_points, p) = decode_utf8_piece piece partial in
        (ds, cands @ [\<lparr>cindex = i, cps = code_points, cp_pos = 0, cpartial = p, cid = tok\<rparr>]))"

text \<open>The last argument says whether the \<open>smpl\<close> pointer is null: the time is then written through
  the null pointer.\<close>

definition llama_grammar_sample_impl ::
  "nat \<Rightarrow> (llama_token \<Rightarrow> bytes) \<Rightarrow> (llama_token \<Rightarrow> bool) \<Rightarrow> bool \<Rightarrow> llama_grammar \<Rightarrow>
     'l llama_token_data list \<Rightarrow> 'l llama_token_data list result" where
  "llama_grammar_sample_impl fuel token_to_piece is_eog smpl_null g candidates =
     (if awaiting_trigger g then Inr candidates
      else
        let allow_eog = ([] \<in> set (stacks g));
            (ds, cands) = fold (collect_candidate token_to_piece is_eog allow_eog (gpartial g))
                            [0..<length candidates] (candidates, []);
            depth = Suc (foldr (\<lambda>c n. max (length (cps c)) n) cands 0) in
        rbind (llama_grammar_reject_candidates depth fuel (grules g) (stacks g) cands) (\<lambda>rejects.
        let ds' = fold (\<lambda>r. ban_at (cindex r)) rejects ds in
        if smpl_null then Inl Undefined else Inr ds'))"

section \<open>The decoded pieces\<close>

lemma decode_loop_shape:
  assumes "decode_loop bs v n acc = (c, p)"
  shows "\<exists>xs. c = xs @ [0] \<and>
    (n_remain p = 0 \<longrightarrow> acc \<noteq> [] \<or> bs \<noteq> [] \<and> hd bs \<noteq> 0 \<longrightarrow> xs \<noteq> [])"
  using assms
proof (induction bs v n acc rule: decode_loop.induct)
  case (1 v n acc)
  then show ?case by (auto simp: decode_loop.simps(1))
next
  case (2 b bs v n acc)
  define n1 where "n1 = piece_lookup ! unat (drop_bit 4 b) - 1"
  show ?case
  proof (cases "b = 0 \<or> n1 < 0")
    case True
    then show ?thesis using "2.prems" by (auto simp: decode_loop.simps(2) n1_def Let_def split: if_splits)
  next
    case False
    define v1 where "v1 = (ucast (b AND (push_bit (nat (7 - n1)) 1 - 1)) :: u32)"
    obtain bs' v' n' where s: "sequence_loop bs v1 n1 = (bs', v', n')" by (metis prod_cases3)
    have rest: "decode_loop bs' v' n' (if n' = 0 then acc @ [v'] else acc) = (c, p)"
      using "2.prems" False s by (cases "n' = 0") (simp_all add: decode_loop.simps(2) n1_def v1_def Let_def)
    have stop: "bs' = [] \<or> hd bs' = 0" if "n' \<noteq> 0"
      using that s False
      by (induction bs v1 n1 arbitrary: bs' v' n' rule: sequence_loop.induct) (auto split: if_splits)
    have "n_remain p = n'" if "n' \<noteq> 0"
      using stop [OF that] rest that by (cases bs') (auto simp: decode_loop.simps)
    then show ?thesis
      using "2.IH" [OF _ refl _ refl refl, folded n1_def, folded v1_def, unfolded s] False rest
      by (cases "n' = 0") auto
  qed
qed

lemma continue_loop_stop:
  "continue_loop bs v n = Some (bs', v', n') \<Longrightarrow> 0 < n' \<Longrightarrow> bs' = [] \<or> hd bs' = 0"
  by (induction bs v n rule: continue_loop.induct) (auto split: if_splits)

lemma continue_loop_nonneg:
  "continue_loop bs v n = Some (bs', v', n') \<Longrightarrow> 0 \<le> n \<Longrightarrow> 0 \<le> n'"
  by (induction bs v n rule: continue_loop.induct) (auto split: if_splits)

lemma decode_piece_shape:
  assumes "decode_utf8_piece piece p0 = (c, p)" "0 \<le> n_remain p0"
  shows "\<exists>xs. c = xs @ [0] \<and> (n_remain p = 0 \<longrightarrow> piece \<noteq> [] \<longrightarrow> hd piece \<noteq> 0 \<longrightarrow> xs \<noteq> [])"
proof (cases "continue_loop piece (pvalue p0) (n_remain p0)")
  case None
  then show ?thesis using assms(1) by (auto simp: decode_utf8_piece_def)
next
  case (Some r)
  obtain bs v n where r: "r = (bs, v, n)" by (cases r)
  have d: "decode_loop bs v n (if 0 < n_remain p0 \<and> n = 0 then [v] else []) = (c, p)"
    using assms(1) Some r by (simp add: decode_utf8_piece_def)
  show ?thesis
  proof (cases "0 < n_remain p0")
    case True
    have "n_remain p = n" if "0 < n"
      using continue_loop_stop [OF Some [unfolded r] that] d that by (cases bs) (auto simp: decode_loop.simps)
    moreover have "0 \<le> n" using continue_loop_nonneg [OF Some [unfolded r]] True by simp
    ultimately show ?thesis using decode_loop_shape [OF d] True by (cases "n = 0") auto
  next
    case False
    then have "bs = piece" using Some r by (cases piece) auto
    then show ?thesis using decode_loop_shape [OF d] False by auto
  qed
qed

section \<open>Accepting a token in a grammar without token elements\<close>

lemma accept_string_Nil: "accept_string m R [] cs = Inr []"
  by (induction cs) (auto simp: accept_string_def accept_stacks_def)

lemma follow_accept_string: "follow_code_points m R cs ss = accept_string m R ss cs"
proof (induction cs arbitrary: ss)
  case Nil
  then show ?case by (simp add: accept_string_def)
next
  case (Cons c cs)
  have "accept_string m R ss (c # cs) = rbind (accept_stacks m R ss c) (\<lambda>ss'. accept_string m R ss' cs)"
    by (simp add: accept_string_def)
  then show ?case using Cons.IH accept_string_Nil [of m R cs]
    by (cases "accept_stacks m R ss c") auto
qed

text \<open>The stacks that a word of code points leads to.\<close>

fun str_succ :: "llama_grammar_rules \<Rightarrow> u32 list \<Rightarrow> llama_grammar_stack \<Rightarrow> llama_grammar_stack set" where
  "str_succ R [] s = {s}"
| "str_succ R (c # cs) s = (\<Union>t \<in> chr_succ R c s. str_succ R cs t)"

lemma accept_string_set:
  assumes "wf_rules R" "accept_string m R ss cs = Inr res" "wf_stacks R ss"
  shows "set res = (\<Union>s \<in> set ss. str_succ R cs s) \<and> wf_stacks R res"
  using assms(2,3)
proof (induction cs arbitrary: ss)
  case Nil
  then show ?case by (simp add: accept_string_def)
next
  case (Cons c cs)
  obtain ys where ys: "accept_stacks m R ss c = Inr ys" "accept_string m R ys cs = Inr res"
    using Cons.prems(1) by (auto simp: accept_string_def result_simps)
  show ?case
    using Cons.IH [OF ys(2) accept_stacks_wf [OF ys(1) assms(1) Cons.prems(2)]]
      accept_stacks_set [OF ys(1) assms(1) Cons.prems(2)] by auto
qed

lemma passes_str_succ:
  assumes "wf_rules R" "no_tokens R" "wf_stack R s" "final_stack R s" "passes R pu i cs s"
  shows "\<exists>t \<in> str_succ R cs s. passes R pu i [] t"
  using assms(3-5)
proof (induction cs arbitrary: s)
  case (Cons c cs)
  obtain p r where s: "s = p # r" using Cons.prems(3) by (cases s) auto
  then have "\<not> is_token_element (hd (suffix_at R p))" using no_tokens_top [OF assms(2)] Cons.prems(1) by blast
  then obtain t where t: "t \<in> chr_succ R c s" "passes R pu i cs t" using Cons.prems(3) s by auto
  then show ?case using Cons.IH [of t] chr_succ_wf [OF assms(1) Cons.prems(1,2) t(1)] by auto
qed simp

lemma set_fold_push_unique: "set (foldl (\<lambda>acc s. push_unique s acc) acc ss) = set acc \<union> set ss"
  by (induction ss arbitrary: acc) auto

lemma accept_token_stack_ok:
  assumes wf: "wf_rules R" and nt: "no_tokens R" and s: "wf_stack R s" "final_stack R s"
    and acc: "\<forall>k < length R. Wellfounded.accp (left_corner R (nullable R)) k"
  shows "\<exists>n. \<forall>m \<ge> n. \<forall>new. \<exists>res. accept_token_stack m R tok cs s new = Inr res \<and>
    set res = set new \<union> (if s = [] then {} else str_succ R cs s)"
proof (cases s)
  case Nil
  then show ?thesis by (simp add: accept_token_stack_def)
next
  case (Cons p r)
  then obtain e es where e: "suffix_at R p = e # es" using wf_final_topE s by blast
  then have net: "\<not> is_token_element e" using no_tokens_top [OF nt] s(1) Cons by fastforce
  have ws: "wf_stacks R [s]" using s by (simp add: wf_stacks_def)
  obtain n where n: "\<forall>m \<ge> n. \<forall>ss'. set ss' = set [s] \<longrightarrow> (\<exists>res. accept_string m R ss' cs = Inr res)"
    using accept_string_terminates [OF wf acc ws, of cs] by blast
  have "\<exists>res. accept_token_stack m R tok cs s new = Inr res \<and>
    set res = set new \<union> (if s = [] then {} else str_succ R cs s)" if "n \<le> m" for m new
  proof -
    obtain ss where ss: "accept_string m R [s] cs = Inr ss" using n \<open>n \<le> m\<close> by blast
    then have "set ss = str_succ R cs s" using accept_string_set [OF wf ss ws] by simp
    then show ?thesis
      using Cons e net ss set_fold_push_unique [of new ss]
      by (simp add: accept_token_stack_def elem_at_def follow_accept_string)
  qed
  then show ?thesis by blast
qed

lemma rfold_union:
  assumes "\<And>x new. x \<in> set xs \<Longrightarrow> \<exists>res. f x new = Inr res \<and> set res = set new \<union> F x"
  shows "\<exists>res. rfold f xs new = Inr res \<and> set res = set new \<union> (\<Union>x \<in> set xs. F x)"
  using assms
proof (induction xs arbitrary: new)
  case (Cons x xs)
  obtain r where r: "f x new = Inr r" "set r = set new \<union> F x" using Cons.prems [of x] by auto
  obtain r' where "rfold f xs r = Inr r'" "set r' = set r \<union> (\<Union>x \<in> set xs. F x)"
    using Cons.IH [of r] Cons.prems by auto
  then show ?case using r by auto
qed simp

definition grammar_ok :: "llama_grammar \<Rightarrow> bool" where
  "grammar_ok g \<longleftrightarrow> wf_rules (grules g) \<and>
     has_left_recursion (Suc (length (grules g))) (grules g) = Inr False \<and> empty_by_alternate (grules g) \<and>
     wf_stacks (grules g) (stacks g) \<and> stacks g \<noteq> [] \<and> 0 \<le> n_remain (gpartial g)"

lemma str_succ_wf:
  "wf_rules R \<Longrightarrow> wf_stack R s \<Longrightarrow> final_stack R s \<Longrightarrow> t \<in> str_succ R cs s \<Longrightarrow> wf_stack R t \<and> final_stack R t"
  by (induction cs arbitrary: s) (auto dest: chr_succ_wf)

text \<open>With enough fuel \<open>llama_grammar_accept_token\<close> succeeds exactly when some code point path through
  a non-empty stack survives.\<close>

lemma accept_token_ok:
  assumes g: "grammar_ok g" and nt: "no_tokens (grules g)"
    and d: "decode_utf8_piece piece (gpartial g) = (xs @ [0], p)" "0 \<le> n_remain p"
  shows "\<exists>n. \<forall>m \<ge> n. (\<exists>s \<in> set (stacks g). s \<noteq> [] \<and> str_succ (grules g) xs s \<noteq> {}) \<longrightarrow>
    (\<exists>g'. llama_grammar_accept_token m tok piece g = Inr g' \<and> grammar_ok g' \<and> grules g' = grules g)"
proof -
  let ?R = "grules g"
  have R: "wf_rules ?R" "wf_stacks ?R (stacks g)"
    and acc: "\<forall>k < length ?R. Wellfounded.accp (left_corner ?R (nullable ?R)) k"
    using g checked_corners_acc by (auto simp: grammar_ok_def)
  let ?F = "\<lambda>s. if s = [] then {} else str_succ ?R xs s"
  have "\<exists>n. \<forall>m \<ge> n. \<forall>s \<in> set (stacks g). \<forall>new. \<exists>res.
      accept_token_stack m ?R tok xs s new = Inr res \<and> set res = set new \<union> ?F s"
    using accept_token_stack_ok [OF R(1) nt _ _ acc] R(2) by (intro eventually_list) (auto simp: wf_stacks_def)
  then obtain n where n: "\<And>m s new. n \<le> m \<Longrightarrow> s \<in> set (stacks g) \<Longrightarrow> \<exists>res.
      accept_token_stack m ?R tok xs s new = Inr res \<and> set res = set new \<union> ?F s" by blast
  have "\<exists>g'. llama_grammar_accept_token m tok piece g = Inr g' \<and> grammar_ok g' \<and> grules g' = grules g"
    if m: "n \<le> m" and ex: "\<exists>s \<in> set (stacks g). s \<noteq> [] \<and> str_succ ?R xs s \<noteq> {}" for m
  proof -
    obtain res where res: "rfold (accept_token_stack m ?R tok xs) (stacks g) [] = Inr res"
        "set res = (\<Union>s \<in> set (stacks g). ?F s)"
      using rfold_union [of "stacks g" "accept_token_stack m ?R tok xs" ?F "[]"] n [OF m] by auto
    have "set res \<noteq> {}" unfolding res(2) using ex by auto
    then have ne: "res \<noteq> []" by auto
    have "wf_stack ?R t \<and> final_stack ?R t" if t: "t \<in> set res" for t
    proof -
      obtain s where "s \<in> set (stacks g)" "t \<in> str_succ ?R xs s"
        using t res(2) by (auto split: if_splits)
      then show ?thesis using R(1) R(2) [unfolded wf_stacks_def] str_succ_wf by blast
    qed
    then have "wf_stacks ?R res" by (simp add: wf_stacks_def)
    then show ?thesis
      using g d res(1) ne by (auto simp: llama_grammar_accept_token_def grammar_ok_def)
  qed
  then show ?thesis by blast
qed

section \<open>A sampling step\<close>

definition cand_of ::
  "(llama_token \<Rightarrow> bytes) \<Rightarrow> llama_partial_utf8 \<Rightarrow> nat \<Rightarrow> llama_token \<Rightarrow> llama_grammar_candidate" where
  "cand_of token_to_piece partial i tok =
     (let (c, p) = decode_utf8_piece (token_to_piece tok) partial in
      \<lparr>cindex = i, cps = c, cp_pos = 0, cpartial = p, cid = tok\<rparr>)"

lemma collect_candidate_eq:
  "collect_candidate ttp eog allow partial i (ds, cands) =
     (let tok = tid (ds ! i) in
      if eog tok then (if allow then ds else ban_at i ds, cands)
      else if ttp tok = [] \<or> hd (ttp tok) = 0 then (ban_at i ds, cands)
      else (ds, cands @ [cand_of ttp partial i tok]))"
  by (simp add: collect_candidate_def cand_of_def Let_def split: prod.split)

lemma ban_at_simps [simp]:
  "length (ban_at i ds) = length ds"
  "j < length ds \<Longrightarrow> tid (ban_at i ds ! j) = tid (ds ! j)"
  "j < length ds \<Longrightarrow> logit (ban_at i ds ! j) = (if i = j then None else logit (ds ! j))"
  by (auto simp: ban_at_def ban_def nth_list_update)

text \<open>What the collecting loop leaves for the first \<open>k\<close> candidates: those that are still possible are
  in the list for the grammar, unless they end the generation and may do so.\<close>

lemma collect_spec:
  assumes "fold (collect_candidate ttp eog allow partial) [0..<k] (ds, []) = (ds', cands)" "k \<le> length ds"
  shows "length ds' = length ds \<and> (\<forall>j < length ds. tid (ds' ! j) = tid (ds ! j)) \<and>
    (\<forall>c \<in> set cands. \<exists>i < k. c = cand_of ttp partial i (tid (ds ! i)) \<and> \<not> eog (tid (ds ! i)) \<and>
       ttp (tid (ds ! i)) \<noteq> [] \<and> hd (ttp (tid (ds ! i))) \<noteq> 0) \<and>
    (\<forall>i < k. logit (ds' ! i) \<noteq> None \<longrightarrow>
       (eog (tid (ds ! i)) \<and> allow \<or> \<not> eog (tid (ds ! i)) \<and> cand_of ttp partial i (tid (ds ! i)) \<in> set cands))"
  using assms
proof (induction k arbitrary: ds' cands)
  case (Suc k)
  obtain d1 c1 where f: "fold (collect_candidate ttp eog allow partial) [0..<k] (ds, []) = (d1, c1)" by fastforce
  have "k \<le> length ds" using Suc.prems(2) by simp
  note IH = Suc.IH [OF f this]
  have step: "collect_candidate ttp eog allow partial k (d1, c1) = (ds', cands)"
    using Suc.prems(1) f by simp
  have tk: "tid (d1 ! k) = tid (ds ! k)" "k < length d1" using IH Suc.prems(2) by auto
  show ?case
  proof (cases "eog (tid (ds ! k)) \<or> ttp (tid (ds ! k)) = [] \<or> hd (ttp (tid (ds ! k))) = 0")
    case True
    then have "cands = c1 \<and> (ds' = ban_at k d1 \<or> ds' = d1 \<and> eog (tid (ds ! k)) \<and> allow)"
      using step tk unfolding collect_candidate_eq Let_def by (auto split: if_splits)
    then show ?thesis using IH tk Suc.prems(2) by (auto simp: less_Suc_eq)
  next
    case False
    then have "ds' = d1" "cands = c1 @ [cand_of ttp partial k (tid (ds ! k))]"
      using step tk unfolding collect_candidate_eq Let_def by (auto split: if_splits)
    then show ?thesis using IH False by (auto simp: less_Suc_eq)
  qed
qed simp

lemma fold_ban_spec:
  "length (fold (\<lambda>r. ban_at (cindex r)) rs ds) = length ds \<and>
   (\<forall>j < length ds. tid (fold (\<lambda>r. ban_at (cindex r)) rs ds ! j) = tid (ds ! j) \<and>
      (logit (fold (\<lambda>r. ban_at (cindex r)) rs ds ! j) \<noteq> None \<longrightarrow>
         logit (ds ! j) \<noteq> None \<and> (\<forall>r \<in> set rs. cindex r \<noteq> j)))"
proof (induction rs arbitrary: ds)
  case (Cons r rs)
  show ?case using Cons.IH [of "ban_at (cindex r) ds"] by (auto split: if_splits)
qed simp

lemma cand_of_simps:
  assumes "decode_utf8_piece (ttp tok) partial = (xs @ [0], p)" "0 \<notin> set xs"
  shows "wf_cand (cand_of ttp partial i tok)" "rest_cps (cand_of ttp partial i tok) = xs"
    "cpartial (cand_of ttp partial i tok) = p" "cid (cand_of ttp partial i tok) = tok"
    "cindex (cand_of ttp partial i tok) = i" "length (cps (cand_of ttp partial i tok)) = Suc (length xs)"
  using assms
  by (simp_all add: cand_of_def wf_cand_def rest_cps_def) (metis (mono_tags, lifting) takeWhile_append2 takeWhile_eq_all_conv append.right_neutral takeWhile.simps(2))

lemma foldr_max_le: "c \<in> set cs \<Longrightarrow> f c \<le> foldr (\<lambda>c n. max (f c) n) cs (0 :: nat)"
  by (induction cs) auto

text \<open>A candidate that fits some stack can be accepted.\<close>

lemma kept_candidate_accepted:
  assumes g: "grammar_ok g" and nt: "no_tokens (grules g)" and b: "\<not> awaiting_trigger g" "has_vocab g" "\<not> eog tok"
    and piece: "ttp tok \<noteq> []" "hd (ttp tok) \<noteq> 0"
    and d: "decode_utf8_piece (ttp tok) (gpartial g) = (xs @ [0], p)" and z: "0 \<notin> set xs"
  shows "\<exists>n. \<forall>m \<ge> n. (\<exists>s \<in> set (stacks g). passes (grules g) p tok xs s) \<longrightarrow>
    (\<exists>g'. llama_grammar_accept_impl m tf ttp eog tok g = Inr g' \<and> grammar_ok g' \<and> grules g' = grules g)"
proof (cases "\<exists>s \<in> set (stacks g). passes (grules g) p tok xs s")
  case True
  then obtain s where s: "s \<in> set (stacks g)" "passes (grules g) p tok xs s" by blast
  have gR: "wf_rules (grules g)" "wf_stack (grules g) s" "final_stack (grules g) s"
    using g s(1) by (auto simp: grammar_ok_def wf_stacks_def)
  obtain t where t: "t \<in> str_succ (grules g) xs s" "passes (grules g) p tok [] t"
    using passes_str_succ [OF gR(1) nt gR(2,3) s(2)] by blast
  have np: "0 \<le> n_remain p" using t(2) by (auto simp: partial_match_def)
  have "0 \<le> n_remain (gpartial g)" using g by (simp add: grammar_ok_def)
  then have "n_remain p = 0 \<Longrightarrow> xs \<noteq> []" using decode_piece_shape [OF d] piece by auto
  then have "s \<noteq> []" using s(2) by (cases xs) auto
  then have ex: "\<exists>s \<in> set (stacks g). s \<noteq> [] \<and> str_succ (grules g) xs s \<noteq> {}" using s(1) t(1) by blast
  have "llama_grammar_accept_impl m tf ttp eog tok g = llama_grammar_accept_token m tok (ttp tok) g" for m
    using b by (simp add: llama_grammar_accept_impl_def rassert_def Let_def)
  then show ?thesis using accept_token_ok [OF g nt d np, of tok] ex by auto
qed simp

definition pieces_ok :: "(llama_token \<Rightarrow> bytes) \<Rightarrow> llama_partial_utf8 \<Rightarrow> llama_token \<Rightarrow> bool" where
  "pieces_ok ttp partial tok = (0 \<notin> set (butlast (fst (decode_utf8_piece (ttp tok) partial))))"

lemma pieces_okE:
  assumes "pieces_ok ttp partial tok" "0 \<le> n_remain partial"
  obtains xs p where "decode_utf8_piece (ttp tok) partial = (xs @ [0], p)" "0 \<notin> set xs"
proof -
  obtain c p where c: "decode_utf8_piece (ttp tok) partial = (c, p)" by fastforce
  then obtain xs where "c = xs @ [0]" using decode_piece_shape [OF c assms(2)] by blast
  then show ?thesis using c assms(1) that by (simp add: pieces_ok_def)
qed

lemma cand_of_fields [simp]:
  "cid (cand_of ttp partial i tok) = tok" "cindex (cand_of ttp partial i tok) = i"
  by (simp_all add: cand_of_def split: prod.split)

lemma cand_of_wf:
  assumes "pieces_ok ttp partial tok" "0 \<le> n_remain partial"
  shows "wf_cand (cand_of ttp partial i tok) \<and>
    length (rest_cps (cand_of ttp partial i tok)) \<le> length (cps (cand_of ttp partial i tok))"
proof -
  obtain xs p where "decode_utf8_piece (ttp tok) partial = (xs @ [0], p)" "0 \<notin> set xs"
    using pieces_okE [OF assms] .
  from cand_of_simps [of ttp tok, OF this, of i] show ?thesis by simp
qed

text \<open>A token survives the filter when it may end the generation, or when its piece fits a stack.\<close>

definition survives ::
  "(llama_token \<Rightarrow> bytes) \<Rightarrow> (llama_token \<Rightarrow> bool) \<Rightarrow> llama_grammar \<Rightarrow> llama_token \<Rightarrow> bool" where
  "survives ttp eog g tok \<longleftrightarrow>
     (if eog tok then [] \<in> set (stacks g)
      else ttp tok \<noteq> [] \<and> hd (ttp tok) \<noteq> 0 \<and>
        (\<exists>s \<in> set (stacks g). cand_passes (grules g) (cand_of ttp (gpartial g) 0 tok) s))"

lemma cand_passes_index: "cand_passes R (cand_of ttp p i tok) s = cand_passes R (cand_of ttp p j tok) s"
  by (simp add: cand_of_def rest_cps_def split: prod.split)

lemma sample_impl_survivors:
  fixes candidates :: "'l llama_token_data list"
  assumes g: "grammar_ok g" "\<not> awaiting_trigger g"
    and pieces: "\<forall>d \<in> set candidates. pieces_ok ttp (gpartial g) (tid d)"
  shows "\<exists>n. \<forall>m \<ge> n. \<exists>ds. llama_grammar_sample_impl m ttp eog False g candidates = Inr ds \<and>
    length ds = length candidates \<and>
    (\<forall>i < length ds. tid (ds ! i) = tid (candidates ! i) \<and>
       (logit (ds ! i) \<noteq> None \<longrightarrow> survives ttp eog g (tid (candidates ! i))))"
proof -
  let ?R = "grules g" and ?p = "gpartial g" and ?N = "length candidates"
  have R: "wf_rules ?R" "wf_stacks ?R (stacks g)" "stacks g \<noteq> []" "0 \<le> n_remain ?p"
    and ex: "expands ?R" using g(1) expands_checked by (auto simp: grammar_ok_def)
  obtain ds1 cands where col: "fold (collect_candidate ttp eog ([] \<in> set (stacks g)) ?p) [0..<?N] (candidates, []) = (ds1, cands)"
    by fastforce
  note cs = collect_spec [OF col order_refl]
  define d where "d = foldr (\<lambda>c n. max (length (cps c)) n) cands 0"
  have wfc: "\<forall>c \<in> set cands. wf_cand c \<and> length (rest_cps c) \<le> d"
  proof
    fix c assume c: "c \<in> set cands"
    then obtain i where i: "i < ?N" "c = cand_of ttp ?p i (tid (candidates ! i))" using cs by blast
    have "pieces_ok ttp ?p (tid (candidates ! i))" using pieces nth_mem [OF i(1)] by blast
    from cand_of_wf [OF this R(4), of i] show "wf_cand c \<and> length (rest_cps c) \<le> d"
      using foldr_max_le [OF c, of "\<lambda>c. length (cps c)"] i(2) by (simp add: d_def)
  qed
  have "\<exists>n. \<forall>m \<ge> n. \<forall>s \<in> set (stacks g). filters (llama_grammar_reject_candidates_for_stack (Suc d) m ?R s)
      (\<lambda>tok. wf_cand tok \<and> length (rest_cps tok) \<le> d) (\<lambda>tok. \<not> cand_passes ?R tok s)"
    using R(2) filters_for_stack [OF R(1) ex] by (intro eventually_list) (auto simp: wf_stacks_def)
  then obtain n where n: "\<And>m s. n \<le> m \<Longrightarrow> s \<in> set (stacks g) \<Longrightarrow>
      filters (llama_grammar_reject_candidates_for_stack (Suc d) m ?R s)
      (\<lambda>tok. wf_cand tok \<and> length (rest_cps tok) \<le> d) (\<lambda>tok. \<not> cand_passes ?R tok s)" by blast
  have "\<exists>ds. llama_grammar_sample_impl m ttp eog False g candidates = Inr ds \<and> length ds = ?N \<and>
    (\<forall>i < length ds. tid (ds ! i) = tid (candidates ! i) \<and>
       (logit (ds ! i) \<noteq> None \<longrightarrow> survives ttp eog g (tid (candidates ! i))))"
    if m: "n \<le> m" for m
  proof -
    have "filters (llama_grammar_reject_candidates (Suc d) m ?R (stacks g))
        (\<lambda>tok. wf_cand tok \<and> length (rest_cps tok) \<le> d) (\<lambda>tok. \<forall>s \<in> set (stacks g). \<not> cand_passes ?R tok s)"
      unfolding llama_grammar_reject_candidates_def
      using n m R(3) by (intro filters_reject_over) auto
    then obtain rej where rej: "llama_grammar_reject_candidates (Suc d) m ?R (stacks g) cands = Inr rej"
        "mset rej = filter_mset (\<lambda>tok. \<forall>s \<in> set (stacks g). \<not> cand_passes ?R tok s) (mset cands)"
      using wfc unfolding filters_def by blast
    let ?ds = "fold (\<lambda>r. ban_at (cindex r)) rej ds1"
    have samp: "llama_grammar_sample_impl m ttp eog False g candidates = Inr ?ds"
      using g(2) col rej(1) by (simp add: llama_grammar_sample_impl_def d_def [symmetric])
    have "survives ttp eog g (tid (candidates ! i))" if i: "i < ?N" and l: "logit (?ds ! i) \<noteq> None" for i
    proof -
      let ?c = "cand_of ttp ?p i (tid (candidates ! i))"
      have l1: "logit (ds1 ! i) \<noteq> None" and nr: "\<forall>r \<in> set rej. cindex r \<noteq> i"
        using fold_ban_spec [of rej ds1] cs i l by auto
      then consider "eog (tid (candidates ! i))" "[] \<in> set (stacks g)" | "\<not> eog (tid (candidates ! i))" "?c \<in> set cands"
        using cs i by blast
      then show ?thesis
      proof cases
        case 2
        then have ok: "ttp (tid (candidates ! i)) \<noteq> [] \<and> hd (ttp (tid (candidates ! i))) \<noteq> 0"
          using cs by (metis cand_of_fields(1))
        have "?c \<notin># mset rej" using nr by auto
        then have "\<exists>s \<in> set (stacks g). cand_passes ?R ?c s" unfolding rej(2) using 2(2) by auto
        then show ?thesis using 2(1) ok cand_passes_index by (simp add: survives_def) blast
      qed (simp add: survives_def)
    qed
    then show ?thesis using samp fold_ban_spec [of rej ds1] cs by auto
  qed
  then show ?thesis by blast
qed

text \<open>
  C17. A sampling step is safe, and keeps the grammar in a good state. Take a grammar without token
  elements that passed the check for left recursion (every nullable rule having an empty alternate),
  that has some stack left and is not waiting for a trigger, and candidate tokens none of whose pieces
  decodes to the code point zero. Then, with enough fuel, \<open>llama_grammar_sample_impl\<close> returns, and every
  candidate that it leaves with a finite logit is accepted by \<open>llama_grammar_accept_impl\<close> without an
  exception or an abort, leaving a grammar for which all of this holds again.
\<close>

theorem sample_then_accept:
  fixes candidates :: "'l llama_token_data list"
  assumes g: "grammar_ok g" "no_tokens (grules g)" "\<not> awaiting_trigger g" "has_vocab g"
    and pieces: "\<forall>d \<in> set candidates. pieces_ok ttp (gpartial g) (tid d)"
  shows "\<exists>n. \<forall>m \<ge> n. \<exists>ds. llama_grammar_sample_impl m ttp eog False g candidates = Inr ds \<and>
    length ds = length candidates \<and>
    (\<forall>i < length ds. logit (ds ! i) \<noteq> None \<longrightarrow>
       (\<exists>g'. llama_grammar_accept_impl m tf ttp eog (tid (ds ! i)) g = Inr g' \<and>
             grammar_ok g' \<and> grules g' = grules g))"
proof -
  let ?acc = "\<lambda>m tok. \<exists>g'. llama_grammar_accept_impl m tf ttp eog tok g = Inr g' \<and>
      grammar_ok g' \<and> grules g' = grules g"
  obtain n1 where n1: "\<And>m. n1 \<le> m \<Longrightarrow> \<exists>ds. llama_grammar_sample_impl m ttp eog False g candidates = Inr ds \<and>
    length ds = length candidates \<and> (\<forall>i < length ds. tid (ds ! i) = tid (candidates ! i) \<and>
       (logit (ds ! i) \<noteq> None \<longrightarrow> survives ttp eog g (tid (candidates ! i))))"
    using sample_impl_survivors [OF g(1,3) pieces] by blast
  have "\<exists>n. \<forall>m \<ge> n. \<forall>d \<in> set candidates. survives ttp eog g (tid d) \<longrightarrow> ?acc m (tid d)"
  proof (rule eventually_list)
    fix d assume d: "d \<in> set candidates"
    let ?t = "tid d"
    have np: "0 \<le> n_remain (gpartial g)" using g(1) by (simp add: grammar_ok_def)
    obtain xs p where xp: "decode_utf8_piece (ttp ?t) (gpartial g) = (xs @ [0], p)" "0 \<notin> set xs"
      using pieces_okE [of ttp "gpartial g" ?t] np pieces d by blast
    show "\<exists>n. \<forall>m \<ge> n. survives ttp eog g ?t \<longrightarrow> ?acc m ?t"
    proof (cases "survives ttp eog g ?t")
      case True
      show ?thesis
      proof (cases "eog ?t")
        case True
        then show ?thesis using \<open>survives ttp eog g ?t\<close> g
          by (simp add: survives_def llama_grammar_accept_impl_def rassert_def Let_def)
      next
        case False
        have fits: "\<exists>s \<in> set (stacks g). passes (grules g) p ?t xs s" and ne: "ttp ?t \<noteq> []" "hd (ttp ?t) \<noteq> 0"
          using True False cand_of_simps [of ttp ?t, OF xp, of 0] by (auto simp: survives_def)
        show ?thesis
          using kept_candidate_accepted [of g eog ?t ttp xs p tf, OF g False ne xp] fits by blast
      qed
    qed simp
  qed
  then obtain n2 where n2: "\<forall>m \<ge> n2. \<forall>d \<in> set candidates. survives ttp eog g (tid d) \<longrightarrow> ?acc m (tid d)" by blast
  show ?thesis
  proof (intro exI [of _ "max n1 n2"] allI impI)
    fix m assume m: "max n1 n2 \<le> m"
    then obtain ds where ds: "llama_grammar_sample_impl m ttp eog False g candidates = Inr ds"
        "length ds = length candidates" "\<forall>i < length ds. tid (ds ! i) = tid (candidates ! i) \<and>
       (logit (ds ! i) \<noteq> None \<longrightarrow> survives ttp eog g (tid (candidates ! i)))" using n1 [of m] by auto
    have "?acc m (tid (ds ! i))" if "i < length ds" "logit (ds ! i) \<noteq> None" for i
      using ds(2,3) n2 m that nth_mem [of i candidates] by auto
    then show "\<exists>ds. llama_grammar_sample_impl m ttp eog False g candidates = Inr ds \<and>
       length ds = length candidates \<and> (\<forall>i < length ds. logit (ds ! i) \<noteq> None \<longrightarrow> ?acc m (tid (ds ! i)))"
      using ds(1,2) by blast
  qed
qed

definition ab_grammar :: llama_grammar where
  "ab_grammar = \<lparr>has_vocab = True, grules = ab_rules, stacks = [[(0, 0)], [(0, 3)]], gpartial = zero_partial,
     lazy = False, awaiting_trigger = False, trigger_buffer = [], trigger_buffer_positions = [],
     trigger_tokens = [], trigger_patterns = []\<rparr>"

definition ab_piece :: "llama_token \<Rightarrow> bytes" where
  "ab_piece t = (if t = 1 then [97] else if t = 2 then [97, 98] else if t = 3 then [99] else [])"

lemma ab_grammar_ok: "grammar_ok ab_grammar" "no_tokens (grules ab_grammar)"
proof -
  have "wf_stacks ab_rules [[(0, 0)], [(0, 3)]]"
    using init_stacks_lang [OF ab_init ab_rules_wf] by (simp add: ab_rules_def)
  moreover have "has_left_recursion (Suc (length ab_rules)) ab_rules = Inr False" by code_simp
  ultimately show "grammar_ok ab_grammar"
    using ab_rules_wf ab_empty_by_alternate by (simp add: grammar_ok_def ab_grammar_def zero_partial_def)
  show "no_tokens (grules ab_grammar)"
    by (simp add: no_tokens_def ab_grammar_def ab_rules_def is_token_element_def)
qed

theorem sample_then_accept_witness:
  "\<exists>n. \<forall>m \<ge> n. \<exists>ds. llama_grammar_sample_impl m ab_piece (\<lambda>t. t = 0) False ab_grammar
      [\<lparr>tid = 1, logit = Some (5 :: int)\<rparr>, \<lparr>tid = 2, logit = Some 4\<rparr>, \<lparr>tid = 3, logit = Some 9\<rparr>] = Inr ds \<and>
    length ds = length [\<lparr>tid = 1, logit = Some (5 :: int)\<rparr>, \<lparr>tid = 2, logit = Some 4\<rparr>, \<lparr>tid = 3, logit = Some 9\<rparr>] \<and>
    (\<forall>i < length ds. logit (ds ! i) \<noteq> None \<longrightarrow>
       (\<exists>g'. llama_grammar_accept_impl m (\<lambda>_ _. None) ab_piece (\<lambda>t. t = 0) (tid (ds ! i)) ab_grammar = Inr g' \<and>
             grammar_ok g' \<and> grules g' = grules ab_grammar))"
proof (rule sample_then_accept [OF ab_grammar_ok])
  show "\<not> awaiting_trigger ab_grammar" "has_vocab ab_grammar" by (simp_all add: ab_grammar_def)
  have "pieces_ok ab_piece (gpartial ab_grammar) 1" "pieces_ok ab_piece (gpartial ab_grammar) 2"
    "pieces_ok ab_piece (gpartial ab_grammar) 3"
    by code_simp+
  then show "\<forall>d \<in> set [\<lparr>tid = 1, logit = Some (5 :: int)\<rparr>, \<lparr>tid = 2, logit = Some 4\<rparr>, \<lparr>tid = 3, logit = Some 9\<rparr>].
      pieces_ok ab_piece (gpartial ab_grammar) (tid d)" by simp
qed

section \<open>Construction\<close>

lemma wf_seq_shape:
  "wf_seq prev r \<Longrightarrow> \<exists>es v. r = es @ [El LLAMA_GRETYPE_END v] \<and> (\<forall>e \<in> set es. gtype e \<noteq> LLAMA_GRETYPE_END)"
proof (induction r arbitrary: prev)
  case (Cons e r)
  show ?case
  proof (cases "r = []")
    case True
    then have "e = El LLAMA_GRETYPE_END (gvalue e)" using Cons.prems by simp
    then show ?thesis using True by (intro exI [of _ "[]"] exI [of _ "gvalue e"]) simp
  next
    case False
    then have "wf_seq (gtype e) r" using Cons.prems by simp
    then obtain es v where "r = es @ [El LLAMA_GRETYPE_END v]" "\<forall>e \<in> set es. gtype e \<noteq> LLAMA_GRETYPE_END"
      using Cons.IH by blast
    then show ?thesis using False Cons.prems by (intro exI [of _ "e # es"] exI [of _ v]) auto
  qed
qed simp

lemma copy_rule_wf:
  assumes "wf_rule r" "refs_below n r"
  shows "\<exists>r'. copy_rule r = Inr r' \<and> wf_rule r' \<and> refs_below n r'"
proof -
  obtain es v where r: "r = es @ [El LLAMA_GRETYPE_END v]" "\<forall>e \<in> set es. gtype e \<noteq> LLAMA_GRETYPE_END"
    using assms(1) wf_seq_shape unfolding wf_rule_def by blast
  then have "copy_rule r = Inr (es @ [El LLAMA_GRETYPE_END 0])"
    by (simp add: copy_rule_def)
  then show ?thesis using assms r by (auto simp: wf_rule_open refs_below_def)
qed

lemma copy_rules_wf:
  assumes "wf_rules R" "rmap copy_rule R = Inr R'"
  shows "wf_rules R' \<and> length R' = length R"
proof -
  have "(\<forall>r \<in> set rs. wf_rule r \<and> refs_below n r) \<Longrightarrow> rmap copy_rule rs = Inr rs' \<Longrightarrow>
      length rs' = length rs \<and> (\<forall>r \<in> set rs'. wf_rule r \<and> refs_below n r)" for rs rs' n
  proof (induction rs arbitrary: rs')
    case (Cons r rs)
    obtain r' where "copy_rule r = Inr r'" "wf_rule r' \<and> refs_below n r'" 
      using copy_rule_wf [of r n] Cons.prems(1) by auto
    then show ?case using Cons by (auto simp: result_simps)
  qed simp
  from this [of R "length R" R'] assms show ?thesis by (auto simp: wf_rules_def)
qed

lemma init_stacks_range: "init_stacks fuel R k = Inr ss \<Longrightarrow> k < length R"
  by (auto simp: init_stacks_def rule_alternates_def split: if_splits)

text \<open>
  C18. A grammar object that was built from a text is ready for the engine, and stands for the language of
  its root rule: whenever \<open>llama_grammar_init_impl\<close> returns an object, its rules are well formed and
  passed the check for left recursion, its stacks satisfy the invariant of the engine, and the words
  they can still derive are exactly those of the rule named as the root.
\<close>

theorem init_impl_ready:
  assumes "llama_grammar_init_impl fuel regex_ok vocab src root is_lazy patterns tokens = Inr (Some g)"
    and "parse vocab src new_parser = Inr (Some st)" "length (symbol_ids st) < 2 ^ 32"
  shows "\<exists>k. map_of (symbol_ids st) root = Some k \<and> wf_rules (grules g) \<and>
    has_left_recursion (Suc (length (grules g))) (grules g) = Inr False \<and>
    wf_stacks (grules g) (stacks g) \<and>
    stacks_lang (grules g) (stacks g) = rule_lang (grules g) (unat k) \<and>
    awaiting_trigger g = is_lazy"
proof -
  have wf: "wf_rules (prules st)" by (rule parse_grammar_wf [OF parse_Some [OF assms(2)] assms(3)])
  obtain k R ss pats where k: "map_of (symbol_ids st) root = Some k" "rmap copy_rule (prules st) = Inr R"
      "has_left_recursion (Suc (length R)) R = Inr False" "init_stacks fuel R (unat k) = Inr ss"
    and g: "grules g = R" "stacks g = ss" "awaiting_trigger g = is_lazy"
    using assms(1,2)
    by (auto simp: llama_grammar_init_impl_def result_simps split: option.splits if_splits)
  have R: "wf_rules R" using copy_rules_wf [OF wf k(2)] by blast
  show ?thesis
    using k g R init_stacks_lang [OF k(4) R init_stacks_range [OF k(4)]] by auto
qed

theorem init_impl_ready_witness:
  "\<exists>g. llama_grammar_init_impl 9 (\<lambda>_. True) None ab_text (map of_char ''root'') False [] [] = Inr (Some g) \<and>
     stacks_lang (grules g) (stacks g) = rule_lang (grules g) 0"
proof -
  let ?st = "\<lparr>symbol_ids = [(map of_char ''root'', 0)],
     prules = [[El LLAMA_GRETYPE_CHAR 97, El LLAMA_GRETYPE_RULE_REF 0, El LLAMA_GRETYPE_ALT 0,
                El LLAMA_GRETYPE_CHAR 98, El LLAMA_GRETYPE_END 0]]\<rparr>"
  have p: "parse None ab_text new_parser = Inr (Some ?st)" by code_simp
  have "(case llama_grammar_init_impl 9 (\<lambda>_. True) None ab_text (map of_char ''root'') False [] [] of
      Inr (Some g) \<Rightarrow> True | _ \<Rightarrow> False)" by code_simp
  then obtain g where g: "llama_grammar_init_impl 9 (\<lambda>_. True) None ab_text (map of_char ''root'') False [] [] = Inr (Some g)"
    by (auto split: sum.splits option.splits)
  from init_impl_ready [OF g p] show ?thesis using g by auto
qed

section \<open>Lazy grammars\<close>

text \<open>The entries of \<open>trigger_buffer_positions\<close> cut the buffer into consecutive pieces, from \<open>a\<close> on.\<close>

fun tiles :: "nat \<Rightarrow> (llama_token \<times> nat \<times> nat) list \<Rightarrow> nat \<Rightarrow> bool" where
  "tiles a [] n = (a = n)"
| "tiles a ((tok, b, c) # es) n = (a = b \<and> b \<le> c \<and> tiles c es n)"

lemma tiles_snoc: "tiles a es n \<Longrightarrow> n \<le> m \<Longrightarrow> tiles a (es @ [(tok, n, m)]) m"
  by (induction a es n rule: tiles.induct) auto

lemma tiles_le: "tiles a es n \<Longrightarrow> a \<le> n"
  by (induction a es n rule: tiles.induct) auto

text \<open>The tokens that are replayed, with the part of their piece that is inside the match.\<close>

definition replayed :: "bytes \<Rightarrow> nat \<Rightarrow> (llama_token \<times> nat \<times> nat) list \<Rightarrow> (llama_token \<times> bytes) list" where
  "replayed buffer start es =
     map (\<lambda>(tok, a, c). (tok, take (c - max a start) (drop (max a start) buffer)))
       (filter (\<lambda>(tok, a, c). start < c) es)"

lemma replayed_concat:
  "tiles a es (length buffer) \<Longrightarrow> concat (map snd (replayed buffer start es)) = drop (max a start) buffer"
proof (induction a es "length buffer" rule: tiles.induct)
  case (2 a tok b c es)
  then have IH: "concat (map snd (replayed buffer start es)) = drop (max c start) buffer" and "a = b" "b \<le> c" by auto
  show ?case
  proof (cases "start < c")
    case True
    then have "take (c - max a start) (drop (max a start) buffer) @ drop c buffer = drop (max a start) buffer"
      using \<open>a = b\<close> \<open>b \<le> c\<close>
      by (metis append_take_drop_id drop_drop le_add_diff_inverse2 less_imp_le max.bounded_iff)
    then show ?thesis using True IH \<open>a = b\<close> by (simp add: replayed_def max_def)
  next
    case False
    then show ?thesis using IH \<open>a = b\<close> \<open>b \<le> c\<close> by (simp add: replayed_def max_def)
  qed
qed (simp add: replayed_def)

lemma rfold_replay:
  "rfold (replay_token fuel buffer start) es g =
   rfold (\<lambda>(tok, piece). llama_grammar_accept_token fuel tok piece) (replayed buffer start es) g"
proof (induction es arbitrary: g)
  case (Cons e es)
  obtain tok a c where e: "e = (tok, a, c)" by (cases e)
  have "(if a < start then start else a) = max a start" by auto
  then show ?case using Cons e
    by (auto simp: replay_token_def replayed_def Let_def not_le intro!: rbind_cong)
qed (simp add: replayed_def)

text \<open>
  C19. A lazy grammar loses no text. While it waits, the entries of the trigger buffer always cut the
  buffered text into the consecutive pieces of the tokens; a token that does not trigger only extends
  the buffer. When a pattern matches from \<open>start\<close> on, the tokens that are replayed into the grammar
  carry exactly the buffered text from \<open>start\<close> to its end, the first one possibly cut in the middle.
\<close>

theorem lazy_trigger_replay:
  assumes "has_vocab g" "awaiting_trigger g" "tok \<notin> set (trigger_tokens g)"
    and "tiles 0 (trigger_buffer_positions g) (length (trigger_buffer g))"
    and "buffer = trigger_buffer g @ ttp tok"
  shows "case first_trigger tf (trigger_patterns g) buffer of
     None \<Rightarrow> (\<exists>g'. llama_grammar_accept_impl fuel tf ttp eog tok g = Inr g' \<and> awaiting_trigger g' \<and>
                stacks g' = stacks g \<and> trigger_buffer g' = buffer \<and>
                tiles 0 (trigger_buffer_positions g') (length buffer))
   | Some start \<Rightarrow> (\<exists>rp. concat (map snd rp) = drop start buffer \<and>
        llama_grammar_accept_impl fuel tf ttp eog tok g =
          rbind (rfold (\<lambda>(t, piece). llama_grammar_accept_token fuel t piece) rp
                   (g\<lparr>trigger_buffer_positions := trigger_buffer_positions g @
                        [(tok, length (trigger_buffer g), length buffer)],
                      trigger_buffer := buffer, awaiting_trigger := False\<rparr>))
            (\<lambda>g2. Inr (g2\<lparr>trigger_buffer := [], trigger_buffer_positions := []\<rparr>)))"
proof -
  let ?es = "trigger_buffer_positions g @ [(tok, length (trigger_buffer g), length buffer)]"
  have t: "tiles 0 ?es (length buffer)" using tiles_snoc [OF assms(4)] assms(5) by simp
  have rp: "concat (map snd (replayed buffer start ?es)) = drop start buffer" for start
    using replayed_concat [OF t] by simp
  show ?thesis
    using assms t rp rfold_replay [of fuel buffer _ ?es]
    by (auto simp: llama_grammar_accept_impl_def rassert_def Let_def split: option.split)
qed

definition lazy_grammar :: llama_grammar where
  "lazy_grammar = ab_grammar\<lparr>lazy := True, awaiting_trigger := True, trigger_buffer := [120, 97],
     trigger_buffer_positions := [(7, 0, 2)], trigger_patterns := [[97, 98]]\<rparr>"

theorem lazy_trigger_replay_witness:
  "\<exists>rp. concat (map snd rp) = drop 1 [120, 97, 98] \<and>
     llama_grammar_accept_impl 9 (\<lambda>p b. if b = [120, 97, 98] then Some 1 else None) (\<lambda>_. [98]) (\<lambda>_. False) 8 lazy_grammar =
       rbind (rfold (\<lambda>(t, piece). llama_grammar_accept_token 9 t piece) rp
                (lazy_grammar\<lparr>trigger_buffer_positions := trigger_buffer_positions lazy_grammar @ [(8, 2, 3)],
                   trigger_buffer := [120, 97, 98], awaiting_trigger := False\<rparr>))
         (\<lambda>g2. Inr (g2\<lparr>trigger_buffer := [], trigger_buffer_positions := []\<rparr>))"
  using lazy_trigger_replay [where g = lazy_grammar and tok = 8 and buffer = "[120, 97, 98]" and
      ttp = "\<lambda>_. [98]" and tf = "\<lambda>p b. if b = [120, 97, 98] then Some 1 else None" and fuel = 9 and
      eog = "\<lambda>_. False"]
  by (simp add: lazy_grammar_def ab_grammar_def numeral_2_eq_2 numeral_3_eq_3)

section \<open>Where the filter and acceptance disagree\<close>

text \<open>\<open>root ::= "a" <[5]>\<close> and a token with identifier 5 whose piece is \<open>ab\<close>: the filter lets it
  through, because the token element is reached with the right identifier in the middle of the
  token, but accepting it throws.\<close>

definition mixed_grammar :: llama_grammar where
  "mixed_grammar = ab_grammar\<lparr>grules := [[El LLAMA_GRETYPE_CHAR 97, El LLAMA_GRETYPE_TOKEN 5, El LLAMA_GRETYPE_END 0]],
     stacks := [[(0, 0)]]\<rparr>"

lemma token_in_the_middle:
  "llama_grammar_sample_impl 9 (\<lambda>_. [97, 98]) (\<lambda>_. False) False mixed_grammar [\<lparr>tid = 5, logit = Some (1 :: int)\<rparr>] =
     Inr [\<lparr>tid = 5, logit = Some 1\<rparr>]"
  "llama_grammar_accept_impl 9 (\<lambda>_ _. None) (\<lambda>_. [97, 98]) (\<lambda>_. False) 5 mixed_grammar =
     Inl (Throw ''Unexpected empty grammar stack after accepting piece: ab (5)'')"
  by code_simp+

text \<open>A piece that decodes to the code point zero (the overlong encoding \<open>C0 80\<close>) looks like the end of
  the token to the filter and is let through, but accepting it throws.\<close>

lemma overlong_zero_piece:
  "llama_grammar_sample_impl 9 (\<lambda>_. [0xc0, 0x80]) (\<lambda>_. False) False ab_grammar [\<lparr>tid = 5, logit = Some (1 :: int)\<rparr>] =
     Inr [\<lparr>tid = 5, logit = Some 1\<rparr>]"
  "\<exists>msg. llama_grammar_accept_impl 9 (\<lambda>_ _. None) (\<lambda>_. [0xc0, 0x80]) (\<lambda>_. False) 5 ab_grammar = Inl (Throw msg)"
proof -
  show "llama_grammar_sample_impl 9 (\<lambda>_. [0xc0, 0x80]) (\<lambda>_. False) False ab_grammar [\<lparr>tid = 5, logit = Some (1 :: int)\<rparr>] =
     Inr [\<lparr>tid = 5, logit = Some 1\<rparr>]" by code_simp
  have "(case llama_grammar_accept_impl 9 (\<lambda>_ _. None) (\<lambda>_. [0xc0, 0x80]) (\<lambda>_. False) 5 ab_grammar of
      Inl (Throw msg) \<Rightarrow> True | _ \<Rightarrow> False)" by code_simp
  then show "\<exists>msg. llama_grammar_accept_impl 9 (\<lambda>_ _. None) (\<lambda>_. [0xc0, 0x80]) (\<lambda>_. False) 5 ab_grammar = Inl (Throw msg)"
    by (auto split: sum.splits failure.splits)
qed

text \<open>With a null \<open>smpl\<close>, which the sampler chain passes, the filter writes through the null pointer
  as soon as it has filtered.\<close>

lemma sample_null_smpl:
  "\<not> awaiting_trigger g \<Longrightarrow> llama_grammar_sample_impl fuel ttp eog True g candidates \<noteq> Inr ds"
  by (auto simp: llama_grammar_sample_impl_def Let_def result_simps split: prod.splits)

end
