(* ===== verification/Reasoning_Budget.thy ===== *)
theory Reasoning_Budget
  imports Grammar_Api "HOL-Library.Sublist"
begin

text \<open>
  The sampler that limits a reasoning block (\<open>common/reasoning-budget.cpp\<close>): it watches the accepted
  tokens for a start sequence, counts the tokens of the block, and when the budget is used up forces a
  closing sequence token by token. The vocabulary is a parameter, the function that gives the bytes of a
  token; a null pointer is \<open>None\<close>. The theorems: the matcher of a sequence is exact when the first
  token of the sequence does not come back in it, a block is never longer than its budget allows, and
  the forced tokens are exactly the closing sequence.
\<close>

section \<open>Definitions\<close>

record token_matcher =
  mtokens :: "llama_token list"
  mpos :: nat

definition advance :: "llama_token \<Rightarrow> token_matcher \<Rightarrow> (bool \<times> token_matcher) result" where
  "advance t m =
     (if mtokens m = [] then Inr (False, m)
      else if mpos m \<ge> length (mtokens m) then Inl Undefined
      else if t = mtokens m ! mpos m then
        (if mpos m + 1 \<ge> length (mtokens m) then Inr (True, m\<lparr>mpos := 0\<rparr>)
         else Inr (False, m\<lparr>mpos := mpos m + 1\<rparr>))
      else Inr (False, m\<lparr>mpos := (if t = mtokens m ! 0 then 1 else 0)\<rparr>))"

definition reset_matcher :: "token_matcher \<Rightarrow> token_matcher" where
  "reset_matcher m = m\<lparr>mpos := 0\<rparr>"

datatype common_reasoning_budget_state =
    REASONING_BUDGET_IDLE
  | REASONING_BUDGET_COUNTING
  | REASONING_BUDGET_FORCING
  | REASONING_BUDGET_WAITING_UTF8
  | REASONING_BUDGET_DONE

record common_reasoning_budget_ctx =
  vocab :: "(llama_token \<Rightarrow> u8 list) option"
  start_matcher :: token_matcher
  end_matcher :: token_matcher
  forced_tokens :: "llama_token list"
  budget :: int
  remaining :: int
  bstate :: common_reasoning_budget_state
  force_pos :: nat

text \<open>A start sequence was seen: a new window, or the closing sequence at once.\<close>

definition activate :: "common_reasoning_budget_ctx \<Rightarrow> common_reasoning_budget_ctx" where
  "activate ctx =
     (let ctx1 = ctx\<lparr>bstate := REASONING_BUDGET_COUNTING, remaining := budget ctx\<rparr> in
      if remaining ctx1 \<le> 0 then ctx1\<lparr>bstate := REASONING_BUDGET_FORCING, force_pos := 0\<rparr> else ctx1)"

definition utf8_complete :: "common_reasoning_budget_ctx \<Rightarrow> llama_token \<Rightarrow> bool" where
  "utf8_complete ctx t = (case vocab ctx of None \<Rightarrow> True | Some piece \<Rightarrow> common_utf8_is_complete (piece t))"

definition force :: "common_reasoning_budget_ctx \<Rightarrow> common_reasoning_budget_ctx" where
  "force ctx = ctx\<lparr>bstate := REASONING_BUDGET_FORCING, force_pos := 0, end_matcher := reset_matcher (end_matcher ctx)\<rparr>"

text \<open>The cases \<open>COUNTING\<close> and \<open>WAITING_UTF8\<close>, which share their code.\<close>

definition accept_inside :: "llama_token \<Rightarrow> common_reasoning_budget_ctx \<Rightarrow> common_reasoning_budget_ctx result" where
  "accept_inside t ctx =
     rbind (advance t (end_matcher ctx)) (\<lambda>(hit, m).
     let ctx1 = ctx\<lparr>end_matcher := m\<rparr> in
     if hit then Inr (ctx1\<lparr>bstate := REASONING_BUDGET_DONE\<rparr>)
     else if bstate ctx1 = REASONING_BUDGET_WAITING_UTF8 then
       Inr (if utf8_complete ctx1 t then force ctx1 else ctx1)
     else
       rbind (i32 (remaining ctx1 - 1)) (\<lambda>r.
       let ctx2 = ctx1\<lparr>remaining := r\<rparr> in
       if r \<le> 0 then
         Inr (if utf8_complete ctx2 t then force ctx2
              else ctx2\<lparr>bstate := REASONING_BUDGET_WAITING_UTF8, end_matcher := reset_matcher (end_matcher ctx2)\<rparr>)
       else Inr ctx2))"

definition common_reasoning_budget_accept ::
  "llama_token \<Rightarrow> common_reasoning_budget_ctx \<Rightarrow> common_reasoning_budget_ctx result" where
  "common_reasoning_budget_accept t ctx =
     (case bstate ctx of
        REASONING_BUDGET_IDLE \<Rightarrow>
          rbind (advance t (start_matcher ctx)) (\<lambda>(hit, m).
          Inr (if hit then activate (ctx\<lparr>start_matcher := m\<rparr>) else ctx\<lparr>start_matcher := m\<rparr>))
      | REASONING_BUDGET_COUNTING \<Rightarrow> accept_inside t ctx
      | REASONING_BUDGET_WAITING_UTF8 \<Rightarrow> accept_inside t ctx
      | REASONING_BUDGET_FORCING \<Rightarrow>
          (let ctx1 = ctx\<lparr>force_pos := force_pos ctx + 1\<rparr> in
           Inr (if force_pos ctx1 \<ge> length (forced_tokens ctx1) then ctx1\<lparr>bstate := REASONING_BUDGET_DONE\<rparr> else ctx1))
      | REASONING_BUDGET_DONE \<Rightarrow>
          rbind (advance t (start_matcher ctx)) (\<lambda>(hit, m).
          let ctx1 = ctx\<lparr>start_matcher := m\<rparr> in
          Inr (if hit then activate (ctx1\<lparr>end_matcher := reset_matcher (end_matcher ctx1)\<rparr>) else ctx1)))"

definition common_reasoning_budget_apply ::
  "common_reasoning_budget_ctx option \<Rightarrow> 'l llama_token_data list \<Rightarrow> 'l llama_token_data list" where
  "common_reasoning_budget_apply smpl cur_p =
     (case smpl of
        None \<Rightarrow> cur_p
      | Some ctx \<Rightarrow>
          if bstate ctx \<noteq> REASONING_BUDGET_FORCING then cur_p
          else if force_pos ctx \<ge> length (forced_tokens ctx) then cur_p
          else map (\<lambda>d. if tid d \<noteq> forced_tokens ctx ! force_pos ctx then ban d else d) cur_p)"

definition common_reasoning_budget_reset :: "common_reasoning_budget_ctx \<Rightarrow> common_reasoning_budget_ctx" where
  "common_reasoning_budget_reset ctx =
     ctx\<lparr>bstate := REASONING_BUDGET_IDLE, remaining := budget ctx, start_matcher := reset_matcher (start_matcher ctx),
         end_matcher := reset_matcher (end_matcher ctx), force_pos := 0\<rparr>"

definition common_reasoning_budget_init_state ::
  "(llama_token \<Rightarrow> u8 list) option \<Rightarrow> llama_token list \<Rightarrow> llama_token list \<Rightarrow> llama_token list \<Rightarrow> int \<Rightarrow>
     common_reasoning_budget_state \<Rightarrow> common_reasoning_budget_ctx" where
  "common_reasoning_budget_init_state v start_tokens end_tokens forced b initial =
     \<lparr>vocab = v, start_matcher = \<lparr>mtokens = start_tokens, mpos = 0\<rparr>, end_matcher = \<lparr>mtokens = end_tokens, mpos = 0\<rparr>,
      forced_tokens = forced, budget = b, remaining = b,
      bstate = (if initial = REASONING_BUDGET_COUNTING \<and> b \<le> 0 then REASONING_BUDGET_FORCING else initial),
      force_pos = 0\<rparr>"

definition common_reasoning_budget_get_state ::
  "common_reasoning_budget_ctx option \<Rightarrow> common_reasoning_budget_state" where
  "common_reasoning_budget_get_state smpl =
     (case smpl of None \<Rightarrow> REASONING_BUDGET_IDLE | Some ctx \<Rightarrow> bstate ctx)"

abbreviation accepts :: "llama_token list \<Rightarrow> common_reasoning_budget_ctx \<Rightarrow> common_reasoning_budget_ctx result" where
  "accepts ts ctx \<equiv> rfold common_reasoning_budget_accept ts ctx"

section \<open>The matcher\<close>

definition matcher_ok :: "token_matcher \<Rightarrow> bool" where
  "matcher_ok m \<longleftrightarrow> mtokens m = [] \<or> mpos m < length (mtokens m)"

lemma advance_ok:
  "matcher_ok m \<Longrightarrow> \<exists>hit m'. advance t m = Inr (hit, m') \<and> matcher_ok m' \<and> mtokens m' = mtokens m"
proof -
  assume ok: "matcher_ok m"
  have "1 < length (mtokens m)" if "mtokens m \<noteq> []" "t \<noteq> mtokens m ! mpos m" "t = mtokens m ! 0"
    using ok that by (cases "mpos m") (auto simp: matcher_ok_def)
  then show ?thesis using ok by (auto simp: advance_def matcher_ok_def)
qed

lemma reset_matcher_ok: "matcher_ok (reset_matcher m)" "mtokens (reset_matcher m) = mtokens m"
  by (auto simp: reset_matcher_def matcher_ok_def)

text \<open>The matcher after a sequence of tokens, with its last answer.\<close>

definition watch :: "llama_token list \<Rightarrow> llama_token list \<Rightarrow> (bool \<times> token_matcher) result" where
  "watch p ts = rfold (\<lambda>t (_, m). advance t m) ts (False, \<lparr>mtokens = p, mpos = 0\<rparr>)"

text \<open>The longest proper prefix of the sequence at the end of what was read.\<close>

definition tracks :: "'a list \<Rightarrow> 'a list \<Rightarrow> nat \<Rightarrow> bool" where
  "tracks p xs k \<longleftrightarrow> k < length p \<and> suffix (take k p) xs \<and> (\<forall>j. k < j \<and> j < length p \<longrightarrow> \<not> suffix (take j p) xs)"

lemma suffix_take_snoc:
  "0 < j \<Longrightarrow> j \<le> length p \<Longrightarrow> suffix (take j p) (xs @ [t]) \<longleftrightarrow> t = p ! (j - 1) \<and> suffix (take (j - 1) p) xs"
  using take_Suc_conv_app_nth [of "j - 1" p] by (cases j) auto

text \<open>A first token that does not come back: a proper prefix of the sequence does not end another one.\<close>

lemma no_border:
  assumes "hd p \<notin> set (tl p)" "0 < j" "j < k" "k \<le> length p"
  shows "\<not> suffix (take j p) (take k p)"
proof
  assume "suffix (take j p) (take k p)"
  then obtain zs where zs: "take k p = zs @ take j p" by (auto simp: suffix_def)
  have len: "length zs = k - j" using arg_cong [OF zs, of length] assms by simp
  have "p ! (k - j) = take k p ! (k - j)" using assms by simp
  also have "\<dots> = p ! 0" using zs len assms by (simp add: nth_append)
  finally have "p ! (k - j) = hd p" using assms by (cases p) auto
  moreover have "p ! (k - j) \<in> set (tl p)"
    using assms nth_mem [of "k - j - 1" "tl p"] by (cases p) (auto simp: nth_Cons')
  ultimately show False using assms(1) by simp
qed

lemma shorter_suffix: "suffix (take j p) xs \<Longrightarrow> suffix (take k p) xs \<Longrightarrow> j \<le> k \<Longrightarrow> suffix (take j p) (take k p)"
  using suffix_length_suffix [of "take j p" xs "take k p"] by simp

lemma tracks_step:
  assumes p: "p \<noteq> []" "hd p \<notin> set (tl p)" and tr: "tracks p xs k"
  shows "\<exists>hit m. advance t \<lparr>mtokens = p, mpos = k\<rparr> = Inr (hit, m) \<and> mtokens m = p \<and> tracks p (xs @ [t]) (mpos m) \<and>
    (hit \<longleftrightarrow> suffix p (xs @ [t]))"
proof -
  have k: "k < length p" "suffix (take k p) xs" "\<And>j. k < j \<Longrightarrow> j < length p \<Longrightarrow> \<not> suffix (take j p) xs"
    using tr by (auto simp: tracks_def)
  have whole: "suffix p (xs @ [t]) \<longleftrightarrow> t = p ! (length p - 1) \<and> suffix (take (length p - 1) p) xs"
    using suffix_take_snoc [of "length p" p xs t] p(1) by simp
  have last: "suffix (take (length p - 1) p) xs \<Longrightarrow> k = length p - 1"
    using k(3) [of "length p - 1"] k(1) by (metis One_nat_def Suc_pred diff_less le_less_trans less_Suc_eq not_less_zero zero_less_one gr0I)
  consider (hit) "t = p ! k" "Suc k = length p" | (more) "t = p ! k" "Suc k < length p" | (miss) "t \<noteq> p ! k"
    using k(1) by linarith
  then show ?thesis
  proof cases
    case hit
    have full: "suffix p (xs @ [t])" using hit k whole by (metis diff_Suc_1)
    have "\<not> suffix (take j p) (xs @ [t])" if "0 < j" "j < length p" for j
      using shorter_suffix [of j p "xs @ [t]" "length p"] full no_border [OF p(2) that(1,2)] that by auto
    then have "tracks p (xs @ [t]) 0" using p(1) by (auto simp: tracks_def)
    then show ?thesis using hit full p(1) by (auto simp: advance_def)
  next
    case more
    have "suffix (take (Suc k) p) (xs @ [t])" using more k suffix_take_snoc [of "Suc k" p xs t] by auto
    moreover have "\<not> suffix (take j p) (xs @ [t])" if "Suc k < j" "j < length p" for j
      using suffix_take_snoc [of j p xs t] k(3) [of "j - 1"] that by auto
    ultimately have "tracks p (xs @ [t]) (Suc k)" using more by (auto simp: tracks_def)
    moreover have "\<not> suffix p (xs @ [t])" using whole last more by auto
    ultimately show ?thesis using more p(1) k(1) by (auto simp: advance_def)
  next
    case miss
    have short: "j = 1 \<and> t = p ! 0" if "0 < j" "j \<le> length p" "suffix (take j p) (xs @ [t])" for j
    proof -
      have j: "t = p ! (j - 1)" "suffix (take (j - 1) p) xs" using suffix_take_snoc [of j p xs t] that by auto
      have "j - 1 \<le> k" using k(3) [of "j - 1"] j(2) that by (meson diff_less le_less_trans less_one not_le order_less_le_trans zero_less_one)
      moreover have "j - 1 \<noteq> k" using j(1) miss by auto
      ultimately have "j - 1 < k" by simp
      then have "j - 1 = 0"
        using no_border [OF p(2), of "j - 1" k] shorter_suffix [OF j(2) k(2)] k(1) by (cases "j - 1") auto
      then show ?thesis using j(1) that(1) by (cases j) auto
    qed
    have "\<not> suffix p (xs @ [t])" using short [of "length p"] p(1) miss k(1) by auto
    moreover have "tracks p (xs @ [t]) (if t = p ! 0 then 1 else 0)"
    proof (cases "t = p ! 0")
      case True
      then have "1 < length p" using miss k(1) by (cases k) auto
      moreover have "suffix (take 1 p) (xs @ [t])" using suffix_take_snoc [of 1 p xs t] True p(1) by (auto simp: Suc_le_eq)
      moreover have "\<not> suffix (take j p) (xs @ [t])" if "1 < j" "j < length p" for j
        using short [of j] that by auto
      ultimately have "tracks p (xs @ [t]) 1" unfolding tracks_def by blast
      then show ?thesis using True by simp
    next
      case False
      have "\<not> suffix (take j p) (xs @ [t])" if "0 < j" "j < length p" for j
        using short [of j] that False by auto
      moreover have "suffix (take 0 p) (xs @ [t])" "0 < length p" using p(1) by auto
      ultimately have "tracks p (xs @ [t]) 0" unfolding tracks_def by blast
      then show ?thesis using False by simp
    qed
    ultimately show ?thesis using miss p(1) k(1) by (auto simp: advance_def)
  qed
qed

lemma watch_snoc: "watch p (ts @ [t]) = rbind (watch p ts) (\<lambda>(_, m). advance t m)"
proof -
  have "rbind r (rfold f []) = r" for r :: "'b result" and f :: "'a \<Rightarrow> 'b \<Rightarrow> 'b result" by (cases r) auto
  then show ?thesis by (cases "watch p ts") (auto simp: watch_def rfold_append split: prod.splits)
qed

lemma watch_tracks:
  assumes "p \<noteq> []" "hd p \<notin> set (tl p)"
  shows "\<exists>hit m. watch p ts = Inr (hit, m) \<and> mtokens m = p \<and> tracks p ts (mpos m) \<and> (hit \<longleftrightarrow> ts \<noteq> [] \<and> suffix p ts)"
proof (induction ts rule: rev_induct)
  case Nil
  then show ?case using assms by (auto simp: watch_def tracks_def)
next
  case (snoc t ts)
  then obtain hit m where m: "watch p ts = Inr (hit, m)" "mtokens m = p" "tracks p ts (mpos m)" by blast
  then have "m = \<lparr>mtokens = p, mpos = mpos m\<rparr>" by simp
  then show ?case using tracks_step [OF assms m(3), of t] m(1) by (auto simp: watch_snoc)
qed

text \<open>
  C32. The matcher of a start or end sequence is exact when the first token of the sequence occurs in it
  only once: it never fails, and its answer after a token is true exactly when the tokens read so far
  end with the sequence.
\<close>

theorem matcher_exact:
  assumes "p \<noteq> []" "hd p \<notin> set (tl p)"
  shows "\<exists>hit m. watch p ts = Inr (hit, m) \<and> (hit \<longleftrightarrow> ts \<noteq> [] \<and> suffix p ts)"
  using watch_tracks [OF assms] by blast

theorem matcher_exact_witness:
  "\<exists>hit m. watch [1, 2, 3] [1, 2, 1, 2, 3] = Inr (hit, m) \<and>
     (hit \<longleftrightarrow> [1, 2, 1, 2, 3 :: llama_token] \<noteq> [] \<and> suffix [1, 2, 3] [1, 2, 1, 2, 3 :: llama_token])"
  by (rule matcher_exact) auto

text \<open>Otherwise it misses occurrences: the sequence \<open>1 1 2\<close> ends \<open>1 1 1 2\<close> and is not reported.\<close>

lemma matcher_misses: "watch [1, 1, 2] [1, 1, 1, 2] = Inr (False, \<lparr>mtokens = [1, 1, 2], mpos = 0\<rparr>)"
  "suffix [1, 1, 2] [1, 1, 1, 2 :: llama_token]"
  by (simp add: watch_def advance_def, simp add: suffix_def)

section \<open>The state machine\<close>

definition budget_ok :: "common_reasoning_budget_ctx \<Rightarrow> bool" where
  "budget_ok ctx \<longleftrightarrow> matcher_ok (start_matcher ctx) \<and> matcher_ok (end_matcher ctx) \<and>
     -2147483648 \<le> budget ctx \<and> budget ctx \<le> INT32_MAX \<and>
     (bstate ctx = REASONING_BUDGET_COUNTING \<longrightarrow> 0 < remaining ctx \<and> remaining ctx \<le> budget ctx)"

abbreviation inside :: "common_reasoning_budget_ctx \<Rightarrow> bool" where
  "inside ctx \<equiv> bstate ctx = REASONING_BUDGET_COUNTING \<or> bstate ctx = REASONING_BUDGET_WAITING_UTF8"

text \<open>The budget has one token left, or none.\<close>

definition due :: "common_reasoning_budget_ctx \<Rightarrow> bool" where
  "due ctx \<longleftrightarrow> bstate ctx = REASONING_BUDGET_WAITING_UTF8 \<or> bstate ctx = REASONING_BUDGET_COUNTING \<and> remaining ctx \<le> 1"

definition same_setup :: "common_reasoning_budget_ctx \<Rightarrow> common_reasoning_budget_ctx \<Rightarrow> bool" where
  "same_setup ctx ctx' \<longleftrightarrow> vocab ctx' = vocab ctx \<and> forced_tokens ctx' = forced_tokens ctx \<and> budget ctx' = budget ctx"

lemma activate_ok:
  "budget_ok ctx \<Longrightarrow> bstate ctx \<noteq> REASONING_BUDGET_COUNTING \<Longrightarrow> budget_ok (activate ctx) \<and> same_setup ctx (activate ctx)"
  by (auto simp: activate_def budget_ok_def same_setup_def Let_def)

lemma accept_inside_step:
  assumes "budget_ok ctx" "inside ctx"
  shows "\<exists>ctx'. accept_inside t ctx = Inr ctx' \<and> budget_ok ctx' \<and> same_setup ctx ctx' \<and>
    (bstate ctx' = REASONING_BUDGET_FORCING \<and> force_pos ctx' = 0 \<or> bstate ctx' = REASONING_BUDGET_DONE \<or>
     \<not> (due ctx \<and> utf8_complete ctx t) \<and>
       (bstate ctx' = REASONING_BUDGET_COUNTING \<and> bstate ctx = REASONING_BUDGET_COUNTING \<and> remaining ctx' = remaining ctx - 1 \<or>
        bstate ctx' = REASONING_BUDGET_WAITING_UTF8 \<and> due ctx))"
proof -
  obtain hit m where m: "advance t (end_matcher ctx) = Inr (hit, m)" "matcher_ok m"
    using advance_ok [of "end_matcher ctx" t] assms(1) by (auto simp: budget_ok_def)
  have r: "bstate ctx = REASONING_BUDGET_COUNTING \<Longrightarrow> i32 (remaining ctx - 1) = Inr (remaining ctx - 1)"
    using assms(1) by (auto simp: budget_ok_def i32_def INT32_MAX_def)
  have complete: "utf8_complete (ctx\<lparr>end_matcher := m\<rparr>) t = utf8_complete ctx t"
    "utf8_complete (ctx\<lparr>end_matcher := m, remaining := x\<rparr>) t = utf8_complete ctx t" for x
    by (auto simp: utf8_complete_def)
  show ?thesis
    using assms m r
    by (cases hit; cases "bstate ctx = REASONING_BUDGET_COUNTING"; cases "utf8_complete ctx t"; cases "remaining ctx \<le> 1")
      (auto simp: accept_inside_def complete Let_def force_def due_def budget_ok_def same_setup_def reset_matcher_ok)
qed

lemma accept_ok:
  assumes "budget_ok ctx"
  shows "\<exists>ctx'. common_reasoning_budget_accept t ctx = Inr ctx' \<and> budget_ok ctx' \<and> same_setup ctx ctx'"
proof -
  obtain hit m where m: "advance t (start_matcher ctx) = Inr (hit, m)" "matcher_ok m"
    using advance_ok [of "start_matcher ctx" t] assms by (auto simp: budget_ok_def)
  have ok: "budget_ok (ctx\<lparr>start_matcher := m\<rparr>)" "budget_ok (ctx\<lparr>start_matcher := m, end_matcher := reset_matcher (end_matcher ctx)\<rparr>)"
    using assms m by (auto simp: budget_ok_def reset_matcher_ok)
  show ?thesis
    using m accept_inside_step [OF assms, of t] activate_ok [OF ok(1)] activate_ok [OF ok(2)] ok assms
    by (cases "bstate ctx"; cases hit) (auto simp: common_reasoning_budget_accept_def Let_def same_setup_def budget_ok_def)
qed

lemma accepts_ok:
  "budget_ok ctx \<Longrightarrow> \<exists>ctx'. accepts ts ctx = Inr ctx' \<and> budget_ok ctx' \<and> same_setup ctx ctx'"
proof (induction ts arbitrary: ctx)
  case (Cons t ts)
  obtain ctx1 where ctx1: "common_reasoning_budget_accept t ctx = Inr ctx1" "budget_ok ctx1" "same_setup ctx ctx1"
    using accept_ok [OF Cons.prems] by blast
  then show ?case using Cons.IH [OF ctx1(2)] by (auto simp: same_setup_def)
qed (auto simp: same_setup_def)

lemma init_ok:
  "-2147483648 \<le> b \<Longrightarrow> b \<le> INT32_MAX \<Longrightarrow> budget_ok (common_reasoning_budget_init_state v st en fo b initial)"
  by (auto simp: budget_ok_def common_reasoning_budget_init_state_def matcher_ok_def)

section \<open>The budget is respected\<close>

lemma inside_ends:
  assumes "budget_ok ctx" "inside ctx" "bstate ctx = REASONING_BUDGET_COUNTING \<Longrightarrow> remaining ctx \<le> int (Suc j)"
    "j < length ts" "utf8_complete ctx (ts ! j)"
  shows "\<exists>k \<le> Suc j. \<exists>ctx'. accepts (take k ts) ctx = Inr ctx' \<and>
    (bstate ctx' = REASONING_BUDGET_FORCING \<and> force_pos ctx' = 0 \<or> bstate ctx' = REASONING_BUDGET_DONE)"
  using assms
proof (induction j arbitrary: ctx ts)
  case 0
  then obtain t ts' where ts: "ts = t # ts'" by (cases ts) auto
  have "due ctx" using "0.prems" by (auto simp: due_def)
  then obtain ctx' where "common_reasoning_budget_accept t ctx = Inr ctx'"
    "bstate ctx' = REASONING_BUDGET_FORCING \<and> force_pos ctx' = 0 \<or> bstate ctx' = REASONING_BUDGET_DONE"
    using accept_inside_step [OF "0.prems"(1,2), of t] "0.prems"(2,5) ts by (auto simp: common_reasoning_budget_accept_def)
  then show ?case using ts by (intro exI [of _ 1]) auto
next
  case (Suc j)
  then obtain t ts' where ts: "ts = t # ts'" by (cases ts) auto
  obtain ctx1 where ctx1: "common_reasoning_budget_accept t ctx = Inr ctx1" "budget_ok ctx1" "same_setup ctx ctx1"
    "bstate ctx1 = REASONING_BUDGET_FORCING \<and> force_pos ctx1 = 0 \<or> bstate ctx1 = REASONING_BUDGET_DONE \<or>
     bstate ctx1 = REASONING_BUDGET_COUNTING \<and> bstate ctx = REASONING_BUDGET_COUNTING \<and> remaining ctx1 = remaining ctx - 1 \<or>
     bstate ctx1 = REASONING_BUDGET_WAITING_UTF8"
    using accept_inside_step [OF Suc.prems(1,2), of t] Suc.prems(2) by (auto simp: common_reasoning_budget_accept_def)
  show ?case
  proof (cases "inside ctx1")
    case True
    have "utf8_complete ctx1 (ts' ! j)"
      using Suc.prems(5) ts ctx1(3) by (simp add: utf8_complete_def same_setup_def)
    moreover have "remaining ctx1 \<le> int (Suc j)" if "bstate ctx1 = REASONING_BUDGET_COUNTING"
      using ctx1(4) that Suc.prems(3) by auto
    ultimately obtain k ctx' where "k \<le> Suc j" "accepts (take k ts') ctx1 = Inr ctx'"
      "bstate ctx' = REASONING_BUDGET_FORCING \<and> force_pos ctx' = 0 \<or> bstate ctx' = REASONING_BUDGET_DONE"
      using Suc.IH [OF ctx1(2) True, of ts'] Suc.prems(4) ts by auto
    then show ?thesis using ts ctx1(1) by (intro exI [of _ "Suc k"]) auto
  next
    case False
    then show ?thesis using ts ctx1(1,4) by (intro exI [of _ 1]) auto
  qed
qed

text \<open>
  C33. A reasoning block never outlives its budget. Take a sampler that was created with a budget and has
  accepted any tokens, and is now counting. After further tokens, the last of which is at or past the
  budget and completes a UTF-8 sequence, the block has ended at one of them: either its end sequence
  was seen, or the closing sequence is being forced from its beginning.
\<close>

theorem budget_respected:
  assumes "-2147483648 \<le> b" "b \<le> INT32_MAX"
    and "accepts pre (common_reasoning_budget_init_state v start_tokens end_tokens forced b initial) = Inr ctx"
    and "bstate ctx = REASONING_BUDGET_COUNTING"
    and "j < length ts" "b \<le> int (Suc j)" "utf8_complete ctx (ts ! j)"
  shows "\<exists>k \<le> Suc j. \<exists>ctx'. accepts (take k ts) ctx = Inr ctx' \<and>
    (bstate ctx' = REASONING_BUDGET_FORCING \<and> force_pos ctx' = 0 \<or> bstate ctx' = REASONING_BUDGET_DONE)"
proof (rule inside_ends)
  obtain ctx1 where "accepts pre (common_reasoning_budget_init_state v start_tokens end_tokens forced b initial) = Inr ctx1"
    "budget_ok ctx1" "budget ctx1 = b"
    using accepts_ok [OF init_ok [OF assms(1,2)], of pre v start_tokens end_tokens forced initial] by (auto simp: same_setup_def common_reasoning_budget_init_state_def)
  then have ok: "budget_ok ctx" "budget ctx = b" using assms(3) by auto
  then show "budget_ok ctx" "remaining ctx \<le> int (Suc j)" using assms(4,6) by (auto simp: budget_ok_def)
qed (use assms in auto)

theorem budget_respected_witness:
  "\<exists>k \<le> 2. \<exists>ctx'. accepts (take k [7, 8, 9])
      \<lparr>vocab = None, start_matcher = \<lparr>mtokens = [5], mpos = 0\<rparr>, end_matcher = \<lparr>mtokens = [6], mpos = 0\<rparr>,
       forced_tokens = [6], budget = 2, remaining = 2, bstate = REASONING_BUDGET_COUNTING, force_pos = 0\<rparr> = Inr ctx' \<and>
    (bstate ctx' = REASONING_BUDGET_FORCING \<and> force_pos ctx' = 0 \<or> bstate ctx' = REASONING_BUDGET_DONE)"
proof -
  have "accepts [4, 5] (common_reasoning_budget_init_state None [5] [6] [6] 2 REASONING_BUDGET_IDLE) = Inr
      \<lparr>vocab = None, start_matcher = \<lparr>mtokens = [5], mpos = 0\<rparr>, end_matcher = \<lparr>mtokens = [6], mpos = 0\<rparr>,
       forced_tokens = [6], budget = 2, remaining = 2, bstate = REASONING_BUDGET_COUNTING, force_pos = 0\<rparr>"
    by (simp add: common_reasoning_budget_accept_def common_reasoning_budget_init_state_def advance_def activate_def)
  from budget_respected [OF _ _ this, of 1 "[7, 8, 9]"] show ?thesis
    by (simp add: INT32_MAX_def utf8_complete_def numeral_2_eq_2)
qed

section \<open>The forced sequence\<close>

lemma forcing_run:
  assumes "bstate ctx = REASONING_BUDGET_FORCING" "force_pos ctx + length ts \<le> length (forced_tokens ctx)" "force_pos ctx < length (forced_tokens ctx)"
  shows "accepts ts ctx = Inr (ctx\<lparr>force_pos := force_pos ctx + length ts,
     bstate := (if force_pos ctx + length ts = length (forced_tokens ctx) then REASONING_BUDGET_DONE else REASONING_BUDGET_FORCING)\<rparr>)"
  using assms
proof (induction ts arbitrary: ctx)
  case Nil
  then have "ctx\<lparr>bstate := REASONING_BUDGET_FORCING\<rparr> = ctx" by (metis common_reasoning_budget_ctx.surjective common_reasoning_budget_ctx.update_convs(7))
  then show ?case using Nil by simp
next
  case (Cons t ts)
  show ?case
  proof (cases "Suc (force_pos ctx) = length (forced_tokens ctx)")
    case True
    then have "length ts = 0" using Cons.prems(2) by (simp only: list.size)
    then have "ts = []" by simp
    then show ?thesis using True Cons.prems by (simp add: common_reasoning_budget_accept_def)
  next
    case False
    then have "common_reasoning_budget_accept t ctx = Inr (ctx\<lparr>force_pos := Suc (force_pos ctx)\<rparr>)"
      using Cons.prems by (simp add: common_reasoning_budget_accept_def)
    then show ?thesis using Cons.IH [of "ctx\<lparr>force_pos := Suc (force_pos ctx)\<rparr>"] Cons.prems False by simp
  qed
qed

lemma enters_forcing:
  assumes "common_reasoning_budget_accept t ctx = Inr ctx'" "bstate ctx \<noteq> REASONING_BUDGET_FORCING" "bstate ctx' = REASONING_BUDGET_FORCING"
  shows "force_pos ctx' = 0"
  using assms
  by (auto simp: common_reasoning_budget_accept_def accept_inside_def force_def activate_def Let_def result_simps
      split: common_reasoning_budget_state.splits if_splits prod.splits)

text \<open>
  C34. Forcing spells the closing sequence and nothing else. When accepting a token makes the sampler
  start to force, then whatever tokens are accepted next, before the token number \<open>i\<close> of the closing
  sequence the mask keeps the candidates with that token as they are and bans all others, and after as
  many tokens as the sequence has the sampler is done.
\<close>

theorem forcing_spells_sequence:
  assumes "common_reasoning_budget_accept t ctx0 = Inr ctx" "bstate ctx0 \<noteq> REASONING_BUDGET_FORCING"
    "bstate ctx = REASONING_BUDGET_FORCING" "forced_tokens ctx \<noteq> []" "length ts \<le> length (forced_tokens ctx)"
  shows "\<exists>ctx'. accepts ts ctx = Inr ctx' \<and>
    (if length ts < length (forced_tokens ctx)
     then common_reasoning_budget_apply (Some ctx') cur_p =
       map (\<lambda>d. if tid d = forced_tokens ctx ! length ts then d else ban d) cur_p
     else bstate ctx' = REASONING_BUDGET_DONE)"
proof -
  have "force_pos ctx = 0" by (rule enters_forcing [OF assms(1-3)])
  then show ?thesis
    using forcing_run [OF assms(3), of ts] assms(4,5) by (auto simp: common_reasoning_budget_apply_def)
qed

theorem forcing_spells_sequence_witness:
  "\<exists>ctx'. accepts [9] \<lparr>vocab = None, start_matcher = \<lparr>mtokens = [5], mpos = 0\<rparr>, end_matcher = \<lparr>mtokens = [6], mpos = 0\<rparr>,
       forced_tokens = [3, 6], budget = 1, remaining = 0, bstate = REASONING_BUDGET_FORCING, force_pos = 0\<rparr> = Inr ctx' \<and>
     common_reasoning_budget_apply (Some ctx') [\<lparr>tid = 3, logit = Some True\<rparr>, \<lparr>tid = 6, logit = Some True\<rparr>] =
       [\<lparr>tid = 3, logit = None\<rparr>, \<lparr>tid = 6, logit = Some True\<rparr>]"
proof -
  let ?ctx = "\<lparr>vocab = None, start_matcher = \<lparr>mtokens = [5], mpos = 0\<rparr>, end_matcher = \<lparr>mtokens = [6], mpos = 0\<rparr>,
       forced_tokens = [3, 6], budget = 1, remaining = 0, bstate = REASONING_BUDGET_FORCING, force_pos = 0\<rparr>"
  let ?before = "?ctx\<lparr>remaining := 1, bstate := REASONING_BUDGET_COUNTING\<rparr>"
  have "common_reasoning_budget_accept 8 ?before = Inr ?ctx"
    by (simp add: common_reasoning_budget_accept_def accept_inside_def advance_def force_def utf8_complete_def
        i32_def reset_matcher_def Let_def)
  from forcing_spells_sequence [OF this, of "[9]" "[\<lparr>tid = 3, logit = Some True\<rparr>, \<lparr>tid = 6, logit = Some True\<rparr>]"]
  show ?thesis by (simp add: ban_def)
qed

text \<open>The last state is not final: a start sequence that comes after it opens a new block, although the
  comment on the state machine says that it passes everything through forever.\<close>

lemma done_rearms:
  "accepts [1, 2, 1] (common_reasoning_budget_init_state None [1] [2] [2] 4 REASONING_BUDGET_IDLE) = Inr ctx \<Longrightarrow>
     bstate ctx = REASONING_BUDGET_COUNTING"
  by (auto simp: common_reasoning_budget_accept_def accept_inside_def common_reasoning_budget_init_state_def advance_def
      activate_def reset_matcher_def)

end
