(* ===== verification/Kv_Cell.thy ===== *)
theory Kv_Cell
  imports Prelude
begin

text \<open>
  \<open>llama_kv_cell\<close> of \<open>src/llama-context.h\<close>: one cell of the KV cache, with the set of sequences that
  own it and the inline shadow of that set. Every mutation of the set goes through \<open>add_seq\<close>,
  \<open>erase_seq\<close> and \<open>clear_seq\<close>, which keep the shadow in step, so that the constant-time membership
  test \<open>has_seq_fast\<close> agrees with the set lookup \<open>has_seq_id\<close> as long as sequence identifiers are not
  negative.
\<close>

section \<open>The cell\<close>

record llama_kv_cell =
  kpos :: int
  kdelta :: int
  ksrc :: int
  seq0 :: int
  seq_ids :: "int set"

definition SEQ_NONE :: int where
  "SEQ_NONE = -1"

definition SEQ_MULTI :: int where
  "SEQ_MULTI = -2"

definition new_cell :: llama_kv_cell where
  "new_cell = \<lparr>kpos = -1, kdelta = 0, ksrc = 0, seq0 = SEQ_NONE, seq_ids = {}\<rparr>"

definition sync_shadow :: "llama_kv_cell \<Rightarrow> llama_kv_cell" where
  "sync_shadow c = c\<lparr>seq0 :=
     (if seq_ids c = {} then SEQ_NONE
      else if card (seq_ids c) = 1 then Min (seq_ids c) else SEQ_MULTI)\<rparr>"

definition add_seq :: "int \<Rightarrow> llama_kv_cell \<Rightarrow> llama_kv_cell" where
  "add_seq i c = sync_shadow (c\<lparr>seq_ids := insert i (seq_ids c)\<rparr>)"

definition erase_seq :: "int \<Rightarrow> llama_kv_cell \<Rightarrow> llama_kv_cell" where
  "erase_seq i c = sync_shadow (c\<lparr>seq_ids := seq_ids c - {i}\<rparr>)"

definition clear_seq :: "llama_kv_cell \<Rightarrow> llama_kv_cell" where
  "clear_seq c = c\<lparr>seq_ids := {}, seq0 := SEQ_NONE\<rparr>"

definition n_seq :: "llama_kv_cell \<Rightarrow> nat" where
  "n_seq c = card (seq_ids c)"

definition has_seq_id :: "int \<Rightarrow> llama_kv_cell \<Rightarrow> bool" where
  "has_seq_id i c \<longleftrightarrow> i \<in> seq_ids c"

definition has_seq_fast :: "int \<Rightarrow> llama_kv_cell \<Rightarrow> bool" where
  "has_seq_fast i c \<longleftrightarrow>
     (if seq0 c \<ge> 0 then seq0 c = i else seq0 c = SEQ_MULTI \<and> i \<in> seq_ids c)"

definition cell_is_empty :: "llama_kv_cell \<Rightarrow> bool" where
  "cell_is_empty c \<longleftrightarrow> seq_ids c = {}"

definition is_same_seq :: "llama_kv_cell \<Rightarrow> llama_kv_cell \<Rightarrow> bool" where
  "is_same_seq c d \<longleftrightarrow> seq_ids c = seq_ids d"

section \<open>The shadow is in step with the set\<close>

definition in_step :: "llama_kv_cell \<Rightarrow> bool" where
  "in_step c \<longleftrightarrow> finite (seq_ids c) \<and> seq0 c = seq0 (sync_shadow c)"

lemma sync_shadow_simps [simp]:
  "kpos (sync_shadow c) = kpos c" "kdelta (sync_shadow c) = kdelta c"
  "ksrc (sync_shadow c) = ksrc c" "seq_ids (sync_shadow c) = seq_ids c"
  by (simp_all add: sync_shadow_def)

lemma cell_op_simps [simp]:
  "kpos (add_seq i c) = kpos c" "kpos (erase_seq i c) = kpos c" "kpos (clear_seq c) = kpos c"
  "kdelta (add_seq i c) = kdelta c" "kdelta (erase_seq i c) = kdelta c" "kdelta (clear_seq c) = kdelta c"
  "ksrc (add_seq i c) = ksrc c" "ksrc (erase_seq i c) = ksrc c" "ksrc (clear_seq c) = ksrc c"
  "seq_ids (add_seq i c) = insert i (seq_ids c)"
  "seq_ids (erase_seq i c) = seq_ids c - {i}" "seq_ids (clear_seq c) = {}"
  by (simp_all add: add_seq_def erase_seq_def clear_seq_def)

lemma in_step_new_cell [simp]: "in_step new_cell"
  by (simp add: in_step_def new_cell_def sync_shadow_def)

lemma in_step_ops [simp]:
  "in_step c \<Longrightarrow> in_step (add_seq i c)"
  "in_step c \<Longrightarrow> in_step (erase_seq i c)"
  "finite (seq_ids c) \<Longrightarrow> in_step (sync_shadow c)"
  "in_step (clear_seq c)"
  by (simp_all add: in_step_def add_seq_def erase_seq_def clear_seq_def sync_shadow_def)

lemma in_step_update [simp]:
  "in_step (c\<lparr>kpos := p\<rparr>) = in_step c" "in_step (c\<lparr>kdelta := d\<rparr>) = in_step c"
  "in_step (c\<lparr>ksrc := s\<rparr>) = in_step c"
  by (simp_all add: in_step_def sync_shadow_def)

lemma in_step_fold_add: "in_step c \<Longrightarrow> in_step (fold add_seq ss c)"
  by (induction ss arbitrary: c) simp_all

lemma fold_add_seq_simps [simp]:
  "kpos (fold add_seq ss c) = kpos c" "kdelta (fold add_seq ss c) = kdelta c"
  "ksrc (fold add_seq ss c) = ksrc c" "seq_ids (fold add_seq ss c) = set ss \<union> seq_ids c"
  by (induction ss arbitrary: c) auto

text \<open>On a cell whose shadow is in step with its set, when no owner has a negative identifier,
  the constant-time test \<open>has_seq_fast\<close> answers exactly what the lookup in the set answers, for every
  identifier that is asked.\<close>

lemma has_seq_fast_exact:
  assumes "in_step c" and "\<forall>s \<in> seq_ids c. 0 \<le> s"
  shows "has_seq_fast i c = has_seq_id i c"
proof (cases "card (seq_ids c) = 1")
  case True
  then obtain s where s: "seq_ids c = {s}" by (auto simp: card_Suc_eq numeral_eq_Suc)
  then have "seq0 c = s" using assms(1) by (simp add: in_step_def sync_shadow_def)
  then show ?thesis using assms(2) s by (auto simp: has_seq_fast_def has_seq_id_def)
next
  case False
  then have "seq0 c = (if seq_ids c = {} then -1 else -2)"
    using assms(1) by (simp add: in_step_def sync_shadow_def SEQ_NONE_def SEQ_MULTI_def)
  then show ?thesis by (auto simp: has_seq_fast_def has_seq_id_def SEQ_MULTI_def)
qed

text \<open>A cell owned by the single identifier \<open>-1\<close>, which the set lookup finds, is empty for the fast
  test: the shadow of \<open>{-1}\<close> is the value that means no owner.\<close>

lemma negative_owner_is_lost:
  "has_seq_id (-1) (add_seq (-1) new_cell)" "\<not> has_seq_fast (-1) (add_seq (-1) new_cell)"
  by (simp_all add: has_seq_id_def has_seq_fast_def add_seq_def sync_shadow_def new_cell_def
      SEQ_MULTI_def SEQ_NONE_def)

end
