(* ===== verification/Kv_Cache.thy ===== *)
theory Kv_Cache
  imports Kv_Cell "HOL-Library.Signed_Division"
begin

text \<open>
  The bookkeeping of the KV cache (\<open>llama_kv_cache\<close> of \<open>src/llama-context.h\<close> and the static functions
  \<open>llama_kv_cache_*\<close> and \<open>llama_kv_swa_*\<close> of \<open>src/llama.cpp\<close>): which cell belongs to which position
  of which sequence. The tensors with the keys and values are outside the model; of the recurrent
  state tensors \<open>s_l\<close> only their presence and number of slots is kept, which the bookkeeping reads.
  \<open>cache.size\<close> is the length of the vector of cells, to which the constructor resizes it and which
  never changes. A batch is the list of its tokens, each with its position and its sequences
  (the arrays \<open>pos\<close>, \<open>n_seq_id\<close> and \<open>seq_id\<close> of \<open>llama_batch\<close>).
\<close>

section \<open>State\<close>

record llama_kv_cache =
  has_shift :: bool
  do_defrag :: bool
  do_copy :: bool
  recurrent :: bool
  hybrid :: bool
  head :: nat
  used :: nat
  kv_n :: nat
  cells :: "llama_kv_cell list"
  s_l :: "nat option list"

abbreviation kv_size :: "llama_kv_cache \<Rightarrow> nat" where
  "kv_size c \<equiv> length (cells c)"

record batch_token =
  tok_pos :: int
  tok_seqs :: "int list"

type_synonym llama_batch = "batch_token list"

definition upd_cell :: "nat \<Rightarrow> (llama_kv_cell \<Rightarrow> llama_kv_cell) \<Rightarrow> llama_kv_cache \<Rightarrow> llama_kv_cache" where
  "upd_cell i f c = c\<lparr>cells := (cells c)[i := f (cells c ! i)]\<rparr>"

text \<open>Slots of the recurrent state tensors, which must agree over the layers.\<close>

definition llama_kv_qnext_state_slots :: "llama_kv_cache \<Rightarrow> nat result" where
  "llama_kv_qnext_state_slots c =
     rfold (\<lambda>t n_slots. case t of
         None \<Rightarrow> Inr n_slots
       | Some layer_slots \<Rightarrow>
           if n_slots = 0 then Inr layer_slots
           else rbind (rassert ''n_slots == layer_slots'' (n_slots = layer_slots)) (\<lambda>_. Inr n_slots))
       (s_l c) 0"

definition llama_kv_has_qnext_state_storage :: "llama_kv_cache \<Rightarrow> bool result" where
  "llama_kv_has_qnext_state_storage c = rbind (llama_kv_qnext_state_slots c) (\<lambda>n. Inr (n > 0))"

definition llama_kv_qnext_seq_id_in_range :: "llama_kv_cache \<Rightarrow> int \<Rightarrow> bool result" where
  "llama_kv_qnext_seq_id_in_range c s =
     rbind (llama_kv_qnext_state_slots c) (\<lambda>n_slots.
     Inr (n_slots > 0 \<and> s \<ge> 0 \<and> u32_of_int s < n_slots))"

section \<open>Finding a slot\<close>

text \<open>The inner loop of the search: the first of the \<open>k\<close> cells from \<open>h + i\<close> on that is in use.\<close>

primrec first_used :: "llama_kv_cell list \<Rightarrow> nat \<Rightarrow> nat \<Rightarrow> nat \<Rightarrow> nat option result" where
  "first_used cs h i 0 = Inr None"
| "first_used cs h i (Suc k) =
     (if \<not> h + i < length cs then Inl Undefined
      else if kpos (cs ! (h + i)) \<ge> 0 then Inr (Some i)
      else first_used cs h (Suc i) k)"

text \<open>The search loop. It returns whether a slot was found and the head.\<close>

primrec find_slot_loop ::
  "nat \<Rightarrow> llama_kv_cell list \<Rightarrow> nat \<Rightarrow> nat \<Rightarrow> nat \<Rightarrow> (bool \<times> nat) result" where
  "find_slot_loop 0 cs n h n_tested = Inl OutOfFuel"
| "find_slot_loop (Suc fuel) cs n h n_tested =
     (if u32_add h n > length cs then
        find_slot_loop fuel cs n 0 (u32_add n_tested (u32_sub (length cs) h))
      else
        rbind (first_used cs h 0 n) (\<lambda>r. case r of
          None \<Rightarrow> Inr (True, h)
        | Some i \<Rightarrow>
            (if u32_add n_tested (i + 1) \<ge> length cs then Inr (False, u32_add h (i + 1))
             else find_slot_loop fuel cs n (u32_add h (i + 1)) (u32_add n_tested (i + 1)))))"

text \<open>Writing the tokens of the batch into the cells from \<open>h\<close> on.\<close>

definition place_token :: "batch_token \<Rightarrow> llama_kv_cell \<Rightarrow> llama_kv_cell" where
  "place_token t cell = fold add_seq (tok_seqs t) (cell\<lparr>kpos := tok_pos t\<rparr>)"

definition place_batch :: "nat \<Rightarrow> llama_batch \<Rightarrow> llama_kv_cache \<Rightarrow> llama_kv_cache" where
  "place_batch h batch c =
     fold (\<lambda>i. upd_cell (h + i) (place_token (batch ! i))) [0..<length batch] c"

text \<open>The branch for recurrent models: one cell per sequence, and an early return for a sequence
  that has no cell, after which the cells updated so far stay updated.\<close>

fun recurrent_place ::
  "(int \<times> int) list \<Rightarrow> int \<Rightarrow> int \<Rightarrow> llama_kv_cache \<Rightarrow> bool \<times> int \<times> int \<times> llama_kv_cache" where
  "recurrent_place [] mn mx c = (True, mn, mx, c)"
| "recurrent_place ((p, s) # rest) mn mx c =
     (if u32_of_int s < kv_size c then
        let i = u32_of_int s;
            mx' = (if s > mx then s else mx);
            mn' = (if s < mn then s else mn);
            c1 = (if kpos (cells c ! i) < 0 \<and> 0 \<le> p then c\<lparr>used := u32_add (used c) 1\<rparr> else c)
        in recurrent_place rest mn' mx' (upd_cell i (\<lambda>cell. cell\<lparr>kpos := p\<rparr>) c1)
      else (False, mn, mx, c))"

definition batch_pairs :: "llama_batch \<Rightarrow> (int \<times> int) list" where
  "batch_pairs batch = concat (map (\<lambda>t. map (Pair (tok_pos t)) (tok_seqs t)) batch)"

definition find_slot_recurrent :: "llama_kv_cache \<Rightarrow> llama_batch \<Rightarrow> bool \<times> llama_kv_cache" where
  "find_slot_recurrent c batch =
     (case recurrent_place (batch_pairs batch) (i32_of_u32 (u32_sub (kv_size c) 1)) 0 c of
        (False, _, _, c') \<Rightarrow> (False, c')
      | (True, mn, mx, c') \<Rightarrow>
          (mx \<ge> mn, c'\<lparr>head := u32_of_int mn, kv_n := u32_of_int (mx - mn + 1)\<rparr>))"

definition llama_kv_cache_find_slot ::
  "llama_kv_cache \<Rightarrow> llama_batch \<Rightarrow> (bool \<times> llama_kv_cache) result" where
  "llama_kv_cache_find_slot c batch =
     (let n_tokens = length batch in
      if recurrent c then Inr (find_slot_recurrent c batch)
      else if n_tokens > kv_size c then Inr (False, c)
      else rbind (find_slot_loop (2 * kv_size c + 2) (cells c) n_tokens (head c) 0) (\<lambda>(found, h).
        if \<not> found then Inr (False, c\<lparr>head := h\<rparr>)
        else let c1 = place_batch h batch (c\<lparr>head := h\<rparr>) in
          Inr (True, c1\<lparr>used := u32_add (used c1) n_tokens\<rparr>)))"

section \<open>Extent of the used cells\<close>

definition in_use :: "llama_kv_cell \<Rightarrow> bool" where
  "in_use cell \<longleftrightarrow> kpos cell \<ge> 0 \<and> \<not> cell_is_empty cell"

fun cell_max_from :: "llama_kv_cell list \<Rightarrow> nat \<Rightarrow> nat" where
  "cell_max_from cs 0 = 0"
| "cell_max_from cs (Suc i) = (if in_use (cs ! i) then Suc i else cell_max_from cs i)"

definition llama_kv_cache_cell_max :: "llama_kv_cache \<Rightarrow> nat" where
  "llama_kv_cache_cell_max c = cell_max_from (cells c) (kv_size c)"

text \<open>The variant that looks at every \<open>pad\<close>-th cell only. \<open>i -= pad\<close> below \<open>pad\<close> wraps around and
  the next access is far outside the vector; with \<open>pad = 0\<close> the loop never ends.\<close>

fun last_in_use_above :: "llama_kv_cell list \<Rightarrow> nat \<Rightarrow> nat \<Rightarrow> nat" where
  "last_in_use_above cs i j =
     (if j > i then if in_use (cs ! (j - 1)) then j else last_in_use_above cs i (j - 1) else i)"

declare last_in_use_above.simps [simp del]

function cell_max_pad_loop :: "llama_kv_cell list \<Rightarrow> nat \<Rightarrow> nat \<Rightarrow> nat \<Rightarrow> nat result" where
  "cell_max_pad_loop cs pad i lst =
     (if i = 0 then Inr 0
      else if in_use (cs ! (i - 1)) then Inr (last_in_use_above cs i lst)
      else if pad = 0 then Inl OutOfFuel
      else if i < pad then Inl Undefined
      else cell_max_pad_loop cs pad (i - pad) i)"
  by pat_completeness auto
termination by (relation "measure (\<lambda>(cs, pad, i, lst). i)") auto

declare cell_max_pad_loop.simps [simp del]

definition llama_kv_cache_cell_max_pad :: "llama_kv_cache \<Rightarrow> nat \<Rightarrow> nat result" where
  "llama_kv_cache_cell_max_pad c pad = cell_max_pad_loop (cells c) pad (kv_size c) (kv_size c)"

definition llama_kv_cache_get_padding :: "bool \<Rightarrow> nat" where
  "llama_kv_cache_get_padding flash_attn = (if flash_attn then 256 else 32)"

section \<open>Operations on sequences\<close>

definition llama_kv_cache_clear :: "llama_kv_cache \<Rightarrow> llama_kv_cache" where
  "llama_kv_cache_clear c =
     (fold (\<lambda>i. upd_cell i (\<lambda>cell. clear_seq (cell\<lparr>kpos := -1, ksrc := int i\<rparr>))) [0..<kv_size c] c)
       \<lparr>head := 0, used := 0\<rparr>"

text \<open>
  The loops over all cells share their shape: a body that rewrites the cell, may count it as no
  longer used, may offer its index as the new head (the first offer wins), and may note a shift.
\<close>

record cell_visit =
  vcell :: llama_kv_cell
  vdec :: bool
  vhead :: bool
  vshift :: bool

abbreviation skip :: "llama_kv_cell \<Rightarrow> cell_visit" where
  "skip cell \<equiv> \<lparr>vcell = cell, vdec = False, vhead = False, vshift = False\<rparr>"

definition visit_cell ::
  "(nat \<Rightarrow> llama_kv_cell \<Rightarrow> cell_visit result) \<Rightarrow> nat \<Rightarrow> llama_kv_cache \<times> nat \<Rightarrow>
     (llama_kv_cache \<times> nat) result" where
  "visit_cell f i st =
     (case st of (c, new_head) \<Rightarrow>
        rbind (f i (cells c ! i)) (\<lambda>v.
        Inr (c\<lparr>cells := (cells c)[i := vcell v],
               used := (if vdec v then u32_dec (used c) else used c),
               has_shift := (has_shift c \<or> vshift v)\<rparr>,
             if vhead v \<and> new_head = kv_size c then i else new_head)))"

definition visit_cells ::
  "(nat \<Rightarrow> llama_kv_cell \<Rightarrow> cell_visit result) \<Rightarrow> llama_kv_cache \<Rightarrow> (llama_kv_cache \<times> nat) result" where
  "visit_cells f c = rfold (visit_cell f) [0..<kv_size c] (c, kv_size c)"

definition lower_head :: "llama_kv_cache \<times> nat \<Rightarrow> llama_kv_cache" where
  "lower_head st =
     (case st of (c, new_head) \<Rightarrow>
        if new_head \<noteq> kv_size c \<and> new_head < head c then c\<lparr>head := new_head\<rparr> else c)"

definition norm_p0 :: "int \<Rightarrow> int" where
  "norm_p0 p0 = (if p0 < 0 then 0 else p0)"

definition norm_p1 :: "int \<Rightarrow> int" where
  "norm_p1 p1 = (if p1 < 0 then INT32_MAX else p1)"

definition rm_cell :: "bool \<Rightarrow> int \<Rightarrow> int \<Rightarrow> int \<Rightarrow> nat \<Rightarrow> llama_kv_cell \<Rightarrow> cell_visit result" where
  "rm_cell has_qnext s p0 p1 i cell =
     (if kpos cell \<ge> p0 \<and> kpos cell < p1 then
        if s < 0 \<or> has_seq_id s cell then
          let cell1 = (if s < 0 then clear_seq cell else erase_seq s cell) in
          if cell_is_empty cell1
          then Inr \<lparr>vcell = (if has_qnext then cell1\<lparr>kpos := -1, ksrc := int i\<rparr> else cell1\<lparr>kpos := -1\<rparr>),
                    vdec = (kpos cell1 \<ge> 0), vhead = True, vshift = False\<rparr>
          else Inr (skip cell1)
        else Inr (skip cell)
      else Inr (skip cell))"

definition recurrent_rm_refused :: "llama_kv_cache \<Rightarrow> int \<Rightarrow> int \<Rightarrow> int \<Rightarrow> bool" where
  "recurrent_rm_refused c s p0 p1 \<longleftrightarrow>
     s \<ge> int (kv_size c) \<or>
     (if 0 \<le> s then
        (0 < p0 \<and> p0 \<le> kpos (cells c ! nat s)) \<or> (0 < p1 \<and> p1 \<le> kpos (cells c ! nat s))
      else p0 \<noteq> p1 \<and> (p0 \<noteq> 0 \<or> p1 \<noteq> INT32_MAX))"

definition llama_kv_cache_seq_rm ::
  "llama_kv_cache \<Rightarrow> int \<Rightarrow> int \<Rightarrow> int \<Rightarrow> (bool \<times> llama_kv_cache) result" where
  "llama_kv_cache_seq_rm c s p0 p1 =
     (let p0 = norm_p0 p0; p1 = norm_p1 p1 in
      if recurrent c \<and> recurrent_rm_refused c s p0 p1 then Inr (False, c)
      else rbind (llama_kv_has_qnext_state_storage c) (\<lambda>q.
        rbind (visit_cells (rm_cell q s p0 p1) c) (\<lambda>st. Inr (True, lower_head st))))"

definition cp_cell :: "int \<Rightarrow> int \<Rightarrow> int \<Rightarrow> int \<Rightarrow> nat \<Rightarrow> llama_kv_cell \<Rightarrow> cell_visit result" where
  "cp_cell s d p0 p1 i cell =
     Inr (skip (if has_seq_id s cell \<and> kpos cell \<ge> p0 \<and> kpos cell < p1 then add_seq d cell else cell))"

text \<open>Taking over the state of another sequence: the source of the source is recorded.\<close>

definition seq_cp_recurrent :: "llama_kv_cache \<Rightarrow> int \<Rightarrow> int \<Rightarrow> llama_kv_cache result" where
  "seq_cp_recurrent c s d =
     (if u32_of_int d < kv_size c \<and> u32_of_int s < kv_size c then
        let s' = ksrc (cells c ! u32_of_int s); di = u32_of_int d; si = u32_of_int s' in
        rbind (rassert ''(uint32_t) seq_id_src < cache.size'' (si < kv_size c)) (\<lambda>_.
        let c1 = upd_cell di (\<lambda>cell. cell\<lparr>ksrc := s'\<rparr>) c;
            c2 = (if has_seq_id s' (cells c1 ! si) then upd_cell di (add_seq d) c1
                  else upd_cell di (erase_seq d) c1);
            c3 = c2\<lparr>do_copy := True\<rparr>
        in Inr (upd_cell di (\<lambda>cell. cell\<lparr>kpos := kpos (cells c3 ! si)\<rparr>) c3))
      else Inr c)"

definition seq_cp_qnext :: "llama_kv_cache \<Rightarrow> int \<Rightarrow> int \<Rightarrow> (int \<times> llama_kv_cache) result" where
  "seq_cp_qnext c s d =
     rbind (llama_kv_has_qnext_state_storage c) (\<lambda>q.
     rbind (llama_kv_qnext_seq_id_in_range c d) (\<lambda>rd.
     rbind (llama_kv_qnext_seq_id_in_range c s) (\<lambda>rs.
     if q \<and> rd \<and> rs \<and> u32_of_int d < kv_size c \<and> u32_of_int s < kv_size c then
       let s' = ksrc (cells c ! u32_of_int s); di = u32_of_int d; si = u32_of_int s' in
       rbind (rassert ''(uint32_t) seq_id_src < cache.size'' (si < kv_size c)) (\<lambda>_.
       let c1 = upd_cell di (\<lambda>cell. cell\<lparr>ksrc := s'\<rparr>) c;
           c2 = upd_cell di (\<lambda>cell. cell\<lparr>kpos := kpos (cells c1 ! si)\<rparr>) c1
       in Inr (s', c2\<lparr>do_copy := True\<rparr>))
     else Inr (s, c))))"

definition llama_kv_cache_seq_cp ::
  "llama_kv_cache \<Rightarrow> int \<Rightarrow> int \<Rightarrow> int \<Rightarrow> int \<Rightarrow> llama_kv_cache result" where
  "llama_kv_cache_seq_cp c s d p0 p1 =
     (if recurrent c then seq_cp_recurrent c s d
      else rbind (seq_cp_qnext c s d) (\<lambda>(s', c1).
        rbind (visit_cells (cp_cell s' d (norm_p0 p0) (norm_p1 p1)) (c1\<lparr>head := 0\<rparr>)) (\<lambda>(c2, _).
        Inr c2)))"

definition keep_cell :: "bool \<Rightarrow> int \<Rightarrow> nat \<Rightarrow> llama_kv_cell \<Rightarrow> cell_visit result" where
  "keep_cell has_qnext s i cell =
     (if \<not> has_seq_id s cell
      then let cell1 = (if has_qnext then cell\<lparr>kpos := -1, ksrc := int i\<rparr> else cell\<lparr>kpos := -1\<rparr>) in
           Inr \<lparr>vcell = clear_seq cell1, vdec = (kpos cell \<ge> 0), vhead = True, vshift = False\<rparr>
      else Inr (skip (add_seq s (clear_seq cell))))"

definition llama_kv_cache_seq_keep :: "llama_kv_cache \<Rightarrow> int \<Rightarrow> llama_kv_cache result" where
  "llama_kv_cache_seq_keep c s =
     rbind (llama_kv_has_qnext_state_storage c) (\<lambda>q.
     rbind (visit_cells (keep_cell q s) c) (\<lambda>st. Inr (lower_head st)))"

definition owned_in :: "int \<Rightarrow> int \<Rightarrow> int \<Rightarrow> llama_kv_cell \<Rightarrow> bool" where
  "owned_in s p0 p1 cell \<longleftrightarrow> has_seq_id s cell \<and> kpos cell \<ge> p0 \<and> kpos cell < p1"

definition add_cell :: "int \<Rightarrow> int \<Rightarrow> int \<Rightarrow> int \<Rightarrow> nat \<Rightarrow> llama_kv_cell \<Rightarrow> cell_visit result" where
  "add_cell s p0 p1 dlt i cell =
     (if owned_in s p0 p1 cell then
        rbind (i32 (kpos cell + dlt)) (\<lambda>p.
        rbind (i32 (kdelta cell + dlt)) (\<lambda>dl.
        let cell1 = cell\<lparr>kpos := p, kdelta := dl\<rparr> in
        if p < 0
        then Inr \<lparr>vcell = clear_seq (cell1\<lparr>kpos := -1\<rparr>), vdec = (\<not> cell_is_empty cell1),
                  vhead = True, vshift = True\<rparr>
        else Inr \<lparr>vcell = cell1, vdec = False, vhead = False, vshift = True\<rparr>))
      else Inr (skip cell))"

text \<open>For recurrent models the cell of the sequence changes its position and nothing else.\<close>

definition recurrent_move ::
  "llama_kv_cache \<Rightarrow> int \<Rightarrow> int \<Rightarrow> int \<Rightarrow> (int \<Rightarrow> int result) \<Rightarrow> llama_kv_cache result" where
  "recurrent_move c s p0 p1 g =
     (if 0 \<le> s \<and> s < int (kv_size c) \<and> owned_in s p0 p1 (cells c ! nat s)
      then rbind (g (kpos (cells c ! nat s))) (\<lambda>p. Inr (upd_cell (nat s) (\<lambda>cell. cell\<lparr>kpos := p\<rparr>) c))
      else Inr c)"

definition llama_kv_cache_seq_add ::
  "llama_kv_cache \<Rightarrow> int \<Rightarrow> int \<Rightarrow> int \<Rightarrow> int \<Rightarrow> llama_kv_cache result" where
  "llama_kv_cache_seq_add c s p0 p1 dlt =
     (let p0 = norm_p0 p0; p1 = norm_p1 p1 in
      if p0 = p1 then Inr c
      else if recurrent c then recurrent_move c s p0 p1 (\<lambda>p. i32 (p + dlt))
      else rbind (visit_cells (add_cell s p0 p1 dlt) c) (\<lambda>(c1, new_head).
        Inr (c1\<lparr>head := (if new_head \<noteq> kv_size c1 then new_head else 0)\<rparr>)))"

definition div_pos :: "int \<Rightarrow> int \<Rightarrow> int result" where
  "div_pos d p = (if d = 0 then Inl Undefined else i32 (p sdiv d))"

definition div_cell :: "int \<Rightarrow> int \<Rightarrow> int \<Rightarrow> int \<Rightarrow> nat \<Rightarrow> llama_kv_cell \<Rightarrow> cell_visit result" where
  "div_cell s p0 p1 d i cell =
     (if owned_in s p0 p1 cell then
        rbind (div_pos d (kpos cell)) (\<lambda>p.
        rbind (i32 (p - kpos cell)) (\<lambda>df.
        rbind (i32 (kdelta cell + df)) (\<lambda>dl.
        Inr \<lparr>vcell = cell\<lparr>kpos := p, kdelta := dl\<rparr>, vdec = False, vhead = False, vshift = True\<rparr>)))
      else Inr (skip cell))"

definition llama_kv_cache_seq_div ::
  "llama_kv_cache \<Rightarrow> int \<Rightarrow> int \<Rightarrow> int \<Rightarrow> int \<Rightarrow> llama_kv_cache result" where
  "llama_kv_cache_seq_div c s p0 p1 d =
     (let p0 = norm_p0 p0; p1 = norm_p1 p1 in
      if p0 = p1 then Inr c
      else if recurrent c then recurrent_move c s p0 p1 (div_pos d)
      else rbind (visit_cells (div_cell s p0 p1 d) c) (\<lambda>(c1, _). Inr c1))"

definition llama_kv_cache_seq_pos_max :: "llama_kv_cache \<Rightarrow> int \<Rightarrow> int" where
  "llama_kv_cache_seq_pos_max c s =
     fold (\<lambda>cell r. if has_seq_id s cell then max r (kpos cell) else r) (cells c) 0"

fun llama_kv_cache_seq_pos_min_loop :: "llama_kv_cell list \<Rightarrow> int \<Rightarrow> int" where
  "llama_kv_cache_seq_pos_min_loop [] s = -1"
| "llama_kv_cache_seq_pos_min_loop (cell # cs) s =
     (if has_seq_id s cell then kpos cell else llama_kv_cache_seq_pos_min_loop cs s)"

definition llama_kv_cache_seq_pos_min :: "llama_kv_cache \<Rightarrow> int \<Rightarrow> int" where
  "llama_kv_cache_seq_pos_min c s = llama_kv_cache_seq_pos_min_loop (cells c) s"

definition llama_kv_cache_defrag :: "llama_kv_cache \<Rightarrow> llama_kv_cache" where
  "llama_kv_cache_defrag c = c\<lparr>do_defrag := True\<rparr>"

end
