(* ===== verification/Kv_Invariant.thy ===== *)
theory Kv_Invariant
  imports Kv_Cache
begin

text \<open>
  What the operations of the KV cache keep and what they do. The invariant \<open>kv_ok\<close> ties the position
  of a cell to its owners and the counter \<open>used\<close> to the cells; the abstraction \<open>holds\<close> is the table of
  which cell keeps which position of which sequence, and each operation on sequences refines the
  obvious update of that table.
\<close>

section \<open>Loops over the cells\<close>

lemma upd_cell_simps [simp]:
  "kv_size (upd_cell i f c) = kv_size c" "head (upd_cell i f c) = head c"
  "used (upd_cell i f c) = used c" "recurrent (upd_cell i f c) = recurrent c"
  "hybrid (upd_cell i f c) = hybrid c" "kv_n (upd_cell i f c) = kv_n c"
  "s_l (upd_cell i f c) = s_l c" "has_shift (upd_cell i f c) = has_shift c"
  "cells (upd_cell i f c) = (cells c)[i := f (cells c ! i)]"
  by (simp_all add: upd_cell_def)

text \<open>The state after a loop over all cells, when the body succeeds on every cell.\<close>

definition visit_heads :: "(nat \<Rightarrow> cell_visit) \<Rightarrow> nat \<Rightarrow> nat \<Rightarrow> nat" where
  "visit_heads v k n = (case filter (\<lambda>i. vhead (v i)) [0..<k] of [] \<Rightarrow> n | i # _ \<Rightarrow> i)"

definition visited :: "(nat \<Rightarrow> cell_visit) \<Rightarrow> nat \<Rightarrow> llama_kv_cache \<Rightarrow> llama_kv_cache" where
  "visited v k c = c\<lparr>
     cells := map (\<lambda>i. if i < k then vcell (v i) else cells c ! i) [0..<kv_size c],
     used := (u32_dec ^^ length (filter (\<lambda>i. vdec (v i)) [0..<k])) (used c),
     has_shift := (has_shift c \<or> (\<exists>i<k. vshift (v i)))\<rparr>"

lemma visited_cells:
  "cells (visited v k c) = map (\<lambda>i. if i < k then vcell (v i) else cells c ! i) [0..<kv_size c]"
  by (simp add: visited_def)

lemma visited_0 [simp]: "visited v 0 c = c"
  by (simp add: visited_def map_nth)

lemma visited_nth [simp]:
  "i < kv_size c \<Longrightarrow> cells (visited v k c) ! i = (if i < k then vcell (v i) else cells c ! i)"
  by (simp add: visited_def)

lemma visited_size [simp]: "kv_size (visited v k c) = kv_size c"
  by (simp add: visited_def)

lemma visit_cell_step:
  assumes "k < kv_size c" and "f k (cells c ! k) = Inr (v k)"
  shows "visit_cell f k (visited v k c, visit_heads v k (kv_size c)) =
    Inr (visited v (Suc k) c, visit_heads v (Suc k) (kv_size c))"
proof -
  let ?n = "kv_size c"
  have cs: "(cells (visited v k c))[k := vcell (v k)] = cells (visited v (Suc k) c)"
  proof (rule nth_equalityI)
    fix i assume "i < length ((cells (visited v k c))[k := vcell (v k)])"
    then have i: "i < kv_size c" by simp
    show "(cells (visited v k c))[k := vcell (v k)] ! i = cells (visited v (Suc k) c) ! i"
      using i by (cases "i = k") (auto simp: less_Suc_eq)
  qed simp
  have sh: "(\<exists>i<Suc k. vshift (v i)) \<longleftrightarrow> (\<exists>i<k. vshift (v i)) \<or> vshift (v k)"
    by (auto simp: less_Suc_eq)
  have hd: "(if vhead (v k) \<and> visit_heads v k ?n = ?n then k else visit_heads v k ?n) =
      visit_heads v (Suc k) ?n"
  proof (cases "filter (\<lambda>i. vhead (v i)) [0..<k]")
    case (Cons a as)
    then have "a \<in> set (filter (\<lambda>i. vhead (v i)) [0..<k])" by simp
    then have "a < k" by simp
    then show ?thesis using Cons assms(1) by (simp add: visit_heads_def)
  qed (simp add: visit_heads_def)
  have rec: "(visited v k c)\<lparr>cells := (cells (visited v k c))[k := vcell (v k)],
      used := (if vdec (v k) then u32_dec (used (visited v k c)) else used (visited v k c)),
      has_shift := (has_shift (visited v k c) \<or> vshift (v k))\<rparr> = visited v (Suc k) c"
    unfolding cs by (auto simp: visited_def sh)
  show ?thesis using assms hd rec by (simp add: visit_cell_def)
qed

lemma visit_prefix:
  assumes "k \<le> kv_size c" and "\<And>i. i < k \<Longrightarrow> f i (cells c ! i) = Inr (v i)"
  shows "rfold (visit_cell f) [0..<k] (c, kv_size c) = Inr (visited v k c, visit_heads v k (kv_size c))"
  using assms
proof (induction k)
  case 0
  then show ?case by (simp add: visit_heads_def)
next
  case (Suc k)
  have "visit_cell f k (visited v k c, visit_heads v k (kv_size c)) =
      Inr (visited v (Suc k) c, visit_heads v (Suc k) (kv_size c))"
    by (rule visit_cell_step) (use Suc.prems in auto)
  then show ?case using Suc by (simp add: rfold_append)
qed

lemma visit_cells_eq:
  assumes "\<And>i. i < kv_size c \<Longrightarrow> f i (cells c ! i) = Inr (v i)"
  shows "visit_cells f c = Inr (visited v (kv_size c) c, visit_heads v (kv_size c) (kv_size c))"
  using visit_prefix [of "kv_size c" c f v] assms by (simp add: visit_cells_def)

text \<open>Conversely, a loop that returned had a body that succeeded on every cell.\<close>

lemma visit_prefix_Inr:
  assumes "k \<le> kv_size c" and "rfold (visit_cell f) [0..<k] (c, kv_size c) = Inr r"
  shows "\<forall>i<k. \<exists>v. f i (cells c ! i) = Inr v"
  using assms
proof (induction k arbitrary: r)
  case (Suc k)
  from Suc.prems obtain r' where r': "rfold (visit_cell f) [0..<k] (c, kv_size c) = Inr r'"
    and step: "visit_cell f k r' = Inr r"
    by (auto simp: rfold_append result_simps)
  have all: "\<forall>i<k. \<exists>v. f i (cells c ! i) = Inr v" using Suc.IH [OF _ r'] Suc.prems(1) by simp
  then obtain v where v: "\<And>i. i < k \<Longrightarrow> f i (cells c ! i) = Inr (v i)" by metis
  have "r' = (visited v k c, visit_heads v k (kv_size c))"
    using visit_prefix [of k c f v] Suc.prems(1) v r' by simp
  then have "\<exists>w. f k (cells c ! k) = Inr w"
    using step Suc.prems(1) by (auto simp: visit_cell_def result_simps)
  then show ?case using all by (auto simp: less_Suc_eq)
qed simp

lemma visit_cellsE:
  assumes "visit_cells f c = Inr r"
  obtains v where "\<And>i. i < kv_size c \<Longrightarrow> f i (cells c ! i) = Inr (v i)"
    and "r = (visited v (kv_size c) c, visit_heads v (kv_size c) (kv_size c))"
proof -
  have "\<forall>i<kv_size c. \<exists>v. f i (cells c ! i) = Inr v"
    using visit_prefix_Inr [of "kv_size c" c f r] assms by (simp add: visit_cells_def)
  then obtain v where v: "\<And>i. i < kv_size c \<Longrightarrow> f i (cells c ! i) = Inr (v i)" by metis
  then show ?thesis using that visit_cells_eq [of c f v] assms by simp
qed

lemma visit_heads_le: "visit_heads v k n \<le> max k n"
proof (cases "filter (\<lambda>i. vhead (v i)) [0..<k]")
  case (Cons a as)
  then have "a \<in> set (filter (\<lambda>i. vhead (v i)) [0..<k])" by simp
  then have "a < k" by simp
  then show ?thesis using Cons by (simp add: visit_heads_def)
qed (simp add: visit_heads_def)

section \<open>The invariant\<close>

definition cell_ok :: "llama_kv_cell \<Rightarrow> bool" where
  "cell_ok cell \<longleftrightarrow> in_step cell \<and> (kpos cell \<ge> 0 \<longleftrightarrow> seq_ids cell \<noteq> {}) \<and> -1 \<le> kpos cell \<and>
     kpos cell \<le> INT32_MAX"

abbreviation count_used :: "llama_kv_cell list \<Rightarrow> nat" where
  "count_used cs \<equiv> length (filter (\<lambda>cell. kpos cell \<ge> 0) cs)"

definition kv_ok :: "llama_kv_cache \<Rightarrow> bool" where
  "kv_ok c \<longleftrightarrow> \<not> recurrent c \<and> kv_size c < 1073741824 \<and> head c \<le> kv_size c \<and>
     used c = count_used (cells c) \<and> (\<forall>cell \<in> set (cells c). cell_ok cell)"

lemma kv_okI:
  assumes "\<not> recurrent c" "kv_size c < 1073741824" "head c \<le> kv_size c"
    and "used c = count_used (cells c)" "\<And>i. i < kv_size c \<Longrightarrow> cell_ok (cells c ! i)"
  shows "kv_ok c"
  using assms by (auto simp: kv_ok_def in_set_conv_nth)

lemma kv_ok_cell [dest]: "kv_ok c \<Longrightarrow> i < kv_size c \<Longrightarrow> cell_ok (cells c ! i)"
  by (auto simp: kv_ok_def)

lemma kv_ok_head [simp]:
  "kv_ok c \<Longrightarrow> h \<le> kv_size c \<Longrightarrow> kv_ok (c\<lparr>head := h\<rparr>)"
  by (simp add: kv_ok_def)

lemma kv_ok_flags [simp]:
  "kv_ok (c\<lparr>has_shift := b\<rparr>) = kv_ok c" "kv_ok (c\<lparr>do_copy := b\<rparr>) = kv_ok c"
  "kv_ok (c\<lparr>do_defrag := b\<rparr>) = kv_ok c" "kv_ok (c\<lparr>kv_n := n\<rparr>) = kv_ok c"
  by (simp_all add: kv_ok_def)

lemma kv_ok_sizeD: "kv_ok c \<Longrightarrow> kv_size c < 1073741824" "kv_ok c \<Longrightarrow> head c \<le> kv_size c"
  by (simp_all add: kv_ok_def)

lemma u32_dec_iter: "k \<le> a \<Longrightarrow> a < 4294967296 \<Longrightarrow> (u32_dec ^^ k) a = a - k"
  by (induction k) simp_all

lemma count_used_upt: "count_used cs = length (filter (\<lambda>i. kpos (cs ! i) \<ge> 0) [0..<length cs])"
proof -
  have "count_used cs = length (filter (\<lambda>cell. kpos cell \<ge> 0) (map ((!) cs) [0..<length cs]))"
    by (simp add: map_nth)
  then show ?thesis by (simp only: filter_map length_map comp_def)
qed

lemma length_filter_diff:
  assumes "\<And>i. i \<in> set xs \<Longrightarrow> Q i \<longleftrightarrow> P i \<and> \<not> D i" and "\<And>i. i \<in> set xs \<Longrightarrow> D i \<Longrightarrow> P i"
  shows "length (filter Q xs) + length (filter D xs) = length (filter P xs)"
  using assms by (induction xs) auto

text \<open>A loop keeps the invariant when each visit keeps the cell well formed and counts a cell as no
  longer used exactly when it frees one.\<close>

definition keeps_cell :: "llama_kv_cell \<Rightarrow> cell_visit \<Rightarrow> bool" where
  "keeps_cell cell v \<longleftrightarrow> cell_ok (vcell v) \<and> (vdec v \<longleftrightarrow> kpos cell \<ge> 0 \<and> kpos (vcell v) < 0) \<and>
     (kpos (vcell v) \<ge> 0 \<longrightarrow> kpos cell \<ge> 0)"

lemma visited_ok:
  assumes "kv_ok c" and "\<And>i. i < kv_size c \<Longrightarrow> keeps_cell (cells c ! i) (v i)"
  shows "kv_ok (visited v (kv_size c) c)"
proof (rule kv_okI)
  let ?n = "kv_size c" and ?D = "\<lambda>i. vdec (v i)"
  have eq: "length (filter (\<lambda>i. kpos (vcell (v i)) \<ge> 0) [0..<?n]) + length (filter ?D [0..<?n]) =
      count_used (cells c)"
    unfolding count_used_upt [of "cells c"]
    by (rule length_filter_diff) (use assms(2) in \<open>auto simp: keeps_cell_def\<close>)
  have "length (filter ?D [0..<?n]) \<le> used c" "used c < 4294967296"
    using assms(1) eq length_filter_le [of "\<lambda>cell. kpos cell \<ge> 0" "cells c"]
    unfolding kv_ok_def by linarith+
  moreover have "count_used (cells (visited v ?n c)) =
      length (filter (\<lambda>i. kpos (vcell (v i)) \<ge> 0) [0..<?n])"
    unfolding count_used_upt by (auto intro!: arg_cong [where f = length] filter_cong)
  ultimately show "used (visited v ?n c) = count_used (cells (visited v ?n c))"
    using eq assms(1) by (simp add: visited_def u32_dec_iter kv_ok_def)
qed (use assms in \<open>auto simp: kv_ok_def visited_def keeps_cell_def\<close>)

lemma lower_head_ok: "kv_ok c \<Longrightarrow> kv_ok (lower_head (c, h))"
  by (auto simp: lower_head_def kv_ok_def)

lemma lower_head_simps [simp]:
  "cells (lower_head (c, h)) = cells c" "recurrent (lower_head (c, h)) = recurrent c"
  by (auto simp: lower_head_def)

section \<open>Each visit keeps the cell well formed\<close>

lemma norm_bounds: "0 \<le> norm_p0 p0"
  by (simp add: norm_p0_def)

lemma cell_ok_free [simp]: "in_step cell \<Longrightarrow> seq_ids cell = {} \<Longrightarrow> cell_ok (cell\<lparr>kpos := -1\<rparr>)"
  by (simp add: cell_ok_def INT32_MAX_def)

lemma cell_ok_src [simp]: "cell_ok (cell\<lparr>ksrc := j\<rparr>) = cell_ok cell" "cell_ok (cell\<lparr>kdelta := d\<rparr>) = cell_ok cell"
  by (simp_all add: cell_ok_def)

lemma cell_ok_in_step [dest]: "cell_ok cell \<Longrightarrow> in_step cell"
  by (simp add: cell_ok_def)

lemma keeps_skip: "cell_ok cell' \<Longrightarrow> kpos cell' = kpos cell \<Longrightarrow> keeps_cell cell (skip cell')"
  by (simp add: keeps_cell_def)

lemma cell_ok_fields:
  "cell_ok cell \<longleftrightarrow> finite (seq_ids cell) \<and> seq0 cell = seq0 (sync_shadow cell) \<and>
     (kpos cell \<ge> 0 \<longleftrightarrow> seq_ids cell \<noteq> {}) \<and> -1 \<le> kpos cell \<and> kpos cell \<le> INT32_MAX"
  by (auto simp: cell_ok_def in_step_def)

lemma cell_ok_freed: "cell_ok (clear_seq (cell\<lparr>kpos := -1\<rparr>))" "cell_ok (clear_seq (cell\<lparr>kpos := -1, ksrc := j\<rparr>))"
  by (simp_all add: cell_ok_def INT32_MAX_def)

lemma cell_ok_erased:
  assumes "cell_ok cell" and "seq_ids (erase_seq s cell) = {}"
  shows "cell_ok ((erase_seq s cell)\<lparr>kpos := -1\<rparr>)" "cell_ok ((erase_seq s cell)\<lparr>kpos := -1, ksrc := j\<rparr>)"
  using assms by (auto simp: cell_ok_def INT32_MAX_def)

lemma cell_ok_cleared:
  "cell_ok ((clear_seq cell)\<lparr>kpos := -1\<rparr>)" "cell_ok ((clear_seq cell)\<lparr>kpos := -1, ksrc := j\<rparr>)"
  by (auto simp: cell_ok_def INT32_MAX_def)

lemma rm_cell_keeps:
  assumes "cell_ok cell" and "rm_cell q s p0 p1 i cell = Inr v"
  shows "keeps_cell cell v"
proof (cases "kpos cell \<ge> p0 \<and> kpos cell < p1 \<and> (s < 0 \<or> has_seq_id s cell)")
  case True
  then show ?thesis using assms cell_ok_cleared cell_ok_erased [OF assms(1)]
    by (auto simp: rm_cell_def Let_def keeps_cell_def cell_is_empty_def cell_ok_def split: if_splits)
next
  case False
  then have "v = skip cell" using assms(2) by (auto simp: rm_cell_def split: if_splits)
  then show ?thesis using assms(1) by (simp add: keeps_skip)
qed

lemma cp_cell_keeps: "cell_ok cell \<Longrightarrow> cp_cell s d p0 p1 i cell = Inr v \<Longrightarrow> keeps_cell cell v"
  by (cases "has_seq_id s cell \<and> kpos cell \<ge> p0 \<and> kpos cell < p1")
    (auto simp: cp_cell_def keeps_cell_def cell_ok_def has_seq_id_def)

lemma keep_cell_keeps: "cell_ok cell \<Longrightarrow> keep_cell q s i cell = Inr v \<Longrightarrow> keeps_cell cell v"
  using cell_ok_freed
  by (auto simp: keep_cell_def Let_def keeps_cell_def has_seq_id_def cell_ok_def split: if_splits)

lemma add_cell_keeps:
  assumes "cell_ok cell" and "0 \<le> p0" and "add_cell s p0 p1 dlt i cell = Inr v"
  shows "keeps_cell cell v"
proof (cases "owned_in s p0 p1 cell")
  case True
  then have fits: "-2147483648 \<le> kpos cell + dlt" "kpos cell + dlt \<le> 2147483647"
    and v: "v = (let cell1 = cell\<lparr>kpos := kpos cell + dlt, kdelta := kdelta cell + dlt\<rparr> in
        if kpos cell + dlt < 0
        then \<lparr>vcell = clear_seq (cell1\<lparr>kpos := -1\<rparr>), vdec = (\<not> cell_is_empty cell1),
              vhead = True, vshift = True\<rparr>
        else \<lparr>vcell = cell1, vdec = False, vhead = False, vshift = True\<rparr>)"
    using assms(3) by (auto simp: add_cell_def result_simps Let_def split: if_splits)
  have "cell_ok (clear_seq (cell\<lparr>kpos := kpos cell + dlt, kdelta := kdelta cell + dlt, kpos := -1\<rparr>))"
    by (simp add: cell_ok_def INT32_MAX_def)
  moreover have "kpos cell + dlt \<ge> 0 \<Longrightarrow>
      cell_ok (cell\<lparr>kpos := kpos cell + dlt, kdelta := kdelta cell + dlt\<rparr>)"
    using assms(1) True fits by (auto simp: cell_ok_def owned_in_def has_seq_id_def INT32_MAX_def)
  moreover have "kpos cell \<ge> 0" "seq_ids cell \<noteq> {}"
    using assms(2) True by (auto simp: owned_in_def has_seq_id_def)
  ultimately show ?thesis using v by (auto simp: keeps_cell_def Let_def cell_is_empty_def)
next
  case False
  then show ?thesis using assms by (auto simp: add_cell_def keeps_skip)
qed

lemma sdiv_nonneg: "0 \<le> p \<Longrightarrow> 0 < d \<Longrightarrow> p sdiv d = p div (d :: int)"
  by (cases "p = 0") (simp_all add: signed_divide_int_def)

lemma div_cell_keeps:
  assumes "cell_ok cell" and "0 \<le> p0" and "0 < d" and "div_cell s p0 p1 d i cell = Inr v"
  shows "keeps_cell cell v"
proof (cases "owned_in s p0 p1 cell")
  case True
  then have p: "0 \<le> kpos cell" "seq_ids cell \<noteq> {}"
    using assms(2) by (auto simp: owned_in_def has_seq_id_def)
  have v: "v = \<lparr>vcell = cell\<lparr>kpos := kpos cell div d, kdelta := kdelta cell + (kpos cell div d - kpos cell)\<rparr>,
      vdec = False, vhead = False, vshift = True\<rparr>"
    using assms(3,4) True p(1) by (auto simp: div_cell_def div_pos_def result_simps sdiv_nonneg)
  have "0 \<le> kpos cell div d" "kpos cell div d \<le> kpos cell"
    using p(1) assms(3) zdiv_mono2 [of "kpos cell" 1 d] by (auto simp: pos_imp_zdiv_nonneg_iff)
  then show ?thesis using assms(1) p unfolding v by (auto simp: keeps_cell_def cell_ok_def)
next
  case False
  then show ?thesis using assms by (auto simp: div_cell_def keeps_skip)
qed

end
