(* ===== verification/Kv_Slots.thy ===== *)
theory Kv_Slots
  imports Kv_Invariant
begin

text \<open>
  The search for a run of free cells. Both allocators of the program (the one of the full cache here,
  the one of the sliding-window cache in \<open>Kv_Swa\<close>) scan the cells from the head on and wrap around
  once; the locale \<open>ring_search\<close> proves for any such loop that it ends, that it finds the first free
  run in ring order from the head, and that it gives up only when there is none.
\<close>

section \<open>Free runs\<close>

definition free_run :: "llama_kv_cell list \<Rightarrow> nat \<Rightarrow> nat \<Rightarrow> bool" where
  "free_run cs n h \<longleftrightarrow> h + n \<le> length cs \<and> (\<forall>i<n. kpos (cs ! (h + i)) < 0)"

definition ring_starts :: "nat \<Rightarrow> nat \<Rightarrow> nat list" where
  "ring_starts h m = [h..<Suc m] @ [0..<h]"

definition ring_fit :: "llama_kv_cell list \<Rightarrow> nat \<Rightarrow> nat \<Rightarrow> nat option" where
  "ring_fit cs n h = List.find (free_run cs n) (ring_starts h (length cs))"

lemma first_used_spec:
  assumes "h + i + k \<le> length cs"
  shows "(\<exists>j. i \<le> j \<and> j < i + k \<and> kpos (cs ! (h + j)) \<ge> 0 \<and> first_used cs h i k = Inr (Some j)) \<or>
    ((\<forall>j. i \<le> j \<and> j < i + k \<longrightarrow> kpos (cs ! (h + j)) < 0) \<and> first_used cs h i k = Inr None)"
  using assms
proof (induction k arbitrary: i)
  case (Suc k)
  show ?case
  proof (cases "kpos (cs ! (h + i)) \<ge> 0")
    case True
    then show ?thesis using Suc.prems by auto
  next
    case False
    have "h + Suc i + k \<le> length cs" using Suc.prems by simp
    from Suc.IH [OF this] show ?thesis
    proof
      assume "\<exists>j. Suc i \<le> j \<and> j < Suc i + k \<and> kpos (cs ! (h + j)) \<ge> 0 \<and> first_used cs h (Suc i) k = Inr (Some j)"
      then obtain j where "Suc i \<le> j" "j < Suc i + k" "kpos (cs ! (h + j)) \<ge> 0"
        "first_used cs h (Suc i) k = Inr (Some j)" by blast
      then show ?thesis using False Suc.prems by (intro disjI1 exI [of _ j]) auto
    next
      assume free: "(\<forall>j. Suc i \<le> j \<and> j < Suc i + k \<longrightarrow> kpos (cs ! (h + j)) < 0) \<and>
          first_used cs h (Suc i) k = Inr None"
      have "kpos (cs ! (h + j)) < 0" if "i \<le> j" "j < i + Suc k" for j
        using free False that by (cases "j = i") auto
      then show ?thesis using free False Suc.prems by auto
    qed
  qed
qed simp

lemma first_used_cases:
  assumes "h + n \<le> length cs"
  obtains j where "j < n" "kpos (cs ! (h + j)) \<ge> 0" "first_used cs h 0 n = Inr (Some j)"
  | "free_run cs n h" "first_used cs h 0 n = Inr None"
  using first_used_spec [of h 0 n cs] assms by (auto simp: free_run_def)

text \<open>A used cell rules out every run that covers it.\<close>

lemma blocked_starts:
  assumes "kpos (cs ! (h + j)) \<ge> 0" and "j < n" and "h \<le> s" and "s \<le> h + j"
  shows "\<not> free_run cs n s"
proof
  assume "free_run cs n s"
  moreover have "h + j - s < n" using assms by linarith
  ultimately have "kpos (cs ! (s + (h + j - s))) < 0" by (simp only: free_run_def)
  then show False using assms by simp
qed

lemma too_high: "h + n > length cs \<Longrightarrow> h \<le> s \<Longrightarrow> \<not> free_run cs n s"
  by (simp add: free_run_def)

lemma find_none: "(\<And>x. x \<in> set xs \<Longrightarrow> \<not> P x) \<Longrightarrow> List.find P xs = None"
  by (simp add: find_None_iff)

lemma find_app:
  "List.find P (xs @ ys) = (case List.find P xs of None \<Rightarrow> List.find P ys | Some x \<Rightarrow> Some x)"
  by (induction xs) auto

lemma find_skip:
  assumes "a \<le> b" "b \<le> m" and "\<And>x. a \<le> x \<Longrightarrow> x < b \<Longrightarrow> \<not> P x"
  shows "List.find P ([a..<m] @ ys) = List.find P ([b..<m] @ ys)"
proof -
  have "[a..<m] = [a..<b] @ [b..<m]" using assms(1,2) by (metis le_add_diff_inverse upt_add_eq_append)
  moreover have "List.find P [a..<b] = None" using assms(3) by (intro find_none) auto
  ultimately show ?thesis by (simp add: find_app)
qed

section \<open>The search loop\<close>

text \<open>\<open>L cs n fuel h t\<close> is a loop that looks for \<open>n\<close> free cells of \<open>cs\<close> from \<open>h\<close> on after \<open>t\<close>
  cells have been looked at; \<open>eager\<close> says whether the number of cells looked at is also compared
  with the size at the wrap.\<close>

locale ring_search =
  fixes L :: "llama_kv_cell list \<Rightarrow> nat \<Rightarrow> nat \<Rightarrow> nat \<Rightarrow> nat \<Rightarrow> (bool \<times> nat) result"
    and eager :: bool
  assumes step: "L cs n (Suc fuel) h t =
     (if u32_add h n > length cs then
        (if eager \<and> u32_add t (u32_sub (length cs) h) \<ge> length cs then Inr (False, 0)
         else L cs n fuel 0 (u32_add t (u32_sub (length cs) h)))
      else
        rbind (first_used cs h 0 n) (\<lambda>r. case r of
          None \<Rightarrow> Inr (True, h)
        | Some i \<Rightarrow>
            (if u32_add t (i + 1) \<ge> length cs then Inr (False, u32_add h (i + 1))
             else L cs n fuel (u32_add h (i + 1)) (u32_add t (i + 1)))))"
begin

definition answers_fit :: "(bool \<times> nat) result \<Rightarrow> nat \<Rightarrow> nat option \<Rightarrow> bool" where
  "answers_fit r m F \<longleftrightarrow>
     (case F of Some h \<Rightarrow> r = Inr (True, h) | None \<Rightarrow> \<exists>h'\<le>m. r = Inr (False, h'))"

text \<open>Below, \<open>m\<close> is the size. After everything has been looked at in vain, one more step gives up.\<close>

lemma exhausted:
  assumes "length cs = m" "m < 1073741824" "n \<le> m" "m \<le> t" "t \<le> 2 * m"
    and none: "\<And>s. \<not> free_run cs n s" and "0 < fuel"
  shows "answers_fit (L cs n fuel 0 t) m None"
proof -
  obtain f where f: "fuel = Suc f" using assms(7) by (cases fuel) auto
  have "0 + n \<le> length cs" using assms by simp
  then show ?thesis
  proof (cases rule: first_used_cases)
    case (1 j)
    then have "u32_add t (j + 1) = t + (j + 1)" using assms(1-5) by simp
    then show ?thesis using assms(1-5) 1 unfolding f by (subst step) (simp add: answers_fit_def)
  qed (use none in blast)
qed

text \<open>The second lap, over the starts below the first head \<open>h0\<close>.\<close>

lemma second_lap:
  assumes "length cs = m" "m < 1073741824" "n \<le> m" "h < h0" "h0 \<le> m"
    and "\<And>s. h0 \<le> s \<Longrightarrow> \<not> free_run cs n s" and "\<And>s. s < h \<Longrightarrow> \<not> free_run cs n s"
    and "h0 - h + 2 \<le> fuel"
  shows "answers_fit (L cs n fuel h (m - h0 + h)) m (List.find (free_run cs n) [h..<h0])"
  using assms
proof (induction "h0 - h" arbitrary: h fuel rule: less_induct)
  case less
  obtain f where f: "fuel = Suc f" using less.prems(8) by (cases fuel) auto
  show ?case
  proof (cases "h + n > m")
    case True
    have none: "\<not> free_run cs n s" for s
      using too_high [of cs h n s] less.prems(1,7) True by (cases "s < h") auto
    have "answers_fit (L cs n f 0 (m - h0 + h + (m - h))) m None"
      by (rule exhausted) (use less.prems none f in auto)
    moreover have "List.find (free_run cs n) [h..<h0] = None" using none by (intro find_none) auto
    ultimately show ?thesis using less.prems(1-5) True unfolding f
      by (subst step) (auto simp: answers_fit_def)
  next
    case False
    then have "h + n \<le> length cs" using less.prems(1) by simp
    then show ?thesis
    proof (cases rule: first_used_cases)
      case (1 j)
      have skip: "List.find (free_run cs n) [h..<h0] = List.find (free_run cs n) [min (h + j + 1) h0..<h0]"
        using find_skip [of h "min (h + j + 1) h0" h0 "free_run cs n" "[]"]
          blocked_starts [OF 1(2,1)] less.prems(4) by simp
      have low: "\<not> free_run cs n s" if "s < h + j + 1" for s
        using blocked_starts [OF 1(2,1), of s] less.prems(7) [of s] that by (cases "s < h") auto
      show ?thesis
      proof (cases "h + j + 1 < h0")
        case True
        have "answers_fit (L cs n f (h + j + 1) (m - h0 + (h + j + 1))) m
            (List.find (free_run cs n) [h + j + 1..<h0])"
          by (rule less.hyps) (use less.prems low f True in auto)
        moreover have "u32_add (m - h0 + h) (j + 1) = m - h0 + (h + j + 1)" "\<not> m - h0 + (h + j + 1) \<ge> m"
          using less.prems(1-5) True by simp_all
        ultimately show ?thesis using less.prems(1-5) 1 False True skip unfolding f
          by (subst step) (simp add: add.assoc min_def)
      next
        case False
        then show ?thesis using less.prems(1-5) 1 \<open>\<not> h + n > m\<close> skip unfolding f
          by (subst step) (auto simp: answers_fit_def min_def)
      qed
    next
      case 2
      then have "List.find (free_run cs n) [h..<h0] = Some h"
        using less.prems(4) by (simp add: upt_conv_Cons)
      then show ?thesis using less.prems(1-5) 2 False unfolding f
        by (subst step) (simp add: answers_fit_def)
    qed
  qed
qed

text \<open>The first lap, from the head on.\<close>

lemma first_lap:
  assumes "length cs = m" "m < 1073741824" "n \<le> m" "0 < n" "h0 \<le> h" "h \<le> m"
    and "\<And>s. h0 \<le> s \<Longrightarrow> s < h \<Longrightarrow> \<not> free_run cs n s"
    and "m - h + h0 + 3 \<le> fuel"
  shows "answers_fit (L cs n fuel h (h - h0)) m (List.find (free_run cs n) ([h..<Suc m] @ [0..<h0]))"
  using assms
proof (induction "m - h" arbitrary: h fuel rule: less_induct)
  case less
  obtain f where f: "fuel = Suc f" using less.prems(8) by (cases fuel) auto
  let ?F = "List.find (free_run cs n)"
  show ?case
  proof (cases "h + n > m")
    case True
    have none: "\<not> free_run cs n s" if "h0 \<le> s" for s
      using too_high [of cs h n s] less.prems(1) less.prems(7) [of s] True that by (cases "s < h") auto
    have "?F [h..<Suc m] = None" by (rule find_none) (use none less.prems(5) in auto)
    then have skip: "?F ([h..<Suc m] @ [0..<h0]) = ?F [0..<h0]" by (subst find_app) simp
    show ?thesis
    proof (cases "h0 = 0")
      case True
      have "answers_fit (L cs n f 0 m) m None"
        by (rule exhausted) (use less.prems none f True in auto)
      then show ?thesis using less.prems(1-6) \<open>h + n > m\<close> True skip unfolding f
        by (subst step) (auto simp: answers_fit_def)
    next
      case False
      have "answers_fit (L cs n f 0 (m - h0 + 0)) m (?F [0..<h0])"
        by (rule second_lap) (use less.prems none f False in auto)
      moreover have "u32_add (h - h0) (u32_sub m h) = m - h0" "\<not> m - h0 \<ge> m"
        using less.prems(1-6) False by simp_all
      ultimately show ?thesis using less.prems(1-6) True skip unfolding f by (subst step) simp
    qed
  next
    case False
    then have "h + n \<le> length cs" using less.prems(1) by simp
    then show ?thesis
    proof (cases rule: first_used_cases)
      case (1 j)
      have skip: "?F ([h..<Suc m] @ [0..<h0]) = ?F ([h + j + 1..<Suc m] @ [0..<h0])"
        by (rule find_skip) (use blocked_starts [OF 1(2,1)] 1(1) False in auto)
      have low: "\<not> free_run cs n s" if "h0 \<le> s" "s < h + j + 1" for s
        using blocked_starts [OF 1(2,1), of s] less.prems(7) [of s] that by (cases "s < h") auto
      have t: "u32_add (h - h0) (j + 1) = h + j + 1 - h0" "u32_add h (j + 1) = h + j + 1"
        using less.prems(1-6) 1(1) False by simp_all
      show ?thesis
      proof (cases "h + j + 1 - h0 \<ge> m")
        case True
        then have "h0 = 0" "h + j + 1 = m" using 1(1) False by linarith+
        then have "?F ([h..<Suc m] @ [0..<h0]) = None"
          using skip less.prems(1,4) by (simp add: find_app free_run_def)
        then show ?thesis using less.prems(1-6) 1 False True t unfolding f
          by (subst step) (auto simp: answers_fit_def)
      next
        case notdone: False
        have "answers_fit (L cs n f (h + j + 1) (h + j + 1 - h0)) m (?F ([h + j + 1..<Suc m] @ [0..<h0]))"
          by (rule less.hyps) (use less.prems low f 1(1) False in auto)
        then show ?thesis using less.prems(1-6) 1 False notdone t skip unfolding f
          by (subst step) simp
      qed
    next
      case 2
      then have "?F ([h..<Suc m] @ [0..<h0]) = Some h"
        using less.prems(6) by (simp add: upt_conv_Cons del: upt_Suc)
      then show ?thesis using less.prems(1-6) 2 False unfolding f
        by (subst step) (simp add: answers_fit_def)
    qed
  qed
qed

theorem search_exact:
  assumes "length cs < 1073741824" "n \<le> length cs" "h \<le> length cs"
  shows "answers_fit (L cs n (2 * length cs + 2) h 0) (length cs) (ring_fit cs n h)"
proof (cases "n = 0")
  case True
  have "ring_fit cs n h = Some h"
    using True assms(3) by (simp add: ring_fit_def ring_starts_def free_run_def upt_conv_Cons del: upt_Suc)
  moreover have "L cs n (Suc (2 * length cs + 1)) h 0 = Inr (True, h)"
    using True assms by (subst step) simp
  ultimately show ?thesis by (simp add: answers_fit_def)
next
  case False
  have "answers_fit (L cs n (2 * length cs + 2) h (h - h)) (length cs)
      (List.find (free_run cs n) ([h..<Suc (length cs)] @ [0..<h]))"
    by (rule first_lap) (use assms False in auto)
  then show ?thesis by (simp add: ring_fit_def ring_starts_def)
qed

lemma search_cases:
  assumes "length cs < 1073741824" "n \<le> length cs" "h \<le> length cs"
  obtains h' where "ring_fit cs n h = Some h'" "L cs n (2 * length cs + 2) h 0 = Inr (True, h')"
  | h' where "ring_fit cs n h = None" "L cs n (2 * length cs + 2) h 0 = Inr (False, h')" "h' \<le> length cs"
  using search_exact [OF assms] by (auto simp: answers_fit_def split: option.splits)

end

lemma ring_fit_Some:
  assumes "ring_fit cs n h = Some h'"
  shows "free_run cs n h'"
  using assms by (auto simp: ring_fit_def find_Some_iff)

lemma ring_fit_None:
  assumes "ring_fit cs n h = None"
  shows "\<not> free_run cs n s"
proof
  assume f: "free_run cs n s"
  then have "s \<in> set (ring_starts h (length cs))" by (auto simp: free_run_def ring_starts_def)
  then show False using assms f by (auto simp: ring_fit_def find_None_iff)
qed

section \<open>Placing a batch\<close>

definition placed :: "nat \<Rightarrow> llama_batch \<Rightarrow> llama_kv_cell list \<Rightarrow> llama_kv_cell list" where
  "placed h batch cs =
     map (\<lambda>i. if h \<le> i \<and> i < h + length batch then place_token (batch ! (i - h)) (cs ! i) else cs ! i)
       [0..<length cs]"

lemma placed_nth [simp]:
  "i < length cs \<Longrightarrow> placed h batch cs ! i =
     (if h \<le> i \<and> i < h + length batch then place_token (batch ! (i - h)) (cs ! i) else cs ! i)"
  by (simp add: placed_def)

lemma length_placed [simp]: "length (placed h batch cs) = length cs"
  by (simp add: placed_def)

lemma place_prefix:
  assumes "k \<le> length batch" and "h + length batch \<le> kv_size c"
  shows "fold (\<lambda>i. upd_cell (h + i) (place_token (batch ! i))) [0..<k] c =
    c\<lparr>cells := placed h (take k batch) (cells c)\<rparr>"
  using assms
proof (induction k)
  case 0
  have "placed h [] (cells c) = cells c" by (rule nth_equalityI) auto
  then show ?case by simp
next
  case (Suc k)
  have "(placed h (take k batch) (cells c))[h + k := place_token (batch ! k) (cells c ! (h + k))] =
      placed h (take (Suc k) batch) (cells c)"
  proof (rule nth_equalityI)
    fix i assume "i < length ((placed h (take k batch) (cells c))[h + k := place_token (batch ! k) (cells c ! (h + k))])"
    then have i: "i < kv_size c" by simp
    show "(placed h (take k batch) (cells c))[h + k := place_token (batch ! k) (cells c ! (h + k))] ! i =
        placed h (take (Suc k) batch) (cells c) ! i"
      using i Suc.prems by (cases "i = h + k") (auto simp: min_def)
  qed simp
  then show ?case using Suc by (simp add: upd_cell_def min_def)
qed

lemma place_batch_eq:
  "h + length batch \<le> kv_size c \<Longrightarrow> place_batch h batch c = c\<lparr>cells := placed h batch (cells c)\<rparr>"
  using place_prefix [of "length batch" batch h c] by (simp add: place_batch_def)

text \<open>The cache after the batch has been stored at \<open>h\<close>, and what a first-fit allocator answers.\<close>

definition stored :: "nat \<Rightarrow> llama_batch \<Rightarrow> llama_kv_cache \<Rightarrow> llama_kv_cache" where
  "stored h batch c =
     c\<lparr>head := h, cells := placed h batch (cells c), used := u32_add (used c) (length batch)\<rparr>"

lemma stored_simps [simp]:
  "cells (stored h batch c) = placed h batch (cells c)" "head (stored h batch c) = h"
  "used (stored h batch c) = u32_add (used c) (length batch)" "s_l (stored h batch c) = s_l c"
  "recurrent (stored h batch c) = recurrent c"
  by (simp_all add: stored_def)

definition first_fit :: "llama_kv_cache \<Rightarrow> llama_batch \<Rightarrow> (bool \<times> llama_kv_cache) result \<Rightarrow> bool" where
  "first_fit c batch r \<longleftrightarrow>
     (case ring_fit (cells c) (length batch) (head c) of
        Some h \<Rightarrow> r = Inr (True, stored h batch c)
      | None \<Rightarrow> \<exists>h \<le> kv_size c. r = Inr (False, c\<lparr>head := h\<rparr>))"

context ring_search
begin

lemma search_is_first_fit:
  assumes "kv_ok c"
  shows "first_fit c batch
    (if length batch > kv_size c then Inr (False, c)
     else rbind (L (cells c) (length batch) (2 * kv_size c + 2) (head c) 0) (\<lambda>(found, h).
       if \<not> found then Inr (False, c\<lparr>head := h\<rparr>)
       else let c1 = place_batch h batch (c\<lparr>head := h\<rparr>) in
         Inr (True, c1\<lparr>used := u32_add (used c1) (length batch)\<rparr>)))"
proof (cases "length batch > kv_size c")
  case True
  then have "ring_fit (cells c) (length batch) (head c) = None"
    unfolding ring_fit_def by (intro find_none) (simp add: free_run_def)
  moreover have "head c \<le> kv_size c" "c = c\<lparr>head := head c\<rparr>" using assms by (simp_all add: kv_ok_def)
  ultimately show ?thesis using True by (simp only: first_fit_def) auto
next
  case False
  then have pre: "kv_size c < 1073741824" "length batch \<le> kv_size c" "head c \<le> kv_size c"
    using assms by (auto simp: kv_ok_def)
  show ?thesis
  proof (rule search_cases [OF pre])
    fix h assume h: "ring_fit (cells c) (length batch) (head c) = Some h"
      "L (cells c) (length batch) (2 * kv_size c + 2) (head c) 0 = Inr (True, h)"
    then have "h + length batch \<le> kv_size (c\<lparr>head := h\<rparr>)"
      using ring_fit_Some [OF h(1)] by (simp add: free_run_def)
    then show ?thesis using h False by (simp add: first_fit_def place_batch_eq stored_def Let_def)
  next
    fix h assume "ring_fit (cells c) (length batch) (head c) = None" "h \<le> kv_size c"
      "L (cells c) (length batch) (2 * kv_size c + 2) (head c) 0 = Inr (False, h)"
    then show ?thesis using False by (auto simp: first_fit_def)
  qed
qed

end

lemma count_used_placed:
  assumes "free_run cs (length batch) h" and "\<forall>t \<in> set batch. 0 \<le> tok_pos t"
  shows "count_used (placed h batch cs) = count_used cs + length batch"
proof -
  let ?n = "length batch" and ?m = "length cs"
  have fit: "h + ?n \<le> ?m" using assms(1) by (simp add: free_run_def)
  have split: "[0..<?m] = [0..<h] @ [h..<h + ?n] @ [h + ?n..<?m]"
    using fit by (metis append_assoc le0 le_add1 le_add_diff_inverse order_trans upt_add_eq_append)
  have same: "filter (\<lambda>i. kpos (placed h batch cs ! i) \<ge> 0) xs = filter (\<lambda>i. kpos (cs ! i) \<ge> 0) xs"
    if "\<And>i. i \<in> set xs \<Longrightarrow> i < ?m \<and> \<not> (h \<le> i \<and> i < h + ?n)" for xs
    using that by (intro filter_cong) auto
  have new: "filter (\<lambda>i. kpos (placed h batch cs ! i) \<ge> 0) [h..<h + ?n] = [h..<h + ?n]"
    using fit assms(2) by (auto simp: filter_id_conv place_token_def)
  have old: "filter (\<lambda>i. kpos (cs ! i) \<ge> 0) [h..<h + ?n] = []"
  proof -
    have "kpos (cs ! i) < 0" if "h \<le> i" "i < h + ?n" for i
    proof -
      have "i - h < ?n" using that by linarith
      then have "kpos (cs ! (h + (i - h))) < 0" using assms(1) unfolding free_run_def by blast
      then show ?thesis using that by simp
    qed
    then show ?thesis by (fastforce simp: filter_empty_conv)
  qed
  have "filter (\<lambda>i. kpos (placed h batch cs ! i) \<ge> 0) [0..<h] = filter (\<lambda>i. kpos (cs ! i) \<ge> 0) [0..<h]"
    and "filter (\<lambda>i. kpos (placed h batch cs ! i) \<ge> 0) [h + ?n..<?m] =
      filter (\<lambda>i. kpos (cs ! i) \<ge> 0) [h + ?n..<?m]"
    using fit by (auto intro!: same)
  then show ?thesis unfolding count_used_upt length_placed split filter_append
    by (simp add: new old)
qed

definition batch_ok :: "llama_batch \<Rightarrow> bool" where
  "batch_ok batch \<longleftrightarrow>
     (\<forall>t \<in> set batch. 0 \<le> tok_pos t \<and> tok_pos t \<le> INT32_MAX \<and> tok_seqs t \<noteq> [])"

lemma cell_ok_place: "cell_ok cell \<Longrightarrow> batch_ok batch \<Longrightarrow> t \<in> set batch \<Longrightarrow> cell_ok (place_token t cell)"
  by (auto simp: cell_ok_def place_token_def batch_ok_def intro: in_step_fold_add)

lemma stored_ok:
  assumes "kv_ok c" "batch_ok batch" "free_run (cells c) (length batch) h"
  shows "kv_ok (stored h batch c)"
proof (rule kv_okI)
  have "count_used (placed h batch (cells c)) = used c + length batch"
    using count_used_placed [OF assms(3)] assms(1,2) by (auto simp: kv_ok_def batch_ok_def)
  moreover have "count_used (placed h batch (cells c)) \<le> kv_size c"
    by (metis length_filter_le length_placed)
  ultimately show "used (stored h batch c) = count_used (cells (stored h batch c))"
    using kv_ok_sizeD(1) [OF assms(1)] by simp
next
  fix i assume "i < kv_size (stored h batch c)"
  then have i: "i < kv_size c" by simp
  then show "cell_ok (cells (stored h batch c) ! i)"
    using assms cell_ok_place [OF kv_ok_cell [OF assms(1) i] assms(2)] by auto
qed (use assms in \<open>auto simp: kv_ok_def free_run_def\<close>)

section \<open>Allocators\<close>

locale slot_allocator =
  fixes alloc :: "llama_kv_cache \<Rightarrow> llama_batch \<Rightarrow> (bool \<times> llama_kv_cache) result"
  assumes fits_first: "kv_ok c \<Longrightarrow> first_fit c batch (alloc c batch)"
begin

lemma alloc_cases:
  assumes "kv_ok c"
  obtains h where "free_run (cells c) (length batch) h"
      "ring_fit (cells c) (length batch) (head c) = Some h" "alloc c batch = Inr (True, stored h batch c)"
  | h where "\<And>s. \<not> free_run (cells c) (length batch) s" "h \<le> kv_size c"
      "alloc c batch = Inr (False, c\<lparr>head := h\<rparr>)"
proof (cases "ring_fit (cells c) (length batch) (head c)")
  case None
  then show ?thesis using fits_first [OF assms, of batch] that(2) ring_fit_None [OF None]
    by (auto simp: first_fit_def)
next
  case (Some h)
  then show ?thesis using fits_first [OF assms, of batch] that(1) ring_fit_Some [OF Some]
    by (auto simp: first_fit_def)
qed

text \<open>The success of an allocation and the state after it, on the cells.\<close>

lemma alloc_exact:
  assumes "kv_ok c" and "batch_ok batch"
  shows "\<exists>found c'. alloc c batch = Inr (found, c') \<and>
    (found \<longleftrightarrow> (\<exists>h. free_run (cells c) (length batch) h)) \<and> kv_size c' = kv_size c \<and>
    (found \<longrightarrow> free_run (cells c) (length batch) (head c') \<and> used c' = used c + length batch \<and>
       (\<forall>i < length batch. kpos (cells c' ! (head c' + i)) = tok_pos (batch ! i) \<and>
          seq_ids (cells c' ! (head c' + i)) = set (tok_seqs (batch ! i))) \<and>
       (\<forall>i < kv_size c. i < head c' \<or> head c' + length batch \<le> i \<longrightarrow> cells c' ! i = cells c ! i)) \<and>
    (\<not> found \<longrightarrow> cells c' = cells c \<and> used c' = used c)"
proof (rule alloc_cases [OF assms(1), of batch])
  fix h assume run: "free_run (cells c) (length batch) h" and r: "alloc c batch = Inr (True, stored h batch c)"
  have fit: "h + length batch \<le> kv_size c" using run by (simp add: free_run_def)
  have empty: "seq_ids (cells c ! (h + i)) = {}" if "i < length batch" for i
  proof -
    have "kpos (cells c ! (h + i)) < 0" using run that unfolding free_run_def by blast
    then show ?thesis using kv_ok_cell [OF assms(1), of "h + i"] fit that by (auto simp: cell_ok_def)
  qed
  have "used (stored h batch c) = used c + length batch"
    using stored_ok [OF assms run] count_used_placed [OF run] assms
    unfolding kv_ok_def batch_ok_def by auto
  moreover have "kpos (cells (stored h batch c) ! (h + i)) = tok_pos (batch ! i) \<and>
      seq_ids (cells (stored h batch c) ! (h + i)) = set (tok_seqs (batch ! i))" if "i < length batch" for i
    using that fit empty [OF that] by (simp add: place_token_def)
  ultimately show ?thesis using r run by (intro exI [of _ True] exI [of _ "stored h batch c"]) auto
next
  fix h assume "\<And>s. \<not> free_run (cells c) (length batch) s" and "alloc c batch = Inr (False, c\<lparr>head := h\<rparr>)"
  then show ?thesis by auto
qed

end

interpretation full_search: ring_search "\<lambda>cs n fuel. find_slot_loop fuel cs n" False
  by unfold_locales (simp only: find_slot_loop.simps simp_thms if_False)

interpretation full_alloc: slot_allocator llama_kv_cache_find_slot
proof
  fix c batch assume "kv_ok c"
  from full_search.search_is_first_fit [OF this, of batch] this
  show "first_fit c batch (llama_kv_cache_find_slot c batch)"
    unfolding llama_kv_cache_find_slot_def kv_ok_def by (simp only: Let_def if_False)
qed

section \<open>The allocator of the full cache\<close>


definition empty_cache :: "nat \<Rightarrow> llama_kv_cache" where
  "empty_cache m = \<lparr>has_shift = False, do_defrag = False, do_copy = False, recurrent = False,
     hybrid = False, head = 0, used = 0, kv_n = 0, cells = replicate m new_cell, s_l = []\<rparr>"

lemma kv_ok_empty_cache: "m < 1073741824 \<Longrightarrow> kv_ok (empty_cache m)"
  by (simp add: kv_ok_def empty_cache_def cell_ok_fields new_cell_def sync_shadow_def INT32_MAX_def)


end
