(* ===== verification/Kv_Table.thy ===== *)
theory Kv_Table
  imports Kv_Slots
begin

text \<open>
  The KV cache as a table. The operations of the cache, in any order, keep the invariant and change
  the table of entries (cell, sequence, position) the way their names say. The machine model
  \<open>refined_machine\<close> is stated for any state with an invariant and an abstraction and is interpreted
  on the operations of the cache.
\<close>

section \<open>Machines that refine an abstract one\<close>

fun aruns :: "('o \<Rightarrow> 'a \<Rightarrow> 'a \<Rightarrow> bool) \<Rightarrow> 'o list \<Rightarrow> 'a \<Rightarrow> 'a \<Rightarrow> bool" where
  "aruns astep [] a a' \<longleftrightarrow> a' = a"
| "aruns astep (x # xs) a a' \<longleftrightarrow> (\<exists>b. astep x a b \<and> aruns astep xs b a')"

locale refined_machine =
  fixes step :: "'o \<Rightarrow> 's \<Rightarrow> 's result" and astep :: "'o \<Rightarrow> 'a \<Rightarrow> 'a \<Rightarrow> bool"
    and inv :: "'s \<Rightarrow> bool" and abst :: "'s \<Rightarrow> 'a" and legal risky :: "'o \<Rightarrow> bool"
  assumes keeps: "inv s \<Longrightarrow> legal x \<Longrightarrow> step x s = Inr s' \<Longrightarrow> inv s'"
    and refines: "inv s \<Longrightarrow> legal x \<Longrightarrow> step x s = Inr s' \<Longrightarrow> astep x (abst s) (abst s')"
    and safe: "inv s \<Longrightarrow> legal x \<Longrightarrow> \<not> risky x \<Longrightarrow> \<exists>s'. step x s = Inr s'"
begin

lemma run_total:
  "inv s \<Longrightarrow> list_all legal xs \<Longrightarrow> list_all (\<lambda>x. \<not> risky x) xs \<Longrightarrow> \<exists>s'. rfold step xs s = Inr s'"
proof (induction xs arbitrary: s)
  case (Cons x xs)
  then obtain t where "step x s = Inr t" using safe [of s x] by auto
  then show ?case using Cons keeps [of s x t] by auto
qed simp

lemma run_keeps:
  "inv s \<Longrightarrow> list_all legal xs \<Longrightarrow> rfold step xs s = Inr s' \<Longrightarrow> inv s'"
  by (induction xs arbitrary: s) (auto simp: result_simps dest: keeps)

lemma run_refines:
  "inv s \<Longrightarrow> list_all legal xs \<Longrightarrow> rfold step xs s = Inr s' \<Longrightarrow> aruns astep xs (abst s) (abst s')"
proof (induction xs arbitrary: s)
  case (Cons x xs)
  then obtain t where t: "step x s = Inr t" "rfold step xs t = Inr s'" by (auto simp: result_simps)
  have "inv t" "astep x (abst s) (abst t)" using Cons.prems t keeps refines by auto
  then show ?case using Cons.IH [of t] Cons.prems t by auto
qed simp

end

section \<open>The operations\<close>

datatype kv_op =
  Place llama_batch
| Rm int int int
| Cp int int int int
| Keep int
| Add int int int int
| Div int int int int
| Clear
| Advance nat

text \<open>\<open>Advance\<close> is the update of the ring buffer after a decoded batch: the head moves past the batch
  and starts over at the end.\<close>

definition advance_head :: "nat \<Rightarrow> llama_kv_cache \<Rightarrow> llama_kv_cache" where
  "advance_head n_tokens c =
     (let h = u32_add (head c) n_tokens in c\<lparr>head := (if h \<ge> kv_size c then 0 else h)\<rparr>)"

fun kv_apply :: "kv_op \<Rightarrow> llama_kv_cache \<Rightarrow> llama_kv_cache result" where
  "kv_apply (Place batch) c = rbind (llama_kv_cache_find_slot c batch) (\<lambda>(found, c'). Inr c')"
| "kv_apply (Rm s p0 p1) c = rbind (llama_kv_cache_seq_rm c s p0 p1) (\<lambda>(ok, c'). Inr c')"
| "kv_apply (Cp s d p0 p1) c = llama_kv_cache_seq_cp c s d p0 p1"
| "kv_apply (Keep s) c = llama_kv_cache_seq_keep c s"
| "kv_apply (Add s p0 p1 dlt) c = llama_kv_cache_seq_add c s p0 p1 dlt"
| "kv_apply (Div s p0 p1 d) c = llama_kv_cache_seq_div c s p0 p1 d"
| "kv_apply Clear c = Inr (llama_kv_cache_clear c)"
| "kv_apply (Advance n) c = Inr (advance_head n c)"

text \<open>Positions of a batch are positions, every token has an owner, and a divisor is positive.\<close>

fun legal_op :: "kv_op \<Rightarrow> bool" where
  "legal_op (Place batch) = batch_ok batch"
| "legal_op (Div s p0 p1 d) = (d > 0)"
| "legal_op _ = True"

text \<open>Moving positions may overflow the 32-bit integers they are kept in; nothing else can fail.\<close>

fun may_overflow :: "kv_op \<Rightarrow> bool" where
  "may_overflow (Add s p0 p1 dlt) = True"
| "may_overflow (Div s p0 p1 d) = True"
| "may_overflow _ = False"

section \<open>The table\<close>

type_synonym table = "(nat \<times> int \<times> int) set"

definition table :: "llama_kv_cache \<Rightarrow> table" where
  "table c = {(i, s, p). i < kv_size c \<and> s \<in> seq_ids (cells c ! i) \<and> p = kpos (cells c ! i)}"

definition inside :: "int \<Rightarrow> int \<Rightarrow> int \<Rightarrow> bool" where
  "inside p0 p1 p \<longleftrightarrow> norm_p0 p0 \<le> p \<and> p < norm_p1 p1"

definition t_rm :: "int \<Rightarrow> int \<Rightarrow> int \<Rightarrow> table \<Rightarrow> table" where
  "t_rm s p0 p1 T = {(i, s', p) \<in> T. \<not> ((s < 0 \<or> s' = s) \<and> inside p0 p1 p)}"

definition t_cp :: "int \<Rightarrow> int \<Rightarrow> int \<Rightarrow> int \<Rightarrow> table \<Rightarrow> table" where
  "t_cp s d p0 p1 T = T \<union> {(i, s', p). s' = d \<and> (i, s, p) \<in> T \<and> inside p0 p1 p}"

definition t_keep :: "int \<Rightarrow> table \<Rightarrow> table" where
  "t_keep s T = {(i, s', p) \<in> T. s' = s}"

text \<open>Moving the entries of a sequence moves the cells, with every sequence that shares them; what
  would get a negative position is dropped.\<close>

definition t_move :: "int \<Rightarrow> int \<Rightarrow> int \<Rightarrow> (int \<Rightarrow> int) \<Rightarrow> table \<Rightarrow> table" where
  "t_move s p0 p1 g T =
     {(i, s', p). \<exists>p'. (i, s', p') \<in> T \<and>
        (if (i, s, p') \<in> T \<and> inside p0 p1 p' then p = g p' \<and> 0 \<le> p else p = p')}"

definition t_place :: "nat \<Rightarrow> llama_batch \<Rightarrow> table \<Rightarrow> table" where
  "t_place h batch T =
     T \<union> {(i, s, p). h \<le> i \<and> i < h + length batch \<and> s \<in> set (tok_seqs (batch ! (i - h))) \<and>
       p = tok_pos (batch ! (i - h))}"

definition t_free :: "nat \<Rightarrow> nat \<Rightarrow> table \<Rightarrow> bool" where
  "t_free h n T \<longleftrightarrow> (\<forall>(i, s, p) \<in> T. i < h \<or> h + n \<le> i)"

fun t_op :: "kv_op \<Rightarrow> table \<Rightarrow> table \<Rightarrow> bool" where
  "t_op (Place batch) T T' \<longleftrightarrow>
     T' = T \<or> (\<exists>h. t_free h (length batch) T \<and> T' = t_place h batch T)"
| "t_op (Rm s p0 p1) T T' \<longleftrightarrow> T' = t_rm s p0 p1 T"
| "t_op (Cp s d p0 p1) T T' \<longleftrightarrow> T' = t_cp s d p0 p1 T"
| "t_op (Keep s) T T' \<longleftrightarrow> T' = t_keep s T"
| "t_op (Add s p0 p1 dlt) T T' \<longleftrightarrow>
     T' = (if norm_p0 p0 = norm_p1 p1 then T else t_move s p0 p1 (\<lambda>p. p + dlt) T)"
| "t_op (Div s p0 p1 d) T T' \<longleftrightarrow>
     T' = (if norm_p0 p0 = norm_p1 p1 then T else t_move s p0 p1 (\<lambda>p. p div d) T)"
| "t_op Clear T T' \<longleftrightarrow> T' = {}"
| "t_op (Advance n) T T' \<longleftrightarrow> T' = T"

section \<open>Each operation\<close>

definition kv_plain :: "llama_kv_cache \<Rightarrow> bool" where
  "kv_plain c \<longleftrightarrow> kv_ok c \<and> llama_kv_qnext_state_slots c = Inr 0"

lemma slots_s_l: "s_l c' = s_l c \<Longrightarrow> llama_kv_qnext_state_slots c' = llama_kv_qnext_state_slots c"
  by (simp add: llama_kv_qnext_state_slots_def)

lemma table_cells: "cells c' = cells c \<Longrightarrow> table c' = table c"
  by (simp add: table_def)

lemma table_visited:
  "table (visited v (kv_size c) c) =
     {(i, s, p). i < kv_size c \<and> s \<in> seq_ids (vcell (v i)) \<and> p = kpos (vcell (v i))}"
  by (auto simp: table_def)

lemma visited_s_l [simp]: "s_l (visited v k c) = s_l c" "recurrent (visited v k c) = recurrent c"
  "head (visited v k c) = head c"
  by (simp_all add: visited_def)

lemma lower_head_s_l [simp]: "s_l (lower_head (c, h)) = s_l c"
  by (auto simp: lower_head_def)

text \<open>The loops of \<open>visit_cells\<close> over a well-formed cache: the body says what happens to the
  invariant and to the entries of the cell.\<close>

lemma visit_refines:
  assumes "kv_ok c" and "visit_cells f c = Inr r"
    and "\<And>i cell v. cell_ok cell \<Longrightarrow> f i cell = Inr v \<Longrightarrow> keeps_cell cell v"
  obtains v h where "r = (visited v (kv_size c) c, h)" "h \<le> kv_size c" "kv_ok (visited v (kv_size c) c)"
    "\<And>i. i < kv_size c \<Longrightarrow> f i (cells c ! i) = Inr (v i)"
proof -
  obtain v where v: "\<And>i. i < kv_size c \<Longrightarrow> f i (cells c ! i) = Inr (v i)"
    and r: "r = (visited v (kv_size c) c, visit_heads v (kv_size c) (kv_size c))"
    using visit_cellsE [OF assms(2)] by blast
  have "kv_ok (visited v (kv_size c) c)"
    by (rule visited_ok [OF assms(1)]) (use v assms(1,3) in blast)
  then show ?thesis using that [OF r] visit_heads_le [of v "kv_size c" "kv_size c"] v by simp
qed

lemma rm_cell_entries:
  assumes "cell_ok cell" "rm_cell q s (norm_p0 p0) (norm_p1 p1) i cell = Inr v"
  shows "s' \<in> seq_ids (vcell v) \<and> p = kpos (vcell v) \<longleftrightarrow>
    s' \<in> seq_ids cell \<and> p = kpos cell \<and> \<not> ((s < 0 \<or> s' = s) \<and> inside p0 p1 p)"
  using assms
  by (auto simp: rm_cell_def Let_def inside_def cell_is_empty_def has_seq_id_def split: if_splits)

lemma seq_rm_refines:
  assumes "kv_plain c" and "llama_kv_cache_seq_rm c s p0 p1 = Inr (b, c')"
  shows "b" "kv_plain c'" "table c' = t_rm s p0 p1 (table c)" "kv_size c' = kv_size c"
proof -
  have ok: "kv_ok c" and slots: "llama_kv_qnext_state_slots c = Inr 0" and rec: "\<not> recurrent c"
    using assms(1) by (auto simp: kv_plain_def kv_ok_def)
  have bt: "b" and "\<exists>st. visit_cells (rm_cell False s (norm_p0 p0) (norm_p1 p1)) c = Inr st \<and> c' = lower_head st"
    using assms(2) rec slots
    by (auto simp: llama_kv_cache_seq_rm_def Let_def llama_kv_has_qnext_state_storage_def result_simps)
  then obtain st where st: "visit_cells (rm_cell False s (norm_p0 p0) (norm_p1 p1)) c = Inr st"
    and c': "c' = lower_head st" by blast
  obtain v h where v: "st = (visited v (kv_size c) c, h)" "kv_ok (visited v (kv_size c) c)"
    "\<And>i. i < kv_size c \<Longrightarrow> rm_cell False s (norm_p0 p0) (norm_p1 p1) i (cells c ! i) = Inr (v i)"
    using visit_refines [OF ok st] rm_cell_keeps by metis
  show "b" by (fact bt)
  show "kv_plain c'" using v lower_head_ok slots slots_s_l [of c' c] by (simp add: kv_plain_def c')
  have "table c' = table (visited v (kv_size c) c)" by (rule table_cells) (simp add: c' v(1))
  also have "\<dots> = t_rm s p0 p1 (table c)"
    unfolding table_visited t_rm_def
    using rm_cell_entries [OF kv_ok_cell [OF ok] v(3)] by (auto simp: table_def)
  finally show "table c' = t_rm s p0 p1 (table c)" .
  show "kv_size c' = kv_size c" by (simp add: c' v(1))
qed

lemma cp_cell_entries:
  assumes "cp_cell s d (norm_p0 p0) (norm_p1 p1) i cell = Inr v"
  shows "s' \<in> seq_ids (vcell v) \<and> p = kpos (vcell v) \<longleftrightarrow>
    p = kpos cell \<and> (s' \<in> seq_ids cell \<or> s' = d \<and> s \<in> seq_ids cell \<and> inside p0 p1 p)"
  using assms by (cases "has_seq_id s cell \<and> inside p0 p1 (kpos cell)")
    (auto simp: cp_cell_def inside_def has_seq_id_def)

lemma seq_cp_refines:
  assumes "kv_plain c" and "llama_kv_cache_seq_cp c s d p0 p1 = Inr c'"
  shows "kv_plain c'" "table c' = t_cp s d p0 p1 (table c)" "kv_size c' = kv_size c"
proof -
  let ?c0 = "c\<lparr>head := 0\<rparr>"
  have ok: "kv_ok ?c0" and slots: "llama_kv_qnext_state_slots c = Inr 0" and rec: "\<not> recurrent c"
    using assms(1) by (auto simp: kv_plain_def kv_ok_def)
  have "seq_cp_qnext c s d = Inr (s, c)"
    using slots by (simp add: seq_cp_qnext_def llama_kv_has_qnext_state_storage_def
        llama_kv_qnext_seq_id_in_range_def)
  then obtain h where st: "visit_cells (cp_cell s d (norm_p0 p0) (norm_p1 p1)) ?c0 = Inr (c', h)"
    using assms(2) rec by (auto simp: llama_kv_cache_seq_cp_def result_simps)
  obtain v where v': "c' = visited v (kv_size ?c0) ?c0" "kv_ok (visited v (kv_size ?c0) ?c0)"
    "\<And>i. i < kv_size ?c0 \<Longrightarrow> cp_cell s d (norm_p0 p0) (norm_p1 p1) i (cells ?c0 ! i) = Inr (v i)"
    using visit_refines [OF ok st] cp_cell_keeps by (metis prod.inject)
  then have v: "c' = visited v (kv_size c) ?c0" "kv_ok (visited v (kv_size c) ?c0)"
    "\<And>i. i < kv_size c \<Longrightarrow> cp_cell s d (norm_p0 p0) (norm_p1 p1) i (cells c ! i) = Inr (v i)"
    by simp_all
  show "kv_plain c'" using v slots slots_s_l [of c' c] by (simp add: kv_plain_def)
  have "table c' = t_cp s d p0 p1 (table ?c0)"
    using table_visited [of v ?c0] unfolding v(1) t_cp_def
    using cp_cell_entries [OF v(3)] by (auto simp: table_def)
  then show "table c' = t_cp s d p0 p1 (table c)" by (simp add: table_def)
  show "kv_size c' = kv_size c" by (simp add: v(1))
qed

lemma keep_cell_entries:
  assumes "keep_cell q s i cell = Inr v"
  shows "s' \<in> seq_ids (vcell v) \<and> p = kpos (vcell v) \<longleftrightarrow> s' \<in> seq_ids cell \<and> p = kpos cell \<and> s' = s"
  using assms by (auto simp: keep_cell_def Let_def has_seq_id_def split: if_splits)

lemma seq_keep_refines:
  assumes "kv_plain c" and "llama_kv_cache_seq_keep c s = Inr c'"
  shows "kv_plain c'" "table c' = t_keep s (table c)" "kv_size c' = kv_size c"
proof -
  have ok: "kv_ok c" and slots: "llama_kv_qnext_state_slots c = Inr 0"
    using assms(1) by (auto simp: kv_plain_def)
  obtain st where st: "visit_cells (keep_cell False s) c = Inr st" and c': "c' = lower_head st"
    using assms(2) slots
    by (auto simp: llama_kv_cache_seq_keep_def llama_kv_has_qnext_state_storage_def result_simps)
  obtain v h where v: "st = (visited v (kv_size c) c, h)" "kv_ok (visited v (kv_size c) c)"
    "\<And>i. i < kv_size c \<Longrightarrow> keep_cell False s i (cells c ! i) = Inr (v i)"
    using visit_refines [OF ok st] keep_cell_keeps by metis
  show "kv_plain c'" using v lower_head_ok slots slots_s_l [of c' c] by (simp add: kv_plain_def c')
  have "table c' = table (visited v (kv_size c) c)" by (rule table_cells) (simp add: c' v(1))
  also have "\<dots> = t_keep s (table c)"
    unfolding table_visited t_keep_def using keep_cell_entries [OF v(3)] by (auto simp: table_def)
  finally show "table c' = t_keep s (table c)" .
  show "kv_size c' = kv_size c" by (simp add: c' v(1))
qed

text \<open>The two operations that move cells.\<close>

definition moves_cell :: "int \<Rightarrow> int \<Rightarrow> int \<Rightarrow> (int \<Rightarrow> int) \<Rightarrow> llama_kv_cell \<Rightarrow> cell_visit \<Rightarrow> bool" where
  "moves_cell s p0 p1 g cell v \<longleftrightarrow>
     (\<forall>s' p. s' \<in> seq_ids (vcell v) \<and> p = kpos (vcell v) \<longleftrightarrow>
        s' \<in> seq_ids cell \<and>
        (if s \<in> seq_ids cell \<and> inside p0 p1 (kpos cell) then p = g (kpos cell) \<and> 0 \<le> p else p = kpos cell))"

lemma add_cell_moves:
  assumes "add_cell s (norm_p0 p0) (norm_p1 p1) dlt i cell = Inr v"
  shows "moves_cell s p0 p1 (\<lambda>p. p + dlt) cell v"
  using assms by (cases "owned_in s (norm_p0 p0) (norm_p1 p1) cell")
    (auto simp: moves_cell_def add_cell_def owned_in_def inside_def has_seq_id_def result_simps Let_def
      split: if_splits)

lemma div_cell_moves:
  assumes "0 < d" and "div_cell s (norm_p0 p0) (norm_p1 p1) d i cell = Inr v"
  shows "moves_cell s p0 p1 (\<lambda>p. p div d) cell v"
proof (cases "owned_in s (norm_p0 p0) (norm_p1 p1) cell")
  case True
  then have "0 \<le> kpos cell" using norm_bounds [of p0] by (auto simp: owned_in_def)
  then have "vcell v = cell\<lparr>kpos := kpos cell div d, kdelta := kdelta cell + (kpos cell div d - kpos cell)\<rparr>"
    and "0 \<le> kpos cell div d"
    using True assms by (auto simp: div_cell_def div_pos_def result_simps sdiv_nonneg pos_imp_zdiv_nonneg_iff)
  then show ?thesis using True by (auto simp: moves_cell_def owned_in_def inside_def has_seq_id_def)
next
  case False
  then show ?thesis using assms by (auto simp: moves_cell_def div_cell_def owned_in_def inside_def has_seq_id_def)
qed

lemma table_moved:
  assumes "\<And>i. i < kv_size c \<Longrightarrow> moves_cell s p0 p1 g (cells c ! i) (v i)"
  shows "table (visited v (kv_size c) c) = t_move s p0 p1 g (table c)"
proof -
  have "(i, s', p) \<in> table (visited v (kv_size c) c) \<longleftrightarrow> (i, s', p) \<in> t_move s p0 p1 g (table c)" for i s' p
  proof (cases "i < kv_size c")
    case True
    then have "s' \<in> seq_ids (vcell (v i)) \<and> p = kpos (vcell (v i)) \<longleftrightarrow> s' \<in> seq_ids (cells c ! i) \<and>
        (if s \<in> seq_ids (cells c ! i) \<and> inside p0 p1 (kpos (cells c ! i))
         then p = g (kpos (cells c ! i)) \<and> 0 \<le> p else p = kpos (cells c ! i))"
      using assms [of i] unfolding moves_cell_def by blast
    then show ?thesis using True unfolding table_visited
      by (simp only: t_move_def table_def mem_Collect_eq prod.case) auto
  qed (simp add: table_visited t_move_def table_def)
  then show ?thesis by auto
qed

lemma seq_add_refines:
  assumes "kv_plain c" and "llama_kv_cache_seq_add c s p0 p1 dlt = Inr c'"
  shows "kv_plain c' \<and> kv_size c' = kv_size c \<and>
    table c' = (if norm_p0 p0 = norm_p1 p1 then table c else t_move s p0 p1 (\<lambda>p. p + dlt) (table c))"
proof (cases "norm_p0 p0 = norm_p1 p1")
  case False
  have ok: "kv_ok c" and slots: "llama_kv_qnext_state_slots c = Inr 0" and rec: "\<not> recurrent c"
    using assms(1) by (auto simp: kv_plain_def kv_ok_def)
  let ?f = "add_cell s (norm_p0 p0) (norm_p1 p1) dlt"
  obtain c1 h where st: "visit_cells ?f c = Inr (c1, h)"
    and c': "c' = c1\<lparr>head := (if h \<noteq> kv_size c1 then h else 0)\<rparr>"
    using assms(2) rec False by (auto simp: llama_kv_cache_seq_add_def Let_def result_simps)
  obtain v where v: "c1 = visited v (kv_size c) c" "h \<le> kv_size c" "kv_ok c1"
    "\<And>i. i < kv_size c \<Longrightarrow> ?f i (cells c ! i) = Inr (v i)"
    using visit_refines [OF ok st] add_cell_keeps [OF _ norm_bounds] by (metis prod.inject)
  have "table c' = table c1" by (rule table_cells) (simp add: c')
  also have "\<dots> = t_move s p0 p1 (\<lambda>p. p + dlt) (table c)"
    unfolding v(1) by (rule table_moved) (rule add_cell_moves [OF v(4)])
  finally show ?thesis using False v slots slots_s_l [of c' c] by (simp add: kv_plain_def c')
qed (use assms in \<open>auto simp: llama_kv_cache_seq_add_def\<close>)

lemma seq_div_refines:
  assumes "kv_plain c" and "0 < d" and "llama_kv_cache_seq_div c s p0 p1 d = Inr c'"
  shows "kv_plain c' \<and> kv_size c' = kv_size c \<and>
    table c' = (if norm_p0 p0 = norm_p1 p1 then table c else t_move s p0 p1 (\<lambda>p. p div d) (table c))"
proof (cases "norm_p0 p0 = norm_p1 p1")
  case False
  have ok: "kv_ok c" and slots: "llama_kv_qnext_state_slots c = Inr 0" and rec: "\<not> recurrent c"
    using assms(1) by (auto simp: kv_plain_def kv_ok_def)
  let ?f = "div_cell s (norm_p0 p0) (norm_p1 p1) d"
  obtain h where st: "visit_cells ?f c = Inr (c', h)"
    using assms(3) rec False by (auto simp: llama_kv_cache_seq_div_def Let_def result_simps)
  obtain v where v: "c' = visited v (kv_size c) c" "kv_ok c'"
    "\<And>i. i < kv_size c \<Longrightarrow> ?f i (cells c ! i) = Inr (v i)"
    using visit_refines [OF ok st] div_cell_keeps [OF _ norm_bounds assms(2)] by (metis prod.inject)
  have "table c' = t_move s p0 p1 (\<lambda>p. p div d) (table c)"
    unfolding v(1) by (rule table_moved) (rule div_cell_moves [OF assms(2) v(3)])
  then show ?thesis using False v slots slots_s_l [of c' c] by (simp add: kv_plain_def)
qed (use assms in \<open>auto simp: llama_kv_cache_seq_div_def\<close>)

lemma clear_prefix:
  "k \<le> kv_size c \<Longrightarrow>
   fold (\<lambda>i. upd_cell i (\<lambda>cell. clear_seq (cell\<lparr>kpos := -1, ksrc := int i\<rparr>))) [0..<k] c =
   c\<lparr>cells := map (\<lambda>i. if i < k then clear_seq ((cells c ! i)\<lparr>kpos := -1, ksrc := int i\<rparr>)
                      else cells c ! i) [0..<kv_size c]\<rparr>"
proof (induction k)
  case 0
  then show ?case by (simp add: map_nth)
next
  case (Suc k)
  then show ?case by (auto simp: upd_cell_def map_upt_update less_Suc_eq intro!: map_cong)
qed

lemma clear_cells:
  "i < kv_size c \<Longrightarrow> cells (llama_kv_cache_clear c) ! i = clear_seq ((cells c ! i)\<lparr>kpos := -1, ksrc := int i\<rparr>)"
  "kv_size (llama_kv_cache_clear c) = kv_size c"
  using clear_prefix [of "kv_size c" c] by (simp_all add: llama_kv_cache_clear_def)

lemma clear_refines:
  assumes "kv_plain c"
  shows "kv_plain (llama_kv_cache_clear c)" "table (llama_kv_cache_clear c) = {}"
proof -
  have size: "kv_size (llama_kv_cache_clear c) = kv_size c" by (rule clear_cells)
  have frame: "s_l (llama_kv_cache_clear c) = s_l c" "recurrent (llama_kv_cache_clear c) = recurrent c"
    "head (llama_kv_cache_clear c) = 0" "used (llama_kv_cache_clear c) = 0"
    using clear_prefix [of "kv_size c" c] by (simp_all add: llama_kv_cache_clear_def)
  have free: "kpos (cells (llama_kv_cache_clear c) ! i) = -1" if "i < kv_size c" for i
    using clear_cells(1) [OF that] by simp
  have "count_used (cells (llama_kv_cache_clear c)) = 0"
    using free size by (fastforce simp: filter_empty_conv in_set_conv_nth)
  then have "kv_ok (llama_kv_cache_clear c)"
    using assms frame size clear_cells(1) [of _ c] cell_ok_freed(2)
    by (intro kv_okI) (auto simp: kv_plain_def kv_ok_def)
  then show "kv_plain (llama_kv_cache_clear c)"
    using assms slots_s_l [of "llama_kv_cache_clear c" c] frame by (simp add: kv_plain_def)
  show "table (llama_kv_cache_clear c) = {}" using size clear_cells(1) [of _ c] by (auto simp: table_def)
qed

lemma free_run_table:
  assumes "kv_ok c" and "free_run (cells c) n h"
  shows "t_free h n (table c)" "\<And>i. h \<le> i \<Longrightarrow> i < h + n \<Longrightarrow> seq_ids (cells c ! i) = {}"
proof -
  have free: "seq_ids (cells c ! i) = {}" if "h \<le> i" "i < h + n" for i
  proof -
    have "i - h < n" using that by linarith
    then have "kpos (cells c ! (h + (i - h))) < 0" "h + n \<le> kv_size c"
      using assms(2) unfolding free_run_def by blast+
    then show ?thesis using kv_ok_cell [OF assms(1), of i] that by (auto simp: cell_ok_def)
  qed
  then show "\<And>i. h \<le> i \<Longrightarrow> i < h + n \<Longrightarrow> seq_ids (cells c ! i) = {}" .
  have "i < h \<or> h + n \<le> i" if "s \<in> seq_ids (cells c ! i)" for i s
    using free [of i] that by (metis empty_iff not_le)
  then show "t_free h n (table c)" by (auto simp: t_free_def table_def)
qed

text \<open>What an allocator does to the table.\<close>

definition fits_in :: "llama_batch \<Rightarrow> llama_kv_cache \<Rightarrow> llama_kv_cache \<Rightarrow> bool" where
  "fits_in batch c c' \<longleftrightarrow> kv_plain c' \<and> kv_size c' = kv_size c \<and> head c' + length batch \<le> kv_size c \<and>
     t_free (head c') (length batch) (table c) \<and> table c' = t_place (head c') batch (table c)"

lemma stored_fits:
  assumes "kv_plain c" "batch_ok batch" "free_run (cells c) (length batch) h"
  shows "fits_in batch c (stored h batch c)"
proof -
  have ok: "kv_ok c" using assms(1) by (simp add: kv_plain_def)
  have "table (stored h batch c) = t_place h batch (table c)"
    unfolding table_def t_place_def
    using free_run_table(2) [OF ok assms(3)] assms(3) by (auto simp: place_token_def free_run_def split: if_splits)
  moreover have "kv_plain (stored h batch c)"
    using stored_ok [OF ok assms(2,3)] assms(1) slots_s_l [of "stored h batch c" c] by (simp add: kv_plain_def)
  ultimately show ?thesis
    using free_run_table(1) [OF ok assms(3)] assms(3) by (simp add: fits_in_def free_run_def)
qed

context slot_allocator
begin

lemma alloc_effect:
  assumes "kv_plain c" "batch_ok batch"
  obtains c' where "alloc c batch = Inr (True, c')" "fits_in batch c c'"
  | c' where "alloc c batch = Inr (False, c')" "kv_plain c'" "kv_size c' = kv_size c" "table c' = table c"
proof -
  have ok: "kv_ok c" using assms(1) by (simp add: kv_plain_def)
  show ?thesis
  proof (rule alloc_cases [OF ok, of batch])
    fix h assume "free_run (cells c) (length batch) h" "alloc c batch = Inr (True, stored h batch c)"
    then show ?thesis using that(1) stored_fits [OF assms] by blast
  next
    fix h assume r: "h \<le> kv_size c" "alloc c batch = Inr (False, c\<lparr>head := h\<rparr>)"
    have "kv_plain (c\<lparr>head := h\<rparr>)"
      using r(1) ok assms(1) slots_s_l [of "c\<lparr>head := h\<rparr>" c] by (simp add: kv_plain_def)
    then show ?thesis using that(2) [OF r(2)] by (simp add: table_def)
  qed
qed

end

lemma place_refines:
  assumes "kv_plain c" "batch_ok batch" "llama_kv_cache_find_slot c batch = Inr (found, c')"
  shows "kv_plain c'" "t_op (Place batch) (table c) (table c')"
proof (atomize (full), rule full_alloc.alloc_effect [OF assms(1,2)])
  fix c1 assume "llama_kv_cache_find_slot c batch = Inr (True, c1)" "fits_in batch c c1"
  then show "kv_plain c' \<and> t_op (Place batch) (table c) (table c')"
    using assms(3) by (auto simp: fits_in_def)
qed (use assms(3) in auto)

lemma advance_refines:
  assumes "kv_plain c"
  shows "kv_plain (advance_head n c)" "table (advance_head n c) = table c"
proof -
  have "kv_ok (advance_head n c)" using assms by (auto simp: kv_plain_def kv_ok_def advance_head_def Let_def)
  then show "kv_plain (advance_head n c)"
    using assms slots_s_l [of "advance_head n c" c] by (simp add: kv_plain_def advance_head_def Let_def)
  show "table (advance_head n c) = table c" by (simp add: table_def advance_head_def Let_def)
qed

section \<open>The cache is a refined machine\<close>

lemma kv_apply_step:
  assumes "kv_plain c" "legal_op x" "kv_apply x c = Inr c'"
  shows "kv_plain c' \<and> t_op x (table c) (table c')"
proof (cases x)
  case (Place batch)
  then obtain b where r: "llama_kv_cache_find_slot c batch = Inr (b, c')"
    using assms(3) by (auto simp: result_simps)
  have "batch_ok batch" using assms(2) Place by simp
  then show ?thesis using place_refines [OF assms(1) _ r] Place by simp
next
  case (Rm s p0 p1)
  then obtain b where r: "llama_kv_cache_seq_rm c s p0 p1 = Inr (b, c')"
    using assms(3) by (auto simp: result_simps)
  then show ?thesis using seq_rm_refines [OF assms(1) r] Rm by simp
next
  case (Cp s d p0 p1)
  then show ?thesis using seq_cp_refines [OF assms(1)] assms(3) by simp
next
  case (Keep s)
  then show ?thesis using seq_keep_refines [OF assms(1)] assms(3) by simp
next
  case (Add s p0 p1 dlt)
  then show ?thesis using seq_add_refines [OF assms(1)] assms(3) by simp
next
  case (Div s p0 p1 d)
  then show ?thesis using seq_div_refines [OF assms(1)] assms(2,3) by simp
next
  case Clear
  then show ?thesis using clear_refines [OF assms(1)] assms(3) by auto
next
  case (Advance n)
  then show ?thesis using advance_refines [OF assms(1)] assms(3) by auto
qed

lemma visit_total:
  assumes "\<And>i cell. \<exists>v. f i cell = Inr v"
  shows "\<exists>r. visit_cells f c = Inr r"
proof -
  obtain v where "\<And>i cell. f i cell = Inr (v i cell)" using assms by metis
  then show ?thesis using visit_cells_eq [of c f "\<lambda>i. v i (cells c ! i)"] by auto
qed

lemma kv_apply_safe:
  assumes "kv_plain c" "legal_op x" "\<not> may_overflow x"
  shows "\<exists>c'. kv_apply x c = Inr c'"
proof (cases x)
  case (Place batch)
  have "kv_ok c" using assms(1) by (simp add: kv_plain_def)
  then show ?thesis using Place by (auto intro: full_alloc.alloc_cases [of c batch])
next
  case (Rm s p0 p1)
  have "\<exists>r. visit_cells (rm_cell False s (norm_p0 p0) (norm_p1 p1)) c = Inr r"
    by (rule visit_total) (simp add: rm_cell_def Let_def)
  then show ?thesis using Rm assms(1)
    by (auto simp: llama_kv_cache_seq_rm_def Let_def llama_kv_has_qnext_state_storage_def kv_plain_def
        kv_ok_def)
next
  case (Cp s d p0 p1)
  have "\<exists>r. visit_cells (cp_cell s d (norm_p0 p0) (norm_p1 p1)) (c\<lparr>head := 0\<rparr>) = Inr r"
    by (rule visit_total) (simp add: cp_cell_def)
  then show ?thesis using Cp assms(1)
    by (auto simp: llama_kv_cache_seq_cp_def seq_cp_qnext_def llama_kv_has_qnext_state_storage_def
        llama_kv_qnext_seq_id_in_range_def kv_plain_def kv_ok_def)
next
  case (Keep s)
  have "\<exists>r. visit_cells (keep_cell False s) c = Inr r"
    by (rule visit_total) (simp add: keep_cell_def Let_def)
  then show ?thesis using Keep assms(1)
    by (auto simp: llama_kv_cache_seq_keep_def llama_kv_has_qnext_state_storage_def kv_plain_def)
qed (use assms in auto)

interpretation kv_machine: refined_machine kv_apply t_op kv_plain table legal_op may_overflow
  by unfold_locales (simp_all add: kv_apply_step kv_apply_safe)

lemma kv_plain_empty_cache: "m < 1073741824 \<Longrightarrow> kv_plain (empty_cache m)"
  using kv_ok_empty_cache [of m] by (simp add: kv_plain_def empty_cache_def llama_kv_qnext_state_slots_def)

text \<open>C22. Starting from an empty cache of fewer than \<open>2\<^sup>3\<^sup>0\<close> cells without recurrent state, every
  sequence of placements, removals, copies, keeps, clears and head movements runs through (no
  assertion fires, no loop runs on, nothing is accessed out of range), and with moves of positions
  added every state that is reached keeps the invariant: a cell has a position exactly when it has an
  owner, its shadow is in step, the counter \<open>used\<close> is the number of cells in use and the head stays
  within the cache.\<close>

theorem kv_reachable_ok:
  assumes "m < 1073741824" and "list_all legal_op ops"
  shows "(list_all (\<lambda>x. \<not> may_overflow x) ops \<longrightarrow> (\<exists>c. rfold kv_apply ops (empty_cache m) = Inr c)) \<and>
    (\<forall>c. rfold kv_apply ops (empty_cache m) = Inr c \<longrightarrow> kv_ok c)"
  using kv_machine.run_total [OF kv_plain_empty_cache [OF assms(1)] assms(2)]
    kv_machine.run_keeps [OF kv_plain_empty_cache [OF assms(1)] assms(2)]
  by (auto simp: kv_plain_def)

definition two_ops :: "kv_op list" where
  "two_ops = [Place [\<lparr>tok_pos = 0, tok_seqs = [1]\<rparr>, \<lparr>tok_pos = 1, tok_seqs = [1]\<rparr>], Cp 1 2 0 (-1), Rm 1 1 (-1)]"

lemma two_ops_legal: "list_all legal_op two_ops" "list_all (\<lambda>x. \<not> may_overflow x) two_ops"
  by (simp_all add: two_ops_def batch_ok_def INT32_MAX_def)

theorem kv_reachable_ok_witness:
  "\<exists>c. rfold kv_apply two_ops (empty_cache 8) = Inr c \<and> kv_ok c"
  using kv_reachable_ok [of 8, OF _ two_ops_legal(1)] two_ops_legal(2) by fastforce

text \<open>C23. Every run of operations on a well-formed cache changes the table of its entries the way the
  abstract operations do: a placement adds the tokens of the batch in cells that held nothing (or
  nothing at all), a removal takes away exactly the entries of the sequence in the range, a copy adds
  the entries of the source in the range to the destination, a keep drops all other sequences, moving
  and dividing positions changes the cells of the sequence in the range and drops what would become
  negative, and clearing empties the table.\<close>

theorem kv_run_refines:
  assumes "kv_plain c" and "list_all legal_op ops" and "rfold kv_apply ops c = Inr c'"
  shows "aruns t_op ops (table c) (table c')"
  by (rule kv_machine.run_refines [OF assms])

theorem kv_run_refines_witness:
  "\<exists>c'. rfold kv_apply [Rm 1 0 (-1), Keep 2] (empty_cache 2) = Inr c' \<and>
     aruns t_op [Rm 1 0 (-1), Keep 2] (table (empty_cache 2)) (table c')"
proof -
  have p: "kv_plain (empty_cache 2)" by (rule kv_plain_empty_cache) simp
  have l: "list_all legal_op [Rm 1 0 (-1), Keep 2]" by simp
  obtain c' where "rfold kv_apply [Rm 1 0 (-1), Keep 2] (empty_cache 2) = Inr c'"
    using kv_machine.run_total [OF p l] by auto
  then show ?thesis using kv_run_refines [OF p l] by blast
qed

section \<open>Behaviour outside the invariant\<close>

text \<open>With recurrent state (\<open>s_l\<close>), \<open>llama_kv_cache_seq_cp\<close> writes the position of the cell whose
  index is the source sequence into the cell whose index is the destination sequence. Here a free
  cell is left with a position and no owner: it is never free again for the allocator, and it is not
  counted as used.\<close>

definition qnext_cache :: llama_kv_cache where
  "qnext_cache = (empty_cache 4)\<lparr>s_l := [Some 4], hybrid := True, used := 1,
     cells := [add_seq 0 (new_cell\<lparr>kpos := 3\<rparr>), new_cell\<lparr>ksrc := 1\<rparr>, new_cell\<lparr>ksrc := 2\<rparr>, new_cell\<lparr>ksrc := 3\<rparr>]\<rparr>"

lemma qnext_copy_breaks_invariant:
  "kv_ok qnext_cache"
  "\<exists>c'. llama_kv_cache_seq_cp qnext_cache 0 2 0 (-1) = Inr c' \<and>
     kpos (cells c' ! 2) = 3 \<and> cell_is_empty (cells c' ! 2) \<and> \<not> kv_ok c'"
proof -
  show "kv_ok qnext_cache"
    by (simp add: kv_ok_def qnext_cache_def empty_cache_def cell_ok_def new_cell_def INT32_MAX_def
        in_step_def add_seq_def sync_shadow_def)
  show "\<exists>c'. llama_kv_cache_seq_cp qnext_cache 0 2 0 (-1) = Inr c' \<and>
     kpos (cells c' ! 2) = 3 \<and> cell_is_empty (cells c' ! 2) \<and> \<not> kv_ok c'"
    by (simp add: llama_kv_cache_seq_cp_def seq_cp_qnext_def llama_kv_has_qnext_state_storage_def
        llama_kv_qnext_seq_id_in_range_def llama_kv_qnext_state_slots_def qnext_cache_def
        empty_cache_def Let_def rassert_def upd_cell_def visit_cells_def visit_cell_def cp_cell_def
        has_seq_id_def add_seq_def sync_shadow_def new_cell_def norm_p0_def norm_p1_def INT32_MAX_def
        cell_is_empty_def kv_ok_def cell_ok_def upt_conv_Cons)
qed

text \<open>\<open>llama_kv_cache_seq_pos_min\<close> returns the position of the first cell of the sequence, which is not
  the smallest one when a later cell has been filled first.\<close>

lemma pos_min_is_first:
  "llama_kv_cache_seq_pos_min_loop [add_seq 0 (new_cell\<lparr>kpos := 7\<rparr>), add_seq 0 (new_cell\<lparr>kpos := 3\<rparr>)] 0 = 7"
  by (simp add: has_seq_id_def)

end
