(* ===== verification/Kv_Swa.thy ===== *)
theory Kv_Swa
  imports Kv_Table
begin

text \<open>
  The two caches of a context: the full cache \<open>kv_self\<close> and the sliding-window cache \<open>kv_swa\<close>
  (\<open>llama_kv_swa_*\<close> and the public \<open>llama_kv_cache_*\<close> functions of \<open>src/llama.cpp\<close>), and the part of
  the decode loop that places a batch in both. The window cache is bounded: it drops the cells no
  query can reach any more, and the theorems are the safety case that its comments argue: nothing a
  later query reads is dropped, both caches take a batch or none does, and a removal that would leave
  a hole in a window is refused.
\<close>

section \<open>Definitions\<close>

record llama_context =
  kv_self :: llama_kv_cache
  kv_swa :: llama_kv_cache
  swa_kv_active :: bool
  n_swa :: nat
  swa_kv_guard :: nat
  flash_attn :: bool

definition llama_kv_swa_seq_pos_max :: "llama_kv_cache \<Rightarrow> int \<Rightarrow> int" where
  "llama_kv_swa_seq_pos_max c s =
     fold (\<lambda>cell r. if kpos cell \<ge> 0 \<and> has_seq_id s cell then max r (kpos cell) else r) (cells c) (-1)"

text \<open>Eviction. The reference position of a sequence is the earliest one that can still be asked: the
  first one in the batch, or the last one in the cache for a sequence that is not in the batch.\<close>

definition ref_of_cell :: "llama_kv_cell \<Rightarrow> (int \<rightharpoonup> int) \<Rightarrow> (int \<rightharpoonup> int)" where
  "ref_of_cell cell m =
     (if kpos cell < 0 then m
      else fold (\<lambda>s m. case m s of
                    None \<Rightarrow> m(s \<mapsto> kpos cell)
                  | Some q \<Rightarrow> if q < kpos cell then m(s \<mapsto> kpos cell) else m)
             (sorted_list_of_set (seq_ids cell)) m)"

definition first_in_batch :: "llama_batch \<Rightarrow> (int \<rightharpoonup> int)" where
  "first_in_batch batch =
     fold (\<lambda>(p, s) m. case m s of
              None \<Rightarrow> m(s \<mapsto> p)
            | Some q \<Rightarrow> if q > p then m(s \<mapsto> p) else m)
       (batch_pairs batch) Map.empty"

definition reference :: "llama_kv_cell list \<Rightarrow> llama_batch \<Rightarrow> (int \<rightharpoonup> int)" where
  "reference cs batch = fold ref_of_cell cs Map.empty ++ first_in_batch batch"

fun any_live :: "(int \<rightharpoonup> int) \<Rightarrow> int \<Rightarrow> int \<Rightarrow> int list \<Rightarrow> bool result" where
  "any_live ref p n_keep [] = Inr False"
| "any_live ref p n_keep (s # ss) =
     (case ref s of
        None \<Rightarrow> Inr True
      | Some q \<Rightarrow> rbind (i32 (q - p)) (\<lambda>d. if d < n_keep then Inr True else any_live ref p n_keep ss))"

definition evict_cell :: "(int \<rightharpoonup> int) \<Rightarrow> int \<Rightarrow> nat \<Rightarrow> llama_kv_cell \<Rightarrow> cell_visit result" where
  "evict_cell ref n_keep i cell =
     (if kpos cell < 0 \<or> cell_is_empty cell then Inr (skip cell)
      else rbind (any_live ref (kpos cell) n_keep (sorted_list_of_set (seq_ids cell))) (\<lambda>live.
        if live then Inr (skip cell)
        else Inr \<lparr>vcell = (clear_seq cell)\<lparr>kpos := -1, kdelta := 0\<rparr>, vdec = True, vhead = True,
                  vshift = False\<rparr>))"

definition llama_kv_swa_evict :: "llama_context \<Rightarrow> llama_batch \<Rightarrow> nat \<Rightarrow> llama_context result" where
  "llama_kv_swa_evict ctx batch guard =
     (if \<not> swa_kv_active ctx then Inr ctx
      else
        rbind (i32 (i32_of_u32 (n_swa ctx) + i32_of_u32 guard)) (\<lambda>n_keep.
        rbind (visit_cells (evict_cell (reference (cells (kv_swa ctx)) batch) n_keep) (kv_swa ctx)) (\<lambda>st.
        Inr (ctx\<lparr>kv_swa := lower_head st\<rparr>))))"

text \<open>The allocator of the window cache.\<close>

primrec swa_slot_loop ::
  "nat \<Rightarrow> llama_kv_cell list \<Rightarrow> nat \<Rightarrow> nat \<Rightarrow> nat \<Rightarrow> (bool \<times> nat) result" where
  "swa_slot_loop 0 cs n h tested = Inl OutOfFuel"
| "swa_slot_loop (Suc fuel) cs n h tested =
     (if u32_add h n > length cs then
        (if u32_add tested (u32_sub (length cs) h) \<ge> length cs then Inr (False, 0)
         else swa_slot_loop fuel cs n 0 (u32_add tested (u32_sub (length cs) h)))
      else
        rbind (first_used cs h 0 n) (\<lambda>r. case r of
          None \<Rightarrow> Inr (True, h)
        | Some i \<Rightarrow>
            (if u32_add tested (i + 1) \<ge> length cs then Inr (False, u32_add h (i + 1))
             else swa_slot_loop fuel cs n (u32_add h (i + 1)) (u32_add tested (i + 1)))))"

definition llama_kv_swa_find_slot ::
  "llama_kv_cache \<Rightarrow> llama_batch \<Rightarrow> (bool \<times> llama_kv_cache) result" where
  "llama_kv_swa_find_slot c batch =
     (let n = length batch in
      if n > kv_size c then Inr (False, c)
      else rbind (swa_slot_loop (2 * kv_size c + 2) (cells c) n (head c) 0) (\<lambda>(found, h).
        if \<not> found then Inr (False, c\<lparr>head := h\<rparr>)
        else let c1 = place_batch h batch (c\<lparr>head := h\<rparr>) in
          Inr (True, c1\<lparr>used := u32_add (used c1) n\<rparr>)))"

definition release_cell :: "nat \<Rightarrow> llama_kv_cache \<Rightarrow> llama_kv_cache" where
  "release_cell i c =
     (if kpos (cells c ! i) \<ge> 0
      then (upd_cell i (\<lambda>cell. clear_seq (cell\<lparr>kpos := -1, kdelta := 0\<rparr>)) c)\<lparr>used := u32_dec (used c)\<rparr>
      else c)"

function release_loop :: "nat \<Rightarrow> nat \<Rightarrow> nat \<Rightarrow> llama_kv_cache \<Rightarrow> llama_kv_cache" where
  "release_loop h i n c =
     (if i < n \<and> u32_add h i < kv_size c then release_loop h (Suc i) n (release_cell (u32_add h i) c) else c)"
  by pat_completeness auto
termination by (relation "measure (\<lambda>(h, i, n, c). n - i)") auto

declare release_loop.simps [simp del]

definition llama_kv_swa_release_slot :: "llama_kv_cache \<Rightarrow> nat \<Rightarrow> nat \<Rightarrow> llama_kv_cache" where
  "llama_kv_swa_release_slot c h n = release_loop h 0 n c"

text \<open>Does the window cache hold every position the window of the sequence can read?\<close>

definition mark_seen :: "int \<Rightarrow> int \<Rightarrow> int \<Rightarrow> llama_kv_cell \<Rightarrow> bool list \<Rightarrow> bool list" where
  "mark_seen lo pmax s cell seen =
     (if kpos cell \<ge> lo \<and> kpos cell \<le> pmax \<and> has_seq_id s cell
      then seen[nat (kpos cell - lo) := True] else seen)"

definition llama_kv_swa_coverage_ok :: "llama_context \<Rightarrow> int \<Rightarrow> bool result" where
  "llama_kv_swa_coverage_ok ctx s =
     (if \<not> swa_kv_active ctx then Inr True
      else let cache = kv_swa ctx; pmax = llama_kv_swa_seq_pos_max cache s in
      if pmax < 0 then Inr True
      else
        rbind (i32 (pmax - i32_of_u32 (n_swa ctx))) (\<lambda>d.
        rbind (i32 (d + 1)) (\<lambda>d1.
        let lo = max 0 d1 in
        if pmax - lo + 1 < 0 then Inl (Throw ''cannot create std::vector larger than max_size()'')
        else Inr (list_all id (fold (mark_seen lo pmax s) (cells cache)
               (replicate (nat (pmax - lo + 1)) False))))))"

section \<open>The operations of a context\<close>

definition llama_kv_cache_clear_ctx :: "llama_context \<Rightarrow> llama_context" where
  "llama_kv_cache_clear_ctx ctx =
     (let ctx1 = ctx\<lparr>kv_self := llama_kv_cache_clear (kv_self ctx)\<rparr> in
      if swa_kv_active ctx1 then ctx1\<lparr>kv_swa := llama_kv_cache_clear (kv_swa ctx1)\<rparr> else ctx1)"

text \<open>The lambda \<open>check\<close> of the removal: a sequence whose window has a hole is wiped from both caches.\<close>

definition check_window :: "int \<Rightarrow> llama_context \<Rightarrow> (bool \<times> llama_context) result" where
  "check_window s ctx =
     rbind (llama_kv_swa_coverage_ok ctx s) (\<lambda>ok.
     if ok then Inr (True, ctx)
     else rbind (llama_kv_cache_seq_rm (kv_swa ctx) s (-1) (-1)) (\<lambda>(_, swa).
       rbind (llama_kv_cache_seq_rm (kv_self ctx) s (-1) (-1)) (\<lambda>(_, slf).
       Inr (False, ctx\<lparr>kv_swa := swa, kv_self := slf\<rparr>))))"

fun check_windows :: "int list \<Rightarrow> bool \<Rightarrow> llama_context \<Rightarrow> (bool \<times> llama_context) result" where
  "check_windows [] all_ok ctx = Inr (all_ok, ctx)"
| "check_windows (s # ss) all_ok ctx =
     rbind (check_window s ctx) (\<lambda>(ok, ctx1). check_windows ss (all_ok \<and> ok) ctx1)"

definition llama_kv_cache_seq_rm_ctx ::
  "llama_context \<Rightarrow> int \<Rightarrow> int \<Rightarrow> int \<Rightarrow> (bool \<times> llama_context) result" where
  "llama_kv_cache_seq_rm_ctx ctx s p0 p1 =
     rbind (llama_kv_cache_seq_rm (kv_self ctx) s p0 p1) (\<lambda>(ok, slf).
     let ctx1 = ctx\<lparr>kv_self := slf\<rparr> in
     if \<not> swa_kv_active ctx1 then Inr (ok, ctx1)
     else rbind (llama_kv_cache_seq_rm (kv_swa ctx1) s p0 p1) (\<lambda>(ok_swa, swa).
       let ctx2 = ctx1\<lparr>kv_swa := swa\<rparr> in
       if s \<ge> 0 then
         rbind (check_window s ctx2) (\<lambda>(good, ctx3).
         if \<not> good then Inr (False, ctx3) else Inr (ok \<and> ok_swa, ctx3))
       else
         let seqs = sorted_list_of_set (\<Union>cell \<in> set (cells (kv_swa ctx2)). seq_ids cell) in
         rbind (check_windows seqs True ctx2) (\<lambda>(all_ok, ctx3).
         if \<not> all_ok then Inr (False, ctx3) else Inr (ok \<and> ok_swa, ctx3))))"

definition both_caches ::
  "(llama_kv_cache \<Rightarrow> llama_kv_cache result) \<Rightarrow> llama_context \<Rightarrow> llama_context result" where
  "both_caches f ctx =
     rbind (f (kv_self ctx)) (\<lambda>slf.
     let ctx1 = ctx\<lparr>kv_self := slf\<rparr> in
     if swa_kv_active ctx1 then rbind (f (kv_swa ctx1)) (\<lambda>swa. Inr (ctx1\<lparr>kv_swa := swa\<rparr>))
     else Inr ctx1)"

definition llama_kv_cache_seq_cp_ctx ::
  "llama_context \<Rightarrow> int \<Rightarrow> int \<Rightarrow> int \<Rightarrow> int \<Rightarrow> llama_context result" where
  "llama_kv_cache_seq_cp_ctx ctx s d p0 p1 =
     (if s = d then Inr ctx else both_caches (\<lambda>c. llama_kv_cache_seq_cp c s d p0 p1) ctx)"

definition llama_kv_cache_seq_keep_ctx :: "llama_context \<Rightarrow> int \<Rightarrow> llama_context result" where
  "llama_kv_cache_seq_keep_ctx ctx s = both_caches (\<lambda>c. llama_kv_cache_seq_keep c s) ctx"

definition llama_kv_cache_seq_add_ctx ::
  "llama_context \<Rightarrow> int \<Rightarrow> int \<Rightarrow> int \<Rightarrow> int \<Rightarrow> llama_context result" where
  "llama_kv_cache_seq_add_ctx ctx s p0 p1 dlt =
     (if dlt = 0 then Inr ctx else both_caches (\<lambda>c. llama_kv_cache_seq_add c s p0 p1 dlt) ctx)"

definition llama_kv_cache_seq_div_ctx ::
  "llama_context \<Rightarrow> int \<Rightarrow> int \<Rightarrow> int \<Rightarrow> int \<Rightarrow> llama_context result" where
  "llama_kv_cache_seq_div_ctx ctx s p0 p1 d =
     (if d = 1 then Inr ctx else both_caches (\<lambda>c. llama_kv_cache_seq_div c s p0 p1 d) ctx)"

definition llama_kv_cache_seq_pos_max_ctx :: "llama_context \<Rightarrow> int \<Rightarrow> int" where
  "llama_kv_cache_seq_pos_max_ctx ctx s = llama_kv_cache_seq_pos_max (kv_self ctx) s"

definition llama_kv_cache_seq_pos_min_ctx :: "llama_context \<Rightarrow> int \<Rightarrow> int" where
  "llama_kv_cache_seq_pos_min_ctx ctx s =
     (if hybrid (kv_self ctx) \<or> recurrent (kv_self ctx) then llama_kv_cache_seq_pos_max (kv_self ctx) s
      else llama_kv_cache_seq_pos_min (kv_self ctx) s)"

definition llama_kv_cache_defrag_ctx :: "llama_context \<Rightarrow> llama_context" where
  "llama_kv_cache_defrag_ctx ctx = ctx\<lparr>kv_self := llama_kv_cache_defrag (kv_self ctx)\<rparr>"

section \<open>Placing a batch in both caches\<close>

definition ggml_pad :: "nat \<Rightarrow> nat \<Rightarrow> nat" where
  "ggml_pad x n = (x + n - 1) div n * n"

definition window_of :: "nat \<Rightarrow> nat \<Rightarrow> nat \<Rightarrow> nat" where
  "window_of sz pad max_cell = min sz (max pad (ggml_pad max_cell pad))"

definition rewind_head :: "nat \<Rightarrow> llama_kv_cache \<Rightarrow> llama_kv_cache" where
  "rewind_head n_tokens c = (if head c > u32_add (used c) (2 * n_tokens) then c\<lparr>head := 0\<rparr> else c)"

text \<open>The window cache comes first, with a second attempt without the guard band. The result is the
  return value of the decode call, \<open>0\<close> standing for going on.\<close>

definition place_swa :: "llama_context \<Rightarrow> llama_batch \<Rightarrow> (bool \<times> llama_context) result" where
  "place_swa ctx batch =
     rbind (llama_kv_swa_evict ctx batch (swa_kv_guard ctx)) (\<lambda>ctx1.
     rbind (llama_kv_swa_find_slot (kv_swa ctx1) batch) (\<lambda>(ok1, swa1).
     let ctx2 = ctx1\<lparr>kv_swa := swa1\<rparr> in
     if ok1 then Inr (True, ctx2)
     else
       rbind (llama_kv_swa_evict ctx2 batch 0) (\<lambda>ctx3.
       rbind (llama_kv_swa_find_slot (kv_swa ctx3) batch) (\<lambda>(ok2, swa2).
       Inr (ok2, ctx3\<lparr>kv_swa := swa2\<rparr>)))))"

definition set_window_swa :: "llama_context \<Rightarrow> llama_context" where
  "set_window_swa ctx =
     (let pad = llama_kv_cache_get_padding (flash_attn ctx); c = kv_swa ctx in
      ctx\<lparr>kv_swa := c\<lparr>kv_n := window_of (kv_size c) pad (llama_kv_cache_cell_max c)\<rparr>\<rparr>)"

definition place_self :: "nat option \<Rightarrow> llama_context \<Rightarrow> llama_batch \<Rightarrow> (int \<times> llama_context) result" where
  "place_self swa_head ctx batch =
     rbind (llama_kv_cache_find_slot (kv_self ctx) batch) (\<lambda>(ok, slf).
     let ctx1 = ctx\<lparr>kv_self := slf\<rparr> in
     if \<not> ok then
       Inr (1, case swa_head of
                 Some h \<Rightarrow> ctx1\<lparr>kv_swa := llama_kv_swa_release_slot (kv_swa ctx1) h (length batch)\<rparr>
               | None \<Rightarrow> ctx1)
     else if recurrent slf then Inr (0, ctx1)
     else
       let pad = llama_kv_cache_get_padding (flash_attn ctx) in
       rbind (llama_kv_cache_cell_max_pad slf pad) (\<lambda>max_cell.
       Inr (0, ctx1\<lparr>kv_self := slf\<lparr>kv_n := window_of (kv_size slf) pad max_cell\<rparr>\<rparr>)))"

definition place_ubatch :: "llama_context \<Rightarrow> llama_batch \<Rightarrow> (int \<times> llama_context) result" where
  "place_ubatch ctx batch =
     (let ctx0 = ctx\<lparr>kv_self := rewind_head (length batch) (kv_self ctx)\<rparr> in
      if swa_kv_active ctx0 then
        rbind (place_swa ctx0 batch) (\<lambda>(ok, ctx1).
        if \<not> ok then Inr (1, ctx1)
        else place_self (Some (head (kv_swa ctx1))) (set_window_swa ctx1) batch)
      else place_self None ctx0 batch)"

section \<open>The two allocators agree\<close>

interpretation swa_search: ring_search "\<lambda>cs n fuel. swa_slot_loop fuel cs n" True
  by unfold_locales (simp only: swa_slot_loop.simps simp_thms)

interpretation swa_alloc: slot_allocator llama_kv_swa_find_slot
proof
  fix c batch assume "kv_ok c"
  from swa_search.search_is_first_fit [OF this, of batch]
  show "first_fit c batch (llama_kv_swa_find_slot c batch)"
    unfolding llama_kv_swa_find_slot_def by (simp only: Let_def)
qed



section \<open>Eviction\<close>

text \<open>The positions that can still be asked for a sequence: from its first one in the batch on when it
  is in the batch, and none below what the cache holds otherwise.\<close>

definition may_ask :: "llama_kv_cell list \<Rightarrow> llama_batch \<Rightarrow> int \<Rightarrow> int \<Rightarrow> bool" where
  "may_ask cs batch s p \<longleftrightarrow>
     (if \<exists>q. (q, s) \<in> set (batch_pairs batch) then \<exists>q. (q, s) \<in> set (batch_pairs batch) \<and> q \<le> p
      else \<forall>cell \<in> set cs. s \<in> seq_ids cell \<longrightarrow> kpos cell \<le> p)"

definition raise_to :: "int \<Rightarrow> int \<Rightarrow> (int \<rightharpoonup> int) \<Rightarrow> (int \<rightharpoonup> int)" where
  "raise_to p s m = (case m s of None \<Rightarrow> m(s \<mapsto> p) | Some q \<Rightarrow> if q < p then m(s \<mapsto> p) else m)"

lemma raise_to_simps:
  "raise_to p s m s = Some (case m s of None \<Rightarrow> p | Some q \<Rightarrow> max p q)"
  "t \<noteq> s \<Longrightarrow> raise_to p s m t = m t"
  by (auto simp: raise_to_def split: option.splits)

lemma fold_raise:
  "fold (raise_to p) ss m t =
     (if t \<in> set ss then Some (case m t of None \<Rightarrow> p | Some q \<Rightarrow> max p q) else m t)"
proof (induction ss arbitrary: m)
  case (Cons s ss)
  show ?case
  proof (cases "t = s")
    case True
    then show ?thesis using Cons [of "raise_to p s m"] by (auto simp: raise_to_simps split: option.splits)
  next
    case False
    then show ?thesis using Cons [of "raise_to p s m"] by (simp add: raise_to_simps)
  qed
qed simp

lemma ref_of_cell_at:
  assumes "cell_ok cell"
  shows "ref_of_cell cell m t =
    (if t \<in> seq_ids cell then Some (case m t of None \<Rightarrow> kpos cell | Some q \<Rightarrow> max (kpos cell) q) else m t)"
proof -
  have "ref_of_cell cell m = (if kpos cell < 0 then m
      else fold (raise_to (kpos cell)) (sorted_list_of_set (seq_ids cell)) m)"
    by (simp add: ref_of_cell_def raise_to_def [abs_def])
  moreover have "finite (seq_ids cell)" using assms by (simp add: cell_ok_fields)
  moreover have "kpos cell < 0 \<Longrightarrow> t \<notin> seq_ids cell" using assms by (auto simp: cell_ok_fields)
  ultimately show ?thesis by (simp add: fold_raise)
qed

lemma fold_ref_of_cell:
  assumes "\<forall>cell \<in> set cs. cell_ok cell"
  shows "(\<forall>cell \<in> set cs. t \<in> seq_ids cell \<longrightarrow> (\<exists>q. fold ref_of_cell cs m t = Some q \<and> kpos cell \<le> q)) \<and>
    (\<forall>q. m t = Some q \<longrightarrow> (\<exists>q'. fold ref_of_cell cs m t = Some q' \<and> q \<le> q')) \<and>
    (\<forall>q. fold ref_of_cell cs m t = Some q \<longrightarrow>
       m t = Some q \<or> (\<exists>cell \<in> set cs. t \<in> seq_ids cell \<and> kpos cell = q))"
  using assms
proof (induction cs arbitrary: m)
  case (Cons cell cs)
  let ?m = "ref_of_cell cell m"
  have at: "?m t = (if t \<in> seq_ids cell then Some (case m t of None \<Rightarrow> kpos cell | Some q \<Rightarrow> max (kpos cell) q)
      else m t)"
    using Cons.prems by (intro ref_of_cell_at) simp
  note IH = Cons.IH [of ?m]
  have all: "\<forall>cell \<in> set cs. cell_ok cell" using Cons.prems by simp
  have 1: "\<exists>q. fold ref_of_cell cs ?m t = Some q \<and> kpos cell \<le> q" if "t \<in> seq_ids cell"
  proof -
    have "?m t = Some (case m t of None \<Rightarrow> kpos cell | Some q \<Rightarrow> max (kpos cell) q)" using at that by simp
    moreover have "kpos cell \<le> (case m t of None \<Rightarrow> kpos cell | Some q \<Rightarrow> max (kpos cell) q)"
      by (simp split: option.split)
    ultimately show ?thesis using IH [OF all] order_trans by blast
  qed
  have 2: "\<exists>q'. fold ref_of_cell cs ?m t = Some q' \<and> q \<le> q'" if "m t = Some q" for q
  proof -
    have "?m t = Some (if t \<in> seq_ids cell then max (kpos cell) q else q)" using at that by simp
    moreover have "q \<le> (if t \<in> seq_ids cell then max (kpos cell) q else q)" by simp
    ultimately show ?thesis using IH [OF all] order_trans by blast
  qed
  have 3: "m t = Some q \<or> t \<in> seq_ids cell \<and> kpos cell = q" if "?m t = Some q" for q
    using at that by (auto simp: max_def split: option.splits if_splits)
  show ?case using IH [OF all] 1 2 3 by auto
qed simp

definition lower_to :: "int \<times> int \<Rightarrow> (int \<rightharpoonup> int) \<Rightarrow> (int \<rightharpoonup> int)" where
  "lower_to x m = (case x of (p, s) \<Rightarrow>
     (case m s of None \<Rightarrow> m(s \<mapsto> p) | Some q \<Rightarrow> if q > p then m(s \<mapsto> p) else m))"

lemma fold_lower:
  "(\<forall>q. fold lower_to ps m t = Some q \<longrightarrow>
      (m t = Some q \<or> (q, t) \<in> set ps) \<and> (\<forall>p. (p, t) \<in> set ps \<longrightarrow> q \<le> p) \<and> (\<forall>p. m t = Some p \<longrightarrow> q \<le> p)) \<and>
   (fold lower_to ps m t = None \<longrightarrow> m t = None \<and> (\<forall>p. (p, t) \<notin> set ps))"
proof (induction ps arbitrary: m)
  case (Cons x ps)
  obtain p s where x: "x = (p, s)" by (cases x)
  show ?case
  proof (cases "t = s")
    case True
    have "lower_to x m t = Some (case m t of None \<Rightarrow> p | Some q \<Rightarrow> min p q)"
      by (auto simp: lower_to_def x True split: option.splits)
    then show ?thesis using Cons.IH [of "lower_to x m"] True x
      by (fastforce simp: min_def split: option.splits if_splits)
  next
    case False
    have "lower_to x m t = m t" using False by (auto simp: lower_to_def x split: option.splits)
    then show ?thesis using Cons.IH [of "lower_to x m"] False x by auto
  qed
qed simp

lemma first_in_batch_spec:
  "first_in_batch batch t = Some q \<Longrightarrow>
     (q, t) \<in> set (batch_pairs batch) \<and> (\<forall>p. (p, t) \<in> set (batch_pairs batch) \<longrightarrow> q \<le> p)"
  "first_in_batch batch t = None \<Longrightarrow> (p, t) \<notin> set (batch_pairs batch)"
proof -
  have eq: "first_in_batch batch = fold lower_to (batch_pairs batch) Map.empty"
    unfolding first_in_batch_def by (rule arg_cong2 [where f = "\<lambda>f. fold f (batch_pairs batch)"])
      (auto simp: lower_to_def fun_eq_iff)
  show "first_in_batch batch t = Some q \<Longrightarrow>
     (q, t) \<in> set (batch_pairs batch) \<and> (\<forall>p. (p, t) \<in> set (batch_pairs batch) \<longrightarrow> q \<le> p)"
    using fold_lower [of "batch_pairs batch" Map.empty t] by (auto simp: eq)
  show "first_in_batch batch t = None \<Longrightarrow> (p, t) \<notin> set (batch_pairs batch)"
    using fold_lower [of "batch_pairs batch" Map.empty t] by (auto simp: eq)
qed

text \<open>The reference position of an owner can be asked, and no earlier one can.\<close>

lemma reference_spec:
  assumes "\<forall>cell \<in> set cs. cell_ok cell" "cell \<in> set cs" "s \<in> seq_ids cell"
  obtains q where "reference cs batch s = Some q" "may_ask cs batch s q"
    "\<And>p. may_ask cs batch s p \<Longrightarrow> q \<le> p"
    "(q, s) \<in> set (batch_pairs batch) \<or> (\<exists>cell \<in> set cs. s \<in> seq_ids cell \<and> kpos cell = q)"
proof (cases "first_in_batch batch s")
  case None
  have absent: "\<not> (\<exists>q. (q, s) \<in> set (batch_pairs batch))" using first_in_batch_spec(2) [OF None] by blast
  obtain q where q: "fold ref_of_cell cs Map.empty s = Some q"
    using fold_ref_of_cell [OF assms(1), of s Map.empty] assms(2,3) by blast
  have up: "\<forall>cell \<in> set cs. s \<in> seq_ids cell \<longrightarrow> kpos cell \<le> q"
    and ex: "\<exists>cell \<in> set cs. s \<in> seq_ids cell \<and> kpos cell = q"
    using fold_ref_of_cell [OF assms(1), of s Map.empty] q by auto
  have "reference cs batch s = Some q" using None q by (simp add: reference_def map_add_def)
  then show ?thesis using that [of q] absent up ex by (auto simp: may_ask_def)
next
  case (Some q)
  then have "reference cs batch s = Some q" by (simp add: reference_def map_add_def)
  moreover have inb: "(q, s) \<in> set (batch_pairs batch)"
    and least: "\<And>p. (p, s) \<in> set (batch_pairs batch) \<Longrightarrow> q \<le> p"
    using first_in_batch_spec(1) [OF Some] by auto
  moreover have "may_ask cs batch s p \<longleftrightarrow> (\<exists>q. (q, s) \<in> set (batch_pairs batch) \<and> q \<le> p)" for p
    using inb by (auto simp: may_ask_def)
  ultimately show ?thesis using that [of q] order_trans by blast
qed

lemma batch_pairs_bounds:
  "batch_ok batch \<Longrightarrow> (q, s) \<in> set (batch_pairs batch) \<Longrightarrow> 0 \<le> q \<and> q \<le> INT32_MAX"
  by (auto simp: batch_ok_def batch_pairs_def)

lemma any_live_spec:
  assumes "\<forall>s \<in> set ss. \<exists>q. ref s = Some q \<and> 0 \<le> q \<and> q \<le> INT32_MAX" "0 \<le> p" "p \<le> INT32_MAX"
  shows "any_live ref p n_keep ss = Inr (\<exists>s \<in> set ss. \<exists>q. ref s = Some q \<and> q - p < n_keep)"
  using assms by (induction ss) (auto simp: i32_def INT32_MAX_def)

definition evicted :: "llama_kv_cell \<Rightarrow> cell_visit" where
  "evicted cell = \<lparr>vcell = (clear_seq cell)\<lparr>kpos := -1, kdelta := 0\<rparr>, vdec = True, vhead = True, vshift = False\<rparr>"

definition still_needed :: "llama_kv_cell list \<Rightarrow> llama_batch \<Rightarrow> int \<Rightarrow> llama_kv_cell \<Rightarrow> bool" where
  "still_needed cs batch n_keep cell \<longleftrightarrow>
     (\<exists>s \<in> seq_ids cell. \<exists>p. may_ask cs batch s p \<and> p - kpos cell < n_keep)"

lemma evict_cell_eq:
  assumes ok: "\<forall>cell \<in> set cs. cell_ok cell" and "cell \<in> set cs" "batch_ok batch"
  shows "evict_cell (reference cs batch) n_keep i cell =
    Inr (if kpos cell < 0 \<or> still_needed cs batch n_keep cell then skip cell else evicted cell)"
proof (cases "kpos cell < 0")
  case False
  have c: "cell_ok cell" using assms by blast
  then have fin: "finite (seq_ids cell)" and ne: "\<not> cell_is_empty cell" and p: "0 \<le> kpos cell" "kpos cell \<le> INT32_MAX"
    using False by (auto simp: cell_ok_fields cell_is_empty_def)
  let ?ref = "reference cs batch" and ?ss = "sorted_list_of_set (seq_ids cell)"
  have ref: "\<exists>q. ?ref s = Some q \<and> 0 \<le> q \<and> q \<le> INT32_MAX \<and> may_ask cs batch s q \<and>
      (\<forall>p. may_ask cs batch s p \<longrightarrow> q \<le> p)" if "s \<in> seq_ids cell" for s
  proof (rule reference_spec [OF ok assms(2) that, of batch])
    fix q assume q: "?ref s = Some q" "may_ask cs batch s q" "\<And>p. may_ask cs batch s p \<Longrightarrow> q \<le> p"
      "(q, s) \<in> set (batch_pairs batch) \<or> (\<exists>cell \<in> set cs. s \<in> seq_ids cell \<and> kpos cell = q)"
    then have "0 \<le> q \<and> q \<le> INT32_MAX"
      using batch_pairs_bounds [OF assms(3)] ok by (auto simp: cell_ok_fields)
    then show ?thesis using q by blast
  qed
  have "any_live ?ref (kpos cell) n_keep ?ss = Inr (\<exists>s \<in> set ?ss. \<exists>q. ?ref s = Some q \<and> q - kpos cell < n_keep)"
    by (rule any_live_spec) (use ref p fin in auto)
  moreover have "(\<exists>s \<in> set ?ss. \<exists>q. ?ref s = Some q \<and> q - kpos cell < n_keep) \<longleftrightarrow>
      still_needed cs batch n_keep cell"
    unfolding still_needed_def set_sorted_list_of_set [OF fin]
    by (rule bex_cong [OF refl]) (use ref in \<open>fastforce\<close>)
  ultimately show ?thesis using False ne by (simp add: evict_cell_def evicted_def)
qed (simp add: evict_cell_def)

lemma evicted_keeps: "cell_ok cell \<Longrightarrow> \<not> kpos cell < 0 \<Longrightarrow> keeps_cell cell (evicted cell)"
  by (simp add: keeps_cell_def evicted_def cell_ok_def INT32_MAX_def)

text \<open>The window cache after an eviction.\<close>

definition evict_visit :: "llama_kv_cell list \<Rightarrow> llama_batch \<Rightarrow> int \<Rightarrow> nat \<Rightarrow> cell_visit" where
  "evict_visit cs batch n_keep i =
     (if kpos (cs ! i) < 0 \<or> still_needed cs batch n_keep (cs ! i) then skip (cs ! i) else evicted (cs ! i))"

lemma evict_eq:
  assumes "kv_ok (kv_swa ctx)" "swa_kv_active ctx" "batch_ok batch" "n_swa ctx + guard \<le> 2147483647"
  shows "\<exists>h. llama_kv_swa_evict ctx batch guard = Inr (ctx\<lparr>kv_swa := lower_head (visited
      (evict_visit (cells (kv_swa ctx)) batch (int (n_swa ctx + guard))) (kv_size (kv_swa ctx)) (kv_swa ctx), h)\<rparr>) \<and>
    kv_ok (visited (evict_visit (cells (kv_swa ctx)) batch (int (n_swa ctx + guard))) (kv_size (kv_swa ctx)) (kv_swa ctx))"
proof -
  let ?c = "kv_swa ctx" and ?k = "int (n_swa ctx + guard)"
  let ?v = "evict_visit (cells ?c) batch ?k"
  have ok: "\<forall>cell \<in> set (cells ?c). cell_ok cell" using assms(1) by (simp add: kv_ok_def)
  have v: "evict_cell (reference (cells ?c) batch) ?k i (cells ?c ! i) = Inr (?v i)" if "i < kv_size ?c" for i
    unfolding evict_visit_def by (rule evict_cell_eq [OF ok _ assms(3)]) (use that in simp)
  have "i32 (i32_of_u32 (n_swa ctx) + i32_of_u32 guard) = Inr ?k" using assms(4) by (simp add: i32_def)
  then have "llama_kv_swa_evict ctx batch guard =
      Inr (ctx\<lparr>kv_swa := lower_head (visited ?v (kv_size ?c) ?c, visit_heads ?v (kv_size ?c) (kv_size ?c))\<rparr>)"
    using visit_cells_eq [of ?c "evict_cell (reference (cells ?c) batch) ?k" ?v] v assms(2) by (simp add: llama_kv_swa_evict_def)
  moreover have "kv_ok (visited ?v (kv_size ?c) ?c)"
    by (rule visited_ok [OF assms(1)])
      (use kv_ok_cell [OF assms(1)] in \<open>auto simp: evict_visit_def keeps_skip evicted_keeps\<close>)
  ultimately show ?thesis by blast
qed

lemma evict_effect:
  assumes "kv_plain (kv_swa ctx)" "swa_kv_active ctx" "batch_ok batch" "n_swa ctx + guard \<le> 2147483647"
  obtains c' where "llama_kv_swa_evict ctx batch guard = Inr (ctx\<lparr>kv_swa := c'\<rparr>)" "kv_plain c'"
    "kv_size c' = kv_size (kv_swa ctx)"
    "\<And>i. i < kv_size c' \<Longrightarrow> cells c' ! i =
       vcell (evict_visit (cells (kv_swa ctx)) batch (int (n_swa ctx + guard)) i)"
    "table c' \<subseteq> table (kv_swa ctx)"
proof -
  let ?c = "kv_swa ctx"
  let ?v = "evict_visit (cells ?c) batch (int (n_swa ctx + guard))"
  have "kv_ok ?c" and slots: "llama_kv_qnext_state_slots ?c = Inr 0" using assms(1) by (auto simp: kv_plain_def)
  then obtain h where h: "llama_kv_swa_evict ctx batch guard =
      Inr (ctx\<lparr>kv_swa := lower_head (visited ?v (kv_size ?c) ?c, h)\<rparr>)" "kv_ok (visited ?v (kv_size ?c) ?c)"
    using evict_eq [OF _ assms(2-4)] by blast
  let ?c' = "lower_head (visited ?v (kv_size ?c) ?c, h)"
  have "table ?c' = table (visited ?v (kv_size ?c) ?c)" by (rule table_cells) simp
  also have "\<dots> \<subseteq> table ?c"
    unfolding table_visited by (auto simp: table_def evict_visit_def evicted_def split: if_splits)
  finally have "table ?c' \<subseteq> table ?c" .
  then show ?thesis
    using that [OF h(1)] lower_head_ok [OF h(2)] slots slots_s_l [of ?c' ?c] by (simp add: kv_plain_def)
qed

text \<open>C25. The eviction of the window cache is exact. It always returns; the cache stays well formed; a
  cell in use is kept, unchanged, exactly when one of its sequences has a position that can still be
  asked (its first one in the batch or later, for a sequence of the batch; none below what the cache
  holds, for any other) and from which the cell is less than the window and the guard away. In
  particular no cell inside the window of any query that is still to come is dropped, and what is
  dropped becomes a free cell.\<close>

theorem swa_evict_exact:
  assumes "kv_plain (kv_swa ctx)" "swa_kv_active ctx" "batch_ok batch" "n_swa ctx + guard \<le> 2147483647"
  shows "\<exists>ctx'. llama_kv_swa_evict ctx batch guard = Inr ctx' \<and> kv_self ctx' = kv_self ctx \<and>
    kv_plain (kv_swa ctx') \<and> kv_size (kv_swa ctx') = kv_size (kv_swa ctx) \<and>
    (\<forall>i < kv_size (kv_swa ctx). let cell = cells (kv_swa ctx) ! i; cell' = cells (kv_swa ctx') ! i in
       0 \<le> kpos cell \<longrightarrow>
       (if \<exists>s \<in> seq_ids cell. \<exists>p. may_ask (cells (kv_swa ctx)) batch s p \<and> p - kpos cell < int (n_swa ctx + guard)
        then cell' = cell else kpos cell' = -1 \<and> seq_ids cell' = {}))"
proof (rule evict_effect [OF assms])
  fix c' assume "llama_kv_swa_evict ctx batch guard = Inr (ctx\<lparr>kv_swa := c'\<rparr>)" "kv_plain c'"
    "kv_size c' = kv_size (kv_swa ctx)"
    "\<And>i. i < kv_size c' \<Longrightarrow> cells c' ! i =
       vcell (evict_visit (cells (kv_swa ctx)) batch (int (n_swa ctx + guard)) i)"
  then show ?thesis
    unfolding still_needed_def [symmetric]
    by (intro exI [of _ "ctx\<lparr>kv_swa := c'\<rparr>"]) (simp add: Let_def evict_visit_def evicted_def)
qed

definition empty_context :: "nat \<Rightarrow> nat \<Rightarrow> llama_context" where
  "empty_context m w = \<lparr>kv_self = empty_cache m, kv_swa = empty_cache m, swa_kv_active = True,
     n_swa = w, swa_kv_guard = 0, flash_attn = False\<rparr>"

theorem swa_evict_exact_witness:
  "\<exists>ctx'. llama_kv_swa_evict (empty_context 4 2) [\<lparr>tok_pos = 5, tok_seqs = [0]\<rparr>] 1 = Inr ctx' \<and>
     kv_plain (kv_swa ctx')"
proof -
  have "kv_plain (kv_swa (empty_context 4 2))" by (simp add: empty_context_def kv_plain_empty_cache)
  then show ?thesis
    using swa_evict_exact [of "empty_context 4 2" "[\<lparr>tok_pos = 5, tok_seqs = [0]\<rparr>]" 1]
    by (auto simp: empty_context_def batch_ok_def INT32_MAX_def)
qed

section \<open>Both caches or none\<close>

lemma count_used_free:
  assumes "i < length cs" "kpos (cs ! i) \<ge> 0" "kpos x < 0"
  shows "Suc (count_used (cs[i := x])) = count_used cs"
proof -
  have "count_used cs = count_used (take i cs @ cs ! i # drop (Suc i) cs)"
    using id_take_nth_drop [OF assms(1)] by simp
  then show ?thesis using assms by (simp add: upd_conv_take_nth_drop)
qed

lemma release_cell_effect:
  assumes "kv_plain c" "i < kv_size c"
  shows "kv_plain (release_cell i c)" "kv_size (release_cell i c) = kv_size c"
    "table (release_cell i c) = {(j, s, p) \<in> table c. j \<noteq> i}"
proof -
  have ok: "kv_ok c" and slots: "llama_kv_qnext_state_slots c = Inr 0" using assms(1) by (auto simp: kv_plain_def)
  have c: "cell_ok (cells c ! i)" by (rule kv_ok_cell [OF ok assms(2)])
  show size: "kv_size (release_cell i c) = kv_size c" by (simp add: release_cell_def)
  have free: "cell_ok (clear_seq ((cells c ! i)\<lparr>kpos := -1, kdelta := 0\<rparr>))"
    by (simp add: cell_ok_def INT32_MAX_def)
  have "kv_ok (release_cell i c)"
  proof (cases "kpos (cells c ! i) \<ge> 0")
    case True
    let ?x = "clear_seq ((cells c ! i)\<lparr>kpos := -1, kdelta := 0\<rparr>)"
    have cnt: "Suc (count_used ((cells c)[i := ?x])) = used c"
      using count_used_free [OF assms(2) True, of ?x] ok by (simp add: kv_ok_def)
    have "used c \<le> kv_size c" using ok length_filter_le [of "\<lambda>cell. kpos cell \<ge> 0" "cells c"] by (simp add: kv_ok_def)
    then have "used c < 4294967296" using kv_ok_sizeD(1) [OF ok] by linarith
    then have "u32_dec (used c) = used c - 1" using cnt by (intro u32_dec_small) linarith+
    then have "u32_dec (used c) = count_used ((cells c)[i := ?x])" using cnt by linarith
    then show ?thesis
      using True ok free assms(2) by (auto simp: release_cell_def kv_ok_def dest!: set_update_subset_insert [THEN subsetD])
  qed (use ok in \<open>simp add: release_cell_def\<close>)
  then show "kv_plain (release_cell i c)"
    using slots slots_s_l [of "release_cell i c" c] by (simp add: kv_plain_def release_cell_def)
  show "table (release_cell i c) = {(j, s, p) \<in> table c. j \<noteq> i}"
    using c assms(2) by (auto simp: table_def release_cell_def nth_list_update cell_ok_fields split: if_splits)
qed

lemma release_loop_effect:
  assumes "kv_plain c" "h + n \<le> kv_size c" "i \<le> n"
  shows "kv_plain (release_loop h i n c) \<and> kv_size (release_loop h i n c) = kv_size c \<and>
    table (release_loop h i n c) = {(j, s, p) \<in> table c. j < h + i \<or> h + n \<le> j}"
  using assms
proof (induction "n - i" arbitrary: i c)
  case 0
  then show ?case by (subst (1 2 3) release_loop.simps) auto
next
  case (Suc k)
  then have i: "i < n" by simp
  have sz: "kv_size c < 1073741824" using Suc.prems(1) by (simp add: kv_plain_def kv_ok_def)
  then have a: "u32_add h i = h + i" "h + i < kv_size c" using Suc.prems(2) i by simp_all
  note r = release_cell_effect [OF Suc.prems(1) a(2)]
  have "kv_plain (release_loop h (Suc i) n (release_cell (h + i) c)) \<and>
      kv_size (release_loop h (Suc i) n (release_cell (h + i) c)) = kv_size (release_cell (h + i) c) \<and>
      table (release_loop h (Suc i) n (release_cell (h + i) c)) =
        {(j, s, p) \<in> table (release_cell (h + i) c). j < h + Suc i \<or> h + n \<le> j}"
    by (rule Suc.hyps(1)) (use Suc.hyps(2) Suc.prems r i in auto)
  moreover have "release_loop h i n c = release_loop h (Suc i) n (release_cell (h + i) c)"
    using i a by (subst release_loop.simps) simp
  ultimately show ?case using r i by auto
qed

lemma release_slot_effect:
  assumes "kv_plain c" "h + n \<le> kv_size c"
  shows "kv_plain (llama_kv_swa_release_slot c h n)"
    "table (llama_kv_swa_release_slot c h n) = {(j, s, p) \<in> table c. j < h \<or> h + n \<le> j}"
  using release_loop_effect [OF assms, of 0] by (simp_all add: llama_kv_swa_release_slot_def)

lemma cell_max_pad_returns:
  assumes "0 < pad" "pad dvd i"
  shows "\<exists>r. cell_max_pad_loop cs pad i lst = Inr r"
  using assms(2)
proof (induction i arbitrary: lst rule: less_induct)
  case (less i)
  show ?case
  proof (cases "i = 0 \<or> in_use (cs ! (i - 1))")
    case True
    then show ?thesis by (subst cell_max_pad_loop.simps) auto
  next
    case False
    then have "pad \<le> i" using less.prems by (auto dest: dvd_imp_le)
    then obtain r where "cell_max_pad_loop cs pad (i - pad) i = Inr r"
      using less.IH [of "i - pad" i] less.prems assms(1) False by auto
    then show ?thesis using False \<open>pad \<le> i\<close> assms(1) by (subst cell_max_pad_loop.simps) simp
  qed
qed

definition swa_ready :: "llama_context \<Rightarrow> bool" where
  "swa_ready ctx \<longleftrightarrow> kv_plain (kv_self ctx) \<and> kv_plain (kv_swa ctx) \<and> swa_kv_active ctx \<and>
     0 < n_swa ctx \<and> n_swa ctx + swa_kv_guard ctx \<le> 2147483647"

text \<open>Placing in the window cache: \<open>c\<close> is the cache after eviction.\<close>

lemma place_swa_effect:
  assumes "swa_ready ctx" "batch_ok batch"
  obtains c c' where "place_swa ctx batch = Inr (True, ctx\<lparr>kv_swa := c'\<rparr>)" "fits_in batch c c'"
    "table c \<subseteq> table (kv_swa ctx)"
  | c' where "place_swa ctx batch = Inr (False, ctx\<lparr>kv_swa := c'\<rparr>)" "kv_plain c'"
    "table c' \<subseteq> table (kv_swa ctx)"
proof -
  have swa: "kv_plain (kv_swa ctx)" "swa_kv_active ctx" and w: "n_swa ctx + swa_kv_guard ctx \<le> 2147483647"
    using assms(1) by (auto simp: swa_ready_def)
  obtain c1 where c1: "llama_kv_swa_evict ctx batch (swa_kv_guard ctx) = Inr (ctx\<lparr>kv_swa := c1\<rparr>)"
    "kv_plain c1" "table c1 \<subseteq> table (kv_swa ctx)"
    using evict_effect [OF swa assms(2) w] by metis
  show ?thesis
  proof (rule swa_alloc.alloc_effect [OF c1(2) assms(2)])
    fix c2 assume "llama_kv_swa_find_slot c1 batch = Inr (True, c2)" "fits_in batch c1 c2"
    then show ?thesis using that(1) [of c2 c1] c1 by (simp add: place_swa_def)
  next
    fix c2 assume c2: "llama_kv_swa_find_slot c1 batch = Inr (False, c2)" "kv_plain c2" "table c2 = table c1"
    let ?ctx2 = "ctx\<lparr>kv_swa := c2\<rparr>"
    have pre: "kv_plain (kv_swa ?ctx2)" "swa_kv_active ?ctx2" "n_swa ?ctx2 + 0 \<le> 2147483647"
      using c2 swa w by auto
    obtain c3 where c3: "llama_kv_swa_evict ?ctx2 batch 0 = Inr (ctx\<lparr>kv_swa := c3\<rparr>)"
      "kv_plain c3" "table c3 \<subseteq> table c2"
    proof (rule evict_effect [OF pre(1,2) assms(2) pre(3)])
      fix c' assume "llama_kv_swa_evict ?ctx2 batch 0 = Inr (?ctx2\<lparr>kv_swa := c'\<rparr>)" "kv_plain c'"
        "table c' \<subseteq> table (kv_swa ?ctx2)"
      then show thesis using that [of c'] by simp
    qed
    show ?thesis
    proof (rule swa_alloc.alloc_effect [OF c3(2) assms(2)])
      fix c4 assume "llama_kv_swa_find_slot c3 batch = Inr (True, c4)" "fits_in batch c3 c4"
      then show ?thesis using that(1) [of c4 c3] c1 c2 c3 by (simp add: place_swa_def)
    next
      fix c4 assume "llama_kv_swa_find_slot c3 batch = Inr (False, c4)" "kv_plain c4" "table c4 = table c3"
      then show ?thesis using that(2) [of c4] c1 c2 c3 by (simp add: place_swa_def)
    qed
  qed
qed

lemma kv_plain_window [simp]: "kv_plain (c\<lparr>kv_n := n\<rparr>) = kv_plain c" "table (c\<lparr>kv_n := n\<rparr>) = table c"
  by (simp_all add: kv_plain_def slots_s_l [of "c\<lparr>kv_n := n\<rparr>" c] table_def)

lemma rewind_head_plain:
  assumes "kv_plain c"
  shows "kv_plain (rewind_head n c)" "table (rewind_head n c) = table c" "kv_size (rewind_head n c) = kv_size c"
  using assms by (auto simp: rewind_head_def kv_plain_def table_def slots_s_l [of "c\<lparr>head := 0\<rparr>" c])

text \<open>Releasing a slot undoes the placement.\<close>

lemma release_undoes:
  assumes "fits_in batch c c'"
  shows "kv_plain (llama_kv_swa_release_slot c' (head c') (length batch))"
    "table (llama_kv_swa_release_slot c' (head c') (length batch)) = table c"
proof -
  have p: "kv_plain c'" "head c' + length batch \<le> kv_size c'"
    and t: "table c' = t_place (head c') batch (table c)" "t_free (head c') (length batch) (table c)"
    using assms by (auto simp: fits_in_def)
  show "kv_plain (llama_kv_swa_release_slot c' (head c') (length batch))"
    by (rule release_slot_effect [OF p])
  show "table (llama_kv_swa_release_slot c' (head c') (length batch)) = table c"
    unfolding release_slot_effect(2) [OF p] t(1) using t(2) by (fastforce simp: t_place_def t_free_def)
qed

lemma place_self_effect:
  assumes "kv_plain (kv_self ctx)" "batch_ok batch"
    and "llama_kv_cache_get_padding (flash_attn ctx) dvd kv_size (kv_self ctx)"
  obtains c' where "place_self sh ctx batch = Inr (0, ctx\<lparr>kv_self := c'\<rparr>)" "fits_in batch (kv_self ctx) c'"
  | c' where "place_self sh ctx batch = Inr (1, case sh of
         Some h \<Rightarrow> ctx\<lparr>kv_self := c', kv_swa := llama_kv_swa_release_slot (kv_swa ctx) h (length batch)\<rparr>
       | None \<Rightarrow> ctx\<lparr>kv_self := c'\<rparr>)" "kv_plain c'" "table c' = table (kv_self ctx)"
proof (rule full_alloc.alloc_effect [OF assms(1,2)])
  let ?pad = "llama_kv_cache_get_padding (flash_attn ctx)"
  fix c' assume c': "llama_kv_cache_find_slot (kv_self ctx) batch = Inr (True, c')" "fits_in batch (kv_self ctx) c'"
  then have "\<not> recurrent c'" "?pad dvd kv_size c'"
    using assms(3) by (auto simp: fits_in_def kv_plain_def kv_ok_def)
  moreover have "0 < ?pad" by (simp add: llama_kv_cache_get_padding_def)
  then obtain r where "llama_kv_cache_cell_max_pad c' ?pad = Inr r"
    using cell_max_pad_returns [of ?pad "kv_size c'"] \<open>?pad dvd kv_size c'\<close>
    by (auto simp: llama_kv_cache_cell_max_pad_def)
  ultimately have "place_self sh ctx batch =
      Inr (0, ctx\<lparr>kv_self := c'\<lparr>kv_n := window_of (kv_size c') ?pad r\<rparr>\<rparr>)"
    using c'(1) by (simp add: place_self_def Let_def)
  then show ?thesis using that(1) c'(2) by (simp add: fits_in_def)
next
  fix c' assume "llama_kv_cache_find_slot (kv_self ctx) batch = Inr (False, c')" "kv_plain c'"
    "table c' = table (kv_self ctx)"
  then show ?thesis using that(2) [of c'] by (cases sh) (simp_all add: place_self_def Let_def)
qed

text \<open>C26. With both caches well formed and the size of the full cache a multiple of the padding (as
  the constructor rounds it), placing a batch always returns, and it is all or nothing: when it
  returns \<open>0\<close>, both caches hold every token of the batch, in cells that held nothing; when it returns
  \<open>1\<close>, neither cache holds any token of the batch that it did not hold before. In both cases the full
  cache keeps all it had, and the window cache loses at most what eviction takes.\<close>

theorem place_ubatch_all_or_nothing:
  assumes "swa_ready ctx" "batch_ok batch"
    and "llama_kv_cache_get_padding (flash_attn ctx) dvd kv_size (kv_self ctx)"
  shows "\<exists>r ctx'. place_ubatch ctx batch = Inr (r, ctx') \<and>
    kv_plain (kv_self ctx') \<and> kv_plain (kv_swa ctx') \<and>
    (r = 0 \<and> (\<exists>h h' T. T \<subseteq> table (kv_swa ctx) \<and>
         t_free h (length batch) (table (kv_self ctx)) \<and> t_free h' (length batch) T \<and>
         table (kv_self ctx') = t_place h batch (table (kv_self ctx)) \<and>
         table (kv_swa ctx') = t_place h' batch T)
     \<or> r = 1 \<and> table (kv_self ctx') = table (kv_self ctx) \<and> table (kv_swa ctx') \<subseteq> table (kv_swa ctx))"
proof -
  let ?ctx0 = "ctx\<lparr>kv_self := rewind_head (length batch) (kv_self ctx)\<rparr>"
  note rw = rewind_head_plain [of "kv_self ctx" "length batch"]
  have slf: "kv_plain (kv_self ctx)" and act: "swa_kv_active ctx" using assms(1) by (auto simp: swa_ready_def)
  have ready: "swa_ready ?ctx0" using assms(1) rw by (simp add: swa_ready_def)
  show ?thesis
  proof (rule place_swa_effect [OF ready assms(2)])
    fix c c' assume c': "place_swa ?ctx0 batch = Inr (True, ?ctx0\<lparr>kv_swa := c'\<rparr>)" "fits_in batch c c'"
      "table c \<subseteq> table (kv_swa ?ctx0)"
    let ?ctx1 = "set_window_swa (?ctx0\<lparr>kv_swa := c'\<rparr>)"
    let ?c1 = "kv_swa ?ctx1"
    have ctx1: "kv_self ?ctx1 = kv_self ?ctx0" "flash_attn ?ctx1 = flash_attn ctx" "table ?c1 = table c'"
      "head ?c1 = head c'" "kv_plain ?c1" "kv_size ?c1 = kv_size c'"
      using c'(2) by (simp_all add: set_window_swa_def Let_def fits_in_def)
    have fits: "fits_in batch c ?c1" using c'(2) ctx1 by (simp add: fits_in_def)
    have run: "place_ubatch ctx batch = place_self (Some (head ?c1)) ?ctx1 batch"
      using c'(1) act ctx1 by (simp add: place_ubatch_def Let_def)
    have pre: "kv_plain (kv_self ?ctx1)" "llama_kv_cache_get_padding (flash_attn ?ctx1) dvd kv_size (kv_self ?ctx1)"
      using rw slf assms(3) ctx1 by simp_all
    have T: "table c \<subseteq> table (kv_swa ctx)" using c'(3) by simp
    show ?thesis
    proof (rule place_self_effect [OF pre(1) assms(2) pre(2), of "Some (head ?c1)"])
      fix c2 assume c2: "place_self (Some (head ?c1)) ?ctx1 batch = Inr (0, ?ctx1\<lparr>kv_self := c2\<rparr>)"
        "fits_in batch (kv_self ?ctx1) c2"
      have "table c2 = t_place (head c2) batch (table (kv_self ctx))"
        "t_free (head c2) (length batch) (table (kv_self ctx))" "kv_plain c2"
        using c2(2) ctx1(1) rw(2) [OF slf] by (auto simp: fits_in_def)
      moreover have "table ?c1 = t_place (head ?c1) batch (table c)" "t_free (head ?c1) (length batch) (table c)"
        using fits by (auto simp: fits_in_def)
      ultimately show ?thesis using run c2(1) ctx1(5) T
        by (intro exI [of _ 0] exI [of _ "?ctx1\<lparr>kv_self := c2\<rparr>"]) auto
    next
      fix c2 assume "place_self (Some (head ?c1)) ?ctx1 batch = Inr (1, case Some (head ?c1) of
          Some h \<Rightarrow> ?ctx1\<lparr>kv_self := c2, kv_swa := llama_kv_swa_release_slot (kv_swa ?ctx1) h (length batch)\<rparr>
        | None \<Rightarrow> ?ctx1\<lparr>kv_self := c2\<rparr>)" "kv_plain c2" "table c2 = table (kv_self ?ctx1)"
      then show ?thesis using run release_undoes [OF fits] T ctx1(1) rw(2) [OF slf]
        by (intro exI [of _ 1]) simp
    qed
  next
    fix c' assume "place_swa ?ctx0 batch = Inr (False, ?ctx0\<lparr>kv_swa := c'\<rparr>)" "kv_plain c'"
      "table c' \<subseteq> table (kv_swa ?ctx0)"
    then show ?thesis using act rw slf by (simp add: place_ubatch_def Let_def)
  qed
qed

theorem place_ubatch_all_or_nothing_witness:
  "\<exists>r ctx'. place_ubatch (empty_context 32 2) [\<lparr>tok_pos = 5, tok_seqs = [0]\<rparr>] = Inr (r, ctx') \<and>
     kv_plain (kv_self ctx') \<and> kv_plain (kv_swa ctx')"
proof -
  have "swa_ready (empty_context 32 2)" by (simp add: swa_ready_def empty_context_def kv_plain_empty_cache)
  moreover have "batch_ok [\<lparr>tok_pos = 5, tok_seqs = [0]\<rparr>]" by (simp add: batch_ok_def INT32_MAX_def)
  moreover have "llama_kv_cache_get_padding (flash_attn (empty_context 32 2)) dvd
      kv_size (kv_self (empty_context 32 2))"
    by (simp add: llama_kv_cache_get_padding_def empty_context_def empty_cache_def)
  ultimately show ?thesis
    using place_ubatch_all_or_nothing [of "empty_context 32 2" "[\<lparr>tok_pos = 5, tok_seqs = [0]\<rparr>]"] by blast
qed

end
