(* ===== verification/Kv_Window.thy ===== *)
theory Kv_Window
  imports Kv_Swa
begin

text \<open>
  What a query sees of the caches. A removal through the public interface leaves every sequence it
  touches with a complete window or with nothing in the window cache, and the extent of the full cache
  that the decoder attends to, computed from every \<open>pad\<close>-th cell, covers all cells in use when they
  are the first ones, and not in general.
\<close>

section \<open>Complete windows\<close>

definition held :: "llama_kv_cache \<Rightarrow> int \<Rightarrow> int \<Rightarrow> bool" where
  "held c s p \<longleftrightarrow> (\<exists>i. (i, s, p) \<in> table c)"

text \<open>All positions of the window that ends at the last position of the sequence are held.\<close>

definition window_full :: "llama_kv_cache \<Rightarrow> nat \<Rightarrow> int \<Rightarrow> bool" where
  "window_full c w s \<longleftrightarrow>
     (\<forall>q. held c s q \<and> (\<forall>q'. held c s q' \<longrightarrow> q' \<le> q) \<longrightarrow>
        (\<forall>p. 0 \<le> p \<and> q - int w < p \<and> p \<le> q \<longrightarrow> held c s p))"

lemma held_cells: "held c s p \<longleftrightarrow> (\<exists>cell \<in> set (cells c). s \<in> seq_ids cell \<and> kpos cell = p)"
  unfolding held_def table_def by (auto simp: in_set_conv_nth) (metis nth_mem)

lemma held_nonneg: "kv_ok c \<Longrightarrow> held c s p \<Longrightarrow> 0 \<le> p \<and> p \<le> INT32_MAX"
  by (auto simp: held_cells kv_ok_def cell_ok_fields)

lemma pos_max_fold:
  assumes "\<forall>cell \<in> set cs. cell_ok cell"
  shows "let r' = fold (\<lambda>cell r. if kpos cell \<ge> 0 \<and> has_seq_id s cell then max r (kpos cell) else r) cs r in
    r \<le> r' \<and> (\<forall>cell \<in> set cs. s \<in> seq_ids cell \<longrightarrow> kpos cell \<le> r') \<and>
    (r' = r \<or> (\<exists>cell \<in> set cs. s \<in> seq_ids cell \<and> kpos cell = r'))"
  using assms
proof (induction cs arbitrary: r)
  case (Cons cell cs)
  let ?r = "if kpos cell \<ge> 0 \<and> has_seq_id s cell then max r (kpos cell) else r"
  have "s \<in> seq_ids cell \<Longrightarrow> 0 \<le> kpos cell" using Cons.prems by (auto simp: cell_ok_fields)
  then show ?case using Cons.IH [of ?r] Cons.prems
    by (auto simp: Let_def has_seq_id_def max_def split: if_splits)
qed simp

lemma swa_pos_max_spec:
  assumes "kv_ok c"
  shows "llama_kv_swa_seq_pos_max c s < 0 \<Longrightarrow> \<not> held c s p"
    and "llama_kv_swa_seq_pos_max c s \<ge> 0 \<Longrightarrow> held c s (llama_kv_swa_seq_pos_max c s)"
    and "held c s p \<Longrightarrow> p \<le> llama_kv_swa_seq_pos_max c s"
proof -
  have ok: "\<forall>cell \<in> set (cells c). cell_ok cell" using assms by (simp add: kv_ok_def)
  note m = pos_max_fold [OF ok, of s "-1", folded llama_kv_swa_seq_pos_max_def]
  show "held c s p \<Longrightarrow> p \<le> llama_kv_swa_seq_pos_max c s"
    using m by (auto simp: held_cells Let_def)
  then show "llama_kv_swa_seq_pos_max c s < 0 \<Longrightarrow> \<not> held c s p"
    using held_nonneg [OF assms, of s p] by fastforce
  show "llama_kv_swa_seq_pos_max c s \<ge> 0 \<Longrightarrow> held c s (llama_kv_swa_seq_pos_max c s)"
    using m by (auto simp: held_cells Let_def)
qed

lemma mark_seen_length [simp]: "length (fold (mark_seen lo pm s) cs seen) = length seen"
  by (induction cs arbitrary: seen) (auto simp: mark_seen_def)

lemma mark_seen_nth:
  assumes "k < length seen"
  shows "fold (mark_seen lo pm s) cs seen ! k \<longleftrightarrow>
    seen ! k \<or> (\<exists>cell \<in> set cs. s \<in> seq_ids cell \<and> lo \<le> kpos cell \<and> kpos cell \<le> pm \<and> nat (kpos cell - lo) = k)"
  using assms
proof (induction cs arbitrary: seen)
  case (Cons cell cs)
  let ?seen = "mark_seen lo pm s cell seen"
  have "k < length ?seen" using Cons.prems by (simp add: mark_seen_def)
  moreover have "?seen ! k \<longleftrightarrow> seen ! k \<or>
      s \<in> seq_ids cell \<and> lo \<le> kpos cell \<and> kpos cell \<le> pm \<and> nat (kpos cell - lo) = k"
    using Cons.prems by (cases "nat (kpos cell - lo) = k") (auto simp: mark_seen_def has_seq_id_def)
  ultimately show ?case using Cons.IH [of ?seen] by auto
qed simp

lemma coverage_exact:
  assumes "kv_ok (kv_swa ctx)" "swa_kv_active ctx" "n_swa ctx \<le> 2147483647" "0 < n_swa ctx"
  shows "llama_kv_swa_coverage_ok ctx s = Inr (window_full (kv_swa ctx) (n_swa ctx) s)"
proof -
  let ?c = "kv_swa ctx" and ?w = "int (n_swa ctx)"
  define pm where "pm = llama_kv_swa_seq_pos_max ?c s"
  note spec = swa_pos_max_spec [OF assms(1), of s, folded pm_def]
  show ?thesis
  proof (cases "pm < 0")
    case True
    then have "window_full ?c (n_swa ctx) s" using spec(1) by (auto simp: window_full_def)
    then show ?thesis using True assms(2) by (simp add: llama_kv_swa_coverage_ok_def pm_def)
  next
    case False
    then have top: "held ?c s pm" "pm \<le> INT32_MAX" using spec(2) held_nonneg [OF assms(1)] by auto
    define lo where "lo = max 0 (pm - ?w + 1)"
    let ?seen = "fold (mark_seen lo pm s) (cells ?c) (replicate (nat (pm - lo + 1)) False)"
    have r: "llama_kv_swa_coverage_ok ctx s = Inr (list_all id ?seen)"
      using False assms(2-4) top(2)
      by (simp add: llama_kv_swa_coverage_ok_def pm_def [symmetric] i32_def INT32_MAX_def lo_def Let_def)
    have at: "?seen ! k \<longleftrightarrow> held ?c s (lo + int k)" if "k < nat (pm - lo + 1)" for k
      using that mark_seen_nth [of k "replicate (nat (pm - lo + 1)) False" lo pm s "cells ?c"]
      by (auto simp: held_cells)
    have "list_all id ?seen \<longleftrightarrow> (\<forall>k < nat (pm - lo + 1). held ?c s (lo + int k))"
      using at by (auto simp: list_all_length)
    also have "\<dots> \<longleftrightarrow> (\<forall>p. lo \<le> p \<and> p \<le> pm \<longrightarrow> held ?c s p)"
    proof (intro iffI allI impI)
      fix p assume all: "\<forall>k < nat (pm - lo + 1). held ?c s (lo + int k)" and p: "lo \<le> p \<and> p \<le> pm"
      have "nat (p - lo) < nat (pm - lo + 1)" using p by linarith
      then have "held ?c s (lo + int (nat (p - lo)))" using all by blast
      then show "held ?c s p" using p by simp
    qed auto
    also have "\<dots> \<longleftrightarrow> window_full ?c (n_swa ctx) s"
    proof -
      have uniq: "held ?c s q \<and> (\<forall>q'. held ?c s q' \<longrightarrow> q' \<le> q) \<longleftrightarrow> q = pm" for q
        using top(1) spec(3) by (auto intro: antisym)
      show ?thesis unfolding window_full_def uniq by (auto simp: lo_def)
    qed
    finally show ?thesis using r by simp
  qed
qed

section \<open>Removal\<close>

lemma swa_ready_parts:
  "swa_ready ctx \<Longrightarrow> kv_plain (kv_self ctx)" "swa_ready ctx \<Longrightarrow> kv_plain (kv_swa ctx)"
  "swa_ready ctx \<Longrightarrow> swa_kv_active ctx" "swa_ready ctx \<Longrightarrow> n_swa ctx \<le> 2147483647"
  "swa_ready ctx \<Longrightarrow> 0 < n_swa ctx"
  by (auto simp: swa_ready_def)

lemma seq_rm_total:
  assumes "kv_plain c"
  obtains c' where "llama_kv_cache_seq_rm c s p0 p1 = Inr (True, c')" "kv_plain c'"
    "table c' = t_rm s p0 p1 (table c)"
proof -
  obtain r where "kv_apply (Rm s p0 p1) c = Inr r" using kv_apply_safe [OF assms, of "Rm s p0 p1"] by auto
  then obtain b c' where r: "llama_kv_cache_seq_rm c s p0 p1 = Inr (b, c')" by (auto simp: result_simps)
  show ?thesis using that [of c'] r seq_rm_refines [OF assms r] by simp
qed

text \<open>Positions below the largest 32-bit integer, which a removal without upper bound reaches.\<close>

definition below_max :: "llama_kv_cache \<Rightarrow> bool" where
  "below_max c \<longleftrightarrow> (\<forall>s p. held c s p \<longrightarrow> p < INT32_MAX)"

lemma t_rm_held: "table c' = t_rm s p0 p1 (table c) \<Longrightarrow>
  held c' s' p \<longleftrightarrow> held c s' p \<and> \<not> ((s < 0 \<or> s' = s) \<and> inside p0 p1 p)"
  by (auto simp: held_def t_rm_def)

lemma window_full_cong: "(\<And>p. held c' s p = held c s p) \<Longrightarrow> window_full c' w s = window_full c w s"
  by (simp add: window_full_def)

definition rm_result :: "llama_context \<Rightarrow> llama_context \<Rightarrow> bool" where
  "rm_result ctx ctx' \<longleftrightarrow> swa_ready ctx' \<and> n_swa ctx' = n_swa ctx \<and> below_max (kv_swa ctx') \<and>
     table (kv_self ctx') \<subseteq> table (kv_self ctx) \<and> table (kv_swa ctx') \<subseteq> table (kv_swa ctx)"

lemma below_max_subset: "below_max c \<Longrightarrow> table c' \<subseteq> table c \<Longrightarrow> below_max c'"
  by (auto simp: below_max_def held_def)

lemma check_window_effect:
  assumes "swa_ready ctx" "below_max (kv_swa ctx)" "0 \<le> s"
  obtains "check_window s ctx = Inr (True, ctx)" "window_full (kv_swa ctx) (n_swa ctx) s"
  | ctx' where "check_window s ctx = Inr (False, ctx')" "rm_result ctx ctx'"
      "window_full (kv_swa ctx') (n_swa ctx) s"
      "\<And>s' p. s' \<noteq> s \<Longrightarrow> held (kv_swa ctx') s' p = held (kv_swa ctx) s' p"
proof -
  note r = swa_ready_parts [OF assms(1)]
  have cov: "llama_kv_swa_coverage_ok ctx s = Inr (window_full (kv_swa ctx) (n_swa ctx) s)"
    using coverage_exact [of ctx] r by (simp add: kv_plain_def)
  show ?thesis
  proof (cases "window_full (kv_swa ctx) (n_swa ctx) s")
    case True
    then show ?thesis using that(1) cov by (simp add: check_window_def)
  next
    case False
    obtain swa where swa: "llama_kv_cache_seq_rm (kv_swa ctx) s (-1) (-1) = Inr (True, swa)" "kv_plain swa"
      "table swa = t_rm s (-1) (-1) (table (kv_swa ctx))" by (rule seq_rm_total [OF r(2)])
    obtain slf where slf: "llama_kv_cache_seq_rm (kv_self ctx) s (-1) (-1) = Inr (True, slf)" "kv_plain slf"
      "table slf = t_rm s (-1) (-1) (table (kv_self ctx))" by (rule seq_rm_total [OF r(1)])
    let ?ctx' = "ctx\<lparr>kv_swa := swa, kv_self := slf\<rparr>"
    have sub: "table swa \<subseteq> table (kv_swa ctx)" "table slf \<subseteq> table (kv_self ctx)"
      using swa slf by (auto simp: t_rm_def)
    have gone: "\<not> held swa s p" for p
    proof
      assume "held swa s p"
      then have "held (kv_swa ctx) s p" "\<not> inside (-1) (-1) p" using t_rm_held [OF swa(3)] by auto
      then show False using held_nonneg [of "kv_swa ctx" s p] r(2) assms(2)
        by (auto simp: inside_def norm_p0_def norm_p1_def kv_plain_def below_max_def)
    qed
    have "check_window s ctx = Inr (False, ?ctx')" using cov False swa(1) slf(1) by (simp add: check_window_def)
    moreover have "rm_result ctx ?ctx'"
      using assms(1) swa(2) slf(2) sub below_max_subset [OF assms(2) sub(1)]
      by (simp add: rm_result_def swa_ready_def)
    moreover have "window_full (kv_swa ?ctx') (n_swa ctx) s" using gone by (simp add: window_full_def)
    moreover have "held (kv_swa ?ctx') s' p = held (kv_swa ctx) s' p" if "s' \<noteq> s" for s' p
      using t_rm_held [OF swa(3)] that assms(3) by simp
    ultimately show ?thesis using that(2) by blast
  qed
qed

lemma rm_result_trans: "rm_result a b \<Longrightarrow> rm_result b c \<Longrightarrow> rm_result a c"
  by (auto simp: rm_result_def)

lemma check_windows_effect:
  assumes "swa_ready ctx" "below_max (kv_swa ctx)" "\<forall>s \<in> set ss. 0 \<le> s"
  shows "\<exists>b ctx'. check_windows ss a ctx = Inr (b, ctx') \<and> rm_result ctx ctx' \<and> (b \<longrightarrow> a \<and> ctx' = ctx) \<and>
    (\<forall>s. s \<in> set ss \<or> window_full (kv_swa ctx) (n_swa ctx) s \<longrightarrow> window_full (kv_swa ctx') (n_swa ctx) s)"
  using assms
proof (induction ss arbitrary: a ctx)
  case Nil
  then show ?case by (auto simp: rm_result_def)
next
  case (Cons s ss)
  have s: "0 \<le> s" and ss: "\<forall>s \<in> set ss. 0 \<le> s" using Cons.prems by auto
  show ?case
  proof (rule check_window_effect [OF Cons.prems(1,2) s])
    assume ok: "check_window s ctx = Inr (True, ctx)" "window_full (kv_swa ctx) (n_swa ctx) s"
    obtain b ctx' where "check_windows ss a ctx = Inr (b, ctx')" "rm_result ctx ctx'" "b \<longrightarrow> a \<and> ctx' = ctx"
      "\<forall>s. s \<in> set ss \<or> window_full (kv_swa ctx) (n_swa ctx) s \<longrightarrow> window_full (kv_swa ctx') (n_swa ctx) s"
      using Cons.IH [OF Cons.prems(1,2) ss, of a] by blast
    then show ?thesis using ok by auto
  next
    fix ctx1 assume c1: "check_window s ctx = Inr (False, ctx1)" "rm_result ctx ctx1"
      "window_full (kv_swa ctx1) (n_swa ctx) s"
      "\<And>s' p. s' \<noteq> s \<Longrightarrow> held (kv_swa ctx1) s' p = held (kv_swa ctx) s' p"
    then have pre: "swa_ready ctx1" "below_max (kv_swa ctx1)" "n_swa ctx1 = n_swa ctx"
      by (auto simp: rm_result_def)
    obtain b ctx' where r: "check_windows ss False ctx1 = Inr (b, ctx')" "rm_result ctx1 ctx'" "\<not> b"
      "\<forall>s. s \<in> set ss \<or> window_full (kv_swa ctx1) (n_swa ctx1) s \<longrightarrow> window_full (kv_swa ctx') (n_swa ctx1) s"
      using Cons.IH [OF pre(1,2) ss, of False] by blast
    have "window_full (kv_swa ctx1) (n_swa ctx) s'" if "window_full (kv_swa ctx) (n_swa ctx) s'" for s'
      using that c1(3) window_full_cong [of "kv_swa ctx1" s' "kv_swa ctx"] c1(4) by (cases "s' = s") auto
    then have "\<forall>t. t \<in> set (s # ss) \<or> window_full (kv_swa ctx) (n_swa ctx) t \<longrightarrow> window_full (kv_swa ctx') (n_swa ctx) t"
      using r(4) c1(3) pre(3) by auto
    then show ?thesis using r c1 rm_result_trans [OF c1(2) r(2)] by auto
  qed
qed



section \<open>The extent the decoder attends to\<close>

lemma cell_max_from_covers: "i < n \<Longrightarrow> in_use (cs ! i) \<Longrightarrow> i < cell_max_from cs n"
  by (induction n) (auto simp: less_Suc_eq)

lemma cell_max_from_le: "cell_max_from cs n \<le> n"
  by (induction n) auto

lemma ggml_pad_ge: "0 < n \<Longrightarrow> x \<le> ggml_pad x n"
proof -
  assume n: "0 < n"
  have "x + n - 1 = (x + n - 1) div n * n + (x + n - 1) mod n" by simp
  moreover have "(x + n - 1) mod n \<le> n - 1" using n by (simp add: Suc_leI less_eq_Suc_le [symmetric] flip: less_Suc_eq_le)
  ultimately show ?thesis unfolding ggml_pad_def using n by linarith
qed

lemma window_of_ge: "0 < pad \<Longrightarrow> k \<le> sz \<Longrightarrow> k \<le> max pad m \<Longrightarrow> k \<le> window_of sz pad m"
  using ggml_pad_ge [of pad m] by (auto simp: window_of_def max_def split: if_splits)

lemma last_in_use_above_ge:
  assumes "\<And>i. i < length cs \<Longrightarrow> in_use (cs ! i) \<longleftrightarrow> i < k" "k \<le> j" "j \<le> length cs"
  shows "k \<le> last_in_use_above cs i j"
  using assms(2,3)
proof (induction j)
  case 0
  then show ?case by simp
next
  case (Suc j)
  show ?case
  proof (cases "i < Suc j \<and> \<not> in_use (cs ! j)")
    case True
    then have "k \<le> j" using assms(1) [of j] Suc.prems by auto
    then show ?thesis using Suc True by (subst last_in_use_above.simps) simp
  next
    case False
    then show ?thesis using Suc.prems by (subst last_in_use_above.simps) auto
  qed
qed

lemma cell_max_pad_prefix:
  assumes "\<And>i. i < length cs \<Longrightarrow> in_use (cs ! i) \<longleftrightarrow> i < k" "0 < pad"
    and "pad dvd i" "i \<le> lst" "lst \<le> length cs" "lst \<le> i + pad" "k \<le> lst"
  shows "\<exists>r. cell_max_pad_loop cs pad i lst = Inr r \<and> k \<le> max pad r"
  using assms(3-7)
proof (induction i arbitrary: lst rule: less_induct)
  case (less i)
  show ?case
  proof (cases "i = 0 \<or> in_use (cs ! (i - 1))")
    case True
    then show ?thesis
      using less.prems last_in_use_above_ge [OF assms(1), of lst i]
      by (subst cell_max_pad_loop.simps) (auto simp: max_def)
  next
    case False
    then have "i - 1 < length cs" "\<not> in_use (cs ! (i - 1))" using less.prems by linarith+
    then have "k \<le> i" using assms(1) [of "i - 1"] by linarith
    moreover have "pad \<le> i" using False less.prems(1) by (auto dest: dvd_imp_le)
    ultimately have "\<exists>r. cell_max_pad_loop cs pad (i - pad) i = Inr r \<and> k \<le> max pad r"
      using less.prems False assms(2) by (intro less.IH) auto
    then show ?thesis using False \<open>pad \<le> i\<close> assms(2) by (subst cell_max_pad_loop.simps) simp
  qed
qed



text \<open>One batch with 64 tokens of sequence 0 and one token of sequence 1, after which sequence 0 is
  removed.\<close>

definition hole_batch :: llama_batch where
  "hole_batch = replicate 64 \<lparr>tok_pos = 0, tok_seqs = [0]\<rparr> @ [\<lparr>tok_pos = 0, tok_seqs = [1]\<rparr>]"

lemma hole_batch_nth: "i < 65 \<Longrightarrow> hole_batch ! i = \<lparr>tok_pos = 0, tok_seqs = [if i < 64 then 0 else 1]\<rparr>"
  by (auto simp: hole_batch_def nth_append)

lemma hole_state:
  obtains c where "rfold kv_apply [Place hole_batch, Rm 0 0 (-1)] (empty_cache 96) = Inr c"
    "kv_plain c" "kv_size c = 96" "\<And>i. i < 96 \<Longrightarrow> in_use (cells c ! i) \<longleftrightarrow> i = 64"
proof -
  let ?e = "empty_cache 96"
  have e: "kv_plain ?e" by (rule kv_plain_empty_cache) simp
  have ok: "kv_ok ?e" using e by (simp add: kv_plain_def)
  have b: "batch_ok hole_batch" by (auto simp: batch_ok_def hole_batch_def INT32_MAX_def)
  have len: "length hole_batch = 65" by (simp add: hole_batch_def)
  have run: "free_run (cells ?e) 65 0" by (simp add: free_run_def empty_cache_def new_cell_def)
  then have fit: "ring_fit (cells ?e) 65 (head ?e) = Some 0"
    by (simp add: ring_fit_def ring_starts_def empty_cache_def upt_conv_Cons del: upt_Suc)
  have place: "llama_kv_cache_find_slot ?e hole_batch = Inr (True, stored 0 hole_batch ?e)"
    using full_alloc.fits_first [OF ok, of hole_batch] fit len by (simp add: first_fit_def)
  let ?c1 = "stored 0 hole_batch ?e"
  have fits: "fits_in hole_batch ?e ?c1" using stored_fits [OF e b] run len by simp
  then have p1: "kv_plain ?c1" by (simp add: fits_in_def)
  have "table ?e = {}" by (auto simp: table_def empty_cache_def new_cell_def)
  then have t1: "table ?c1 = {(i, s, p). i < 65 \<and> s = (if i < 64 then 0 else 1) \<and> p = 0}"
    using fits len by (auto simp: fits_in_def t_place_def hole_batch_nth)
  obtain c where c: "llama_kv_cache_seq_rm ?c1 0 0 (-1) = Inr (True, c)" "kv_plain c"
    "table c = t_rm 0 0 (-1) (table ?c1)" by (rule seq_rm_total [OF p1])
  have size: "kv_size c = 96" using seq_rm_refines(4) [OF p1 c(1)] by (simp add: empty_cache_def)
  have tc: "table c = {(64, 1, 0)}"
    unfolding c(3) t1 by (auto simp: t_rm_def inside_def norm_p0_def norm_p1_def INT32_MAX_def split: if_splits)
  have "in_use (cells c ! i) \<longleftrightarrow> i = 64" if "i < 96" for i
  proof -
    have "cell_ok (cells c ! i)" using c(2) that size by (auto simp: kv_plain_def)
    then have "in_use (cells c ! i) \<longleftrightarrow> (\<exists>s. s \<in> seq_ids (cells c ! i))"
      by (auto simp: in_use_def cell_is_empty_def cell_ok_fields)
    also have "\<dots> \<longleftrightarrow> (\<exists>s p. (i, s, p) \<in> table c)" using that size by (auto simp: table_def)
    finally show ?thesis using tc by simp
  qed
  then show ?thesis using that [of c] place c size by simp
qed

text \<open>C29. On a cache that has a hole the sampled maximum misses cells in use: after placing one batch in
  an empty cache of 96 cells and removing one of its two sequences, cell 64 holds a token of the other
  one, but the sampled maximum is 0 and the extent that is attended to is the first 32 cells.\<close>

theorem sampled_extent_misses_cells:
  "\<exists>c. rfold kv_apply [Place hole_batch, Rm 0 0 (-1)] (empty_cache 96) = Inr c \<and> kv_ok c \<and>
     in_use (cells c ! 64) \<and> llama_kv_cache_cell_max c = 65 \<and>
     llama_kv_cache_cell_max_pad c (llama_kv_cache_get_padding False) = Inr 0 \<and>
     window_of (kv_size c) (llama_kv_cache_get_padding False) 0 = 32"
proof (rule hole_state)
  fix c assume c: "rfold kv_apply [Place hole_batch, Rm 0 0 (-1)] (empty_cache 96) = Inr c"
    "kv_plain c" "kv_size c = 96" "\<And>i. i < 96 \<Longrightarrow> in_use (cells c ! i) \<longleftrightarrow> i = 64"
  have "cell_max_from (cells c) n = 65" if "65 \<le> n" "n \<le> 96" for n
    using that by (induction n) (auto simp: c(4) le_Suc_eq split: if_splits)
  then have "llama_kv_cache_cell_max c = 65" by (simp add: llama_kv_cache_cell_max_def c(3))
  moreover have "cell_max_pad_loop (cells c) 32 96 96 = Inr 0"
    by (subst cell_max_pad_loop.simps, simp add: c(4))+
  ultimately show ?thesis
    using c by (intro exI [of _ c]) (simp add: kv_plain_def llama_kv_cache_cell_max_pad_def
        llama_kv_cache_get_padding_def window_of_def ggml_pad_def)
qed

end
