(* ===== verification/Kv_Defrag.thy ===== *)
theory Kv_Defrag
  imports Kv_Window
begin

text \<open>
  Defragmentation of the full cache: \<open>llama_kv_cache_defrag_internal\<close> of \<open>src/llama.cpp\<close>, which plans the
  moves and moves the cells, \<open>llm_build_context::build_defrag\<close> of \<open>src/llama-build-context.cpp\<close>, which
  turns the plan into block copies of the tensor rows, and the rest of the bookkeeping of
  \<open>llama_kv_cache_update_internal\<close>. The theorems: the assertion of the planner never fires, no cell is
  lost or duplicated, the cache is compact unless the limit on moves was reached, and the rows follow
  their cells. The limit \<open>max_moves\<close>, a number of graph nodes, is a parameter, and so are the questions
  whether the model has a rotary embedding and whether the context can shift.
\<close>

section \<open>Definitions\<close>

record defrag_state =
  dcells :: "llama_kv_cell list"
  dids :: "nat list"
  dhead :: nat
  dmoves :: nat

text \<open>The size of the hole that starts at \<open>i0\<close>.\<close>

function hole_len :: "llama_kv_cell list \<Rightarrow> nat \<Rightarrow> nat \<Rightarrow> nat \<Rightarrow> nat" where
  "hole_len cs n_used i0 nh =
     (if i0 + nh < n_used \<and> cell_is_empty (cs ! (i0 + nh)) then hole_len cs n_used i0 (Suc nh) else nh)"
  by pat_completeness auto
termination by (relation "measure (\<lambda>(cs, n_used, i0, nh). n_used - (i0 + nh))") auto

declare hole_len.simps [simp del]

text \<open>A cell that is not empty and not yet moved.\<close>

definition movable :: "nat \<Rightarrow> defrag_state \<Rightarrow> nat \<Rightarrow> bool" where
  "movable n_kv st i \<longleftrightarrow> \<not> (cell_is_empty (dcells st ! i) \<or> dids st ! i \<noteq> n_kv)"

text \<open>From the end, find \<open>nh\<close> of them; the result is \<open>nf\<close> and \<open>is\<close>.\<close>

primrec back_scan :: "(nat \<Rightarrow> bool) \<Rightarrow> nat \<Rightarrow> nat \<Rightarrow> nat \<Rightarrow> nat \<Rightarrow> nat \<times> nat" where
  "back_scan mv nh i0 nf 0 = (nf, 0)"
| "back_scan mv nh i0 nf (Suc i) =
     (if Suc i > i0 then
        if \<not> mv (Suc i) then back_scan mv nh i0 nf i
        else if nf + 1 = nh then (nf + 1, Suc i)
        else back_scan mv nh i0 (nf + 1) i
      else (nf, Suc i))"

text \<open>One cell goes to a free place.\<close>

definition move_cell :: "nat \<Rightarrow> nat \<Rightarrow> nat \<Rightarrow> defrag_state \<Rightarrow> defrag_state" where
  "move_cell n_used dst i1 st =
     st\<lparr>dids := (dids st)[i1 := dst],
        dcells := ((dcells st)[dst := dcells st ! i1])[i1 := new_cell],
        dhead := n_used\<rparr>"

text \<open>Go back and fill the hole; the flag of the result is \<open>stop\<close>.\<close>

function move_loop ::
  "nat \<Rightarrow> nat \<Rightarrow> nat \<Rightarrow> nat \<Rightarrow> nat \<Rightarrow> nat \<Rightarrow> nat \<Rightarrow> bool \<Rightarrow> defrag_state \<Rightarrow> bool \<times> defrag_state" where
  "move_loop n_kv n_used max_moves i0 nh i1 nf cont st =
     (if i1 < n_kv then
        if \<not> movable n_kv st i1 then
          if dmoves st = max_moves then (True, st)
          else move_loop n_kv n_used max_moves i0 nh (Suc i1) nf False st
        else
          let st1 = move_cell n_used (i0 + nf) i1 st;
              st2 = (if cont then st1 else st1\<lparr>dmoves := dmoves st1 + 1\<rparr>) in
          if nf + 1 = nh then (False, st2)
          else move_loop n_kv n_used max_moves i0 nh (Suc i1) (nf + 1) True st2
      else (False, st))"
  by pat_completeness auto
termination by (relation "measure (\<lambda>(n_kv, n_used, max_moves, i0, nh, i1, nf, cont, st). n_kv - i1)") auto

declare move_loop.simps [simp del]

lemma hole_len_ge: "nh \<le> hole_len cs n_used i0 nh"
proof (induction cs n_used i0 nh rule: hole_len.induct)
  case (1 cs n_used i0 nh)
  then show ?case by (subst hole_len.simps) auto
qed

function plan_loop :: "nat \<Rightarrow> nat \<Rightarrow> nat \<Rightarrow> nat \<Rightarrow> defrag_state \<Rightarrow> defrag_state result" where
  "plan_loop n_kv n_used max_moves i0 st =
     (if i0 < n_used then
        if \<not> cell_is_empty (dcells st ! i0) then
          plan_loop n_kv n_used max_moves (Suc i0) (st\<lparr>dids := (dids st)[i0 := i0]\<rparr>)
        else
          let nh = hole_len (dcells st) n_used i0 1;
              (nf, is) = back_scan (movable n_kv st) nh i0 0 (n_kv - 1) in
          if nf \<noteq> nh then Inl (Abort ''KV defrag bug: nf != nh'')
          else
            let (stop, st1) = move_loop n_kv n_used max_moves i0 nh is 0 False st in
            if stop \<or> dmoves st1 = max_moves then Inr st1
            else plan_loop n_kv n_used max_moves (i0 + nh) st1
      else Inr st)"
  by pat_completeness auto
termination
proof (relation "measure (\<lambda>(n_kv, n_used, max_moves, i0, st). n_used - i0)", goal_cases)
  case (3 n_kv n_used max_moves i0 st nh)
  then show ?case using hole_len_ge [of 1 "dcells st" n_used i0] by auto
qed auto

declare plan_loop.simps [simp del]

definition defrag_plan :: "nat \<Rightarrow> llama_kv_cache \<Rightarrow> defrag_state result" where
  "defrag_plan max_moves c =
     (let n_kv = llama_kv_cache_cell_max c; n_used = used c in
      rbind (rassert ''n_used <= n_kv'' (n_used \<le> n_kv)) (\<lambda>_.
      plan_loop n_kv n_used max_moves 0
        \<lparr>dcells = cells c, dids = replicate n_kv n_kv, dhead = head c, dmoves = 0\<rparr>))"

text \<open>The result has the plan, for which a graph is built unless nothing was moved.\<close>

definition llama_kv_cache_defrag_internal ::
  "nat \<Rightarrow> llama_kv_cache \<Rightarrow> (nat list option \<times> llama_kv_cache) result" where
  "llama_kv_cache_defrag_internal max_moves c =
     rbind (defrag_plan max_moves c) (\<lambda>st.
     Inr (if dmoves st = 0 then None else Some (dids st), c\<lparr>cells := dcells st, head := dhead st\<rparr>))"

text \<open>The block copies of the graph: source, destination and number of rows, for every layer. A row of
  the values stands for a column when they are stored transposed.\<close>

function run_len :: "nat list \<Rightarrow> nat \<Rightarrow> nat \<Rightarrow> nat \<Rightarrow> nat" where
  "run_len ids i dst nm = (if i + nm < length ids \<and> ids ! (i + nm) = dst + nm then run_len ids i dst (Suc nm) else nm)"
  by pat_completeness auto
termination by (relation "measure (\<lambda>(ids, i, dst, nm). length ids - (i + nm))") auto

declare run_len.simps [simp del]

lemma run_len_ge: "nm \<le> run_len ids i dst nm"
proof (induction ids i dst nm rule: run_len.induct)
  case (1 ids i dst nm)
  then show ?case by (subst run_len.simps) auto
qed

function build_defrag :: "nat list \<Rightarrow> nat \<Rightarrow> (nat \<times> nat \<times> nat) list" where
  "build_defrag ids i =
     (if i < length ids then
        let dst = ids ! i in
        if i = dst \<or> dst = length ids then build_defrag ids (Suc i)
        else let nm = run_len ids i dst 1 in (i, dst, nm) # build_defrag ids (i + nm)
      else [])"
  by pat_completeness auto
termination
proof (relation "measure (\<lambda>(ids, i). length ids - i)", goal_cases)
  case (3 ids i dst nm)
  then show ?case using run_len_ge [of 1 ids i dst] by auto
qed auto

declare build_defrag.simps [simp del]

definition copy_rows :: "nat \<times> nat \<times> nat \<Rightarrow> 'r list \<Rightarrow> 'r list" where
  "copy_rows op rows =
     (case op of (i, dst, nm) \<Rightarrow>
        map (\<lambda>r. if dst \<le> r \<and> r < dst + nm then rows ! (i + (r - dst)) else rows ! r) [0..<length rows])"

text \<open>The bookkeeping of an update around the graphs it runs.\<close>

definition clear_shift :: "llama_kv_cache \<Rightarrow> llama_kv_cache" where
  "clear_shift c = c\<lparr>has_shift := False, cells := map (\<lambda>cell. cell\<lparr>kdelta := 0\<rparr>) (cells c)\<rparr>"

definition clear_copy :: "llama_kv_cache \<Rightarrow> llama_kv_cache" where
  "clear_copy c = c\<lparr>do_copy := False, cells := map (\<lambda>i. (cells c ! i)\<lparr>ksrc := int i\<rparr>) [0..<kv_size c]\<rparr>"

definition update_shift :: "bool \<Rightarrow> bool \<Rightarrow> llama_context \<Rightarrow> (bool \<times> llama_context)" where
  "update_shift has_rope can_shift ctx =
     (if has_rope \<and> (has_shift (kv_self ctx) \<or> (swa_kv_active ctx \<and> has_shift (kv_swa ctx))) then
        if \<not> can_shift then (False, ctx)
        else
          let ctx1 = ctx\<lparr>kv_self := clear_shift (kv_self ctx)\<rparr> in
          (True, if swa_kv_active ctx1 then ctx1\<lparr>kv_swa := clear_shift (kv_swa ctx1)\<rparr> else ctx1)
      else (True, ctx))"

definition llama_kv_cache_update_internal ::
  "bool \<Rightarrow> bool \<Rightarrow> nat \<Rightarrow> llama_context \<Rightarrow> (int \<times> nat list option \<times> llama_context) result" where
  "llama_kv_cache_update_internal has_rope can_shift max_moves ctx =
     (let (ok, ctx1) = update_shift has_rope can_shift ctx in
      if \<not> ok then Inr (1, None, ctx1)
      else
        rbind (llama_kv_has_qnext_state_storage (kv_self ctx1)) (\<lambda>qnext.
        let ctx2 = (if (recurrent (kv_self ctx1) \<or> qnext) \<and> do_copy (kv_self ctx1)
                    then ctx1\<lparr>kv_self := clear_copy (kv_self ctx1)\<rparr> else ctx1) in
        if do_defrag (kv_self ctx2) then
          rbind (llama_kv_cache_defrag_internal max_moves (kv_self ctx2)) (\<lambda>(ids, c).
          Inr (0, ids, ctx2\<lparr>kv_self := c\<lparr>do_defrag := False\<rparr>\<rparr>))
        else Inr (0, None, ctx2)))"

section \<open>Plans\<close>

text \<open>The cells with an owner below \<open>N\<close>, and where a plan puts a cell.\<close>

definition live :: "nat \<Rightarrow> llama_kv_cell list \<Rightarrow> nat set" where
  "live N cs = {i. i < N \<and> \<not> cell_is_empty (cs ! i)}"

definition dest :: "nat list \<Rightarrow> nat \<Rightarrow> nat" where
  "dest ids i = (if ids ! i = length ids then i else ids ! i)"

text \<open>What a plan is at every moment: every live cell is where the plan puts it, no two are at one place,
  nothing else is live, a cell moves from behind the first \<open>n\<close> places into them and leaves an empty
  cell behind.\<close>

definition planned :: "llama_kv_cell list \<Rightarrow> nat \<Rightarrow> nat \<Rightarrow> llama_kv_cell list \<Rightarrow> nat list \<Rightarrow> bool" where
  "planned cs n N D ids \<longleftrightarrow> length D = length cs \<and> length ids = N \<and> N \<le> length cs \<and> n \<le> N \<and>
     (\<forall>i \<in> live N cs. D ! dest ids i = cs ! i) \<and> live N D = dest ids ` live N cs \<and> inj_on (dest ids) (live N cs) \<and>
     (\<forall>i < N. ids ! i \<noteq> N \<longrightarrow> i \<in> live N cs \<and> (ids ! i = i \<and> i < n \<or> ids ! i < n \<and> n \<le> i \<and> D ! i = new_cell)) \<and>
     (\<forall>i < length cs. i \<notin> live N D \<longrightarrow> D ! i = cs ! i \<or> D ! i = new_cell)"

lemma planned_start:
  assumes "N \<le> length cs" "n \<le> N"
  shows "planned cs n N cs (replicate N N)"
proof -
  have "dest (replicate N N) i = i" if "i < N" for i using that by (simp add: dest_def)
  then show ?thesis using assms by (auto simp: planned_def live_def inj_on_def image_iff)
qed

lemma new_cell_empty [simp]: "cell_is_empty new_cell"
  by (simp add: cell_is_empty_def new_cell_def)

lemma planned_unmoved:
  assumes "planned cs n N D ids" "s \<in> live N D" "ids ! s = N" "n \<le> s \<or> (\<forall>j < N. ids ! j \<noteq> N \<longrightarrow> ids ! j < s)"
  shows "s \<in> live N cs" "D ! s = cs ! s" "dest ids s = s"
proof -
  have len: "length ids = N" using assms(1) by (simp add: planned_def)
  obtain j where j: "j \<in> live N cs" "dest ids j = s" using assms(1,2) by (auto simp: planned_def)
  have "ids ! j = N"
  proof (rule ccontr)
    assume nz: "ids ! j \<noteq> N"
    then have "ids ! j = s" using j(2) len by (simp add: dest_def)
    moreover have "j < N" using j(1) by (simp add: live_def)
    then have "ids ! j < n" using assms(1) nz unfolding planned_def by auto
    ultimately show False using assms(4) nz \<open>j < N\<close> by fastforce
  qed
  then have "j = s" using j(2) len by (simp add: dest_def)
  then show "s \<in> live N cs" using j(1) by simp
  show "dest ids s = s" using assms(3) len by (simp add: dest_def)
  then show "D ! s = cs ! s" using assms(1) \<open>s \<in> live N cs\<close> by (auto simp: planned_def)
qed

lemma planned_mark:
  assumes "planned cs n N D ids" "i \<in> live N D" "i < n" "ids ! i = N" "\<forall>j < N. ids ! j \<noteq> N \<longrightarrow> ids ! j < i"
  shows "planned cs n N D (ids[i := i])"
proof -
  have i: "i \<in> live N cs" using planned_unmoved(1) [OF assms(1,2,4)] assms(5) by blast
  have "i < N" "length ids = N" using i assms(1) by (auto simp: live_def planned_def)
  then have "dest (ids[i := i]) = dest ids" using assms(4) by (auto simp: dest_def nth_list_update fun_eq_iff)
  then show ?thesis using assms(1) i assms(3) unfolding planned_def by (auto simp: nth_list_update)
qed

lemma planned_move:
  assumes P: "planned cs n N D ids" and s: "n \<le> s" "s \<in> live N D" "ids ! s = N" and t: "t < n" "t \<notin> live N D"
  shows "planned cs n N ((D[t := D ! s])[s := new_cell]) (ids[s := t])"
    and "live N ((D[t := D ! s])[s := new_cell]) = insert t (live N D - {s})"
proof -
  let ?D = "(D[t := D ! s])[s := new_cell]" and ?ids = "ids[s := t]"
  have len: "length D = length cs" "length ids = N" "N \<le> length cs" "n \<le> N"
    and at: "\<And>i. i \<in> live N cs \<Longrightarrow> D ! dest ids i = cs ! i" and im: "live N D = dest ids ` live N cs"
    and inj: "inj_on (dest ids) (live N cs)"
    and mv: "\<And>i. i < N \<Longrightarrow> ids ! i \<noteq> N \<Longrightarrow> i \<in> live N cs \<and> (ids ! i = i \<and> i < n \<or> ids ! i < n \<and> n \<le> i \<and> D ! i = new_cell)"
    and out: "\<And>i. i < length cs \<Longrightarrow> i \<notin> live N D \<Longrightarrow> D ! i = cs ! i \<or> D ! i = new_cell"
    using P by (auto simp: planned_def)
  have u: "s \<in> live N cs" "D ! s = cs ! s" "dest ids s = s" using planned_unmoved [OF P s(2,3)] s(1) by auto
  have sN: "s < N" "t < N" "t \<noteq> s" using u(1) t s(1) len by (auto simp: live_def)
  have dest': "dest ?ids i = (if i = s then t else dest ids i)" if "i < N" for i
    using that sN len t(1) by (auto simp: dest_def nth_list_update)
  have lt: "i \<in> live N cs \<Longrightarrow> i < N" for i by (simp add: live_def)
  have away: "dest ids i \<noteq> s \<and> dest ids i \<noteq> t" if "i \<in> live N cs" "i \<noteq> s" for i
    using that inj u(1,3) im t(2) by (metis image_eqI inj_onD)
  show live: "live N ?D = insert t (live N D - {s})"
    using sN len s(2) by (auto simp: live_def nth_list_update)
  have "live N ?D = dest ?ids ` live N cs"
  proof -
    have "dest ?ids ` live N cs = insert t (dest ids ` (live N cs - {s}))"
      using u(1) dest' lt by (auto simp: image_iff)
    also have "dest ids ` (live N cs - {s}) = live N D - {s}"
      unfolding im using inj_on_image_set_diff [OF inj, of "live N cs" "{s}"] u(1,3) by auto
    finally show ?thesis using live by simp
  qed
  moreover have "inj_on (dest ?ids) (live N cs)"
  proof (rule inj_onI)
    fix i j assume ij: "i \<in> live N cs" "j \<in> live N cs" "dest ?ids i = dest ?ids j"
    then have "(if i = s then t else dest ids i) = (if j = s then t else dest ids j)" using dest' [OF lt] by metis
    then show "i = j" using away [OF ij(1)] away [OF ij(2)] inj_onD [OF inj _ ij(1,2)] by (auto split: if_splits)
  qed
  moreover have "?D ! dest ?ids i = cs ! i" if "i \<in> live N cs" for i
  proof (cases "i = s")
    case True
    then show ?thesis using dest' [of s] sN len u(2) by (simp add: nth_list_update)
  next
    case False
    then show ?thesis using dest' [OF lt [OF that]] away [OF that False] at [OF that] by simp
  qed
  moreover have "i \<in> live N cs \<and> (?ids ! i = i \<and> i < n \<or> ?ids ! i < n \<and> n \<le> i \<and> ?D ! i = new_cell)"
    if "i < N" "?ids ! i \<noteq> N" for i
    using that mv [of i] u(1) s(1) t(1) sN len by (cases "i = s") (auto simp: nth_list_update)
  moreover have "?D ! i = cs ! i \<or> ?D ! i = new_cell" if "i < length cs" "i \<notin> live N ?D" for i
    using that live out [of i] sN len by (cases "i = s") (auto simp: nth_list_update)
  ultimately show "planned cs n N ?D ?ids" using len by (simp add: planned_def)
qed

section \<open>The loops of the planner\<close>

abbreviation cnt :: "(nat \<Rightarrow> bool) \<Rightarrow> nat \<Rightarrow> nat \<Rightarrow> nat" where
  "cnt q a b \<equiv> length (filter q [a..<b])"

lemma cnt_split: "a \<le> b \<Longrightarrow> b \<le> c \<Longrightarrow> cnt q a c = cnt q a b + cnt q b c"
  using upt_add_eq_append [of a b "c - b"] by simp

lemma cnt_first: "a < b \<Longrightarrow> cnt q a b = (if q a then Suc (cnt q (Suc a) b) else cnt q (Suc a) b)"
  by (simp add: upt_conv_Cons)

lemma cnt_cong: "(\<And>i. a \<le> i \<Longrightarrow> i < b \<Longrightarrow> q i = r i) \<Longrightarrow> cnt q a b = cnt r a b"
  by (auto intro!: arg_cong [of _ _ length] filter_cong)

lemma cnt_card: "cnt q 0 b = card {i. i < b \<and> q i}"
  using distinct_length_filter [of "[0..<b]" q] by (simp add: Int_def conj_commute)

lemma back_scan_finds:
  assumes "i0 < b" "b \<le> Suc is" "nf < nh" "nh - nf \<le> cnt q b (Suc is)"
  shows "\<exists>r. back_scan q nh i0 nf is = (nh, r) \<and> b \<le> r \<and> r \<le> is \<and> q r \<and> cnt q r (Suc is) = nh - nf"
  using assms
proof (induction "is" arbitrary: nf)
  case 0
  then show ?case by (cases b) auto
next
  case (Suc i)
  have b: "b \<le> Suc i" using Suc.prems by (cases "b = Suc (Suc i)") auto
  show ?case
  proof (cases "q (Suc i)")
    case True
    show ?thesis
    proof (cases "nf + 1 = nh")
      case False
      have "nh - (nf + 1) \<le> cnt q b (Suc i)" using Suc.prems(4) True b by simp
      then obtain r where "back_scan q nh i0 (nf + 1) i = (nh, r)" "b \<le> r" "r \<le> i" "q r" "cnt q r (Suc i) = nh - (nf + 1)"
        using Suc.IH [of "nf + 1"] Suc.prems False b by auto
      then show ?thesis using True False b Suc.prems(1,3) by (intro exI [of _ r]) auto
    qed (use True b Suc.prems(1) in auto)
  next
    case False
    have "nh - nf \<le> cnt q b (Suc i)" using Suc.prems(4) False b by simp
    then obtain r where "back_scan q nh i0 nf i = (nh, r)" "b \<le> r" "r \<le> i" "q r" "cnt q r (Suc i) = nh - nf"
      using Suc.IH [of nf] Suc.prems b by auto
    then show ?thesis using False b Suc.prems(1) by (intro exI [of _ r]) auto
  qed
qed

text \<open>What filling a hole does, from the free place \<open>a\<close> up to \<open>b\<close>.\<close>

definition fills :: "llama_kv_cell list \<Rightarrow> nat \<Rightarrow> nat \<Rightarrow> nat \<Rightarrow> nat \<Rightarrow> nat \<Rightarrow> defrag_state \<Rightarrow> bool \<Rightarrow> defrag_state \<Rightarrow> bool" where
  "fills cs n N max_moves a b st stop st' \<longleftrightarrow> planned cs n N (dcells st') (dids st') \<and>
     (\<forall>i < n. dids st' ! i = dids st ! i) \<and> (\<forall>j < N. dids st' ! j = dids st ! j \<or> dids st' ! j < b) \<and>
     dmoves st \<le> dmoves st' \<and> dmoves st' \<le> max_moves \<and> (stop \<longrightarrow> dmoves st' = max_moves) \<and>
     (\<not> stop \<longrightarrow> live n (dcells st') = live n (dcells st) \<union> {a..<b}) \<and> (dhead st' = dhead st \<or> dhead st' = n)"

lemma movable_live: "i < N \<Longrightarrow> movable N st i \<longleftrightarrow> i \<in> live N (dcells st) \<and> dids st ! i = N"
  by (auto simp: movable_def live_def)

lemma move_cell_facts:
  assumes P: "planned cs n N (dcells st) (dids st)" and i1: "n \<le> i1" "i1 < N" "movable N st i1" and t: "t < n" "t \<notin> live N (dcells st)"
  defines "st1 \<equiv> move_cell n t i1 st"
  shows "planned cs n N (dcells st1) (dids st1)" "live n (dcells st1) = insert t (live n (dcells st))"
    "\<And>j. i1 < j \<Longrightarrow> movable N st1 j = movable N st j" "\<And>i. i < n \<Longrightarrow> dids st1 ! i = dids st ! i"
    "\<And>j. j < N \<Longrightarrow> dids st1 ! j = dids st ! j \<or> dids st1 ! j = t" "dmoves st1 = dmoves st" "dhead st1 = n"
proof -
  have mv: "i1 \<in> live N (dcells st)" "dids st ! i1 = N" using i1 movable_live by auto
  show "planned cs n N (dcells st1) (dids st1)"
    using planned_move(1) [OF P i1(1) mv t] by (simp add: st1_def move_cell_def)
  have "live N (dcells st1) = insert t (live N (dcells st) - {i1})"
    using planned_move(2) [OF P i1(1) mv t] by (simp add: st1_def move_cell_def)
  moreover have "n \<le> N" using P by (simp add: planned_def)
  then have "live n cs' = live N cs' \<inter> {..<n}" for cs' by (auto simp: live_def)
  ultimately show "live n (dcells st1) = insert t (live n (dcells st))" using i1(1) t(1) by auto
  have "length (dids st) = N" using P by (simp add: planned_def)
  then show "\<And>j. i1 < j \<Longrightarrow> movable N st1 j = movable N st j" "\<And>i. i < n \<Longrightarrow> dids st1 ! i = dids st ! i"
    "\<And>j. j < N \<Longrightarrow> dids st1 ! j = dids st ! j \<or> dids st1 ! j = t" "dmoves st1 = dmoves st" "dhead st1 = n"
    using i1 t by (auto simp: st1_def move_cell_def movable_def nth_list_update)
qed

lemma move_loop_fills:
  assumes "planned cs n N (dcells st) (dids st)" "i0 + nh \<le> n" "nf < nh" "n \<le> i1" "i1 \<le> N"
    "\<And>i. i0 + nf \<le> i \<Longrightarrow> i < i0 + nh \<Longrightarrow> i \<notin> live N (dcells st)" "nh - nf \<le> cnt (movable N st) i1 N"
    "dmoves st \<le> max_moves" "\<not> cont \<Longrightarrow> dmoves st < max_moves"
  shows "case move_loop N n max_moves i0 nh i1 nf cont st of (stop, st') \<Rightarrow>
    fills cs n N max_moves (i0 + nf) (i0 + nh) st stop st'"
  using assms
proof (induction "N - i1" arbitrary: i1 nf cont st rule: less_induct)
  case less
  have i1: "i1 < N" using less.prems(3,5,7) by (cases "i1 = N") auto
  have cnt: "cnt (movable N st) i1 N = (if movable N st i1 then Suc (cnt (movable N st) (Suc i1) N) else cnt (movable N st) (Suc i1) N)"
    by (rule cnt_first [OF i1])
  show ?case
  proof (cases "movable N st i1")
    case False
    show ?thesis
    proof (cases "dmoves st = max_moves")
      case True
      then show ?thesis using False i1 less.prems(1,8) by (subst move_loop.simps) (simp add: fills_def)
    next
      case ne: False
      have "case move_loop N n max_moves i0 nh (Suc i1) nf False st of (stop, st') \<Rightarrow>
          fills cs n N max_moves (i0 + nf) (i0 + nh) st stop st'"
        by (rule less.hyps) (use less.prems i1 ne cnt False in auto)
      then show ?thesis using False i1 ne by (subst move_loop.simps) simp
    qed
  next
    case True
    let ?t = "i0 + nf"
    define st1 where "st1 = move_cell n ?t i1 st"
    define st2 where "st2 = (if cont then st1 else st1\<lparr>dmoves := dmoves st1 + 1\<rparr>)"
    have t: "?t < n" "?t \<notin> live N (dcells st)" using less.prems(2,3,6) by auto
    note facts = move_cell_facts [OF less.prems(1,4) i1 True t, folded st1_def]
    have eq: "dcells st2 = dcells st1" "dids st2 = dids st1" "dhead st2 = n" "dmoves st \<le> dmoves st2" "dmoves st2 \<le> max_moves"
      using facts(6,7) less.prems(8,9) by (auto simp: st2_def)
    have tgt: "\<forall>j < N. dids st2 ! j = dids st ! j \<or> dids st2 ! j < i0 + nh" 
    proof (intro allI impI)
      fix j assume "j < N"
      from facts(5) [OF this] show "dids st2 ! j = dids st ! j \<or> dids st2 ! j < i0 + nh" using eq(2) less.prems(3) by auto
    qed
    show ?thesis
    proof (cases "nf + 1 = nh")
      case last: True
      have "i0 + nh = Suc ?t" using last by simp
      then have "live n (dcells st2) = live n (dcells st) \<union> {?t..<i0 + nh}"
        by (simp only: facts(2) eq(1) atLeastLessThanSuc le_refl if_True) simp
      then have "fills cs n N max_moves ?t (i0 + nh) st False st2"
        using facts(1,4) eq tgt unfolding fills_def by simp
      then show ?thesis using True i1 last
        by (subst move_loop.simps) (simp add: Let_def flip: st1_def st2_def)
    next
      case more: False
      have mv: "movable N st2 j = movable N st j" if "Suc i1 \<le> j" for j
        using facts(3) [of j] that eq by (simp add: movable_def)
      have "case move_loop N n max_moves i0 nh (Suc i1) (nf + 1) True st2 of (stop, st') \<Rightarrow>
          fills cs n N max_moves (i0 + (nf + 1)) (i0 + nh) st2 stop st'"
      proof (rule less.hyps)
        show "i \<notin> live N (dcells st2)" if "i0 + (nf + 1) \<le> i" "i < i0 + nh" for i
        proof -
          have "i < n" "i \<notin> live n (dcells st)" using that less.prems(2) less.prems(6) [of i] less.prems(1)
            by (auto simp: live_def planned_def)
          then have "i \<notin> live n (dcells st1)" using facts(2) that by auto
          then show ?thesis using \<open>i < n\<close> eq by (auto simp: live_def)
        qed
        show "nh - (nf + 1) \<le> cnt (movable N st2) (Suc i1) N"
          using less.prems(7) cnt True cnt_cong [of "Suc i1" N "movable N st2" "movable N st"] mv by simp
      qed (use less.prems i1 facts(1) eq more in auto)
      moreover have "fills cs n N max_moves ?t (i0 + nh) st stop st'"
        if "fills cs n N max_moves (i0 + (nf + 1)) (i0 + nh) st2 stop st'" for stop st'
      proof -
        have "insert ?t {i0 + (nf + 1)..<i0 + nh} = {?t..<i0 + nh}" using less.prems(3) by auto
        then have "\<not> stop \<Longrightarrow> live n (dcells st') = live n (dcells st) \<union> {?t..<i0 + nh}"
          using that facts(2) eq(1) unfolding fills_def by auto
        moreover have "\<forall>j < N. dids st' ! j = dids st ! j \<or> dids st' ! j < i0 + nh"
          using that tgt unfolding fills_def by metis
        ultimately show ?thesis using that facts(4) eq unfolding fills_def by auto
      qed
      ultimately show ?thesis
        using True i1 more unfolding move_loop.simps [of N n max_moves i0 nh i1 nf cont st]
        by (auto simp: Let_def st1_def [symmetric] st2_def [symmetric])
    qed
  qed
qed

lemma move_loop_mono: "dmoves st \<le> dmoves (snd (move_loop N n max_moves i0 nh i1 nf cont st))"
proof (induction N n max_moves i0 nh i1 nf cont st rule: move_loop.induct)
  case (1 N n max_moves i0 nh i1 nf cont st)
  then show ?case
    by (subst move_loop.simps)
      (auto simp: Let_def move_cell_def split: if_splits intro: Suc_leD)
qed

lemma move_loop_counts:
  assumes "movable N st i1" "i1 < N"
  shows "dmoves st < dmoves (snd (move_loop N n max_moves i0 nh i1 nf False st))"
  using assms move_loop_mono [of "(move_cell n (i0 + nf) i1 st)\<lparr>dmoves := Suc (dmoves st)\<rparr>" N n max_moves i0 nh "Suc i1" "nf + 1" True]
  by (subst move_loop.simps) (auto simp: Let_def move_cell_def)

lemma hole_len_spec:
  assumes "i0 + nh \<le> n" "\<And>i. i0 \<le> i \<Longrightarrow> i < i0 + nh \<Longrightarrow> cell_is_empty (D ! i)"
  shows "i0 + hole_len D n i0 nh \<le> n \<and> (\<forall>i. i0 \<le> i \<and> i < i0 + hole_len D n i0 nh \<longrightarrow> cell_is_empty (D ! i))"
  using assms
proof (induction D n i0 nh rule: hole_len.induct)
  case (1 D n i0 nh)
  show ?case
  proof (cases "i0 + nh < n \<and> cell_is_empty (D ! (i0 + nh))")
    case True
    then have "i0 + hole_len D n i0 (Suc nh) \<le> n \<and> (\<forall>i. i0 \<le> i \<and> i < i0 + hole_len D n i0 (Suc nh) \<longrightarrow> cell_is_empty (D ! i))"
      by (intro "1.IH") (use "1.prems" in \<open>auto simp: less_Suc_eq\<close>)
    then show ?thesis using True by (simp add: hole_len.simps [of D n i0 nh])
  next
    case False
    then show ?thesis using "1.prems" by (auto simp: hole_len.simps [of D n i0 nh])
  qed
qed

text \<open>Behind the first \<open>n\<close> places there are as many live cells as there are holes in them.\<close>

lemma enough_movable:
  assumes P: "planned cs n N (dcells st) (dids st)" and card: "card (live N cs) = n" and H: "H \<subseteq> {..<n} - live n (dcells st)"
  shows "card H \<le> cnt (movable N st) n N"
proof -
  let ?D = "dcells st"
  have nN: "n \<le> N" using P by (simp add: planned_def)
  have "card (live N ?D) = n" using P card by (simp add: planned_def card_image)
  moreover have "card (live N ?D) = card (live n ?D) + card {i. n \<le> i \<and> i < N \<and> i \<in> live N ?D}" (is "_ = _ + card ?B")
  proof -
    have "live n ?D \<union> ?B = live N ?D" using nN by (auto simp: live_def)
    moreover have "card (live n ?D \<union> ?B) = card (live n ?D) + card ?B"
      by (rule card_Un_disjoint) (auto simp: live_def)
    ultimately show ?thesis by argo
  qed
  moreover have "card H + card (live n ?D) \<le> n"
  proof -
    have "finite H" "finite (live n ?D)" using H finite_subset [OF H] by (auto simp: live_def)
    then have "card H + card (live n ?D) = card (H \<union> live n ?D)" using H by (subst card_Un_disjoint) auto
    also have "\<dots> \<le> card {..<n}" using H by (intro card_mono) (auto simp: live_def)
    finally show ?thesis by simp
  qed
  moreover have "cnt (movable N st) n N = card {i. n \<le> i \<and> i < N \<and> i \<in> live N ?D}"
  proof -
    have "dids st ! i = N" if "n \<le> i" "i \<in> live N ?D" for i
    proof (rule ccontr)
      assume "dids st ! i \<noteq> N"
      moreover have "i < N" using that(2) by (simp add: live_def)
      ultimately have "?D ! i = new_cell" using P that(1) unfolding planned_def by (metis not_le)
      then show False using that by (simp add: live_def)
    qed
    then have "{i. n \<le> i \<and> i < N \<and> movable N st i} = {i. n \<le> i \<and> i < N \<and> i \<in> live N ?D}"
      using movable_live by auto
    moreover have "cnt (movable N st) n N = card {i. n \<le> i \<and> i < N \<and> movable N st i}"
      using distinct_length_filter [of "[n..<N]" "movable N st"] by (simp add: Int_def conj_commute conj_left_commute)
    ultimately show ?thesis by simp
  qed
  ultimately show ?thesis by linarith
qed

text \<open>The planner between two holes.\<close>

definition plan_inv :: "llama_kv_cell list \<Rightarrow> nat \<Rightarrow> nat \<Rightarrow> nat \<Rightarrow> defrag_state \<Rightarrow> bool" where
  "plan_inv cs n N i0 st \<longleftrightarrow> planned cs n N (dcells st) (dids st) \<and> i0 \<le> n \<and> {..<i0} \<subseteq> live n (dcells st) \<and>
     (\<forall>i. i0 \<le> i \<and> i < n \<longrightarrow> dids st ! i = N) \<and> (\<forall>j < N. dids st ! j \<noteq> N \<longrightarrow> dids st ! j < i0) \<and>
     (dmoves st = 0 \<longrightarrow> dcells st = cs)"

definition plan_done :: "llama_kv_cell list \<Rightarrow> nat \<Rightarrow> nat \<Rightarrow> nat \<Rightarrow> nat \<Rightarrow> defrag_state \<Rightarrow> bool" where
  "plan_done cs n N max_moves h st \<longleftrightarrow> planned cs n N (dcells st) (dids st) \<and> dmoves st \<le> max_moves \<and>
     (dmoves st < max_moves \<longrightarrow> {..<n} \<subseteq> live n (dcells st)) \<and> (dmoves st = 0 \<longrightarrow> dcells st = cs \<and> dhead st = h) \<and>
     (dhead st = h \<or> dhead st = n)"

lemma plan_inv_mark:
  assumes "plan_inv cs n N i0 st" "i0 < n" "\<not> cell_is_empty (dcells st ! i0)"
  shows "plan_inv cs n N (Suc i0) (st\<lparr>dids := (dids st)[i0 := i0]\<rparr>)"
proof -
  have P: "planned cs n N (dcells st) (dids st)" using assms(1) by (simp add: plan_inv_def)
  then have N: "i0 < N" "length (dids st) = N" using assms(2) by (auto simp: planned_def)
  have "planned cs n N (dcells st) ((dids st)[i0 := i0])"
    by (rule planned_mark [OF P]) (use assms N in \<open>auto simp: plan_inv_def live_def\<close>)
  then show ?thesis using assms N unfolding plan_inv_def
    by (auto simp: nth_list_update live_def less_Suc_eq)
qed

lemma plan_hole:
  assumes I: "plan_inv cs n N i0 st" and card: "card (live N cs) = n" and i0: "i0 < n" "cell_is_empty (dcells st ! i0)"
    and mv: "dmoves st < max_moves"
  defines "nh \<equiv> hole_len (dcells st) n i0 1"
  shows "\<exists>is stop st1. back_scan (movable N st) nh i0 0 (N - 1) = (nh, is) \<and>
    move_loop N n max_moves i0 nh is 0 False st = (stop, st1) \<and> dmoves st < dmoves st1 \<and>
    fills cs n N max_moves i0 (i0 + nh) st stop st1 \<and> i0 + nh \<le> n"
proof -
  have P: "planned cs n N (dcells st) (dids st)" using I by (simp add: plan_inv_def)
  then have N: "n \<le> N" by (simp add: planned_def)
  have hole: "i0 + nh \<le> n" "\<And>i. i0 \<le> i \<Longrightarrow> i < i0 + nh \<Longrightarrow> cell_is_empty (dcells st ! i)" "0 < nh"
    using hole_len_spec [of i0 1 n "dcells st"] hole_len_ge [of 1 "dcells st" n i0] i0 by (auto simp: nh_def less_Suc_eq)
  have "card {i0..<i0 + nh} \<le> cnt (movable N st) n N"
    by (rule enough_movable [OF P card]) (use hole in \<open>auto simp: live_def\<close>)
  then have "nh - 0 \<le> cnt (movable N st) n (Suc (N - 1))" using i0(1) N by simp
  then obtain r where r: "back_scan (movable N st) nh i0 0 (N - 1) = (nh, r)" "n \<le> r" "r \<le> N - 1" "movable N st r"
    "cnt (movable N st) r (Suc (N - 1)) = nh - 0"
    using back_scan_finds [of i0 n "N - 1" 0 nh "movable N st"] i0(1) N hole(3) by auto
  have rN: "r < N" "cnt (movable N st) r N = nh" using r(3,5) i0(1) N by auto
  obtain stop st1 where run: "move_loop N n max_moves i0 nh r 0 False st = (stop, st1)" by fastforce
  have "fills cs n N max_moves (i0 + 0) (i0 + nh) st stop st1"
    using move_loop_fills [OF P hole(1,3) r(2), of max_moves False] hole(2) rN mv run by (auto simp: live_def)
  moreover have "dmoves st < dmoves st1"
    using move_loop_counts [OF r(4) rN(1), of n max_moves i0 nh 0] run by simp
  ultimately show ?thesis using r(1) run hole(1) by auto
qed

lemma plan_loop_done:
  assumes "plan_inv cs n N i0 st" "card (live N cs) = n" "dmoves st < max_moves" "dhead st = h \<or> dhead st = n \<and> 0 < dmoves st"
  shows "\<exists>st'. plan_loop N n max_moves i0 st = Inr st' \<and> plan_done cs n N max_moves h st'"
  using assms
proof (induction "n - i0" arbitrary: i0 st rule: less_induct)
  case less
  show ?case
  proof (cases "i0 < n")
    case False
    then have "plan_done cs n N max_moves h st" using less.prems by (auto simp: plan_inv_def plan_done_def)
    then show ?thesis using False by (simp add: plan_loop.simps)
  next
    case True
    show ?thesis
    proof (cases "cell_is_empty (dcells st ! i0)")
      case False
      have "\<exists>st'. plan_loop N n max_moves (Suc i0) (st\<lparr>dids := (dids st)[i0 := i0]\<rparr>) = Inr st' \<and> plan_done cs n N max_moves h st'"
        by (rule less.hyps) (use less.prems True plan_inv_mark [OF less.prems(1) True False] in auto)
      then show ?thesis using True False by (subst plan_loop.simps) simp
    next
      case hole: True
      define nh where "nh = hole_len (dcells st) n i0 1"
      obtain r stop st1 where st1: "back_scan (movable N st) nh i0 0 (N - 1) = (nh, r)"
        "move_loop N n max_moves i0 nh r 0 False st = (stop, st1)" "dmoves st < dmoves st1"
        "fills cs n N max_moves i0 (i0 + nh) st stop st1" "i0 + nh \<le> n"
        using plan_hole [OF less.prems(1,2) True hole less.prems(3)] unfolding nh_def by blast
      have step: "plan_loop N n max_moves i0 st =
          (if stop \<or> dmoves st1 = max_moves then Inr st1 else plan_loop N n max_moves (i0 + nh) st1)"
        using True hole st1(1,2)
        unfolding plan_loop.simps [of N n max_moves i0 st] Let_def nh_def [symmetric] by simp
      show ?thesis
      proof (cases "stop \<or> dmoves st1 = max_moves")
        case True
        then have "plan_done cs n N max_moves h st1"
          using st1(3,4) less.prems(4) by (auto simp: fills_def plan_done_def)
        then show ?thesis using True step by simp
      next
        case False
        have "\<forall>j < N. dids st1 ! j \<noteq> N \<longrightarrow> dids st1 ! j < i0 + nh"
          using less.prems(1) st1(4) unfolding plan_inv_def fills_def by (metis trans_less_add1)
        then have "plan_inv cs n N (i0 + nh) st1"
          using less.prems(1) st1(3,4,5) False unfolding plan_inv_def fills_def by auto
        moreover have "n - (i0 + nh) < n - i0" using hole_len_ge [of 1 "dcells st" n i0] True by (simp add: nh_def)
        ultimately have "\<exists>st'. plan_loop N n max_moves (i0 + nh) st1 = Inr st' \<and> plan_done cs n N max_moves h st'"
          by (intro less.hyps) (use less.prems st1(3,4) False in \<open>auto simp: fills_def\<close>)
        then show ?thesis using False step by simp
      qed
    qed
  qed
qed

section \<open>The cells after defragmentation\<close>

lemma count_used_live: "\<forall>cell \<in> set cs. cell_ok cell \<Longrightarrow> count_used cs = card (live (length cs) cs)"
proof -
  assume "\<forall>cell \<in> set cs. cell_ok cell"
  then have "kpos (cs ! i) \<ge> 0 \<longleftrightarrow> \<not> cell_is_empty (cs ! i)" if "i < length cs" for i
    using that nth_mem [OF that] by (auto simp: cell_ok_def cell_is_empty_def)
  then have "{i. i < length cs \<and> kpos (cs ! i) \<ge> 0} = live (length cs) cs" by (auto simp: live_def)
  then show ?thesis unfolding count_used_upt cnt_card by simp
qed

lemma live_below_max:
  assumes "kv_ok c"
  shows "live (kv_size c) (cells c) = live (llama_kv_cache_cell_max c) (cells c)"
proof -
  have "i < llama_kv_cache_cell_max c" if "i \<in> live (kv_size c) (cells c)" for i
    using that cell_max_from_covers [of i "kv_size c" "cells c"] kv_ok_cell [OF assms, of i]
    by (auto simp: live_def llama_kv_cache_cell_max_def in_use_def cell_ok_def cell_is_empty_def)
  then show ?thesis using cell_max_from_le [of "cells c" "kv_size c"]
    by (auto simp: live_def llama_kv_cache_cell_max_def)
qed

lemma cell_ok_new_cell: "cell_ok new_cell"
  by (simp add: cell_ok_def) (simp add: new_cell_def INT32_MAX_def)

lemma planned_cells_ok:
  assumes ok: "\<forall>cell \<in> set cs. cell_ok cell" and P: "planned cs n N D ids"
  shows "\<forall>cell \<in> set D. cell_ok cell"
proof
  fix cell assume "cell \<in> set D"
  then obtain i where i: "i < length cs" "cell = D ! i" using P by (auto simp: planned_def in_set_conv_nth)
  show "cell_ok cell"
  proof (cases "i \<in> live N D")
    case True
    then obtain j where j: "j \<in> live N cs" "i = dest ids j" using P by (auto simp: planned_def)
    then have "cell = cs ! j" using i(2) P by (auto simp: planned_def)
    moreover have "j < length cs" using j(1) P by (auto simp: planned_def live_def)
    ultimately show ?thesis using ok nth_mem by blast
  next
    case False
    then have "cell = cs ! i \<or> cell = new_cell" using i P by (auto simp: planned_def)
    then show ?thesis using ok nth_mem [OF i(1)] cell_ok_new_cell by auto
  qed
qed

lemma planned_live:
  assumes ok: "kv_ok c" and P: "planned (cells c) (used c) (llama_kv_cache_cell_max c) D ids"
  shows "live (kv_size c) D = live (llama_kv_cache_cell_max c) D"
    and "bij_betw (dest ids) (live (kv_size c) (cells c)) (live (kv_size c) D)"
proof -
  let ?N = "llama_kv_cache_cell_max c"
  have N: "?N \<le> kv_size c" using P by (simp add: planned_def)
  have "i < ?N" if live: "i \<in> live (kv_size c) D" for i
  proof (rule ccontr)
    assume i: "\<not> i < ?N"
    then have "i \<notin> live ?N D" by (simp add: live_def)
    moreover have "i < kv_size c" "\<not> cell_is_empty (D ! i)" using live by (auto simp: live_def)
    ultimately have "D ! i = cells c ! i" using P unfolding planned_def by (metis new_cell_empty)
    then have "i \<in> live (kv_size c) (cells c)" using live by (simp add: live_def)
    then have "i \<in> live ?N (cells c)" using live_below_max [OF ok] by simp
    then show False using i by (simp add: live_def)
  qed
  then show "live (kv_size c) D = live ?N D" using N by (auto simp: live_def)
  then show "bij_betw (dest ids) (live (kv_size c) (cells c)) (live (kv_size c) D)"
    using P live_below_max [OF ok] by (simp add: bij_betw_def planned_def)
qed

lemma planned_kv_ok:
  assumes ok: "kv_ok c" and P: "planned (cells c) (used c) (llama_kv_cache_cell_max c) D ids" and h: "h = head c \<or> h = used c"
  shows "kv_ok (c\<lparr>cells := D, head := h\<rparr>)"
proof -
  have cells: "\<forall>cell \<in> set (cells c). cell_ok cell" using ok by (simp add: kv_ok_def)
  have "length D = kv_size c" using P by (simp add: planned_def)
  then have "count_used D = used c"
    using count_used_live [OF planned_cells_ok [OF cells P]] count_used_live [OF cells]
      bij_betw_same_card [OF planned_live(2) [OF ok P]] ok by (simp add: kv_ok_def)
  then show ?thesis using ok h planned_cells_ok [OF cells P] P by (auto simp: kv_ok_def planned_def)
qed

lemma defrag_plan_done:
  assumes "kv_ok c" "0 < max_moves"
  shows "\<exists>st. defrag_plan max_moves c = Inr st \<and>
    plan_done (cells c) (used c) (llama_kv_cache_cell_max c) max_moves (head c) st"
proof -
  let ?N = "llama_kv_cache_cell_max c" and ?st = "\<lparr>dcells = cells c, dids = replicate (llama_kv_cache_cell_max c) (llama_kv_cache_cell_max c), dhead = head c, dmoves = 0\<rparr>"
  have card: "card (live ?N (cells c)) = used c"
    using count_used_live [of "cells c"] live_below_max [OF assms(1)] assms(1) by (simp add: kv_ok_def)
  then have n: "used c \<le> ?N" using card_mono [of "{..<?N}" "live ?N (cells c)"] by (auto simp: live_def)
  moreover have "?N \<le> kv_size c" using cell_max_from_le by (simp add: llama_kv_cache_cell_max_def)
  ultimately have "plan_inv (cells c) (used c) ?N 0 ?st" using planned_start [of ?N "cells c" "used c"] by (simp add: plan_inv_def)
  then show ?thesis using plan_loop_done [of "cells c" "used c" ?N 0 ?st max_moves "head c"] card assms(2) n
    by (simp add: defrag_plan_def rassert_def Let_def)
qed

text \<open>
  C35. Defragmentation loses nothing. On a cache that satisfies the invariant, and with a limit of at
  least one move, the planner returns, so neither of its assertions fires; the invariant still holds and
  the number of used cells is the same; the plan maps the cells with an owner one to one to the cells
  with an owner afterwards, each of them is at its place in the plan with its contents unchanged, and
  none has moved up; at most as many blocks as the limit were moved, and when there were fewer, the used
  cells are exactly the first ones of the cache.
\<close>

theorem defrag_correct:
  assumes "kv_ok c" "0 < max_moves"
  shows "\<exists>st ids c'. defrag_plan max_moves c = Inr st \<and> llama_kv_cache_defrag_internal max_moves c = Inr (ids, c') \<and>
    kv_ok c' \<and> used c' = used c \<and> (ids = None \<longrightarrow> c' = c) \<and>
    bij_betw (dest (dids st)) (live (kv_size c) (cells c)) (live (kv_size c') (cells c')) \<and>
    (\<forall>i \<in> live (kv_size c) (cells c). cells c' ! dest (dids st) i = cells c ! i \<and> dest (dids st) i \<le> i) \<and>
    dmoves st \<le> max_moves \<and> (dmoves st < max_moves \<longrightarrow> live (kv_size c') (cells c') = {..<used c})"
proof -
  let ?N = "llama_kv_cache_cell_max c"
  obtain st where st: "defrag_plan max_moves c = Inr st" "plan_done (cells c) (used c) ?N max_moves (head c) st"
    using defrag_plan_done [OF assms] by blast
  let ?c = "c\<lparr>cells := dcells st, head := dhead st\<rparr>"
  have P: "planned (cells c) (used c) ?N (dcells st) (dids st)" using st(2) by (simp add: plan_done_def)
  have ok: "kv_ok ?c" by (rule planned_kv_ok [OF assms(1) P]) (use st(2) in \<open>auto simp: plan_done_def\<close>)
  have N: "?N \<le> kv_size c" "kv_size ?c = kv_size c" "length (dids st) = ?N" using P by (auto simp: planned_def)
  have bij: "bij_betw (dest (dids st)) (live (kv_size c) (cells c)) (live (kv_size ?c) (cells ?c))"
    using planned_live(2) [OF assms(1) P] N(2) by simp
  have fin: "finite (live m cs)" for m cs by (simp add: live_def)
  have card: "card (live (kv_size c) (dcells st)) = used c"
    using bij_betw_same_card [OF bij] count_used_live [of "cells c"] assms(1) N(2) by (simp add: kv_ok_def)
  have "dest (dids st) i \<le> i" if "i \<in> live ?N (cells c)" for i
    using that P N(3) unfolding planned_def dest_def live_def by auto
  moreover have "live (kv_size ?c) (cells ?c) = {..<used c}" if "dmoves st < max_moves"
  proof -
    have "{..<used c} \<subseteq> live (kv_size c) (dcells st)"
      using that st(2) P N(1) by (auto simp: plan_done_def planned_def live_def)
    then have "{..<used c} = live (kv_size c) (dcells st)" by (rule card_subset_eq [OF fin]) (simp add: card)
    then show ?thesis using N(2) by simp
  qed
  moreover have "dmoves st = 0 \<Longrightarrow> ?c = c" using st(2) by (simp add: plan_done_def)
  ultimately show ?thesis
    using st ok P bij live_below_max [OF assms(1)]
    by (intro exI [of _ st] exI [of _ "if dmoves st = 0 then None else Some (dids st)"] exI [of _ ?c])
      (auto simp: llama_kv_cache_defrag_internal_def plan_done_def planned_def)
qed

definition holed_cache :: llama_kv_cache where
  "holed_cache = (empty_cache 4)\<lparr>cells := [new_cell, add_seq 0 (new_cell\<lparr>kpos := 0\<rparr>), new_cell, add_seq 0 (new_cell\<lparr>kpos := 1\<rparr>)], used := 2\<rparr>"

lemma holed_cache_ok: "kv_ok holed_cache"
proof -
  have "cell_ok (add_seq 0 (new_cell\<lparr>kpos := p\<rparr>))" if "p \<in> {0, 1}" for p
    using that by (auto simp: cell_ok_def INT32_MAX_def add_seq_def sync_shadow_def in_step_def new_cell_def)
  then show ?thesis using cell_ok_new_cell
    by (simp add: kv_ok_def holed_cache_def empty_cache_def) (simp add: new_cell_def add_seq_def sync_shadow_def)
qed

theorem defrag_correct_witness:
  "\<exists>st ids c'. defrag_plan 8 holed_cache = Inr st \<and> llama_kv_cache_defrag_internal 8 holed_cache = Inr (ids, c') \<and>
     kv_ok c' \<and> used c' = 2 \<and> (dmoves st < 8 \<longrightarrow> live (kv_size c') (cells c') = {..<2})"
proof -
  have "used holed_cache = 2" by (simp add: holed_cache_def)
  then show ?thesis using defrag_correct [OF holed_cache_ok, of 8] by auto
qed

section \<open>The rows follow their cells\<close>

lemma run_len_spec:
  assumes "i + nm \<le> length ids" "\<And>k. k < nm \<Longrightarrow> ids ! (i + k) = d + k"
  shows "i + run_len ids i d nm \<le> length ids \<and> (\<forall>k < run_len ids i d nm. ids ! (i + k) = d + k)"
  using assms
proof (induction ids i d nm rule: run_len.induct)
  case (1 ids i d nm)
  show ?case
  proof (cases "i + nm < length ids \<and> ids ! (i + nm) = d + nm")
    case True
    then have "i + run_len ids i d (Suc nm) \<le> length ids \<and> (\<forall>k < run_len ids i d (Suc nm). ids ! (i + k) = d + k)"
      by (intro "1.IH") (use "1.prems" in \<open>auto simp: less_Suc_eq\<close>)
    then show ?thesis using True by (simp add: run_len.simps [of ids i d nm])
  next
    case False
    then show ?thesis using "1.prems" by (auto simp: run_len.simps [of ids i d nm])
  qed
qed

abbreviation goes :: "nat list \<Rightarrow> nat \<Rightarrow> bool" where
  "goes ids s \<equiv> s < length ids \<and> ids ! s \<noteq> s \<and> ids ! s \<noteq> length ids"

text \<open>A plan whose sources lie behind \<open>n\<close> and whose destinations lie before it, all different.\<close>

definition split_plan :: "nat list \<Rightarrow> nat \<Rightarrow> bool" where
  "split_plan ids n \<longleftrightarrow> (\<forall>s. goes ids s \<longrightarrow> n \<le> s \<and> ids ! s < n) \<and> inj_on ((!) ids) {s. goes ids s}"

text \<open>The rows when the sources below \<open>i\<close> have been copied.\<close>

definition copied :: "nat list \<Rightarrow> nat \<Rightarrow> 'r list \<Rightarrow> 'r list \<Rightarrow> bool" where
  "copied ids i rows R \<longleftrightarrow> length R = length rows \<and> (\<forall>s < i. goes ids s \<longrightarrow> R ! (ids ! s) = rows ! s) \<and>
     (\<forall>r < length rows. (\<forall>s < i. goes ids s \<longrightarrow> ids ! s \<noteq> r) \<longrightarrow> R ! r = rows ! r)"

lemma copied_block:
  assumes S: "split_plan ids n" and C: "copied ids i rows R" and len: "length ids \<le> length rows" "n \<le> length rows"
    and nm: "i + nm \<le> length ids" "\<And>k. k < nm \<Longrightarrow> ids ! (i + k) = d + k" and go: "\<And>k. k < nm \<Longrightarrow> goes ids (i + k)"
  shows "copied ids (i + nm) rows (copy_rows (i, d, nm) R)"
proof -
  let ?R = "copy_rows (i, d, nm) R"
  have lR: "length R = length rows" "length ?R = length rows" using C by (auto simp: copied_def copy_rows_def)
  have at: "?R ! r = (if d \<le> r \<and> r < d + nm then R ! (i + (r - d)) else R ! r)" if "r < length rows" for r
    using that lR(1) by (simp add: copy_rows_def)
  have src: "R ! s = rows ! s" if "n \<le> s" "s < length rows" for s
    using that C S unfolding copied_def split_plan_def by (metis not_le)
  have inblock: "?R ! (ids ! (i + k)) = rows ! (i + k)" if "k < nm" for k
  proof -
    have "n \<le> i + k" "ids ! (i + k) < n" "i + k < length rows" using go [OF that] S len by (auto simp: split_plan_def)
    then show ?thesis using at [of "ids ! (i + k)"] nm(2) [OF that] that src [of "i + k"] len by simp
  qed
  have before: "?R ! (ids ! s) = rows ! s" if "s < i" "goes ids s" for s
  proof -
    have inj: "inj_on ((!) ids) {s. goes ids s}" using S by (simp add: split_plan_def)
    have "ids ! s \<noteq> ids ! (i + k)" if "k < nm" for k
    proof
      assume "ids ! s = ids ! (i + k)"
      then have "s = i + k" by (rule inj_onD [OF inj]) (use go [OF that] \<open>goes ids s\<close> in simp_all)
      then show False using \<open>s < i\<close> by simp
    qed
    then have "\<not> (d \<le> ids ! s \<and> ids ! s < d + nm)" using nm(2) by (metis add_diff_inverse_nat nat_add_left_cancel_less not_le)
    moreover have "ids ! s < length rows" using S that(2) len by (auto simp: split_plan_def)
    ultimately show ?thesis using at C that by (auto simp: copied_def)
  qed
  have "?R ! (ids ! s) = rows ! s" if "s < i + nm" "goes ids s" for s
    using before [of s] inblock [of "s - i"] that by (cases "s < i") auto
  moreover have "?R ! r = rows ! r" if "r < length rows" "\<forall>s < i + nm. goes ids s \<longrightarrow> ids ! s \<noteq> r" for r
  proof -
    have "\<not> (d \<le> r \<and> r < d + nm)"
    proof
      assume "d \<le> r \<and> r < d + nm"
      then have "r - d < nm" "ids ! (i + (r - d)) = r" using nm(2) [of "r - d"] by auto
      then show False using that(2) go [of "r - d"] by auto
    qed
    then show ?thesis using at [OF that(1)] C that unfolding copied_def by auto
  qed
  ultimately show ?thesis using lR(2) by (simp add: copied_def)
qed

lemma build_defrag_copies:
  assumes "split_plan ids n" "copied ids i rows R" "length ids \<le> length rows" "n \<le> length rows" "i \<le> length ids"
  shows "copied ids (length ids) rows (fold copy_rows (build_defrag ids i) R)"
  using assms
proof (induction ids i arbitrary: R rule: build_defrag.induct)
  case (1 ids i)
  show ?case
  proof (cases "i < length ids")
    case False
    then show ?thesis using "1.prems" by (subst build_defrag.simps) simp
  next
    case True
    show ?thesis
    proof (cases "i = ids ! i \<or> ids ! i = length ids")
      case stay: True
      have "copied ids (Suc i) rows R" using "1.prems"(2) stay unfolding copied_def by (auto simp: less_Suc_eq)
      then have "copied ids (length ids) rows (fold copy_rows (build_defrag ids (Suc i)) R)"
        by (intro "1.IH"(1) [OF True refl stay]) (use "1.prems" True in auto)
      then show ?thesis using True stay by (subst build_defrag.simps) (simp add: Let_def)
    next
      case go: False
      define nm where "nm = run_len ids i (ids ! i) 1"
      have nm: "i + nm \<le> length ids" "\<And>k. k < nm \<Longrightarrow> ids ! (i + k) = ids ! i + k"
        using run_len_spec [of i 1 ids "ids ! i"] True by (auto simp: nm_def)
      have i: "n \<le> i" "ids ! i < n" using "1.prems"(1) go True by (auto simp: split_plan_def)
      have "goes ids (i + k)" if "k < nm" for k using nm(2) [OF that] nm(1) that i by auto
      then have "copied ids (i + nm) rows (copy_rows (i, ids ! i, nm) R)"
        using copied_block [OF "1.prems"(1,2,3,4) nm] by blast
      then have "copied ids (length ids) rows (fold copy_rows (build_defrag ids (i + nm)) (copy_rows (i, ids ! i, nm) R))"
        by (intro "1.IH"(2) [OF True refl go nm_def]) (use "1.prems" nm in auto)
      then show ?thesis using True go unfolding build_defrag.simps [of ids i] Let_def nm_def [symmetric] by simp
    qed
  qed
qed

lemma planned_split:
  assumes P: "planned cs n N D ids"
  shows "split_plan ids n" "\<And>i. i \<in> live N cs \<Longrightarrow> \<not> goes ids i \<Longrightarrow> \<forall>s. goes ids s \<longrightarrow> ids ! s \<noteq> dest ids i"
proof -
  have len: "length ids = N" and inj: "inj_on (dest ids) (live N cs)" using P by (auto simp: planned_def)
  have mv: "s \<in> live N cs" "n \<le> s" "ids ! s < n" "dest ids s = ids ! s" if "goes ids s" for s
    using P that len unfolding planned_def by (auto simp: dest_def)
  have "inj_on ((!) ids) {s. goes ids s}"
  proof (rule inj_onI)
    fix s t assume "s \<in> {s. goes ids s}" "t \<in> {s. goes ids s}" "ids ! s = ids ! t"
    then show "s = t" using mv [of s] mv [of t] inj_onD [OF inj, of s t] by simp
  qed
  then show "split_plan ids n" using mv by (simp add: split_plan_def)
  show "\<forall>s. goes ids s \<longrightarrow> ids ! s \<noteq> dest ids i" if i: "i \<in> live N cs" "\<not> goes ids i" for i
  proof (intro allI impI notI)
    fix s assume s: "goes ids s" "ids ! s = dest ids i"
    then have "s = i" using mv [OF s(1)] inj_onD [OF inj, of s i] i(1) by simp
    then show False using s(1) i(2) by simp
  qed
qed

text \<open>
  C36. The data follow their cells. When the planner has moved cells, running the block copies of the
  graph in order on the rows of a layer, one row per cell, brings the row of every cell with an owner to
  the place where the cell is now.
\<close>

theorem defrag_rows_follow:
  assumes "kv_ok c" "0 < max_moves" "llama_kv_cache_defrag_internal max_moves c = Inr (Some ids, c')" "length rows = kv_size c"
  shows "\<forall>i \<in> live (kv_size c) (cells c). cells c' ! dest ids i = cells c ! i \<and>
    fold copy_rows (build_defrag ids 0) rows ! dest ids i = rows ! i"
proof
  fix i assume "i \<in> live (kv_size c) (cells c)"
  let ?N = "llama_kv_cache_cell_max c"
  have i: "i \<in> live ?N (cells c)" using \<open>i \<in> live _ _\<close> live_below_max [OF assms(1)] by simp
  obtain st where st: "defrag_plan max_moves c = Inr st" "plan_done (cells c) (used c) ?N max_moves (head c) st"
    using defrag_plan_done [OF assms(1,2)] by blast
  have eq: "ids = dids st" "cells c' = dcells st"
    using assms(3) st(1) by (auto simp: llama_kv_cache_defrag_internal_def split: if_splits)
  have P: "planned (cells c) (used c) ?N (cells c') ids" using st(2) eq by (simp add: plan_done_def)
  then have len: "length ids = ?N" "?N \<le> kv_size c" "used c \<le> ?N" by (auto simp: planned_def)
  let ?R = "fold copy_rows (build_defrag ids 0) rows"
  have "copied ids 0 rows rows" by (simp add: copied_def)
  from build_defrag_copies [OF planned_split(1) [OF P] this] have R: "copied ids (length ids) rows ?R"
    using len assms(4) by simp
  have iN: "i < ?N" using i by (simp add: live_def)
  have "?R ! dest ids i = rows ! i"
  proof (cases "goes ids i")
    case True
    then show ?thesis using R by (auto simp: copied_def dest_def)
  next
    case False
    then have "dest ids i = i" using iN len by (auto simp: dest_def)
    then show ?thesis using R planned_split(2) [OF P i False] iN len assms(4) by (auto simp: copied_def)
  qed
  then show "cells c' ! dest ids i = cells c ! i \<and> ?R ! dest ids i = rows ! i" using P i by (simp add: planned_def)
qed

lemma holed_cache_plan: "\<exists>c'. llama_kv_cache_defrag_internal 8 holed_cache = Inr (Some [4, 1, 4, 0], c')"
proof -
  have "rbind (llama_kv_cache_defrag_internal 8 holed_cache) (\<lambda>(ids, _). Inr ids) = Inr (Some [4, 1, 4, 0])"
    by code_simp
  then show ?thesis by (auto simp: result_simps)
qed

theorem defrag_rows_follow_witness:
  "fold copy_rows (build_defrag [4, 1, 4, 0] 0) [10, 11, 12, 13] ! 0 = (13 :: nat)"
proof -
  obtain c' where c': "llama_kv_cache_defrag_internal 8 holed_cache = Inr (Some [4, 1, 4, 0], c')"
    using holed_cache_plan by blast
  have "kv_size holed_cache = 4" "3 \<in> live 4 (cells holed_cache)"
    by (simp_all add: holed_cache_def live_def cell_is_empty_def add_seq_def sync_shadow_def)
  then show ?thesis
    using defrag_rows_follow [OF holed_cache_ok _ c', of "[10, 11, 12, 13 :: nat]"] by (auto simp: dest_def)
qed

section \<open>The update\<close>

lemma clear_shift_plain: "kv_plain c \<Longrightarrow> kv_plain (clear_shift c)"
proof -
  assume plain: "kv_plain c"
  have "cell_ok (cell\<lparr>kdelta := 0\<rparr>) = cell_ok cell" for cell
    by (simp add: cell_ok_def in_step_def sync_shadow_def)
  moreover have "length (filter (\<lambda>cell. kpos cell \<ge> 0) (map (\<lambda>cell. cell\<lparr>kdelta := 0\<rparr>) cs)) = count_used cs" for cs
    by (induction cs) auto
  moreover have "llama_kv_qnext_state_slots (clear_shift c) = llama_kv_qnext_state_slots c"
    by (rule slots_s_l) (simp add: clear_shift_def)
  ultimately show ?thesis using plain by (simp add: kv_plain_def kv_ok_def clear_shift_def)
qed

lemma clear_shift_table: "table (clear_shift c) = table c"
  by (auto simp: table_def clear_shift_def)

text \<open>The same positions and owners, in other cells.\<close>

definition rearranged :: "llama_kv_cache \<Rightarrow> llama_kv_cache \<Rightarrow> bool" where
  "rearranged c c' \<longleftrightarrow> (\<exists>f. inj_on f (fst ` table c) \<and> table c' = (\<lambda>(i, s, p). (f i, s, p)) ` table c)"

lemma rearranged_refl: "table c' = table c \<Longrightarrow> rearranged c c'"
  unfolding rearranged_def by (intro exI [of _ id]) (auto simp: image_iff)

lemma table_live: "(i, s, p) \<in> table c \<longleftrightarrow> i \<in> live (kv_size c) (cells c) \<and> s \<in> seq_ids (cells c ! i) \<and> p = kpos (cells c ! i)"
  by (auto simp: table_def live_def cell_is_empty_def)

lemma rearranged_by:
  assumes "bij_betw f (live (kv_size c) (cells c)) (live (kv_size c') (cells c'))"
    "\<And>i. i \<in> live (kv_size c) (cells c) \<Longrightarrow> cells c' ! f i = cells c ! i"
  shows "rearranged c c'"
proof -
  have "fst ` table c \<subseteq> live (kv_size c) (cells c)" using table_live [of _ _ _ c] by force
  then have "inj_on f (fst ` table c)" using assms(1) by (auto simp: bij_betw_def intro: inj_on_subset)
  moreover have "table c' = (\<lambda>(i, s, p). (f i, s, p)) ` table c"
  proof (intro set_eqI iffI)
    fix x assume "x \<in> table c'"
    moreover obtain j s p where x: "x = (j, s, p)" by (cases x)
    ultimately have j: "j \<in> live (kv_size c') (cells c')" "s \<in> seq_ids (cells c' ! j)" "p = kpos (cells c' ! j)"
      using table_live by blast+
    then obtain i where i: "i \<in> live (kv_size c) (cells c)" "j = f i" using assms(1) by (auto simp: bij_betw_def)
    then have "(i, s, p) \<in> table c" using j assms(2) by (simp add: table_live)
    then show "x \<in> (\<lambda>(i, s, p). (f i, s, p)) ` table c" using x i(2) by force
  next
    fix x assume "x \<in> (\<lambda>(i, s, p). (f i, s, p)) ` table c"
    then obtain i s p where "x = (f i, s, p)" "(i, s, p) \<in> table c" by auto
    then show "x \<in> table c'" using assms table_live [of i s p c] by (auto simp: table_live bij_betw_def)
  qed
  ultimately show ?thesis by (auto simp: rearranged_def)
qed

lemma defrag_rearranges:
  assumes "kv_plain c" "0 < max_moves"
  shows "\<exists>ids c'. llama_kv_cache_defrag_internal max_moves c = Inr (ids, c') \<and> kv_plain c' \<and> rearranged c c' \<and> has_shift c' = has_shift c"
proof -
  let ?N = "llama_kv_cache_cell_max c"
  have ok: "kv_ok c" using assms(1) by (simp add: kv_plain_def)
  obtain st where st: "defrag_plan max_moves c = Inr st" "plan_done (cells c) (used c) ?N max_moves (head c) st"
    using defrag_plan_done [OF ok assms(2)] by blast
  let ?c = "c\<lparr>cells := dcells st, head := dhead st\<rparr>"
  have P: "planned (cells c) (used c) ?N (dcells st) (dids st)" using st(2) by (simp add: plan_done_def)
  have ok': "kv_ok ?c" by (rule planned_kv_ok [OF ok P]) (use st(2) in \<open>auto simp: plan_done_def\<close>)
  have "length (dcells st) = kv_size c" using P by (simp add: planned_def)
  then have "bij_betw (dest (dids st)) (live (kv_size c) (cells c)) (live (kv_size ?c) (cells ?c))"
    using planned_live(2) [OF ok P] by simp
  then have "rearranged c ?c" by (rule rearranged_by) (use P live_below_max [OF ok] in \<open>simp add: planned_def\<close>)
  moreover have "kv_plain ?c" using ok' assms(1) slots_s_l [of ?c c] by (simp add: kv_plain_def)
  ultimately show ?thesis using st(1) by (simp add: llama_kv_cache_defrag_internal_def)
qed



end
