(* ===== verification/Std_Heap.thy ===== *)
theory Std_Heap
  imports Prelude "HOL-Library.Multiset"
begin

text \<open>
  The priority queue of the tokenizers: \<open>std::priority_queue\<close> and \<open>llama_priority_queue\<close> of
  \<open>src/llama-vocab.cpp\<close>, a binary heap in a vector kept by \<open>std::push_heap\<close> and \<open>std::pop_heap\<close>. The
  algorithms are those of the GNU library: a value moves up from the end of the vector, and a removal
  moves the hole at the root down to a leaf and lets the last value move up from there. The comparison
  says that its first argument comes after the second. The locale \<open>weak_order\<close> is what the comparison
  must be; under it a heap stays a heap, no element gets lost, and the element at the root comes
  before none of the others.
\<close>

section \<open>Definitions\<close>

abbreviation parent :: "nat \<Rightarrow> nat" where
  "parent i \<equiv> (i - 1) div 2"

function sift_up :: "('a \<Rightarrow> 'a \<Rightarrow> bool) \<Rightarrow> nat \<Rightarrow> 'a \<Rightarrow> 'a list \<Rightarrow> 'a list" where
  "sift_up after hole v xs =
     (if hole > 0 \<and> after (xs ! parent hole) v then sift_up after (parent hole) v (xs[hole := xs ! parent hole])
      else xs[hole := v])"
  by pat_completeness auto
termination by (relation "measure (\<lambda>(after, hole, v, xs). hole)") auto

declare sift_up.simps [simp del]

lemma sift_up_moves:
  "0 < hole \<Longrightarrow> after (xs ! parent hole) v \<Longrightarrow>
   sift_up after hole v xs = sift_up after (parent hole) v (xs[hole := xs ! parent hole])"
  by (subst sift_up.simps) simp

lemma sift_up_stops: "\<not> (0 < hole \<and> after (xs ! parent hole) v) \<Longrightarrow> sift_up after hole v xs = xs[hole := v]"
  unfolding sift_up.simps [of after hole v xs] by (rule if_not_P)

definition heap_push :: "('a \<Rightarrow> 'a \<Rightarrow> bool) \<Rightarrow> 'a \<Rightarrow> 'a list \<Rightarrow> 'a list" where
  "heap_push after v xs = sift_up after (length xs) v (xs @ [v])"

function sift_down :: "('a \<Rightarrow> 'a \<Rightarrow> bool) \<Rightarrow> nat \<Rightarrow> 'a list \<Rightarrow> nat \<times> 'a list" where
  "sift_down after hole xs =
     (if hole < (length xs - 1) div 2 then
        let second = 2 * (hole + 1); child = (if after (xs ! second) (xs ! (second - 1)) then second - 1 else second) in
        sift_down after child (xs[hole := xs ! child])
      else (hole, xs))"
  by pat_completeness auto
termination
proof (relation "measure (\<lambda>(after, hole, xs). length xs - hole)", goal_cases)
  case (2 after hole xs second child)
  then show ?case by (auto split: if_splits)
qed auto

declare sift_down.simps [simp del]

text \<open>In a heap of even size the last inner node has one child only.\<close>

definition last_step :: "nat \<Rightarrow> 'a list \<Rightarrow> nat \<times> 'a list" where
  "last_step hole xs =
     (if even (length xs) \<and> hole = (length xs - 2) div 2 \<and> xs \<noteq> []
      then (2 * hole + 1, xs[hole := xs ! (2 * hole + 1)]) else (hole, xs))"

definition adjust_heap :: "('a \<Rightarrow> 'a \<Rightarrow> bool) \<Rightarrow> 'a \<Rightarrow> 'a list \<Rightarrow> 'a list" where
  "adjust_heap after v xs =
     (let (hole, ys) = sift_down after 0 xs; (leaf, zs) = last_step hole ys in sift_up after leaf v zs)"

text \<open>\<open>pop_move\<close>, and \<open>top\<close> followed by \<open>pop\<close>.\<close>

definition pop_move :: "('a \<Rightarrow> 'a \<Rightarrow> bool) \<Rightarrow> 'a list \<Rightarrow> 'a \<times> 'a list" where
  "pop_move after xs =
     (hd xs, if length xs > 1 then adjust_heap after (last xs) (butlast xs) else [])"

section \<open>Heaps\<close>

lemma parent_less: "0 < i \<Longrightarrow> parent i < i"
  by simp

lemma parent_iff: "0 < i \<Longrightarrow> parent i = h \<longleftrightarrow> i = 2 * h + 1 \<or> i = 2 * h + 2"
  by linarith

lemma mset_update_swap:
  "h < length xs \<Longrightarrow> c < length xs \<Longrightarrow> c \<noteq> h \<Longrightarrow> mset ((xs[h := xs ! c])[c := v]) = mset (xs[h := v])"
proof -
  assume "h < length xs" "c < length xs" "c \<noteq> h"
  then have "(xs[h := xs ! c])[c := v] = (xs[h := v])[h := (xs[h := v]) ! c, c := (xs[h := v]) ! h]"
    by (intro nth_equalityI) (auto simp: nth_list_update)
  then show ?thesis using mset_swap [of c "xs[h := v]" h] \<open>h < length xs\<close> \<open>c < length xs\<close>
    by (simp add: list_update_swap)
qed

locale weak_order =
  fixes after :: "'a \<Rightarrow> 'a \<Rightarrow> bool"
  assumes after_asym: "after a b \<Longrightarrow> \<not> after b a"
    and after_neg_trans: "\<not> after a b \<Longrightarrow> \<not> after b c \<Longrightarrow> \<not> after a c"
begin

definition heap :: "'a list \<Rightarrow> bool" where
  "heap xs \<longleftrightarrow> (\<forall>i. 0 < i \<and> i < length xs \<longrightarrow> \<not> after (xs ! parent i) (xs ! i))"

text \<open>A heap but for the value at \<open>h\<close>, which is to be replaced.\<close>

definition heap_hole :: "nat \<Rightarrow> 'a list \<Rightarrow> bool" where
  "heap_hole h xs \<longleftrightarrow> h < length xs \<and>
     (\<forall>i. 0 < i \<and> i < length xs \<and> i \<noteq> h \<and> parent i \<noteq> h \<longrightarrow> \<not> after (xs ! parent i) (xs ! i)) \<and>
     (\<forall>i. 0 < i \<and> i < length xs \<and> 0 < h \<and> parent i = h \<longrightarrow> \<not> after (xs ! parent h) (xs ! i))"

lemma after_irrefl [simp]: "\<not> after a a"
  using after_asym by blast

lemma heap_holeI:
  assumes "h < length xs"
    and "\<And>i. 0 < i \<Longrightarrow> i < length xs \<Longrightarrow> i \<noteq> h \<Longrightarrow> parent i \<noteq> h \<Longrightarrow> \<not> after (xs ! parent i) (xs ! i)"
    and "\<And>i. 0 < i \<Longrightarrow> i < length xs \<Longrightarrow> 0 < h \<Longrightarrow> parent i = h \<Longrightarrow> \<not> after (xs ! parent h) (xs ! i)"
  shows "heap_hole h xs"
  using assms unfolding heap_hole_def by blast

lemma heap_holeD:
  assumes "heap_hole h xs"
  shows "h < length xs"
    and "0 < i \<Longrightarrow> i < length xs \<Longrightarrow> i \<noteq> h \<Longrightarrow> parent i \<noteq> h \<Longrightarrow> \<not> after (xs ! parent i) (xs ! i)"
    and "0 < i \<Longrightarrow> i < length xs \<Longrightarrow> 0 < h \<Longrightarrow> parent i = h \<Longrightarrow> \<not> after (xs ! parent h) (xs ! i)"
  using assms unfolding heap_hole_def by blast+

text \<open>The hole moves to its parent, and to a child that comes after none of its siblings.\<close>

lemma hole_up:
  assumes hole: "heap_hole h xs" and "0 < h"
  shows "heap_hole (parent h) (xs[h := xs ! parent h])"
proof (rule heap_holeI)
  define p where "p = parent h"
  have ph: "p < h" using \<open>0 < h\<close> parent_less p_def by simp
  note h = heap_holeD (1) [OF hole]
  show "parent h < length (xs[h := xs ! parent h])" using ph h p_def by simp
  fix i assume i: "0 < i" "i < length (xs[h := xs ! parent h])"
  show "i \<noteq> parent h \<Longrightarrow> parent i \<noteq> parent h \<Longrightarrow> \<not> after ((xs[h := xs ! parent h]) ! parent i) ((xs[h := xs ! parent h]) ! i)"
    using i h heap_holeD (2,3) [OF hole, of i] \<open>0 < h\<close> by (auto simp: nth_list_update)
  assume "0 < parent h" and child: "parent i = parent h"
  then have up: "\<not> after (xs ! parent p) (xs ! p)"
    using heap_holeD (2) [OF hole, of p] ph h parent_less [of p] p_def by fastforce
  have "\<not> after (xs ! p) (xs ! i)" if "i \<noteq> h"
    using heap_holeD (2) [OF hole, of i] i child ph p_def that by simp
  then show "\<not> after ((xs[h := xs ! parent h]) ! parent (parent h)) ((xs[h := xs ! parent h]) ! i)"
    using up after_neg_trans [OF up] ph h parent_less [of p] i p_def \<open>0 < parent h\<close> by (auto simp: nth_list_update)
qed

lemma hole_down:
  assumes hole: "heap_hole h xs" and c: "0 < c" "c < length xs" "parent c = h"
    and best: "\<And>i. 0 < i \<Longrightarrow> i < length xs \<Longrightarrow> parent i = h \<Longrightarrow> \<not> after (xs ! c) (xs ! i)"
  shows "heap_hole c (xs[h := xs ! c])"
proof (rule heap_holeI)
  have hc: "h < c" using c parent_less by metis
  note h = heap_holeD (1) [OF hole]
  show "c < length (xs[h := xs ! c])" using c by simp
  fix i assume i: "0 < i" "i < length (xs[h := xs ! c])"
  show "i \<noteq> c \<Longrightarrow> parent i \<noteq> c \<Longrightarrow> \<not> after ((xs[h := xs ! c]) ! parent i) ((xs[h := xs ! c]) ! i)"
    using i h heap_holeD (2) [OF hole, of i] heap_holeD (3) [OF hole, of c] best [of i] c parent_less [of i]
    by (auto simp: nth_list_update)
  assume "parent i = c"
  then show "\<not> after ((xs[h := xs ! c]) ! parent c) ((xs[h := xs ! c]) ! i)"
    using heap_holeD (2) [OF hole, of i] i h c hc parent_less [of i] by (auto simp: nth_list_update)
qed

lemma sift_up_length [simp]: "length (sift_up after hole v xs) = length xs"
  by (induction after hole v xs rule: sift_up.induct) (subst sift_up.simps, simp)

lemma sift_up_mset: "hole < length xs \<Longrightarrow> mset (sift_up after hole v xs) = mset (xs[hole := v])"
proof (induction after hole v xs rule: sift_up.induct)
  case (1 after hole v xs)
  show ?case
  proof (cases "hole > 0 \<and> after (xs ! parent hole) v")
    case True
    then have "parent hole < hole" using parent_less by blast
    then show ?thesis using 1 True mset_update_swap [of hole xs "parent hole" v]
      by (simp add: sift_up_moves)
  qed (simp add: sift_up_stops)
qed

lemma sift_up_heap:
  "heap_hole hole xs \<Longrightarrow> (\<And>i. 0 < i \<Longrightarrow> i < length xs \<Longrightarrow> parent i = hole \<Longrightarrow> \<not> after v (xs ! i)) \<Longrightarrow>
   heap (sift_up after hole v xs)"
proof (induction hole arbitrary: xs rule: less_induct)
  case (less hole)
  note h = heap_holeD (1) [OF less.prems(1)]
  show ?case
  proof (cases "hole > 0 \<and> after (xs ! parent hole) v")
    case True
    define p where "p = parent hole"
    have p: "p < hole" using True parent_less p_def by blast
    have v: "\<not> after v (xs ! p)" using True after_asym p_def by blast
    have "\<not> after v ((xs[hole := xs ! p]) ! i)" if i: "0 < i" "i < length xs" "parent i = p" for i
    proof (cases "i = hole")
      case False
      then have "\<not> after (xs ! p) (xs ! i)" using heap_holeD (2) [OF less.prems(1), of i] i p by simp
      then show ?thesis using False after_neg_trans [OF v] by simp
    qed (use v h in simp)
    then have "heap (sift_up after p v (xs[hole := xs ! p]))"
      using less.IH [OF p, of "xs[hole := xs ! p]"] hole_up [OF less.prems(1)] True
      unfolding p_def length_list_update by blast
    then show ?thesis using True p_def by (simp add: sift_up_moves)
  next
    case False
    have "\<not> after ((xs[hole := v]) ! parent i) ((xs[hole := v]) ! i)" if i: "0 < i" "i < length xs" for i
      using i h False heap_holeD (2) [OF less.prems(1), of i] less.prems(2) [of i] parent_less [of i]
      by (auto simp: nth_list_update)
    then have "heap (xs[hole := v])" unfolding heap_def by simp
    moreover have "sift_up after hole v xs = xs[hole := v]" using False by (rule sift_up_stops)
    ultimately show ?thesis by simp
  qed
qed

lemma sift_down_keeps:
  "heap_hole hole xs \<Longrightarrow> sift_down after hole xs = (leaf, ys) \<Longrightarrow>
   heap_hole leaf ys \<and> (length ys - 1) div 2 \<le> leaf \<and> length ys = length xs \<and> mset (ys[leaf := v]) = mset (xs[hole := v])"
proof (induction "length xs - hole" arbitrary: hole xs rule: less_induct)
  case less
  show ?case
  proof (cases "hole < (length xs - 1) div 2")
    case True
    define second where "second = 2 * (hole + 1)"
    define c where "c = (if after (xs ! second) (xs ! (second - 1)) then second - 1 else second)"
    have c: "0 < c" "c < length xs" "parent c = hole" "hole < c"
      using True unfolding c_def second_def by auto
    have best: "\<not> after (xs ! c) (xs ! i)" if "0 < i" "parent i = hole" for i
      using that parent_iff [of i hole] after_asym unfolding c_def second_def by auto
    have hole: "heap_hole c (xs[hole := xs ! c])" using hole_down [OF less.prems(1) c(1-3)] best by blast
    have "sift_down after c (xs[hole := xs ! c]) = (leaf, ys)"
      using less.prems(2) True unfolding sift_down.simps [of after hole xs] Let_def second_def [symmetric] c_def [symmetric]
      by simp
    moreover have "length (xs[hole := xs ! c]) - c < length xs - hole" using c by simp
    ultimately have "heap_hole leaf ys \<and> (length ys - 1) div 2 \<le> leaf \<and> length ys = length xs \<and>
      mset (ys[leaf := v]) = mset ((xs[hole := xs ! c])[c := v])"
      using less.hyps [OF _ hole] by (metis length_list_update)
    then show ?thesis using mset_update_swap [of hole xs c v] c by auto
  next
    case False
    then show ?thesis using less.prems unfolding sift_down.simps [of after hole xs] by simp
  qed
qed

lemma last_step_keeps:
  assumes hole: "heap_hole hole xs" "(length xs - 1) div 2 \<le> hole" and step: "last_step hole xs = (leaf, ys)"
  shows "heap_hole leaf ys \<and> length ys \<le> 2 * leaf + 1 \<and> length ys = length xs \<and> mset (ys[leaf := v]) = mset (xs[hole := v])"
proof (cases "even (length xs) \<and> hole = (length xs - 2) div 2 \<and> xs \<noteq> []")
  case True
  have c: "2 * hole + 1 < length xs" using True by (cases xs) (auto elim!: evenE)
  have eq: "length xs = 2 * hole + 2" using True c by auto
  have only: "parent i = hole \<Longrightarrow> 0 < i \<Longrightarrow> i < length xs \<Longrightarrow> i = 2 * hole + 1" for i
    using eq parent_iff [of i hole] by auto
  have "heap_hole (2 * hole + 1) (xs[hole := xs ! (2 * hole + 1)])"
    using only by (intro hole_down [OF hole(1)]) (use c in auto)
  moreover have "leaf = 2 * hole + 1" "ys = xs[hole := xs ! (2 * hole + 1)]"
    using step True unfolding last_step_def by auto
  ultimately show ?thesis using mset_update_swap [of hole xs "2 * hole + 1" v] c eq by simp
next
  case False
  have "length xs \<le> 2 * hole + 1" using False hole(2) heap_holeD (1) [OF hole(1)] by (cases "even (length xs)") (auto elim!: evenE oddE)
  moreover have "leaf = hole" "ys = xs" using step False unfolding last_step_def by (auto split: if_splits)
  ultimately show ?thesis using hole by simp
qed

lemma adjust_heap_ok:
  assumes "heap_hole 0 xs"
  shows "heap (adjust_heap after v xs)" and "mset (adjust_heap after v xs) = mset (xs[0 := v])"
proof -
  obtain hole ys where s: "sift_down after 0 xs = (hole, ys)" by fastforce
  obtain leaf zs where l: "last_step hole ys = (leaf, zs)" by fastforce
  note d = sift_down_keeps [OF assms s, of v]
  have k: "heap_hole leaf zs" "length zs \<le> 2 * leaf + 1" "mset (zs[leaf := v]) = mset (xs[0 := v])"
    using last_step_keeps [OF _ _ l, of v] d by auto
  have "heap (sift_up after leaf v zs)"
    using k parent_iff [of _ leaf] by (intro sift_up_heap) fastforce+
  then show "heap (adjust_heap after v xs)" using s l unfolding adjust_heap_def by simp
  show "mset (adjust_heap after v xs) = mset (xs[0 := v])"
    using s l k sift_up_mset [OF heap_holeD (1) [OF k(1)]] unfolding adjust_heap_def by simp
qed

theorem heap_push_ok:
  shows "mset (heap_push after v xs) = add_mset v (mset xs)" and "heap xs \<Longrightarrow> heap (heap_push after v xs)"
proof -
  show "mset (heap_push after v xs) = add_mset v (mset xs)"
    unfolding heap_push_def by (simp add: sift_up_mset)
  assume "heap xs"
  then have "heap_hole (length xs) (xs @ [v])"
    using parent_less by (intro heap_holeI) (auto simp: heap_def nth_append)
  then show "heap (heap_push after v xs)"
    unfolding heap_push_def using parent_less by (intro sift_up_heap) auto
qed

lemma top_first:
  assumes "heap xs"
  shows "i < length xs \<Longrightarrow> \<not> after (xs ! 0) (xs ! i)"
proof (induction i rule: less_induct)
  case (less i)
  show ?case
  proof (cases "i = 0")
    case False
    then have "\<not> after (xs ! 0) (xs ! parent i)" "\<not> after (xs ! parent i) (xs ! i)"
      using less parent_less [of i] assms unfolding heap_def by auto
    then show ?thesis using after_neg_trans by blast
  qed simp
qed

theorem pop_move_ok:
  assumes "heap xs" "xs \<noteq> []" "pop_move after xs = (b, ys)"
  shows "mset xs = add_mset b (mset ys)" and "heap ys" and "\<forall>x \<in> set xs. \<not> after b x"
proof -
  have b: "b = hd xs" using assms(3) unfolding pop_move_def by simp
  show "\<forall>x \<in> set xs. \<not> after b x"
    using top_first [OF assms(1)] assms(2) b by (auto simp: in_set_conv_nth hd_conv_nth)
  have "mset xs = add_mset b (mset ys) \<and> heap ys"
  proof (cases "length xs > 1")
    case True
    have hole: "heap_hole 0 (butlast xs)"
      using assms(1) True parent_less by (intro heap_holeI) (auto simp: heap_def nth_butlast)
    obtain c w d where xs: "xs = c # w @ [d]"
      using True by (metis One_nat_def add_diff_cancel_left' append_butlast_last_id assms(2) length_greater_0_conv length_tl list.collapse list.size(3) not_gr0 zero_less_diff)
    show ?thesis using adjust_heap_ok [OF hole, of "last xs"] True assms(3) b xs
      unfolding pop_move_def by auto
  next
    case False
    then obtain a where "xs = [a]" using assms(2) by (cases xs) auto
    then show ?thesis using assms(3) unfolding pop_move_def heap_def by auto
  qed
  then show "mset xs = add_mset b (mset ys)" "heap ys" by auto
qed

end

end
