(* ===== verification/Bigram_Merge.thy ===== *)
theory Bigram_Merge
  imports Std_Heap Unicode
begin

text \<open>
  The part that the SPM and the BPE tokenizer of \<open>src/llama-vocab.cpp\<close> have in common: a text cut into
  symbols that form a doubly linked chain inside a vector, a queue of candidate pairs, and the loop that
  takes the best candidate, skips it when one of its symbols has changed since, and otherwise merges the
  right symbol into the left one. A symbol's text pointer is the part of the buffer from the pointer on.
  Indices are the C++ \<open>int\<close> with \<open>-1\<close> for none; an access outside the vector is \<open>Undefined\<close>.

  \<open>greedy_merge\<close> is the reference: on a plain list of strings, merge the best pair of neighbours, the
  leftmost among equals, until no pair is a candidate. The locale \<open>bigram_engine\<close> states what a tokenizer
  supplies (its comparison, its staleness test, its way to add candidates), and shows under it that the
  loop ends and computes exactly the reference.
\<close>

section \<open>Definitions\<close>

record llm_symbol =
  sprev :: int
  snext :: int
  stext :: "u8 list"
  sn :: nat

record bigram =
  bleft :: int
  bright :: int
  bsize :: nat

record 'b session =
  symbols :: "llm_symbol list"
  work_queue :: "'b list"

definition sym_at :: "llm_symbol list \<Rightarrow> int \<Rightarrow> llm_symbol result" where
  "sym_at syms i = (if 0 \<le> i \<and> nat i < length syms then Inr (syms ! nat i) else Inl Undefined)"

text \<open>\<open>std::string(symbol.text, symbol.n)\<close>\<close>

definition sym_string :: "llm_symbol \<Rightarrow> u8 list result" where
  "sym_string s = (if sn s \<le> length (stext s) then Inr (take (sn s) (stext s)) else Inl Undefined)"

lemma unicode_len_pos: "0 < unicode_len_utf8 b"
proof -
  have "unat (drop_bit 4 b) < 16" using unsigned_less [of b, where ?'a = nat]
    by (simp add: drop_bit_eq_div unat_div_distrib)
  then have "utf8_lookup ! unat (drop_bit 4 b) \<in> set utf8_lookup"
    by (intro nth_mem) (simp add: utf8_lookup_def)
  moreover have "\<forall>n \<in> set utf8_lookup. 0 < n" by (simp add: utf8_lookup_def)
  ultimately show ?thesis unfolding unicode_len_utf8_def by blast
qed

function split_symbols :: "u8 list \<Rightarrow> nat \<Rightarrow> llm_symbol list" where
  "split_symbols t index =
     (if t = [] then []
      else let len = min (unicode_len_utf8 (hd t)) (length t) in
        \<lparr>sprev = int index - 1, snext = (if len = length t then -1 else int index + 1), stext = t, sn = len\<rparr>
          # split_symbols (drop len t) (Suc index))"
  by pat_completeness auto
termination
  by (relation "measure (\<lambda>(t, index). length t)") (auto simp: unicode_len_pos)

declare split_symbols.simps [simp del]

text \<open>The right symbol goes into the left one and out of the chain.\<close>

definition merge_symbols :: "int \<Rightarrow> int \<Rightarrow> llm_symbol list \<Rightarrow> llm_symbol list result" where
  "merge_symbols l r syms =
     rbind (sym_at syms l) (\<lambda>left_sym. rbind (sym_at syms r) (\<lambda>right_sym.
       let syms1 = syms[nat l := left_sym\<lparr>sn := sn left_sym + sn right_sym\<rparr>];
           syms2 = syms1[nat r := (syms1 ! nat r)\<lparr>sn := 0\<rparr>];
           nx = snext (syms2 ! nat r);
           syms3 = syms2[nat l := (syms2 ! nat l)\<lparr>snext := nx\<rparr>] in
       if nx \<ge> 0 then rbind (sym_at syms3 nx) (\<lambda>s. Inr (syms3[nat nx := s\<lparr>sprev := l\<rparr>]))
       else Inr syms3))"

text \<open>One round of the loop: \<open>stale\<close> and \<open>add\<close> are the tokenizer's own.\<close>

definition merge_step ::
  "('b bigram_scheme \<Rightarrow> 'b bigram_scheme \<Rightarrow> bool) \<Rightarrow>
   ('b bigram_scheme \<Rightarrow> llm_symbol \<Rightarrow> llm_symbol \<Rightarrow> bool result) \<Rightarrow>
   (int \<Rightarrow> int \<Rightarrow> ('b bigram_scheme, 'm) session_scheme \<Rightarrow> ('b bigram_scheme, 'm) session_scheme result) \<Rightarrow>
   ('b bigram_scheme, 'm) session_scheme \<Rightarrow> ('b bigram_scheme, 'm) session_scheme result" where
  "merge_step after stale add st =
     (let (b, q) = pop_move after (work_queue st); st1 = st\<lparr>work_queue := q\<rparr> in
      rbind (sym_at (symbols st) (bleft b)) (\<lambda>left_sym. rbind (sym_at (symbols st) (bright b)) (\<lambda>right_sym.
      if sn left_sym = 0 \<or> sn right_sym = 0 then Inr st1
      else rbind (stale b left_sym right_sym) (\<lambda>old.
        if old then Inr st1
        else rbind (merge_symbols (bleft b) (bright b) (symbols st)) (\<lambda>syms.
          let st2 = st1\<lparr>symbols := syms\<rparr>; s = syms ! nat (bleft b) in
          rbind (add (sprev s) (bleft b) st2) (add (bleft b) (snext s)))))))"

primrec merge_loop ::
  "nat \<Rightarrow> (('b, 'm) session_scheme \<Rightarrow> ('b, 'm) session_scheme result) \<Rightarrow>
   ('b, 'm) session_scheme \<Rightarrow> ('b, 'm) session_scheme result" where
  "merge_loop 0 step st = (if work_queue st = [] then Inr st else Inl OutOfFuel)"
| "merge_loop (Suc fuel) step st =
     (if work_queue st = [] then Inr st else rbind (step st) (merge_loop fuel step))"

lemma merge_loop_empty: "work_queue st = [] \<Longrightarrow> merge_loop fuel step st = Inr st"
  by (cases fuel) simp_all

definition seed_queue ::
  "(int \<Rightarrow> int \<Rightarrow> ('b, 'm) session_scheme \<Rightarrow> ('b, 'm) session_scheme result) \<Rightarrow>
   ('b, 'm) session_scheme \<Rightarrow> ('b, 'm) session_scheme result" where
  "seed_queue add st = rfold (\<lambda>i. add (int i - 1) (int i)) [1..<length (symbols st)] st"

text \<open>Seeding and merging. Four rounds per symbol are enough: see \<open>merge_loop_greedy\<close>.\<close>

definition merge_all ::
  "('b bigram_scheme \<Rightarrow> 'b bigram_scheme \<Rightarrow> bool) \<Rightarrow>
   ('b bigram_scheme \<Rightarrow> llm_symbol \<Rightarrow> llm_symbol \<Rightarrow> bool result) \<Rightarrow>
   (int \<Rightarrow> int \<Rightarrow> ('b bigram_scheme, 'm) session_scheme \<Rightarrow> ('b bigram_scheme, 'm) session_scheme result) \<Rightarrow>
   ('b bigram_scheme, 'm) session_scheme \<Rightarrow> ('b bigram_scheme, 'm) session_scheme result" where
  "merge_all after stale add st =
     rbind (seed_queue add st) (merge_loop (4 * length (symbols st)) (merge_step after stale add))"

section \<open>The reference\<close>

fun best_pair :: "('k \<Rightarrow> 'k \<Rightarrow> bool) \<Rightarrow> ('w \<Rightarrow> 'w \<Rightarrow> 'k option) \<Rightarrow> 'w list \<Rightarrow> (nat \<times> 'k) option" where
  "best_pair better key (v # w # ws) =
     (case (key v w, best_pair better key (w # ws)) of
        (None, None) \<Rightarrow> None
      | (None, Some (i, k')) \<Rightarrow> Some (Suc i, k')
      | (Some k, None) \<Rightarrow> Some (0, k)
      | (Some k, Some (i, k')) \<Rightarrow> if better k' k then Some (Suc i, k') else Some (0, k))"
| "best_pair better key ws = None"

definition merge_at :: "nat \<Rightarrow> 'a list list \<Rightarrow> 'a list list" where
  "merge_at i ws = take i ws @ (ws ! i @ ws ! Suc i) # drop (i + 2) ws"

lemma best_pair_bound: "best_pair better key ws = Some (i, k) \<Longrightarrow> Suc i < length ws"
  by (induction better key ws arbitrary: i k rule: best_pair.induct)
    (auto split: option.splits prod.splits if_splits)

function greedy_merge :: "('k \<Rightarrow> 'k \<Rightarrow> bool) \<Rightarrow> ('a list \<Rightarrow> 'a list \<Rightarrow> 'k option) \<Rightarrow> 'a list list \<Rightarrow> 'a list list" where
  "greedy_merge better key ws =
     (case best_pair better key ws of None \<Rightarrow> ws | Some (i, k) \<Rightarrow> greedy_merge better key (merge_at i ws))"
  by pat_completeness auto
termination
  by (relation "measure (\<lambda>(better, key, ws). length ws)") (auto simp: merge_at_def dest!: best_pair_bound)

declare greedy_merge.simps [simp del]

lemma best_pair_key:
  "best_pair better key ws = Some (i, k) \<Longrightarrow> key (ws ! i) (ws ! Suc i) = Some k"
  by (induction better key ws arbitrary: i k rule: best_pair.induct)
    (auto split: option.splits prod.splits if_splits)

lemma best_pair_None:
  "(\<And>i. Suc i < length ws \<Longrightarrow> key (ws ! i) (ws ! Suc i) = None) \<Longrightarrow> best_pair better key ws = None"
proof (induction better key ws rule: best_pair.induct)
  case (1 better key v w ws)
  have "best_pair better key (w # ws) = None" using 1(1) 1(2) [of "Suc i" for i] by auto
  then show ?case using 1(2) [of 0] by simp
qed auto

lemma best_pair_leftmost:
  "Suc i < length ws \<Longrightarrow> key (ws ! i) (ws ! Suc i) = Some k \<Longrightarrow>
   (\<And>j k'. j < i \<Longrightarrow> key (ws ! j) (ws ! Suc j) = Some k' \<Longrightarrow> better k k') \<Longrightarrow>
   (\<And>j k'. i < j \<Longrightarrow> Suc j < length ws \<Longrightarrow> key (ws ! j) (ws ! Suc j) = Some k' \<Longrightarrow> \<not> better k' k) \<Longrightarrow>
   best_pair better key ws = Some (i, k)"
proof (induction better key ws arbitrary: i rule: best_pair.induct)
  case (1 better key v w ws)
  show ?case
  proof (cases i)
    case 0
    have "\<not> better k' k" if b: "best_pair better key (w # ws) = Some (j, k')" for j k'
      using 1(5) [of "Suc j" k'] 0 best_pair_bound [OF b] best_pair_key [OF b] by simp
    then show ?thesis using 1(3) 0 by (auto split: option.splits)
  next
    case (Suc i')
    have "best_pair better key (w # ws) = Some (i', k)"
      using 1(2,3) 1(4) [of "Suc j" for j] 1(5) [of "Suc j" for j] Suc by (intro 1(1)) auto
    then show ?thesis using 1(4) [of 0] Suc by (auto split: option.splits)
  qed
qed auto

section \<open>The chain of symbols\<close>

definition hd_or :: "int \<Rightarrow> nat list \<Rightarrow> int" where
  "hd_or nx ixs = (case ixs of [] \<Rightarrow> nx | j # _ \<Rightarrow> int j)"

definition last_or :: "int \<Rightarrow> nat list \<Rightarrow> int" where
  "last_or p ixs = (if ixs = [] then p else int (last ixs))"

lemma hd_or_simps [simp]: "hd_or nx [] = nx" "hd_or nx (j # js) = int j"
  by (simp_all add: hd_or_def)

lemma last_or_simps [simp]: "last_or p [] = p" "last_or p (ixs @ [j]) = int j"
  by (simp_all add: last_or_def)

lemma last_or_Cons: "last_or p (i # ixs) = last_or (int i) ixs"
  by (simp add: last_or_def)

text \<open>\<open>seg syms p ixs nx t t'\<close>: the symbols \<open>ixs\<close> follow each other in the chain, from predecessor \<open>p\<close> to
  successor \<open>nx\<close>, and cover the text from \<open>t\<close> to \<open>t'\<close>.\<close>

fun seg :: "llm_symbol list \<Rightarrow> int \<Rightarrow> nat list \<Rightarrow> int \<Rightarrow> u8 list \<Rightarrow> u8 list \<Rightarrow> bool" where
  "seg syms p [] nx t t' \<longleftrightarrow> t = t'"
| "seg syms p (i # ixs) nx t t' \<longleftrightarrow> i < length syms \<and> 0 < sn (syms ! i) \<and> sn (syms ! i) \<le> length t \<and>
     stext (syms ! i) = t \<and> sprev (syms ! i) = p \<and> snext (syms ! i) = hd_or nx ixs \<and>
     seg syms (int i) ixs nx (drop (sn (syms ! i)) t) t'"

definition chain :: "llm_symbol list \<Rightarrow> nat list \<Rightarrow> u8 list \<Rightarrow> bool" where
  "chain syms ixs t \<longleftrightarrow> seg syms (-1) ixs (-1) t [] \<and> sorted_wrt (<) ixs \<and>
     (\<forall>j < length syms. j \<notin> set ixs \<longrightarrow> sn (syms ! j) = 0)"

definition word :: "llm_symbol list \<Rightarrow> nat \<Rightarrow> u8 list" where
  "word syms i = take (sn (syms ! i)) (stext (syms ! i))"

lemma seg_append:
  "seg syms p (ixs @ js) nx t t'' \<longleftrightarrow>
   (\<exists>t'. seg syms p ixs (hd_or nx js) t t' \<and> seg syms (last_or p ixs) js nx t' t'')"
  by (induction ixs arbitrary: p t) (auto simp: last_or_Cons hd_or_def split: list.split)

lemma seg_words: "seg syms p ixs nx t t' \<Longrightarrow> t = concat (map (word syms) ixs) @ t'"
proof (induction ixs arbitrary: p t)
  case (Cons i ixs)
  then have "drop (sn (syms ! i)) t = concat (map (word syms) ixs) @ t'"
    using Cons.IH [of "int i" "drop (sn (syms ! i)) t"] by simp
  moreover have "t = word syms i @ drop (sn (syms ! i)) t" using Cons.prems by (simp add: word_def)
  ultimately show ?case by simp
qed simp

lemma seg_cong:
  "(\<And>i. i \<in> set ixs \<Longrightarrow> syms' ! i = syms ! i) \<Longrightarrow> length syms' = length syms \<Longrightarrow>
   seg syms' p ixs nx t t' = seg syms p ixs nx t t'"
  by (induction ixs arbitrary: p t) auto

lemma seg_mem: "seg syms p ixs nx t t' \<Longrightarrow> i \<in> set ixs \<Longrightarrow> i < length syms \<and> 0 < sn (syms ! i) \<and> sn (syms ! i) \<le> length (stext (syms ! i))"
  by (induction ixs arbitrary: p t) auto

lemma chain_mem: "chain syms ixs t \<Longrightarrow> i \<in> set ixs \<longleftrightarrow> i < length syms \<and> 0 < sn (syms ! i)"
  using seg_mem unfolding chain_def by (metis bot_nat_0.not_eq_extremum)

lemma chain_string: "chain syms ixs t \<Longrightarrow> i \<in> set ixs \<Longrightarrow> sym_string (syms ! i) = Inr (word syms i)"
  using seg_mem unfolding chain_def sym_string_def word_def by auto

lemma sym_at_int [simp]: "i < length syms \<Longrightarrow> sym_at syms (int i) = Inr (syms ! i)"
  by (simp add: sym_at_def)

text \<open>Neighbours in the chain.\<close>

lemma chain_pair:
  assumes "chain syms (as @ a # b # bs) t"
  shows "a < length syms" "b < length syms" "a < b" "snext (syms ! a) = int b"
    and "sprev (syms ! a) = last_or (-1) as" "snext (syms ! b) = hd_or (-1) bs"
    and "take (sn (syms ! a) + sn (syms ! b)) (stext (syms ! a)) = word syms a @ word syms b"
    and "\<forall>j \<in> set as. j < a" "\<forall>j \<in> set bs. b < j"
proof -
  obtain t1 where s: "seg syms (last_or (-1) as) (a # b # bs) (-1) t1 []"
    using assms unfolding chain_def seg_append by blast
  then show "a < length syms" "b < length syms" "snext (syms ! a) = int b"
    "sprev (syms ! a) = last_or (-1) as" "snext (syms ! b) = hd_or (-1) bs" by auto
  show "take (sn (syms ! a) + sn (syms ! b)) (stext (syms ! a)) = word syms a @ word syms b"
    using s by (simp add: word_def take_add)
  show "a < b" "\<forall>j \<in> set as. j < a" "\<forall>j \<in> set bs. b < j"
    using assms unfolding chain_def by (auto simp: sorted_wrt_append)
qed

lemma chain_next:
  assumes "chain syms ixs t" "i \<in> set ixs" "snext (syms ! i) = int j"
  shows "\<exists>as bs. ixs = as @ i # j # bs"
proof -
  obtain as bs where ixs: "ixs = as @ i # bs" using assms(2) split_list by fast
  obtain t1 where "seg syms (last_or (-1) as) (i # bs) (-1) t1 []"
    using assms(1) unfolding chain_def ixs seg_append by blast
  then have "hd_or (-1) bs = int j" using assms(3) by simp
  then show ?thesis using ixs by (cases bs) auto
qed

text \<open>What \<open>merge_symbols\<close> leaves at each index.\<close>

definition merged :: "nat \<Rightarrow> nat \<Rightarrow> llm_symbol list \<Rightarrow> nat \<Rightarrow> llm_symbol" where
  "merged a b syms i =
     (if i = a then (syms ! a)\<lparr>sn := sn (syms ! a) + sn (syms ! b), snext := snext (syms ! b)\<rparr>
      else if i = b then (syms ! b)\<lparr>sn := 0\<rparr>
      else if int i = snext (syms ! b) then (syms ! i)\<lparr>sprev := int a\<rparr> else syms ! i)"

lemma merge_symbols_at:
  assumes ab: "a < length syms" "b < length syms" "a \<noteq> b"
    and nx: "snext (syms ! b) = -1 \<or> (\<exists>c < length syms. snext (syms ! b) = int c \<and> c \<noteq> a \<and> c \<noteq> b)"
  shows "\<exists>syms'. merge_symbols (int a) (int b) syms = Inr syms' \<and> length syms' = length syms \<and>
    (\<forall>i < length syms. syms' ! i = merged a b syms i)"
proof (cases "snext (syms ! b) = -1")
  case True
  then show ?thesis using ab by (auto simp: merge_symbols_def merged_def Let_def nth_list_update)
next
  case False
  then obtain c where c: "c < length syms" "snext (syms ! b) = int c" "c \<noteq> a" "c \<noteq> b" using nx by blast
  then show ?thesis using ab by (auto simp: merge_symbols_def merged_def Let_def nth_list_update)
qed

lemma merged_simps [simp]:
  "stext (merged a b syms i) = stext (syms ! i)"
  "sn (merged a b syms a) = sn (syms ! a) + sn (syms ! b)"
  "i \<noteq> a \<Longrightarrow> snext (merged a b syms i) = snext (syms ! i)"
  "a \<noteq> b \<Longrightarrow> sn (merged a b syms b) = 0"
  "i \<noteq> a \<Longrightarrow> i \<noteq> b \<Longrightarrow> sn (merged a b syms i) = sn (syms ! i)"
  "sprev (merged a b syms a) = sprev (syms ! a)"
  "snext (merged a b syms a) = snext (syms ! b)"
  by (auto simp: merged_def)

lemma merge_seg:
  assumes ch: "chain syms (as @ a # b # bs) t" and len: "length syms' = length syms"
    and at: "\<And>i. i < length syms \<Longrightarrow> syms' ! i = merged a b syms i"
  shows "seg syms' (-1) (as @ a # bs) (-1) t []"
proof -
  note p = chain_pair [OF ch]
  obtain t1 where s1: "seg syms (-1) as (int a) t t1" and s2: "seg syms (last_or (-1) as) (a # b # bs) (-1) t1 []"
    using ch unfolding chain_def seg_append by auto
  have mem: "i < length syms" if "i \<in> set (as @ a # b # bs)" for i using chain_mem [OF ch, of i] that by blast
  have same: "syms' ! i = syms ! i" if "i < length syms" "i \<noteq> a" "i \<noteq> b" "int i \<noteq> hd_or (-1) bs" for i
    using at [of i] that p(6) by (simp add: merged_def)
  have "int i \<noteq> hd_or (-1) bs" if "i \<in> set as" for i
    using p(3,8,9) that by (cases bs) fastforce+
  then have "seg syms' (-1) as (int a) t t1"
    using s1 p(3,8) mem same by (subst seg_cong [OF _ len]) fastforce+
  moreover have "seg syms' (int a) bs (-1) (drop (sn (syms ! a) + sn (syms ! b)) t1) []"
  proof (cases bs)
    case Nil
    then show ?thesis using s2 by (simp add: add.commute)
  next
    case (Cons c cs)
    have c: "c < length syms" "c \<noteq> a" "c \<noteq> b" using mem [of c] p(3,9) Cons by auto
    have new: "syms' ! c = (syms ! c)\<lparr>sprev := int a\<rparr>" using at [OF c(1)] c p(6) Cons by (simp add: merged_def)
    have "\<forall>j \<in> set cs. c < j \<and> b < j" using ch Cons unfolding chain_def by (auto simp: sorted_wrt_append)
    then have "seg syms' (int c) cs (-1) u [] = seg syms (int c) cs (-1) u []" for u
      using mem same p(3) Cons by (intro seg_cong [OF _ len]) fastforce
    then show ?thesis using s2 Cons c new len by (simp add: add.commute)
  qed
  moreover have "sn (syms ! a) + sn (syms ! b) \<le> length t1" "stext (syms ! a) = t1" "0 < sn (syms ! a)"
    using s2 by auto
  ultimately show ?thesis using p at [OF p(1)] len unfolding seg_append by auto
qed

lemma merge_chain:
  assumes ch: "chain syms (as @ a # b # bs) t"
  shows "\<exists>syms'. merge_symbols (int a) (int b) syms = Inr syms' \<and> length syms' = length syms \<and>
    (\<forall>i < length syms. syms' ! i = merged a b syms i) \<and> chain syms' (as @ a # bs) t \<and>
    map (word syms') (as @ a # bs) = merge_at (length as) (map (word syms) (as @ a # b # bs))"
proof -
  note p = chain_pair [OF ch]
  have mem: "i < length syms" if "i \<in> set (as @ a # b # bs)" for i using chain_mem [OF ch, of i] that by blast
  have "snext (syms ! b) = -1 \<or> (\<exists>c < length syms. snext (syms ! b) = int c \<and> c \<noteq> a \<and> c \<noteq> b)"
    using p mem [of "hd bs"] by (cases bs) fastforce+
  then obtain syms' where m: "merge_symbols (int a) (int b) syms = Inr syms'" and len: "length syms' = length syms"
    and at: "\<forall>i < length syms. syms' ! i = merged a b syms i"
    using merge_symbols_at [of a syms b] p(1-3) by blast
  have "sn (syms' ! j) = 0" if "j < length syms" "j \<notin> set (as @ a # bs)" for j
  proof (cases "j = b")
    case False
    then have "sn (syms ! j) = 0" using ch that unfolding chain_def by auto
    then show ?thesis using at that False by auto
  qed (use at that p in auto)
  then have "chain syms' (as @ a # bs) t"
    using merge_seg [OF ch len] at len ch unfolding chain_def by (auto simp: sorted_wrt_append)
  moreover have "word syms' i = word syms i" if "i \<in> set as \<union> set bs" for i
    using at mem [of i] p that by (fastforce simp: word_def)
  moreover have "word syms' a = word syms a @ word syms b"
    using p(1,7) at by (simp add: word_def)
  ultimately show ?thesis using m len at by (auto simp: merge_at_def nth_append)
qed

text \<open>The text as its UTF-8 sequences: what the symbols hold before any merge.\<close>

function utf8_chars :: "u8 list \<Rightarrow> u8 list list" where
  "utf8_chars t = (if t = [] then [] else let n = unicode_len_utf8 (hd t) in take n t # utf8_chars (drop n t))"
  by pat_completeness auto
termination by (relation "measure length") (auto simp: unicode_len_pos)

declare utf8_chars.simps [simp del]

lemma split_symbols_seg:
  "seg (pre @ split_symbols t (length pre)) (int (length pre) - 1)
     [length pre..<length pre + length (split_symbols t (length pre))] (-1) t [] \<and>
   map (word (pre @ split_symbols t (length pre))) [length pre..<length pre + length (split_symbols t (length pre))] = utf8_chars t"
proof (induction t arbitrary: pre rule: utf8_chars.induct)
  case (1 t)
  show ?case
  proof (cases "t = []")
    case True
    then show ?thesis by (simp add: split_symbols.simps [of "[]"] utf8_chars.simps [of "[]"])
  next
    case False
    define n where "n = min (unicode_len_utf8 (hd t)) (length t)"
    define s where "s = \<lparr>sprev = int (length pre) - 1, snext = (if n = length t then -1 else int (length pre) + 1), stext = t, sn = n\<rparr>"
    define rest where "rest = split_symbols (drop n t) (Suc (length pre))"
    have n: "0 < n" "n \<le> length t" using False unicode_len_pos n_def by auto
    have eq: "split_symbols t (length pre) = s # rest"
      using False by (subst split_symbols.simps) (simp add: Let_def n_def s_def rest_def)
    have chars: "utf8_chars t = take n t # utf8_chars (drop n t)"
      using False by (subst utf8_chars.simps) (simp add: Let_def n_def min_def)
    have dn: "drop (unicode_len_utf8 (hd t)) t = drop n t" by (simp add: n_def min_def)
    define js where "js = [Suc (length pre)..<Suc (length pre + length rest)]"
    have ih: "seg (pre @ s # rest) (int (length pre)) js (-1) (drop n t) []"
      "map (word (pre @ s # rest)) js = utf8_chars (drop n t)"
      using 1 [OF False refl, of "pre @ [s]"] dn unfolding rest_def js_def by simp_all
    have "rest = [] \<longleftrightarrow> n = length t"
      using n unfolding rest_def by (subst split_symbols.simps) (auto simp: Let_def)
    then have nx: "hd_or (-1) js = snext s"
      by (cases rest) (simp_all add: js_def s_def upt_rec [of "Suc (length pre)"] del: upt_Suc)
    have js: "[length pre..<length pre + length (s # rest)] = length pre # js"
      by (simp add: js_def upt_conv_Cons del: upt_Suc)
    have s: "(pre @ s # rest) ! length pre = s" "sn s = n" "stext s = t" "sprev s = int (length pre) - 1"
      by (simp_all add: s_def)
    then have "word (pre @ s # rest) (length pre) = take n t" by (simp add: word_def)
    then show ?thesis unfolding eq chars js using ih n nx s by simp
  qed
qed

lemma split_symbols_chain:
  "chain (split_symbols t 0) [0..<length (split_symbols t 0)] t"
  "map (word (split_symbols t 0)) [0..<length (split_symbols t 0)] = utf8_chars t"
  using split_symbols_seg [of "[]" t] unfolding chain_def by simp_all

lemma utf8_chars_concat: "concat (utf8_chars t) = t"
  using split_symbols_seg [of "[]" t] seg_words [of "split_symbols t 0"] by fastforce

text \<open>The sequences of an encoded text are its encoded code points, and only a blank has the blank byte.\<close>

lemma unat_drop_bit_u8: "unat (drop_bit k (b :: u8)) = unat b div 2 ^ k"
proof -
  have "unat b < 2 ^ LENGTH(8)" by (rule unsigned_less)
  then have "unat (drop_bit k b) = drop_bit k (unat b)" by (simp only: unsigned_drop_bit_eq take_bit_nat_eq_self)
  then show ?thesis by (simp only: drop_bit_eq_div)
qed

lemma tagged_not_blank: "k \<le> 7 \<Longrightarrow> bit m (7 - k) \<Longrightarrow> tagged m k x \<noteq> 0x20"
proof
  assume "k \<le> 7" "bit m (7 - k)" "tagged m k x = 0x20"
  then have "bit (0x20 :: u8) 7" using bit_tagged [of m k x 7] by auto
  then show False by (simp add: bit_simps)
qed

lemma encoded_length:
  assumes "unicode_cpt_to_utf8 c = Inr bs"
  shows "bs \<noteq> []" "unicode_len_utf8 (hd bs) = length bs" "0x20 \<in> set bs \<Longrightarrow> c = 0x20"
proof -
  have lead: "unat (hd bs) div 16 \<in> {12, 13}" if "unat (drop_bit 5 (hd bs)) = 6"
    using that unfolding unat_drop_bit_u8 by auto
  have not_blank: "tagged 6 5 x \<noteq> 0x20" "tagged 2 6 x \<noteq> 0x20" "tagged 14 4 x \<noteq> 0x20" "tagged 30 3 x \<noteq> 0x20" for x
    by (rule tagged_not_blank; simp)+
  have "bs \<noteq> [] \<and> unicode_len_utf8 (hd bs) = length bs \<and> (0x20 \<in> set bs \<longrightarrow> c = 0x20)"
    using assms
  proof (cases rule: unicode_cpt_to_utf8_cases)
    case one
    have c: "unat c < 128" using one(1) by (simp add: word_le_nat_alt)
    then have "unat (ucast c :: u8) = unat c" by (simp add: unsigned_ucast_eq take_bit_nat_eq_self)
    moreover have "unat c div 16 < 8" using c by simp
    then have "unat c div 16 \<in> {0, 1, 2, 3, 4, 5, 6, 7}" by auto
    moreover have "(ucast c :: u8) = 0x20 \<Longrightarrow> c = 0x20"
      using calculation(1) by (auto simp: word_unat_eq_iff)
    ultimately show ?thesis using one unat_drop_bit_u8 [of 4 "ucast c"]
      by (auto simp: unicode_len_utf8_def utf8_lookup_def)
  next
    case two
    have "unat (hd bs) div 16 \<in> {12, 13}" using two by (intro lead) (simp add: drop_bit_tagged)
    then show ?thesis using two not_blank unat_drop_bit_u8 [of 4 "hd bs"]
      by (auto simp: unicode_len_utf8_def utf8_lookup_def)
  next
    case three
    then show ?thesis using not_blank by (auto simp: unicode_len_utf8_def utf8_lookup_def drop_bit_tagged)
  next
    case four
    have "unat (hd bs) div 8 = 30" using four unat_drop_bit_u8 [of 3 "hd bs"] by (simp add: drop_bit_tagged)
    then have "unat (hd bs) div 16 = 15" by linarith
    then show ?thesis using four not_blank unat_drop_bit_u8 [of 4 "hd bs"]
      by (auto simp: unicode_len_utf8_def utf8_lookup_def)
  qed
  then show "bs \<noteq> []" "unicode_len_utf8 (hd bs) = length bs" "0x20 \<in> set bs \<Longrightarrow> c = 0x20" by auto
qed

lemma chars_of_encoded:
  "\<forall>b \<in> set bss. \<exists>c. unicode_cpt_to_utf8 c = Inr b \<Longrightarrow> utf8_chars (concat bss) = bss"
proof (induction bss)
  case (Cons b bss)
  obtain c where "unicode_cpt_to_utf8 c = Inr b" using Cons.prems by auto
  note e = encoded_length [OF this]
  have "utf8_chars (b @ concat bss) = take (length b) (b @ concat bss) # utf8_chars (drop (length b) (b @ concat bss))"
    using e by (subst utf8_chars.simps) (simp add: Let_def)
  then show ?case using Cons by simp
qed (simp add: utf8_chars.simps)

text \<open>The symbols that are left, in the order of the vector.\<close>

definition sym_words :: "llm_symbol list \<Rightarrow> u8 list list" where
  "sym_words syms = map (\<lambda>s. take (sn s) (stext s)) (filter (\<lambda>s. 0 < sn s) syms)"

lemma chain_filter:
  assumes "chain syms ixs t"
  shows "filter (\<lambda>s. 0 < sn s) syms = map ((!) syms) ixs"
proof -
  have "sorted ixs" "distinct ixs"
    using assms unfolding chain_def by (auto simp: strict_sorted_iff)
  moreover have "set (filter (\<lambda>i. 0 < sn (syms ! i)) [0..<length syms]) = set ixs"
    using chain_mem [OF assms] by auto
  ultimately have "filter (\<lambda>i. 0 < sn (syms ! i)) [0..<length syms] = ixs"
    by (intro sorted_distinct_set_unique) (simp_all add: sorted_wrt_filter)
  moreover have "filter (\<lambda>s. 0 < sn s) syms = map ((!) syms) (filter (\<lambda>i. 0 < sn (syms ! i)) [0..<length syms])"
    using filter_map [of "\<lambda>s. 0 < sn s" "(!) syms" "[0..<length syms]"] by (simp add: map_nth comp_def)
  ultimately show ?thesis by simp
qed

lemma chain_sym_words: "chain syms ixs t \<Longrightarrow> sym_words syms = map (word syms) ixs"
  by (simp add: sym_words_def chain_filter word_def)

lemma chain_readable:
  "chain syms ixs t \<Longrightarrow> s \<in> set syms \<Longrightarrow> 0 < sn s \<Longrightarrow> sn s \<le> length (stext s)"
proof -
  assume ch: "chain syms ixs t" and s: "s \<in> set syms" "0 < sn s"
  then have "s \<in> set (map ((!) syms) ixs)" using chain_filter [OF ch] by (metis (mono_tags) filter_set mem_Collect_eq set_filter)
  then show ?thesis using seg_mem [of syms "-1" ixs "-1" t "[]"] ch unfolding chain_def by auto
qed

text \<open>The reference keeps the text, and every property of strings that its merges keep.\<close>

lemma merge_at_concat: "Suc i < length ws \<Longrightarrow> concat (merge_at i ws) = concat ws"
proof -
  assume i: "Suc i < length ws"
  then have "ws = take i ws @ ws ! i # ws ! Suc i # drop (i + 2) ws"
    by (metis Cons_nth_drop_Suc Suc_lessD add_2_eq_Suc' append_take_drop_id)
  then have "concat ws = concat (take i ws) @ ws ! i @ ws ! Suc i @ concat (drop (i + 2) ws)"
    by (metis concat.simps(2) concat_append)
  then show ?thesis unfolding merge_at_def by simp
qed

lemma greedy_merge_concat: "concat (greedy_merge better key ws) = concat ws"
proof (induction better key ws rule: greedy_merge.induct)
  case (1 better key ws)
  then show ?case
    by (subst greedy_merge.simps) (auto split: option.split simp: merge_at_concat dest!: best_pair_bound)
qed

lemma greedy_merge_all:
  "\<forall>w \<in> set ws. P w \<Longrightarrow> (\<And>v w k. P v \<Longrightarrow> P w \<Longrightarrow> key v w = Some k \<Longrightarrow> P (v @ w)) \<Longrightarrow>
   \<forall>w \<in> set (greedy_merge better key ws). P w"
proof (induction better key ws rule: greedy_merge.induct)
  case (1 better key ws)
  show ?case
  proof (cases "best_pair better key ws")
    case None
    then have "greedy_merge better key ws = ws" by (subst greedy_merge.simps) simp
    then show ?thesis using 1(2) by metis
  next
    case (Some p)
    obtain i k where p: "p = (i, k)" by fastforce
    have i: "Suc i < length ws" "key (ws ! i) (ws ! Suc i) = Some k"
      using best_pair_bound [of better key ws i k] best_pair_key [of better key ws i k] Some p by simp_all
    then have "P (ws ! i @ ws ! Suc i)" using 1(2) 1(3) [of "ws ! i" "ws ! Suc i" k] by auto
    then have "\<forall>w \<in> set (merge_at i ws). P w"
      using 1(2) unfolding merge_at_def by (auto dest: in_set_takeD in_set_dropD)
    moreover have "greedy_merge better key ws = greedy_merge better key (merge_at i ws)"
      using Some p by (subst greedy_merge.simps) simp
    ultimately show ?thesis using 1(1) [OF Some p [symmetric]] 1(3) by metis
  qed
qed

text \<open>Two neighbours of a list with \<open>a\<close> in the middle.\<close>

lemma neighbours:
  "as @ a # bs = cs @ c # d # ds \<Longrightarrow>
   (\<exists>es. as = es @ [c] \<and> d = a) \<or> c = a \<and> bs = d # ds \<or>
   (\<exists>fs. as = cs @ c # d # fs) \<or> (\<exists>es. bs = es @ c # d # ds)"
proof (induction as arbitrary: cs)
  case Nil
  then show ?case by (cases cs) auto
next
  case (Cons x as)
  show ?case
  proof (cases cs)
    case Nil
    then show ?thesis using Cons.prems by (cases as) auto
  next
    case (Cons y cs')
    then show ?thesis using Cons.IH [of cs'] Cons.prems by auto
  qed
qed

section \<open>The engine\<close>

locale bigram_engine =
  fixes after :: "'b bigram_scheme \<Rightarrow> 'b bigram_scheme \<Rightarrow> bool"
    and stale :: "'b bigram_scheme \<Rightarrow> llm_symbol \<Rightarrow> llm_symbol \<Rightarrow> bool result"
    and add :: "int \<Rightarrow> int \<Rightarrow> ('b bigram_scheme, 'm) session_scheme \<Rightarrow> ('b bigram_scheme, 'm) session_scheme result"
    and key :: "u8 list \<Rightarrow> u8 list \<Rightarrow> 'k option"
    and better :: "'k \<Rightarrow> 'k \<Rightarrow> bool"
    and bkey :: "'b bigram_scheme \<Rightarrow> 'k"
    and text_ok :: "'b bigram_scheme \<Rightarrow> u8 list \<Rightarrow> bool"
    and legal :: "u8 \<Rightarrow> bool"
    and good :: "('b bigram_scheme, 'm) session_scheme \<Rightarrow> bool"
  assumes better_asym: "better x y \<Longrightarrow> \<not> better y x"
    and better_neg_trans: "\<not> better x y \<Longrightarrow> \<not> better y z \<Longrightarrow> \<not> better x z"
    and after_eq: "after p q \<longleftrightarrow> better (bkey q) (bkey p) \<or> \<not> better (bkey p) (bkey q) \<and> bleft q < bleft p"
    and stale_eq: "sym_string ls = Inr v \<Longrightarrow> sym_string rs = Inr w \<Longrightarrow> text_ok p u \<Longrightarrow> length u = bsize p \<Longrightarrow>
      (length v + length w = bsize p \<Longrightarrow> v @ w = u) \<Longrightarrow> stale p ls rs = Inr (length v + length w \<noteq> bsize p)"
    and add_none: "l = -1 \<or> r = -1 \<Longrightarrow> add l r st = Inr st"
    and add_some: "i < length (symbols st) \<Longrightarrow> j < length (symbols st) \<Longrightarrow>
      sym_string (symbols st ! i) = Inr v \<Longrightarrow> sym_string (symbols st ! j) = Inr w \<Longrightarrow>
      take (sn (symbols st ! i) + sn (symbols st ! j)) (stext (symbols st ! i)) = v @ w \<Longrightarrow>
      \<forall>x \<in> set (v @ w). legal x \<Longrightarrow> good st \<Longrightarrow>
      \<exists>st'. add (int i) (int j) st = Inr st' \<and> good st' \<and> symbols st' = symbols st \<and>
        (case key v w of None \<Rightarrow> work_queue st' = work_queue st
         | Some k \<Rightarrow> \<exists>p. work_queue st' = heap_push after p (work_queue st) \<and> bleft p = int i \<and> bright p = int j \<and>
             bkey p = k \<and> bsize p = length v + length w \<and> text_ok p (v @ w))"
    and good_update: "good st \<Longrightarrow> good (st\<lparr>symbols := ss\<rparr>)" "good st \<Longrightarrow> good (st\<lparr>work_queue := wq\<rparr>)"

sublocale bigram_engine \<subseteq> queue_order: weak_order after
proof
  show "after a b \<Longrightarrow> \<not> after b a" for a b using better_asym after_eq by auto
  show "\<not> after a b \<Longrightarrow> \<not> after b c \<Longrightarrow> \<not> after a c" for a b c
    using better_asym better_neg_trans unfolding after_eq by (metis not_less order_trans)
qed

context bigram_engine
begin

text \<open>
  An entry remembers the sizes its two symbols had: symbols only grow or vanish, and as long as the left
  one keeps its size, the right one stays its successor.
\<close>

definition entry_ok :: "llm_symbol list \<Rightarrow> 'b bigram_scheme \<Rightarrow> bool" where
  "entry_ok syms p \<longleftrightarrow> (\<exists>l r nl nr. bleft p = int l \<and> bright p = int r \<and> l < length syms \<and> r < length syms \<and>
     0 < nl \<and> 0 < nr \<and> bsize p = nl + nr \<and> nl + nr \<le> length (stext (syms ! l)) \<and>
     (sn (syms ! l) = 0 \<or> nl \<le> sn (syms ! l)) \<and> (sn (syms ! r) = 0 \<or> nr \<le> sn (syms ! r)) \<and>
     (sn (syms ! l) = nl \<and> sn (syms ! r) \<noteq> 0 \<longrightarrow> snext (syms ! l) = int r) \<and>
     key (take nl (stext (syms ! l))) (take nr (stext (syms ! r))) = Some (bkey p) \<and>
     text_ok p (take (nl + nr) (stext (syms ! l))))"

definition inv :: "('b bigram_scheme, 'm) session_scheme \<Rightarrow> nat list \<Rightarrow> u8 list \<Rightarrow> bool" where
  "inv st ixs t \<longleftrightarrow> chain (symbols st) ixs t \<and> queue_order.heap (work_queue st) \<and>
     (\<forall>p \<in> set (work_queue st). entry_ok (symbols st) p) \<and> good st \<and> (\<forall>x \<in> set t. legal x)"

definition covered :: "('b bigram_scheme, 'm) session_scheme \<Rightarrow> nat \<Rightarrow> nat \<Rightarrow> bool" where
  "covered st a b \<longleftrightarrow> (\<forall>k. key (word (symbols st) a) (word (symbols st) b) = Some k \<longrightarrow>
     (\<exists>p \<in> set (work_queue st). bleft p = int a \<and> bright p = int b \<and> bkey p = k \<and>
        bsize p = sn (symbols st ! a) + sn (symbols st ! b)))"

definition complete :: "('b bigram_scheme, 'm) session_scheme \<Rightarrow> nat list \<Rightarrow> bool" where
  "complete st ixs \<longleftrightarrow> (\<forall>as a b bs. ixs = as @ a # b # bs \<longrightarrow> covered st a b)"

lemma covered_mono:
  "covered st a b \<Longrightarrow> symbols st' = symbols st \<Longrightarrow> set (work_queue st) \<subseteq> set (work_queue st') \<Longrightarrow> covered st' a b"
  unfolding covered_def by fastforce

lemma entry_fresh:
  assumes "chain syms ixs t" "entry_ok syms p" "bleft p = int l" "bright p = int r"
    and "sn (syms ! l) \<noteq> 0" "sn (syms ! r) \<noteq> 0" "sn (syms ! l) + sn (syms ! r) = bsize p"
  shows "\<exists>as bs. ixs = as @ l # r # bs" "key (word syms l) (word syms r) = Some (bkey p)"
proof -
  obtain nl nr where e: "l < length syms" "bsize p = nl + nr" "nl \<le> sn (syms ! l)" "nr \<le> sn (syms ! r)"
    "sn (syms ! l) = nl \<longrightarrow> snext (syms ! l) = int r"
    "key (take nl (stext (syms ! l))) (take nr (stext (syms ! r))) = Some (bkey p)"
    using assms(2-6) unfolding entry_ok_def by auto
  then have n: "sn (syms ! l) = nl" "sn (syms ! r) = nr" using assms(7) by auto
  then show "key (word syms l) (word syms r) = Some (bkey p)" using e by (simp add: word_def)
  show "\<exists>as bs. ixs = as @ l # r # bs"
    using chain_next [OF assms(1), of l r] chain_mem [OF assms(1), of l] e n assms(5) by simp
qed

lemma entry_ok_merge:
  assumes e: "entry_ok syms p" and ab: "a < length syms" "b < length syms" "a \<noteq> b" "0 < sn (syms ! a)" "0 < sn (syms ! b)"
    and len: "length syms' = length syms" and at: "\<forall>i < length syms. syms' ! i = merged a b syms i"
  shows "entry_ok syms' p"
proof -
  obtain l r nl nr where p: "bleft p = int l" "bright p = int r" "l < length syms" "r < length syms"
    "0 < nl" "0 < nr" "bsize p = nl + nr" "nl + nr \<le> length (stext (syms ! l))"
    and grow: "sn (syms ! l) = 0 \<or> nl \<le> sn (syms ! l)" "sn (syms ! r) = 0 \<or> nr \<le> sn (syms ! r)"
    and adj: "sn (syms ! l) = nl \<and> sn (syms ! r) \<noteq> 0 \<longrightarrow> snext (syms ! l) = int r"
    and k: "key (take nl (stext (syms ! l))) (take nr (stext (syms ! r))) = Some (bkey p)"
      "text_ok p (take (nl + nr) (stext (syms ! l)))"
    using e unfolding entry_ok_def by blast
  have same_text: "stext (syms' ! i) = stext (syms ! i)" if "i < length syms" for i using at that by simp
  have g: "sn (syms' ! i) = 0 \<or> n \<le> sn (syms' ! i)" if "i < length syms" "sn (syms ! i) = 0 \<or> n \<le> sn (syms ! i)" for i n
    using at that ab by (cases "i = a"; cases "i = b") auto
  have "snext (syms' ! l) = int r" if "sn (syms' ! l) = nl" "sn (syms' ! r) \<noteq> 0"
  proof -
    have "l \<noteq> a" using that(1) at ab grow(1) p by auto
    moreover have "l \<noteq> b" using that(1) at ab p by auto
    ultimately have "sn (syms ! l) = nl" "snext (syms' ! l) = snext (syms ! l)" using that(1) at p by auto
    moreover have "sn (syms ! r) \<noteq> 0" using that(2) at p(4) ab by (cases "r = a"; cases "r = b") auto
    ultimately show ?thesis using adj by simp
  qed
  then show ?thesis unfolding entry_ok_def
    using p k len same_text g [OF p(3) grow(1)] g [OF p(4) grow(2)] by (intro exI [of _ l] exI [of _ r] exI [of _ nl] exI [of _ nr]) simp
qed

lemma set_push [simp]: "set (heap_push after p q) = insert p (set q)"
  using queue_order.heap_push_ok(1) [of p q] by (metis set_mset_add_mset_insert set_mset_mset)

lemma length_push [simp]: "length (heap_push after p q) = Suc (length q)"
  using queue_order.heap_push_ok(1) [of p q] by (metis size_add_mset size_mset)

lemma chain_legal:
  "chain syms ixs t \<Longrightarrow> \<forall>x \<in> set t. legal x \<Longrightarrow> i \<in> set ixs \<Longrightarrow> \<forall>x \<in> set (word syms i). legal x"
  using seg_words [of syms "-1" ixs "-1" t "[]"] unfolding chain_def by auto

text \<open>A candidate for neighbours in the chain is added, unless there is none.\<close>

lemma add_ok:
  assumes inv: "inv st ixs t" and ixs: "ixs = as @ a # b # bs"
  shows "\<exists>st'. add (int a) (int b) st = Inr st' \<and> inv st' ixs t \<and> symbols st' = symbols st \<and>
    set (work_queue st) \<subseteq> set (work_queue st') \<and> length (work_queue st') \<le> Suc (length (work_queue st)) \<and> covered st' a b"
proof -
  define syms where "syms = symbols st"
  have ch: "chain syms ixs t" using inv unfolding inv_def syms_def by blast
  note p = chain_pair [OF ch [unfolded ixs]]
  have str: "sym_string (syms ! a) = Inr (word syms a)" "sym_string (syms ! b) = Inr (word syms b)"
    using chain_string [OF ch] ixs by auto
  have sizes: "length (word syms a) = sn (syms ! a)" "length (word syms b) = sn (syms ! b)"
    "0 < sn (syms ! a)" "0 < sn (syms ! b)"
    using str chain_mem [OF ch, of a] chain_mem [OF ch, of b] ixs by (auto simp: sym_string_def word_def split: if_splits)
  have "\<forall>x \<in> set (word syms a @ word syms b). legal x"
    using chain_legal [OF ch, of a] chain_legal [OF ch, of b] inv ixs unfolding inv_def by auto
  then obtain st' where st': "add (int a) (int b) st = Inr st'" "good st'" "symbols st' = syms"
    "case key (word syms a) (word syms b) of None \<Rightarrow> work_queue st' = work_queue st
     | Some k \<Rightarrow> \<exists>p. work_queue st' = heap_push after p (work_queue st) \<and> bleft p = int a \<and> bright p = int b \<and>
         bkey p = k \<and> bsize p = length (word syms a) + length (word syms b) \<and> text_ok p (word syms a @ word syms b)"
    using add_some [of a st b "word syms a" "word syms b"] str p inv unfolding syms_def inv_def by blast
  show ?thesis
  proof (cases "key (word syms a) (word syms b)")
    case None
    then have "covered st' a b" using st'(3) unfolding covered_def by simp
    then show ?thesis using None st' inv unfolding inv_def syms_def by auto
  next
    case (Some k)
    then obtain e where e: "work_queue st' = heap_push after e (work_queue st)" "bleft e = int a" "bright e = int b"
      "bkey e = k" "bsize e = sn (syms ! a) + sn (syms ! b)" "text_ok e (word syms a @ word syms b)"
      using st'(4) sizes by auto
    have "sn (syms ! a) + sn (syms ! b) \<le> length (stext (syms ! a))"
      using arg_cong [OF p(7), of length] sizes by auto
    then have "entry_ok syms e" unfolding entry_ok_def
      using e Some p sizes unfolding word_def by (intro exI [of _ a] exI [of _ b] exI [of _ "sn (syms ! a)"] exI [of _ "sn (syms ! b)"]) simp
    then have "inv st' ixs t" using inv st' e(1) queue_order.heap_push_ok(2) unfolding inv_def syms_def by auto
    moreover have "covered st' a b" using st'(3) e Some unfolding covered_def by auto
    ultimately show ?thesis using st' e(1) syms_def by auto
  qed
qed

text \<open>The same, when the neighbour may be missing.\<close>

lemma add_left:
  assumes "inv st (as @ a # bs) t"
  shows "\<exists>st'. add (last_or (-1) as) (int a) st = Inr st' \<and> inv st' (as @ a # bs) t \<and> symbols st' = symbols st \<and>
    set (work_queue st) \<subseteq> set (work_queue st') \<and> length (work_queue st') \<le> Suc (length (work_queue st)) \<and>
    (\<forall>cs c. as = cs @ [c] \<longrightarrow> covered st' c a)"
proof (cases as rule: rev_cases)
  case Nil
  then show ?thesis using add_none assms by simp
next
  case (snoc cs c)
  then show ?thesis using add_ok [OF assms, of cs c a bs] by simp
qed

lemma add_right:
  assumes "inv st (as @ a # bs) t"
  shows "\<exists>st'. add (int a) (hd_or (-1) bs) st = Inr st' \<and> inv st' (as @ a # bs) t \<and> symbols st' = symbols st \<and>
    set (work_queue st) \<subseteq> set (work_queue st') \<and> length (work_queue st') \<le> Suc (length (work_queue st)) \<and>
    (\<forall>c cs. bs = c # cs \<longrightarrow> covered st' a c)"
proof (cases bs)
  case Nil
  then show ?thesis using add_none assms by simp
next
  case (Cons c cs)
  then show ?thesis using add_ok [OF assms, of as a c cs] by simp
qed

lemma popped:
  assumes "inv st ixs t" "work_queue st \<noteq> []" "pop_move after (work_queue st) = (p, q)"
  shows "set (work_queue st) = insert p (set q)" "queue_order.heap q" "\<forall>e \<in> set (work_queue st). \<not> after p e"
    and "length (work_queue st) = Suc (length q)"
  using queue_order.pop_move_ok [of "work_queue st" p q] assms unfolding inv_def
  by (auto dest: arg_cong [of _ _ set_mset] arg_cong [of _ _ size])

text \<open>The candidate taken from the queue is the reference's choice.\<close>

lemma popped_best:
  assumes inv: "inv st (as @ a # b # bs) t" and comp: "complete st (as @ a # b # bs)"
    and first: "\<forall>e \<in> set (work_queue st). \<not> after p e" and p: "bleft p = int a"
    and k: "key (word (symbols st) a) (word (symbols st) b) = Some (bkey p)"
  shows "best_pair better key (map (word (symbols st)) (as @ a # b # bs)) = Some (length as, bkey p)"
proof (rule best_pair_leftmost)
  define ixs where "ixs = as @ a # b # bs"
  define ws where "ws = map (word (symbols st)) ixs"
  have sorted: "sorted_wrt (<) ixs" using inv unfolding inv_def chain_def ixs_def by blast
  have cand: "\<exists>e. bleft e = int (ixs ! j) \<and> bkey e = k' \<and> \<not> after p e"
    if j: "Suc j < length ixs" "key (ws ! j) (ws ! Suc j) = Some k'" for j k'
  proof -
    have "ixs = take j ixs @ ixs ! j # ixs ! Suc j # drop (Suc (Suc j)) ixs"
      using j by (metis Cons_nth_drop_Suc Suc_lessD append_take_drop_id)
    then have "covered st (ixs ! j) (ixs ! Suc j)" using comp unfolding complete_def ixs_def by blast
    then show ?thesis using j first unfolding covered_def ws_def by fastforce
  qed
  have a: "ixs ! length as = a" "Suc (length as) < length ixs" by (simp_all add: ixs_def)
  show "Suc (length as) < length (map (word (symbols st)) (as @ a # b # bs))" by simp
  show "key (map (word (symbols st)) (as @ a # b # bs) ! length as) (map (word (symbols st)) (as @ a # b # bs) ! Suc (length as)) = Some (bkey p)"
    using k by (simp add: nth_append)
  fix j k' assume j: "key (map (word (symbols st)) (as @ a # b # bs) ! j) (map (word (symbols st)) (as @ a # b # bs) ! Suc j) = Some k'"
  show "better (bkey p) k'" if "j < length as"
  proof -
    have "ixs ! j < a" using that sorted_wrt_nth_less [OF sorted, of j "length as"] a by simp
    then show ?thesis using cand [of j k'] j that a p unfolding ws_def ixs_def after_eq by auto
  qed
  show "\<not> better k' (bkey p)" if "length as < j" "Suc j < length (map (word (symbols st)) (as @ a # b # bs))"
    using cand [of j k'] j that unfolding ws_def ixs_def after_eq by auto
qed

lemma inv_entry:
  assumes "inv st ixs t" "p \<in> set (work_queue st)"
  shows "\<exists>l r u. bleft p = int l \<and> bright p = int r \<and> l < length (symbols st) \<and> r < length (symbols st) \<and>
    text_ok p u \<and> length u = bsize p \<and> u = take (bsize p) (stext (symbols st ! l))"
proof -
  have "entry_ok (symbols st) p" using assms unfolding inv_def by blast
  then show ?thesis unfolding entry_ok_def by force
qed

lemma step_stale:
  assumes inv: "inv st ixs t" and comp: "complete st ixs" and q: "work_queue st \<noteq> []" "pop_move after (work_queue st) = (p, q)"
    and lr: "bleft p = int l" "bright p = int r"
    and old: "sn (symbols st ! l) = 0 \<or> sn (symbols st ! r) = 0 \<or> sn (symbols st ! l) + sn (symbols st ! r) \<noteq> bsize p"
  shows "merge_step after stale add st = Inr (st\<lparr>work_queue := q\<rparr>)"
    and "inv (st\<lparr>work_queue := q\<rparr>) ixs t" and "complete (st\<lparr>work_queue := q\<rparr>) ixs"
proof -
  note pop = popped [OF inv q]
  have ch: "chain (symbols st) ixs t" using inv unfolding inv_def by blast
  obtain u where e: "l < length (symbols st)" "r < length (symbols st)" "text_ok p u" "length u = bsize p"
    using inv_entry [OF inv, of p] pop(1) lr by auto
  have "stale p (symbols st ! l) (symbols st ! r) = Inr True" if live: "sn (symbols st ! l) \<noteq> 0" "sn (symbols st ! r) \<noteq> 0"
  proof -
    have m: "l \<in> set ixs" "r \<in> set ixs" using chain_mem [OF ch] e live by auto
    have "length (word (symbols st) i) = sn (symbols st ! i)" if "i \<in> set ixs" for i
      using chain_string [OF ch that] by (auto simp: sym_string_def word_def split: if_splits)
    then show ?thesis using stale_eq [OF chain_string [OF ch m(1)] chain_string [OF ch m(2)] e(3,4)] old live m by simp
  qed
  then show "merge_step after stale add st = Inr (st\<lparr>work_queue := q\<rparr>)"
    using q(2) lr e unfolding merge_step_def by (auto simp: Let_def)
  show "inv (st\<lparr>work_queue := q\<rparr>) ixs t" using inv pop good_update unfolding inv_def by auto
  have "covered (st\<lparr>work_queue := q\<rparr>) a b" if ixs: "ixs = as @ a # b # bs" for as a b bs
  proof -
    have "sn (symbols st ! a) \<noteq> 0" "sn (symbols st ! b) \<noteq> 0"
      using chain_mem [OF ch, of a] chain_mem [OF ch, of b] ixs by auto
    then have "e \<noteq> p" if "bleft e = int a" "bright e = int b" "bsize e = sn (symbols st ! a) + sn (symbols st ! b)" for e
      using old lr that by auto
    moreover have "covered st a b" using comp ixs unfolding complete_def by blast
    ultimately show ?thesis using pop(1) unfolding covered_def by fastforce
  qed
  then show "complete (st\<lparr>work_queue := q\<rparr>) ixs" unfolding complete_def by blast
qed

lemma step_merges:
  assumes inv: "inv st (as @ a # b # bs) t" and comp: "complete st (as @ a # b # bs)"
    and q: "work_queue st \<noteq> []" "pop_move after (work_queue st) = (p, q)"
    and lr: "bleft p = int a" "bright p = int b" and size: "sn (symbols st ! a) + sn (symbols st ! b) = bsize p"
  shows "\<exists>st'. merge_step after stale add st = Inr st' \<and> inv st' (as @ a # bs) t \<and> complete st' (as @ a # bs) \<and>
    length (work_queue st') \<le> length (work_queue st) + 1 \<and>
    map (word (symbols st')) (as @ a # bs) = merge_at (length as) (map (word (symbols st)) (as @ a # b # bs))"
proof -
  define syms where "syms = symbols st"
  note pop = popped [OF inv q]
  have ch: "chain syms (as @ a # b # bs) t" using inv unfolding inv_def syms_def by blast
  note pr = chain_pair [OF ch]
  have live: "0 < sn (syms ! a)" "0 < sn (syms ! b)" using chain_mem [OF ch] by auto
  have str: "sym_string (syms ! a) = Inr (word syms a)" "sym_string (syms ! b) = Inr (word syms b)"
    using chain_string [OF ch] by auto
  obtain u where u: "text_ok p u" "length u = bsize p" "u = take (bsize p) (stext (syms ! a))"
    using inv_entry [OF inv, of p] pop(1) lr unfolding syms_def by auto
  have "v @ w = u" if "v = word syms a" "w = word syms b" for v w using that u(3) size pr(7) unfolding syms_def by simp
  then have fresh: "stale p (syms ! a) (syms ! b) = Inr False"
    using stale_eq [OF str u(1,2)] u size pr(7) unfolding syms_def by (metis length_append)
  obtain syms' where m: "merge_symbols (int a) (int b) syms = Inr syms'" "length syms' = length syms"
    and at: "\<forall>i < length syms. syms' ! i = merged a b syms i" and ch': "chain syms' (as @ a # bs) t"
    and ws: "map (word syms') (as @ a # bs) = merge_at (length as) (map (word syms) (as @ a # b # bs))"
    using merge_chain [OF ch] by blast
  define st2 where "st2 = st\<lparr>work_queue := q, symbols := syms'\<rparr>"
  have "\<forall>e \<in> set q. entry_ok syms' e"
    using entry_ok_merge [of syms _ a b syms'] inv pop(1) pr(1-3) live m(2) at unfolding inv_def syms_def by auto
  then have inv2: "inv st2 (as @ a # bs) t"
    using inv ch' pop(2) good_update unfolding inv_def st2_def by auto
  have s: "sprev (syms' ! a) = last_or (-1) as" "snext (syms' ! a) = hd_or (-1) bs" using at pr(1,5,6) by auto
  obtain st3 where st3: "add (last_or (-1) as) (int a) st2 = Inr st3" "inv st3 (as @ a # bs) t" "symbols st3 = syms'"
    "set q \<subseteq> set (work_queue st3)" "length (work_queue st3) \<le> Suc (length q)"
    "\<forall>cs c. as = cs @ [c] \<longrightarrow> covered st3 c a"
    using add_left [OF inv2] unfolding st2_def by auto
  obtain st4 where st4: "add (int a) (hd_or (-1) bs) st3 = Inr st4" "inv st4 (as @ a # bs) t" "symbols st4 = syms'"
    "set (work_queue st3) \<subseteq> set (work_queue st4)" "length (work_queue st4) \<le> Suc (length (work_queue st3))"
    "\<forall>c cs. bs = c # cs \<longrightarrow> covered st4 a c"
    using add_right [OF st3(2)] st3(3) by auto
  have kept: "covered st4 c d" if "covered st c d" "c < length syms" "d < length syms" "c \<noteq> a" "c \<noteq> b" "d \<noteq> a" "d \<noteq> b" for c d
  proof -
    have eq: "word syms' i = word syms i \<and> sn (syms' ! i) = sn (syms ! i)" if "i = c \<or> i = d" for i
      using that at \<open>c < length syms\<close> \<open>d < length syms\<close> \<open>c \<noteq> a\<close> \<open>c \<noteq> b\<close> \<open>d \<noteq> a\<close> \<open>d \<noteq> b\<close> by (auto simp: word_def)
    have "e \<in> set (work_queue st4)" if "e \<in> set (work_queue st)" "bleft e = int c" for e
      using that pop(1) lr \<open>c \<noteq> a\<close> st3(4) st4(4) by auto
    then show ?thesis using \<open>covered st c d\<close> eq st4(3) unfolding covered_def syms_def by metis
  qed
  have "covered st4 c d" if "as @ a # bs = cs @ c # d # ds" for cs c d ds
    using neighbours [OF that]
  proof (elim disjE exE conjE)
    fix es assume "as = es @ [c]" "d = a"
    then show ?thesis using st3(6) covered_mono [of st3 c a st4] st3(3) st4(3,4) by simp
  next
    assume "c = a" "bs = d # ds" then show ?thesis using st4(6) by blast
  next
    fix fs assume as: "as = cs @ c # d # fs"
    then have "covered st c d" using comp unfolding complete_def by (metis append.assoc append_Cons)
    then show ?thesis using kept [of c d] chain_mem [OF ch] pr(3,8) as by fastforce
  next
    fix es assume bs: "bs = es @ c # d # ds"
    then have "as @ a # b # bs = (as @ a # b # es) @ c # d # ds" by simp
    then have "covered st c d" using comp unfolding complete_def by blast
    then show ?thesis using kept [of c d] chain_mem [OF ch] pr(3,9) bs by fastforce
  qed
  then have "complete st4 (as @ a # bs)" unfolding complete_def by blast
  moreover have "merge_step after stale add st = Inr st4"
    using q(2) lr live fresh m s st3(1) st4(1) pr(1,2) unfolding merge_step_def st2_def syms_def by (simp add: Let_def)
  ultimately show ?thesis using st4(2,3,5) st3(5) pop(4) ws unfolding syms_def by auto
qed

lemma step_refines:
  assumes inv: "inv st ixs t" and comp: "complete st ixs" and q: "work_queue st \<noteq> []"
  shows "\<exists>st' ixs'. merge_step after stale add st = Inr st' \<and> inv st' ixs' t \<and> complete st' ixs' \<and>
    greedy_merge better key (map (word (symbols st')) ixs') = greedy_merge better key (map (word (symbols st)) ixs) \<and>
    3 * length ixs' + length (work_queue st') < 3 * length ixs + length (work_queue st) \<and> hd ixs' = hd ixs"
proof -
  obtain p wq where pop: "pop_move after (work_queue st) = (p, wq)" by fastforce
  note pp = popped [OF inv q pop]
  obtain l r where lr: "bleft p = int l" "bright p = int r" using inv_entry [OF inv, of p] pp(1) by auto
  show ?thesis
  proof (cases "sn (symbols st ! l) = 0 \<or> sn (symbols st ! r) = 0 \<or> sn (symbols st ! l) + sn (symbols st ! r) \<noteq> bsize p")
    case True
    show ?thesis using step_stale [OF inv comp q pop lr True] pp(4)
      by (intro exI [of _ "st\<lparr>work_queue := wq\<rparr>"] exI [of _ ixs]) simp
  next
    case False
    have ch: "chain (symbols st) ixs t" "entry_ok (symbols st) p" using inv pp(1) unfolding inv_def by auto
    obtain as bs where ixs: "ixs = as @ l # r # bs" and k: "key (word (symbols st) l) (word (symbols st) r) = Some (bkey p)"
      using entry_fresh [OF ch lr] False by auto
    have size: "sn (symbols st ! l) + sn (symbols st ! r) = bsize p" using False by blast
    from step_merges [OF inv [unfolded ixs] comp [unfolded ixs] q pop lr size]
    obtain st' where st': "merge_step after stale add st = Inr st'" "inv st' (as @ l # bs) t" "complete st' (as @ l # bs)"
      "length (work_queue st') \<le> length (work_queue st) + 1"
      "map (word (symbols st')) (as @ l # bs) = merge_at (length as) (map (word (symbols st)) ixs)"
      unfolding ixs by blast
    have "best_pair better key (map (word (symbols st)) ixs) = Some (length as, bkey p)"
      using popped_best [OF inv [unfolded ixs] comp [unfolded ixs] pp(3) lr(1) k] ixs by simp
    then have "greedy_merge better key (map (word (symbols st)) ixs) =
      greedy_merge better key (map (word (symbols st')) (as @ l # bs))"
      unfolding st'(5) by (subst greedy_merge.simps) simp
    then show ?thesis using st'(1-4) ixs by (intro exI [of _ st'] exI [of _ "as @ l # bs"]) (simp add: hd_append)
  qed
qed

lemma merge_loop_greedy:
  "inv st ixs t \<Longrightarrow> complete st ixs \<Longrightarrow> 3 * length ixs + length (work_queue st) \<le> fuel \<Longrightarrow>
   \<exists>st' ixs'. merge_loop fuel (merge_step after stale add) st = Inr st' \<and> inv st' ixs' t \<and> hd ixs' = hd ixs \<and>
     map (word (symbols st')) ixs' = greedy_merge better key (map (word (symbols st)) ixs)"
proof (induction fuel arbitrary: st ixs)
  case 0
  have "ixs = []" using 0(3) by simp
  then have "greedy_merge better key (map (word (symbols st)) ixs) = []" by (simp add: greedy_merge.simps [of _ _ "[]"])
  then show ?case using 0 \<open>ixs = []\<close> by (intro exI [of _ st] exI [of _ ixs]) simp
next
  case (Suc fuel)
  show ?case
  proof (cases "work_queue st = []")
    case True
    have "key (word (symbols st) (ixs ! i)) (word (symbols st) (ixs ! Suc i)) = None" if "Suc i < length ixs" for i
    proof -
      have "ixs = take i ixs @ ixs ! i # ixs ! Suc i # drop (Suc (Suc i)) ixs"
        using that by (metis Cons_nth_drop_Suc Suc_lessD append_take_drop_id)
      then have "covered st (ixs ! i) (ixs ! Suc i)" using Suc.prems(2) unfolding complete_def by blast
      then show ?thesis using True unfolding covered_def by (metis empty_iff empty_set not_Some_eq)
    qed
    then have "best_pair better key (map (word (symbols st)) ixs) = None" by (intro best_pair_None) simp
    then have "greedy_merge better key (map (word (symbols st)) ixs) = map (word (symbols st)) ixs"
      by (subst greedy_merge.simps) simp
    then show ?thesis using Suc.prems True by (intro exI [of _ st] exI [of _ ixs]) simp
  next
    case False
    from step_refines [OF Suc.prems(1,2) False] obtain st' ixs' where s: "merge_step after stale add st = Inr st'"
      "inv st' ixs' t" "complete st' ixs'" "3 * length ixs' + length (work_queue st') \<le> fuel"
      "greedy_merge better key (map (word (symbols st')) ixs') = greedy_merge better key (map (word (symbols st)) ixs)" "hd ixs' = hd ixs"
      using Suc.prems(3) by auto
    show ?thesis using Suc.IH [OF s(2-4)] s(1,5,6) False by simp
  qed
qed

lemma seed_ok:
  assumes inv: "inv st [0..<n] t" and n: "n = length (symbols st)"
  shows "m \<le> n \<Longrightarrow> \<exists>st'. rfold (\<lambda>i. add (int i - 1) (int i)) [1..<m] st = Inr st' \<and> inv st' [0..<n] t \<and> symbols st' = symbols st \<and>
    length (work_queue st') \<le> length (work_queue st) + (m - 1) \<and> (\<forall>i. 0 < i \<and> i < m \<longrightarrow> covered st' (i - 1) i)"
proof (induction m)
  case 0
  then show ?case using inv by simp
next
  case (Suc m)
  then obtain st' where st': "rfold (\<lambda>i. add (int i - 1) (int i)) [1..<m] st = Inr st'" "inv st' [0..<n] t"
    "symbols st' = symbols st" "length (work_queue st') \<le> length (work_queue st) + (m - 1)"
    "\<forall>i. 0 < i \<and> i < m \<longrightarrow> covered st' (i - 1) i" by auto
  show ?case
  proof (cases "m = 0")
    case False
    have upt: "[0..<n] = [0..<m - 1] @ (m - 1) # m # [Suc m..<n]"
      using False Suc.prems upt_add_eq_append [of 0 "m - 1" "n - (m - 1)"] by (simp add: upt_conv_Cons)
    obtain st2 where st2: "add (int (m - 1)) (int m) st' = Inr st2" "inv st2 [0..<n] t" "symbols st2 = symbols st'"
      "set (work_queue st') \<subseteq> set (work_queue st2)" "length (work_queue st2) \<le> Suc (length (work_queue st'))" "covered st2 (m - 1) m"
      using add_ok [OF st'(2) upt] by blast
    have "covered st2 (i - 1) i" if "0 < i" "i < Suc m" for i
      using st2(6) covered_mono [of st' "i - 1" i st2] st'(5) st2(3,4) that by (cases "i = m") auto
    moreover have "[1..<Suc m] = [1..<m] @ [m]" using False by simp
    moreover have "int (m - 1) = int m - 1" using False by simp
    ultimately show ?thesis using st' st2 False by (auto simp: rfold_append)
  qed (use inv in simp)
qed

theorem merge_all_greedy:
  assumes "chain (symbols st) [0..<length (symbols st)] t" "work_queue st = []" "good st" "\<forall>x \<in> set t. legal x"
  shows "\<exists>st' ixs. merge_all after stale add st = Inr st' \<and> good st' \<and> chain (symbols st') ixs t \<and> (symbols st \<noteq> [] \<longrightarrow> hd ixs = 0) \<and>
    map (word (symbols st')) ixs = greedy_merge better key (map (word (symbols st)) [0..<length (symbols st)])"
proof -
  define n where "n = length (symbols st)"
  have inv: "inv st [0..<n] t" using assms unfolding inv_def n_def by (auto simp: queue_order.heap_def)
  obtain st' where st': "seed_queue add st = Inr st'" "inv st' [0..<n] t" "symbols st' = symbols st"
    "length (work_queue st') \<le> n" "\<forall>i. 0 < i \<and> i < n \<longrightarrow> covered st' (i - 1) i"
    using seed_ok [OF inv n_def, of n] assms(2) unfolding seed_queue_def n_def by auto
  have "covered st' a b" if "[0..<n] = as @ a # b # bs" for as a b bs
  proof -
    have n: "n = Suc (Suc (length as + length bs))" using arg_cong [OF that, of length] by simp
    then have "[0..<n] ! length as = length as" "[0..<n] ! Suc (length as) = Suc (length as)"
      by (simp_all add: nth_upt del: upt_Suc)
    then have "a = length as" "b = Suc (length as)" "Suc (length as) < n" unfolding that using n by (simp_all add: nth_append)
    then show ?thesis using st'(5) by fastforce
  qed
  then have "complete st' [0..<n]" unfolding complete_def by blast
  moreover have "symbols st \<noteq> [] \<Longrightarrow> hd [0..<n] = 0" unfolding n_def by simp
  ultimately show ?thesis
    using merge_loop_greedy [OF st'(2), of "4 * n"] st' unfolding merge_all_def inv_def n_def by fastforce
qed

end

end
