(* ===== verification/Unicode_Split.thy ===== *)
theory Unicode_Split
  imports Unicode
begin

text \<open>
  Splitting text into words before tokenization: the hand-written splitters of \<open>src/unicode.cpp\<close>
  (GPT-2, Llama 3, Qwen 2, Kimi K2, AFMoE digits, newlines), the splitter over a regular expression
  engine, and \<open>unicode_regex_split\<close>, which runs them one after the other. The tables of
  \<open>src/unicode-data.cpp\<close> are a parameter, a record of their lists, and so is the regular expression
  engine of the C++ library, a function from an expression and a text to its matches. The theorems are
  in \<open>Unicode_Split_Correct\<close>: the splitters only cut, they never lose, repeat or reorder text.
\<close>

unbundle bit_operations_syntax

section \<open>Flags of a code point\<close>

type_synonym unicode_cpt_flags = "16 word"

definition CPT_UNDEFINED :: unicode_cpt_flags where "CPT_UNDEFINED = 0x0001"
definition CPT_NUMBER :: unicode_cpt_flags where "CPT_NUMBER = 0x0002"
definition CPT_LETTER :: unicode_cpt_flags where "CPT_LETTER = 0x0004"
definition CPT_ACCENT_MARK :: unicode_cpt_flags where "CPT_ACCENT_MARK = 0x0010"
definition CPT_PUNCTUATION :: unicode_cpt_flags where "CPT_PUNCTUATION = 0x0020"
definition CPT_SYMBOL :: unicode_cpt_flags where "CPT_SYMBOL = 0x0040"
definition CPT_MASK_CATEGORIES :: unicode_cpt_flags where "CPT_MASK_CATEGORIES = 0x00FF"
definition CPT_WHITESPACE :: unicode_cpt_flags where "CPT_WHITESPACE = 0x0100"
definition CPT_LOWERCASE :: unicode_cpt_flags where "CPT_LOWERCASE = 0x0200"
definition CPT_UPPERCASE :: unicode_cpt_flags where "CPT_UPPERCASE = 0x0400"
definition CPT_NFD :: unicode_cpt_flags where "CPT_NFD = 0x0800"

definition is_number :: "unicode_cpt_flags \<Rightarrow> bool" where "is_number f \<longleftrightarrow> f AND CPT_NUMBER \<noteq> 0"
definition is_letter :: "unicode_cpt_flags \<Rightarrow> bool" where "is_letter f \<longleftrightarrow> f AND CPT_LETTER \<noteq> 0"
definition is_whitespace :: "unicode_cpt_flags \<Rightarrow> bool" where "is_whitespace f \<longleftrightarrow> f AND CPT_WHITESPACE \<noteq> 0"

definition category_flag :: "unicode_cpt_flags \<Rightarrow> unicode_cpt_flags" where
  "category_flag f = f AND CPT_MASK_CATEGORIES"

text \<open>The tables: ranges with their flags, white space, case maps, canonical decompositions. A set or a
  hash map is the list of its elements in the order of iteration.\<close>

record unicode_data =
  ranges_flags :: "(nat \<times> unicode_cpt_flags) list"
  set_whitespace :: "nat list"
  map_lowercase :: "(u32 \<times> u32) list"
  map_uppercase :: "(u32 \<times> u32) list"
  ranges_nfd :: "(u32 \<times> u32 \<times> u32) list"

definition MAX_CODEPOINTS :: nat where
  "MAX_CODEPOINTS = 0x110000"

text \<open>\<open>unicode_cpt_flags_array\<close>, one entry at a time: an entry is the flags of the last range that covers
  it, with the helper flags of the tables that name it.\<close>

fun range_flags :: "nat \<Rightarrow> (nat \<times> unicode_cpt_flags) list \<Rightarrow> unicode_cpt_flags \<Rightarrow> unicode_cpt_flags" where
  "range_flags cpt ((a, f) # (b, g) # rest) acc =
     range_flags cpt ((b, g) # rest) (if a \<le> cpt \<and> cpt < b then f else acc)"
| "range_flags cpt _ acc = acc"

definition cpt_flags_entry :: "unicode_data \<Rightarrow> nat \<Rightarrow> unicode_cpt_flags" where
  "cpt_flags_entry D cpt =
     (let f0 = range_flags cpt (ranges_flags D) CPT_UNDEFINED;
          f1 = (if cpt \<in> set (set_whitespace D) then f0 OR CPT_WHITESPACE else f0);
          f2 = (if cpt \<in> (unat \<circ> snd) ` set (map_lowercase D) then f1 OR CPT_LOWERCASE else f1);
          f3 = (if cpt \<in> (unat \<circ> snd) ` set (map_uppercase D) then f2 OR CPT_UPPERCASE else f2)
      in if cpt \<in> (unat \<circ> snd \<circ> snd) ` set (ranges_nfd D) then f3 OR CPT_NFD else f3)"

definition unicode_cpt_flags_from_cpt :: "unicode_data \<Rightarrow> u32 \<Rightarrow> unicode_cpt_flags" where
  "unicode_cpt_flags_from_cpt D cpt =
     (if unat cpt < MAX_CODEPOINTS then cpt_flags_entry D (unat cpt) else CPT_UNDEFINED)"

definition unicode_cpt_flags_from_utf8 :: "unicode_data \<Rightarrow> u8 list \<Rightarrow> unicode_cpt_flags result" where
  "unicode_cpt_flags_from_utf8 D utf8 =
     (if utf8 = [] then Inr CPT_UNDEFINED
      else rbind (unicode_cpt_from_utf8 utf8 0) (\<lambda>(cpt, _). Inr (unicode_cpt_flags_from_cpt D cpt)))"

text \<open>\<open>std::lower_bound\<close> from \<open>first\<close> over \<open>len\<close> elements, by halving; \<open>before\<close> is the comparison with the
  value. The table of lower case letters is a \<open>std::unordered_map\<close>: its list is the iteration order of
  the map, which nothing says is sorted.\<close>

function lower_bound :: "('a \<Rightarrow> bool) \<Rightarrow> 'a list \<Rightarrow> nat \<Rightarrow> nat \<Rightarrow> nat" where
  "lower_bound before xs first len =
     (if len > 0 then
        let half = len div 2 in
        if before (xs ! (first + half)) then lower_bound before xs (first + half + 1) (len - half - 1)
        else lower_bound before xs first half
      else first)"
  by pat_completeness auto
termination by (relation "measure (\<lambda>(before, xs, first, len). len)") auto

declare lower_bound.simps [simp del]

definition unicode_tolower :: "unicode_data \<Rightarrow> u32 \<Rightarrow> u32" where
  "unicode_tolower D cpt =
     (let tab = map_lowercase D; it = lower_bound (\<lambda>p. fst p < cpt) tab 0 (length tab) in
      if it \<noteq> length tab \<and> fst (tab ! it) = cpt then snd (tab ! it) else cpt)"

text \<open>\<open>std::upper_bound\<close> on the decompositions, less one: the last range that does not start later. In
  front of the first range there is nothing to look at.\<close>

definition nfd_of :: "unicode_data \<Rightarrow> u32 \<Rightarrow> u32 result" where
  "nfd_of D cpt =
     (case takeWhile (\<lambda>(a, l, d). \<not> cpt < a) (ranges_nfd D) of
        [] \<Rightarrow> Inl Undefined
      | rs \<Rightarrow> (case last rs of (a, l, d) \<Rightarrow> Inr (if a \<le> cpt \<and> cpt \<le> l then d else cpt)))"

definition unicode_cpts_normalize_nfd :: "unicode_data \<Rightarrow> u32 list \<Rightarrow> u32 list result" where
  "unicode_cpts_normalize_nfd D cpts = rmap (nfd_of D) cpts"

definition unicode_cpt_is_han :: "u32 \<Rightarrow> bool" where
  "unicode_cpt_is_han cpt \<longleftrightarrow>
     (0x4E00 \<le> cpt \<and> cpt \<le> 0x9FFF) \<or> (0x3400 \<le> cpt \<and> cpt \<le> 0x4DBF) \<or>
     (0x20000 \<le> cpt \<and> cpt \<le> 0x2A6DF) \<or> (0x2A700 \<le> cpt \<and> cpt \<le> 0x2B73F) \<or>
     (0x2B740 \<le> cpt \<and> cpt \<le> 0x2B81F) \<or> (0x2B820 \<le> cpt \<and> cpt \<le> 0x2CEAF) \<or>
     (0x2CEB0 \<le> cpt \<and> cpt \<le> 0x2EBEF) \<or> (0xF900 \<le> cpt \<and> cpt \<le> 0xFAFF) \<or>
     (0x2F800 \<le> cpt \<and> cpt \<le> 0x2FA1F)"

section \<open>Segments and tokens\<close>

text \<open>A segment of the code points from \<open>sini\<close> to \<open>send\<close>, read through \<open>_get_cpt\<close> and \<open>_get_flags\<close>,
  and the state of the loop over it.\<close>

record segment =
  scpts :: "u32 list"
  sini :: nat
  send :: nat

definition OUT_OF_RANGE :: u32 where
  "OUT_OF_RANGE = 0xFFFFFFFF"

definition get_cpt :: "segment \<Rightarrow> nat \<Rightarrow> u32" where
  "get_cpt g p = (if sini g \<le> p \<and> p < send g then scpts g ! p else OUT_OF_RANGE)"

definition get_flags :: "unicode_data \<Rightarrow> segment \<Rightarrow> nat \<Rightarrow> unicode_cpt_flags" where
  "get_flags D g p = (if sini g \<le> p \<and> p < send g then unicode_cpt_flags_from_cpt D (scpts g ! p) else 0)"

record split_state =
  spos :: nat
  prev_end :: nat
  bpe_offsets :: "nat list"

definition add_token :: "segment \<Rightarrow> nat \<Rightarrow> split_state \<Rightarrow> (nat \<times> split_state) result" where
  "add_token g e st =
     rbind (rassert ''_prev_end <= end && end <= offset_end'' (prev_end st \<le> e \<and> e \<le> send g)) (\<lambda>_.
     let len = e - prev_end st in
     Inr (len, st\<lparr>bpe_offsets := (if len > 0 then bpe_offsets st @ [len] else bpe_offsets st),
                  prev_end := e\<rparr>))"

text \<open>\<open>pos = e; _add_token(pos);\<close> and \<open>pos += _add_token(pos + k);\<close>\<close>

definition emit :: "segment \<Rightarrow> nat \<Rightarrow> split_state \<Rightarrow> split_state result" where
  "emit g e st = rbind (add_token g e st) (\<lambda>(_, st'). Inr (st'\<lparr>spos := e\<rparr>))"

definition emit_by :: "segment \<Rightarrow> nat \<Rightarrow> split_state \<Rightarrow> split_state result" where
  "emit_by g k st = rbind (add_token g (spos st + k) st) (\<lambda>(len, st'). Inr (st'\<lparr>spos := spos st + len\<rparr>))"

text \<open>\<open>while (P(pos)) pos++;\<close> for a condition that is false outside the segment.\<close>

function scan_while :: "(nat \<Rightarrow> bool) \<Rightarrow> nat \<Rightarrow> nat \<Rightarrow> nat" where
  "scan_while P e p = (if p < e \<and> P p then scan_while P e (Suc p) else p)"
  by pat_completeness auto
termination by (relation "measure (\<lambda>(P, e, p). e - p)") auto

declare scan_while.simps [simp del]

definition is_cr_lf :: "u32 \<Rightarrow> bool" where
  "is_cr_lf c \<longleftrightarrow> c = 0x0D \<or> c = 0x0A"

text \<open>The contractions \<open>'s|'t|'re|'ve|'m|'ll|'d\<close>: the length of the match, 0 for none.\<close>

definition contraction :: "(u32 \<Rightarrow> u32) \<Rightarrow> segment \<Rightarrow> nat \<Rightarrow> nat" where
  "contraction lower g p =
     (if get_cpt g p = 0x27 \<and> p + 1 < send g then
        let cpt_next = lower (get_cpt g (p + 1)) in
        if cpt_next = 0x73 \<or> cpt_next = 0x74 \<or> cpt_next = 0x6D \<or> cpt_next = 0x64 then 2
        else if p + 2 < send g then
          let cpt_next_next = lower (get_cpt g (p + 2)) in
          if (cpt_next = 0x72 \<and> cpt_next_next = 0x65) \<or> (cpt_next = 0x76 \<and> cpt_next_next = 0x65) \<or>
             (cpt_next = 0x6C \<and> cpt_next_next = 0x6C) then 3 else 0
        else 0
      else 0)"

definition is_other :: "unicode_cpt_flags \<Rightarrow> bool" where
  "is_other f \<longleftrightarrow> \<not> (is_whitespace f \<or> is_letter f \<or> is_number f) \<and> f \<noteq> 0"

abbreviation letter_at :: "unicode_data \<Rightarrow> segment \<Rightarrow> nat \<Rightarrow> bool" where
  "letter_at D g p \<equiv> is_letter (get_flags D g p)"
abbreviation number_at :: "unicode_data \<Rightarrow> segment \<Rightarrow> nat \<Rightarrow> bool" where
  "number_at D g p \<equiv> is_number (get_flags D g p)"
abbreviation space_at :: "unicode_data \<Rightarrow> segment \<Rightarrow> nat \<Rightarrow> bool" where
  "space_at D g p \<equiv> is_whitespace (get_flags D g p)"
abbreviation other_at :: "unicode_data \<Rightarrow> segment \<Rightarrow> nat \<Rightarrow> bool" where
  "other_at D g p \<equiv> is_other (get_flags D g p)"
abbreviation nl_at :: "segment \<Rightarrow> nat \<Rightarrow> bool" where
  "nl_at g p \<equiv> is_cr_lf (get_cpt g p)"

text \<open>\<open>\s+(?!\S)\<close>, \<open>\s+\<close> and the single character that nothing matches.\<close>

definition split_spaces :: "unicode_data \<Rightarrow> segment \<Rightarrow> split_state \<Rightarrow> split_state result" where
  "split_spaces D g st =
     (let p = spos st; num_whitespaces = scan_while (space_at D g) (send g) p - p in
      if num_whitespaces > 1 \<and> get_cpt g (p + num_whitespaces) \<noteq> OUT_OF_RANGE
      then emit g (p + num_whitespaces - 1) st
      else if num_whitespaces > 0 then emit g (p + num_whitespaces) st
      else emit g (p + 1) st)"

definition gpt2_step :: "unicode_data \<Rightarrow> segment \<Rightarrow> split_state \<Rightarrow> split_state result" where
  "gpt2_step D g st =
     (let p = spos st; cpt = get_cpt g p; k = contraction (\<lambda>c. c) g p in
      if k > 0 then emit_by g k st
      else
        let p1 = (if cpt = 0x20 then p + 1 else p); flags2 = get_flags D g p1 in
        if is_letter flags2 then emit g (scan_while (letter_at D g) (send g) p1) st
        else if is_number flags2 then emit g (scan_while (number_at D g) (send g) p1) st
        else if is_other flags2 then emit g (scan_while (other_at D g) (send g) p1) st
        else split_spaces D g st)"

text \<open>The loops over a segment and over the segments. \<open>fuel\<close> is the number of code points of the
  segment, and every step takes at least one.\<close>

primrec split_loop ::
  "nat \<Rightarrow> (segment \<Rightarrow> split_state \<Rightarrow> split_state result) \<Rightarrow> segment \<Rightarrow> split_state \<Rightarrow> split_state result" where
  "split_loop 0 step g st = (if spos st < send g then Inl OutOfFuel else Inr st)"
| "split_loop (Suc fuel) step g st =
     (if spos st < send g then rbind (step g st) (split_loop fuel step g) else Inr st)"

definition split_segment ::
  "(segment \<Rightarrow> split_state \<Rightarrow> split_state result) \<Rightarrow> u32 list \<Rightarrow> nat \<Rightarrow> nat \<times> nat list \<Rightarrow>
     (nat \<times> nat list) result" where
  "split_segment step cpts offset acc =
     (case acc of (start, out) \<Rightarrow>
        rbind (rassert ''offset_end <= cpts.size()'' (start + offset \<le> length cpts)) (\<lambda>_.
        let g = \<lparr>scpts = cpts, sini = start, send = start + offset\<rparr> in
        rbind (split_loop offset step g \<lparr>spos = start, prev_end = start, bpe_offsets = out\<rparr>) (\<lambda>st.
        Inr (start + offset, bpe_offsets st))))"

definition split_with ::
  "(segment \<Rightarrow> split_state \<Rightarrow> split_state result) \<Rightarrow> u8 list \<Rightarrow> nat list \<Rightarrow> nat list result" where
  "split_with step src offsets =
     rbind (rfold (split_segment step (unicode_cpts_from_utf8 src)) offsets (0, [])) (\<lambda>(_, out). Inr out)"

definition unicode_regex_split_custom_gpt2 :: "unicode_data \<Rightarrow> u8 list \<Rightarrow> nat list \<Rightarrow> nat list result" where
  "unicode_regex_split_custom_gpt2 D = split_with (gpt2_step D)"

section \<open>Llama 3 and Qwen 2\<close>

text \<open>\<open>\p{N}{1,3}\<close>: a run of numbers in groups of three.\<close>

primrec number_groups :: "nat \<Rightarrow> unicode_data \<Rightarrow> segment \<Rightarrow> nat \<Rightarrow> split_state \<Rightarrow> split_state result" where
  "number_groups 0 D g ini st = Inl OutOfFuel"
| "number_groups (Suc fuel) D g ini st =
     (if number_at D g (spos st) then
        if Suc (spos st) - ini \<ge> 3 then
          rbind (emit g (Suc (spos st)) st) (\<lambda>st'. number_groups fuel D g (spos st') st')
        else number_groups fuel D g ini (st\<lparr>spos := Suc (spos st)\<rparr>)
      else emit g (spos st) st)"

text \<open>\<open>last_end_r_or_n\<close>: one past the last line break in the run of white space, 0 for none.\<close>

definition last_newline :: "segment \<Rightarrow> nat \<Rightarrow> nat \<Rightarrow> nat" where
  "last_newline g p num =
     fold (\<lambda>i r. if nl_at g (p + i) then p + i + 1 else r) [0..<num] 0"

definition split_spaces_nl :: "unicode_data \<Rightarrow> segment \<Rightarrow> split_state \<Rightarrow> split_state result" where
  "split_spaces_nl D g st =
     (let p = spos st; num_whitespaces = scan_while (space_at D g) (send g) p - p;
          last_end_r_or_n = last_newline g p num_whitespaces in
      if last_end_r_or_n > 0 then emit g last_end_r_or_n st else split_spaces D g st)"

text \<open>\<open> ?[^\s\p{L}\p{N}]+[\r\n]*\<close> from \<open>p1\<close> on.\<close>

definition other_end :: "unicode_data \<Rightarrow> segment \<Rightarrow> nat \<Rightarrow> nat" where
  "other_end D g p1 = scan_while (nl_at g) (send g) (scan_while (other_at D g) (send g) p1)"

definition llama3_rest :: "unicode_data \<Rightarrow> segment \<Rightarrow> split_state \<Rightarrow> split_state result" where
  "llama3_rest D g st =
     (let p = spos st; cpt = get_cpt g p; flags = get_flags D g p;
          p1 = (if cpt = 0x20 then p + 1 else p); flags2 = get_flags D g p1 in
      if \<not> (is_whitespace flags2 \<or> is_letter flags2 \<or> is_number flags2) \<and> flags \<noteq> 0
      then emit g (other_end D g p1) st
      else split_spaces_nl D g st)"

definition llama3_words ::
  "(split_state \<Rightarrow> split_state result) \<Rightarrow> unicode_data \<Rightarrow> segment \<Rightarrow> split_state \<Rightarrow> split_state result" where
  "llama3_words numbers D g st =
     (let p = spos st; cpt = get_cpt g p; flags = get_flags D g p;
          k = contraction (unicode_tolower D) g p in
      if k > 0 then emit_by g k st
      else if \<not> (is_cr_lf cpt \<or> is_number flags) \<and> (is_letter flags \<or> letter_at D g (p + 1))
      then emit g (scan_while (letter_at D g) (send g) (p + 1)) st
      else if is_number flags then numbers st
      else llama3_rest D g st)"

definition llama3_step :: "unicode_data \<Rightarrow> segment \<Rightarrow> split_state \<Rightarrow> split_state result" where
  "llama3_step D g =
     llama3_words (\<lambda>st. number_groups (Suc (send g - spos st)) D g (spos st) st) D g"

definition qwen2_step :: "unicode_data \<Rightarrow> segment \<Rightarrow> split_state \<Rightarrow> split_state result" where
  "qwen2_step D g = llama3_words (\<lambda>st. emit g (spos st + 1) st) D g"

definition unicode_regex_split_custom_llama3 :: "unicode_data \<Rightarrow> u8 list \<Rightarrow> nat list \<Rightarrow> nat list result" where
  "unicode_regex_split_custom_llama3 D = split_with (llama3_step D)"

definition unicode_regex_split_custom_qwen2 :: "unicode_data \<Rightarrow> u8 list \<Rightarrow> nat list \<Rightarrow> nat list result" where
  "unicode_regex_split_custom_qwen2 D = split_with (qwen2_step D)"

section \<open>Kimi K2\<close>

abbreviation han_at :: "segment \<Rightarrow> nat \<Rightarrow> bool" where
  "han_at g p \<equiv> unicode_cpt_is_han (get_cpt g p)"

abbreviation word_at :: "unicode_data \<Rightarrow> segment \<Rightarrow> nat \<Rightarrow> bool" where
  "word_at D g p \<equiv> letter_at D g p \<and> \<not> han_at g p"

text \<open>The end of a word with its contraction, from the position after the optional leading character;
  \<open>None\<close> when there is no letter (the code then goes back to the leading character).\<close>

definition kimi_word_end :: "unicode_data \<Rightarrow> segment \<Rightarrow> bool \<Rightarrow> nat \<Rightarrow> nat option" where
  "kimi_word_end D g has_leading_char p1 =
     (let p2 = scan_while (word_at D g) (send g) p1; has_letters = (p2 > p1) in
      if has_letters \<or> (\<not> has_leading_char \<and> word_at D g p2) then
        let p3 = (if has_letters then p2 else p2 + 1);
            p4 = scan_while (word_at D g) (send g) p3
        in Some (p4 + contraction (unicode_tolower D) g p4)
      else None)"

definition kimi_rest :: "unicode_data \<Rightarrow> segment \<Rightarrow> split_state \<Rightarrow> split_state result" where
  "kimi_rest D g st =
     (let p = spos st; cpt = get_cpt g p; flags = get_flags D g p in
      if is_number flags then number_groups (Suc (send g - p)) D g p st
      else
        let p1 = (if cpt = 0x20 then p + 1 else p) in
        if other_at D g p1 then emit g (other_end D g p1) st
        else split_spaces_nl D g st)"

definition kimi_k2_step :: "unicode_data \<Rightarrow> segment \<Rightarrow> split_state \<Rightarrow> split_state result" where
  "kimi_k2_step D g st =
     (let p = spos st; cpt = get_cpt g p; flags = get_flags D g p;
          leading = (\<not> (is_cr_lf cpt \<or> is_letter flags \<or> is_number flags)) in
      if unicode_cpt_is_han cpt then emit g (scan_while (han_at g) (send g) p) st
      else if (is_letter flags \<and> \<not> unicode_cpt_is_han cpt) \<or> (leading \<and> word_at D g (p + 1)) then
        (case kimi_word_end D g leading (if leading then p + 1 else p) of
           Some e \<Rightarrow> emit g e st
         | None \<Rightarrow> kimi_rest D g st)
      else kimi_rest D g st)"

definition unicode_regex_split_custom_kimi_k2 :: "unicode_data \<Rightarrow> u8 list \<Rightarrow> nat list \<Rightarrow> nat list result" where
  "unicode_regex_split_custom_kimi_k2 D = split_with (kimi_k2_step D)"

section \<open>Digits in groups from the right, and newlines\<close>

text \<open>The groups of three after the leading one or two digits. The position stays where the digits end.\<close>

function afmoe_groups :: "segment \<Rightarrow> nat \<Rightarrow> nat \<Rightarrow> split_state \<Rightarrow> split_state result" where
  "afmoe_groups g cur stop st =
     (if cur < stop then rbind (add_token g (cur + 3) st) (\<lambda>(_, st'). afmoe_groups g (cur + 3) stop st')
      else Inr st)"
  by pat_completeness auto
termination by (relation "measure (\<lambda>(g, cur, stop, st). stop - cur)") auto

declare afmoe_groups.simps [simp del]

definition afmoe_step :: "unicode_data \<Rightarrow> segment \<Rightarrow> split_state \<Rightarrow> split_state result" where
  "afmoe_step D g st =
     (let digit_start = spos st in
      if number_at D g digit_start then
        let stop = scan_while (number_at D g) (send g) digit_start;
            digit_count = stop - digit_start; remainder = digit_count mod 3 in
        rbind (if remainder > 0 then rbind (add_token g (digit_start + remainder) st) (\<lambda>(_, st'). Inr st')
               else Inr st) (\<lambda>st1.
        rbind (afmoe_groups g (digit_start + remainder) stop st1) (\<lambda>st2.
        Inr (st2\<lparr>spos := stop\<rparr>)))
      else Inr (st\<lparr>spos := Suc digit_start\<rparr>))"

text \<open>After the loop what is left of the segment is one more token.\<close>

definition afmoe_segment ::
  "unicode_data \<Rightarrow> u32 list \<Rightarrow> nat \<Rightarrow> nat \<times> nat list \<Rightarrow> (nat \<times> nat list) result" where
  "afmoe_segment D cpts offset acc =
     (case acc of (start, out) \<Rightarrow>
        rbind (rassert ''offset_end <= cpts.size()'' (start + offset \<le> length cpts)) (\<lambda>_.
        let g = \<lparr>scpts = cpts, sini = start, send = start + offset\<rparr> in
        rbind (split_loop offset (afmoe_step D) g \<lparr>spos = start, prev_end = start, bpe_offsets = out\<rparr>) (\<lambda>st.
        rbind (if prev_end st < send g then rbind (add_token g (send g) st) (\<lambda>(_, st'). Inr st') else Inr st) (\<lambda>st'.
        Inr (start + offset, bpe_offsets st')))))"

definition unicode_regex_split_custom_afmoe :: "unicode_data \<Rightarrow> u8 list \<Rightarrow> nat list \<Rightarrow> nat list result" where
  "unicode_regex_split_custom_afmoe D src offsets =
     rbind (rfold (afmoe_segment D (unicode_cpts_from_utf8 src)) offsets (0, [])) (\<lambda>(_, out). Inr out)"

definition newlines_step :: "segment \<Rightarrow> split_state \<Rightarrow> split_state result" where
  "newlines_step g st =
     (let p = spos st; is_newline = (scpts g ! p = 0x0A);
          e = scan_while (\<lambda>q. (scpts g ! q = 0x0A) = is_newline) (send g) p in
      Inr (st\<lparr>spos := e, prev_end := e, bpe_offsets := bpe_offsets st @ [e - p]\<rparr>))"

definition unicode_regex_split_custom_newlines :: "u8 list \<Rightarrow> nat list \<Rightarrow> nat list result" where
  "unicode_regex_split_custom_newlines = split_with newlines_step"

section \<open>Choosing a splitter\<close>

definition ascii :: "string \<Rightarrow> u8 list" where
  "ascii s = map of_char s"

definition GPT2_EXPR :: "u8 list" where
  "GPT2_EXPR = ascii (
     [CHR 0x27] @ ''s|'' @ [CHR 0x27] @ ''t|'' @ [CHR 0x27] @ ''re|'' @ [CHR 0x27] @ ''ve|'' @
     [CHR 0x27] @ ''m|'' @ [CHR 0x27] @ ''ll|'' @ [CHR 0x27] @ ''d| ?'' @ [CHR 0x5C] @ ''p{L}+| ?'' @
     [CHR 0x5C] @ ''p{N}+| ?[^'' @ [CHR 0x5C] @ ''s'' @ [CHR 0x5C] @ ''p{L}'' @ [CHR 0x5C] @ ''p{N}]+|'' @
     [CHR 0x5C] @ ''s+(?!'' @ [CHR 0x5C] @ ''S)'')"

text \<open>The part the expressions of Llama 3 and Qwen 2 have in common, around the numbers.\<close>

definition LETTERS_EXPR :: string where
  "LETTERS_EXPR = ''|[^'' @ [CHR 0x5C] @ ''r'' @ [CHR 0x5C] @ ''n'' @ [CHR 0x5C] @ ''p{L}'' @
     [CHR 0x5C] @ ''p{N}]?'' @ [CHR 0x5C] @ ''p{L}+|'' @ [CHR 0x5C] @ ''p{N}''"

definition REST_EXPR :: string where
  "REST_EXPR = ''| ?[^'' @ [CHR 0x5C] @ ''s'' @ [CHR 0x5C] @ ''p{L}'' @ [CHR 0x5C] @ ''p{N}]+['' @
     [CHR 0x5C] @ ''r'' @ [CHR 0x5C] @ ''n]*|'' @ [CHR 0x5C] @ ''s*['' @ [CHR 0x5C] @ ''r'' @
     [CHR 0x5C] @ ''n]+|'' @ [CHR 0x5C] @ ''s+(?!'' @ [CHR 0x5C] @ ''S)|'' @ [CHR 0x5C] @ ''s+''"

definition CASELESS_EXPR :: string where
  "CASELESS_EXPR = ''(?i:'' @ [CHR 0x27] @ ''s|'' @ [CHR 0x27] @ ''t|'' @ [CHR 0x27] @ ''re|'' @
     [CHR 0x27] @ ''ve|'' @ [CHR 0x27] @ ''m|'' @ [CHR 0x27] @ ''ll|'' @ [CHR 0x27] @ ''d)''"

definition BOTH_CASES_EXPR :: string where
  "BOTH_CASES_EXPR = ''(?:'' @ [CHR 0x27] @ ''[sS]|'' @ [CHR 0x27] @ ''[tT]|'' @ [CHR 0x27] @ ''[rR][eE]|'' @
     [CHR 0x27] @ ''[vV][eE]|'' @ [CHR 0x27] @ ''[mM]|'' @ [CHR 0x27] @ ''[lL][lL]|'' @ [CHR 0x27] @ ''[dD])''"

definition unicode_regex_split_custom ::
  "unicode_data \<Rightarrow> u8 list \<Rightarrow> u8 list \<Rightarrow> nat list \<Rightarrow> nat list result" where
  "unicode_regex_split_custom D src regex_expr offsets =
     (if regex_expr = GPT2_EXPR then unicode_regex_split_custom_gpt2 D src offsets
      else if regex_expr = ascii (CASELESS_EXPR @ LETTERS_EXPR @ ''{1,3}'' @ REST_EXPR) \<or>
              regex_expr = ascii (BOTH_CASES_EXPR @ LETTERS_EXPR @ ''{1,3}'' @ REST_EXPR)
        then unicode_regex_split_custom_llama3 D src offsets
      else if regex_expr = ascii (BOTH_CASES_EXPR @ LETTERS_EXPR @ REST_EXPR)
        then unicode_regex_split_custom_qwen2 D src offsets
      else if regex_expr = ascii ([CHR 0x5C] @ ''p{Han}+'') then unicode_regex_split_custom_kimi_k2 D src offsets
      else if regex_expr = ascii ([CHR 0x5C] @ ''p{AFMoE_digits}'') then unicode_regex_split_custom_afmoe D src offsets
      else if regex_expr = ascii (''[^'' @ [CHR 0x5C] @ ''n]+|['' @ [CHR 0x5C] @ ''n]+'')
        then unicode_regex_split_custom_newlines src offsets
      else if regex_expr = ascii ([CHR 0x5C] @ ''d{1,3}(?=(?:'' @ [CHR 0x5C] @ ''d{3})*'' @ [CHR 0x5C] @ ''b)'')
        then unicode_regex_split_custom_afmoe D src offsets
      else Inr [])"

section \<open>The regular expression engine\<close>

text \<open>The iteration over the matches of one segment: what is between two matches is a token, and every
  match is one, also an empty one.\<close>

fun match_offsets :: "(nat \<times> nat) list \<Rightarrow> nat \<Rightarrow> nat list \<times> nat" where
  "match_offsets [] start_idx = ([], start_idx)"
| "match_offsets ((p, len) # ms) start_idx =
     (let (out, fin) = match_offsets ms (p + len) in
      ((if p > start_idx then [p - start_idx] else []) @ [len] @ out, fin))"

definition stl_segment ::
  "('c list \<Rightarrow> (nat \<times> nat) list) \<Rightarrow> 'c list \<Rightarrow> nat \<Rightarrow> nat \<times> nat list \<Rightarrow> nat \<times> nat list" where
  "stl_segment matches src offset acc =
     (case acc of (start, out) \<Rightarrow>
        let (new, start_idx) = match_offsets (matches (take offset (drop start src))) 0 in
        (start + offset, out @ new @ (if start_idx < offset then [offset - start_idx] else [])))"

definition unicode_regex_split_stl ::
  "('c list \<Rightarrow> (nat \<times> nat) list) \<Rightarrow> 'c list \<Rightarrow> nat list \<Rightarrow> nat list" where
  "unicode_regex_split_stl matches src offsets = snd (fold (stl_segment matches src) offsets (0, []))"

text \<open>The categories the expressions may use, and the characters that stand for them.\<close>

definition k_ucat_enum :: "(u8 list \<times> unicode_cpt_flags) list" where
  "k_ucat_enum = map (\<lambda>(s, f). (ascii ([CHR 0x5C] @ s), f))
     [(''p{N}'', CPT_NUMBER), (''p{L}'', CPT_LETTER), (''p{P}'', CPT_PUNCTUATION),
      (''p{M}'', CPT_ACCENT_MARK), (''p{S}'', CPT_SYMBOL), (''p{Lu}'', CPT_LETTER),
      (''p{Ll}'', CPT_LETTER), (''p{Lt}'', CPT_LETTER), (''p{Lm}'', CPT_LETTER), (''p{Lo}'', CPT_LETTER)]"

definition k_ucat_cpt :: "(unicode_cpt_flags \<times> u8) list" where
  "k_ucat_cpt = [(CPT_NUMBER, 0xD1), (CPT_LETTER, 0xD2), (CPT_PUNCTUATION, 0xD3),
     (CPT_ACCENT_MARK, 0xD4), (CPT_SYMBOL, 0xD5)]"

definition k_ucat_map :: "(unicode_cpt_flags \<times> u8 list) list" where
  "k_ucat_map = [
     (CPT_NUMBER, ascii ''0-9''),
     (CPT_LETTER, ascii ''A-Za-z''),
     (CPT_PUNCTUATION, ascii (''!-#%-*,-/:-;?-@'' @ [CHR 0x5C, CHR 0x5B, CHR 0x2D, CHR 0x5C, CHR 0x5D] @
        ''_'' @ [CHR 0x5C] @ ''{'' @ [CHR 0x5C] @ ''}'')),
     (CPT_ACCENT_MARK, []),
     (CPT_SYMBOL, ascii ([CHR 0x5C] @ ''$'' @ [CHR 0x5C] @ ''+<->^'' @ [CHR 0x60, CHR 0x5C] @ ''|''))]"

definition has_infix :: "u8 list \<Rightarrow> u8 list \<Rightarrow> bool" where
  "has_infix pat s \<longleftrightarrow> list_ex (\<lambda>i. take (length pat) (drop i s) = pat) [0..<Suc (length s)]"

definition uses_category :: "u8 list \<Rightarrow> bool" where
  "uses_category regex_expr \<longleftrightarrow> list_ex (\<lambda>(pat, _). has_infix pat regex_expr) k_ucat_enum"

definition collapse_cpt :: "unicode_data \<Rightarrow> u32 \<Rightarrow> u8" where
  "collapse_cpt D cpt =
     (if cpt < 128 then ucast cpt
      else let flags = unicode_cpt_flags_from_cpt D cpt in
        if is_whitespace flags then 0x0B
        else case map_of k_ucat_cpt (category_flag flags) of Some c \<Rightarrow> c | None \<Rightarrow> 0xD0)"

text \<open>The position of the closing brace of a category, when it is close enough.\<close>

definition closing_brace :: "u8 list \<Rightarrow> nat \<Rightarrow> nat option" where
  "closing_brace r i =
     (case filter (\<lambda>j. r ! j = 0x7D) [i + 3..<length r] of
        [] \<Rightarrow> None
      | j # _ \<Rightarrow> if j \<le> i + 10 then Some j else None)"

definition category_at :: "u8 list \<Rightarrow> nat \<Rightarrow> (unicode_cpt_flags \<times> nat) option" where
  "category_at r i =
     (if r ! i = 0x5C \<and> i + 3 < length r \<and> r ! (i + 1) = 0x70 \<and> r ! (i + 2) = 0x7B then
        (case closing_brace r i of
           None \<Rightarrow> None
         | Some j \<Rightarrow> map_option (\<lambda>f. (f, j)) (map_of k_ucat_enum (take (j - i + 1) (drop i r))))
      else None)"

function collapse_regex :: "u8 list \<Rightarrow> nat \<Rightarrow> bool \<Rightarrow> u8 list" where
  "collapse_regex r i inside =
     (if i < length r then
        if r ! i = 0x5B \<and> (i = 0 \<or> r ! (i - 1) \<noteq> 0x5C) then 0x5B # collapse_regex r (i + 1) True
        else if inside \<and> r ! i = 0x5D \<and> r ! (i - 1) \<noteq> 0x5C then 0x5D # collapse_regex r (i + 1) False
        else (case category_at r i of
            Some (f, j) \<Rightarrow>
              (if inside then [] else [0x5B]) @ the (map_of k_ucat_cpt f) # the (map_of k_ucat_map f) @
              (if inside then [] else [0x5D]) @ (if i < j then collapse_regex r (j + 1) inside else [])
          | None \<Rightarrow> r ! i # collapse_regex r (i + 1) inside)
      else [])"
  by pat_completeness auto
termination by (relation "measure (\<lambda>(r, i, inside). length r - i)") auto

declare collapse_regex.simps [simp del]

text \<open>The two engines, over bytes and over code points; \<open>None\<close> is a \<open>std::regex_error\<close>.\<close>

record regex_engine =
  rx_byte :: "u8 list \<Rightarrow> (u8 list \<Rightarrow> (nat \<times> nat) list) option"
  rx_wide :: "u32 list \<Rightarrow> (u32 list \<Rightarrow> (nat \<times> nat) list) option"

definition wide_cpt :: "unicode_data \<Rightarrow> u32 \<Rightarrow> u32" where
  "wide_cpt D c = (if c > 0x7F \<and> is_whitespace (unicode_cpt_flags_from_cpt D c) then 0x0B else c)"

definition regex_fallback ::
  "unicode_data \<Rightarrow> regex_engine \<Rightarrow> u32 list \<Rightarrow> u8 list \<Rightarrow> nat list \<Rightarrow> nat list result" where
  "regex_fallback D rx cpts regex_expr offsets =
     (let cpts_regex = unicode_cpts_from_utf8 regex_expr in
      if uses_category regex_expr then
        if \<exists>c \<in> set cpts_regex. c \<ge> 128
        then Inl (Throw ''Regex includes both unicode categories and non-ASCII characters - not supported'')
        else (case rx_byte rx (collapse_regex regex_expr 0 False) of
            None \<Rightarrow> Inl (Throw ''Failed to process regex'')
          | Some m \<Rightarrow> Inr (unicode_regex_split_stl m (map (collapse_cpt D) cpts) offsets))
      else (case rx_wide rx cpts_regex of
          None \<Rightarrow> Inl (Throw ''Failed to process regex'')
        | Some m \<Rightarrow> Inr (unicode_regex_split_stl m (map (wide_cpt D) cpts) offsets)))"

definition split_by_expr ::
  "unicode_data \<Rightarrow> regex_engine \<Rightarrow> u8 list \<Rightarrow> u8 list \<Rightarrow> nat list \<Rightarrow> nat list result" where
  "split_by_expr D rx src regex_expr offsets =
     rbind (unicode_regex_split_custom D src regex_expr offsets) (\<lambda>tmp.
     if tmp \<noteq> [] then Inr tmp
     else regex_fallback D rx (unicode_cpts_from_utf8 src) regex_expr offsets)"

text \<open>Cutting the code points at the offsets and encoding each word.\<close>

fun cut_words :: "u32 list \<Rightarrow> nat list \<Rightarrow> u8 list list result" where
  "cut_words cpts [] = Inr []"
| "cut_words cpts (n # ns) =
     (if n > length cpts then Inl Undefined
      else rbind (unicode_cpts_to_utf8 (take n cpts)) (\<lambda>w.
        rbind (cut_words (drop n cpts) ns) (\<lambda>ws. Inr (w # ws))))"

definition unicode_regex_split ::
  "unicode_data \<Rightarrow> regex_engine \<Rightarrow> u8 list \<Rightarrow> u8 list list \<Rightarrow> bool \<Rightarrow> u8 list list result" where
  "unicode_regex_split D rx src regex_exprs byte_encode =
     (let cpts = unicode_cpts_from_utf8 src in
      rbind (rfold (split_by_expr D rx src) regex_exprs [length cpts]) (\<lambda>offs.
      rbind (cut_words cpts offs) (\<lambda>bpe_words.
      if byte_encode then unicode_byte_encoding_process bpe_words else Inr bpe_words)))"

end
