(* ===== verification/Unicode_Split_Correct.thy ===== *)
theory Unicode_Split_Correct
  imports Unicode_Split
begin

text \<open>
  The splitters cut text and do nothing else to it. Every step of a hand-written splitter takes at
  least one code point and stays inside its segment, so that its assertions never fire and its loops
  end; what comes out is a finer partition of the segments that went in; and the words that
  \<open>unicode_regex_split\<close> returns, put together, are the text.
\<close>

section \<open>Partitions\<close>

text \<open>\<open>finer out offs\<close>: every offset is cut into consecutive pieces.\<close>

definition finer :: "nat list \<Rightarrow> nat list \<Rightarrow> bool" where
  "finer out offs \<longleftrightarrow> (\<exists>gs. concat gs = out \<and> map sum_list gs = offs)"

lemma finer_refl: "finer offs offs"
  by (auto simp: finer_def intro!: exI [of _ "map (\<lambda>n. [n]) offs"] nth_equalityI)

lemma finer_Nil: "finer [] []"
  by (simp add: finer_def)

lemma finer_append: "finer a b \<Longrightarrow> finer c d \<Longrightarrow> finer (a @ c) (b @ d)"
proof -
  assume "finer a b" "finer c d"
  then obtain gs hs where "concat gs = a" "map sum_list gs = b" "concat hs = c" "map sum_list hs = d"
    by (auto simp: finer_def)
  then show ?thesis by (auto simp: finer_def intro!: exI [of _ "gs @ hs"])
qed

lemma finer_single: "sum_list xs = n \<Longrightarrow> finer xs [n]"
  by (auto simp: finer_def intro!: exI [of _ "[xs]"])

lemma sum_list_concat: "sum_list (concat gs) = sum_list (map sum_list (gs :: nat list list))"
  by (induction gs) auto

lemma finer_sum: "finer out offs \<Longrightarrow> sum_list out = sum_list offs"
  by (auto simp: finer_def sum_list_concat)

lemma finer_trans:
  assumes "finer a b" "finer b c"
  shows "finer a c"
proof -
  obtain hs where hs: "concat hs = b" "map sum_list hs = c" using assms(2) by (auto simp: finer_def)
  have "\<exists>ks. concat ks = a \<and> map sum_list ks = map sum_list hs" using assms(1) hs(1)
  proof (induction hs arbitrary: a b)
    case (Cons h hs)
    obtain gs where gs: "concat gs = a" "map sum_list gs = h @ concat hs"
      using Cons.prems by (auto simp: finer_def)
    let ?n = "length h"
    have "map sum_list (take ?n gs) = h" using gs(2) by (simp add: take_map [symmetric])
    moreover have "map sum_list (drop ?n gs) = concat hs" using gs(2) by (simp add: drop_map [symmetric])
    then obtain ks where "concat ks = concat (drop ?n gs)" "map sum_list ks = map sum_list hs"
      using Cons.IH [of "concat (drop ?n gs)" "concat hs"] by (auto simp: finer_def)
    ultimately show ?case using gs(1)
      by (intro exI [of _ "concat (take ?n gs) # ks"])
        (simp add: sum_list_concat concat_append [symmetric] del: concat_append)
  qed (auto simp: finer_def)
  then show ?thesis using hs(2) by (simp add: finer_def)
qed

section \<open>Steps\<close>

text \<open>A good step moves on, stays inside the segment and emits tokens for what it passed.\<close>

definition good_step :: "segment \<Rightarrow> split_state \<Rightarrow> split_state \<Rightarrow> bool" where
  "good_step g st st' \<longleftrightarrow> spos st < spos st' \<and> spos st' \<le> send g \<and> prev_end st' = spos st' \<and>
     (\<exists>new. bpe_offsets st' = bpe_offsets st @ new \<and> sum_list new = spos st' - spos st \<and> 0 \<notin> set new)"

definition ready :: "segment \<Rightarrow> split_state \<Rightarrow> bool" where
  "ready g st \<longleftrightarrow> sini g \<le> spos st \<and> spos st < send g \<and> prev_end st = spos st"

lemma scan_while_bounds: "p \<le> e \<Longrightarrow> p \<le> scan_while P e p \<and> scan_while P e p \<le> e"
proof (induction P e p rule: scan_while.induct)
  case (1 P e p)
  then show ?case by (subst (1 2) scan_while.simps) auto
qed

lemma scan_while_progress: "p < e \<Longrightarrow> P p \<Longrightarrow> p < scan_while P e p"
  using scan_while_bounds [of "Suc p" e P] by (subst scan_while.simps) auto

lemma scan_while_all: "p \<le> i \<Longrightarrow> i < scan_while P e p \<Longrightarrow> P i"
proof (induction P e p rule: scan_while.induct)
  case (1 P e p)
  show ?case
  proof (cases "p < e \<and> P p")
    case True
    then have "i < scan_while P e (Suc p)" using "1.prems"(2) by (subst (asm) scan_while.simps) simp
    then show ?thesis using 1 True by (cases "i = p") auto
  next
    case False
    then show ?thesis using "1.prems" by (subst (asm) scan_while.simps) auto
  qed
qed

lemma emit_good:
  assumes "ready g st" "spos st < e" "e \<le> send g"
  shows "\<exists>st'. emit g e st = Inr st' \<and> good_step g st st'"
  using assms by (auto simp: emit_def add_token_def rassert_def ready_def good_step_def Let_def)

lemma emit_by_good:
  assumes "ready g st" "0 < k" "spos st + k \<le> send g"
  shows "\<exists>st'. emit_by g k st = Inr st' \<and> good_step g st st'"
  using assms by (auto simp: emit_by_def add_token_def rassert_def ready_def good_step_def Let_def)

lemma contraction_bound: "0 < contraction lower g p \<Longrightarrow> p + contraction lower g p \<le> send g"
  by (auto simp: contraction_def Let_def split: if_splits)

lemma flags_outside: "\<not> p < send g \<Longrightarrow> get_flags D g p = 0"
  by (simp add: get_flags_def)

lemma zero_flags [simp]: "\<not> is_letter 0" "\<not> is_number 0" "\<not> is_whitespace 0" "\<not> is_other 0"
  by (simp_all add: is_letter_def is_number_def is_whitespace_def is_other_def)

lemma flag_at_inside:
  "letter_at D g p \<Longrightarrow> p < send g" "number_at D g p \<Longrightarrow> p < send g"
  "space_at D g p \<Longrightarrow> p < send g" "other_at D g p \<Longrightarrow> p < send g"
  using flags_outside [of p g D] by fastforce+

lemma split_spaces_good:
  assumes "ready g st"
  shows "\<exists>st'. split_spaces D g st = Inr st' \<and> good_step g st st'"
proof -
  let ?p = "spos st" and ?e = "scan_while (space_at D g) (send g) (spos st)"
  have p: "?p < send g" using assms by (simp add: ready_def)
  then have e: "?p \<le> ?e" "?e \<le> send g" using scan_while_bounds [of ?p "send g"] by auto
  have "\<exists>st'. emit g (?e - 1) st = Inr st' \<and> good_step g st st'" if "?e - ?p > 1"
    by (rule emit_good [OF assms]) (use that e in linarith)+
  then show ?thesis using emit_good [OF assms, of "?p + 1"] emit_good [OF assms, of ?e] e p
    by (simp add: split_spaces_def Let_def)
qed

lemma gpt2_step_good:
  assumes "ready g st"
  shows "\<exists>st'. gpt2_step D g st = Inr st' \<and> good_step g st st'"
proof -
  let ?p = "spos st"
  let ?p1 = "if get_cpt g ?p = 0x20 then ?p + 1 else ?p"
  have p: "?p < send g" using assms by (simp add: ready_def)
  have scan: "\<exists>st'. emit g (scan_while P (send g) ?p1) st = Inr st' \<and> good_step g st st'"
    if "P ?p1" "?p1 < send g" for P
    using emit_good [OF assms] scan_while_progress [of ?p1 "send g" P] scan_while_bounds [of ?p1 "send g" P] that
    by (auto split: if_splits)
  show ?thesis
    using emit_by_good [OF assms] contraction_bound [of "\<lambda>c. c" g ?p] split_spaces_good [OF assms]
      scan [of "letter_at D g"] scan [of "number_at D g"] scan [of "other_at D g"] flag_at_inside [of D g ?p1]
    unfolding gpt2_step_def Let_def by presburger
qed

text \<open>The tokens that bring the end of the last one from \<open>a\<close> to \<open>b\<close>.\<close>

definition emits :: "split_state \<Rightarrow> split_state \<Rightarrow> bool" where
  "emits st st' \<longleftrightarrow> prev_end st \<le> prev_end st' \<and>
     (\<exists>new. bpe_offsets st' = bpe_offsets st @ new \<and> sum_list new = prev_end st' - prev_end st \<and> 0 \<notin> set new)"

lemma emits_trans: "emits a b \<Longrightarrow> emits b c \<Longrightarrow> emits a c"
proof -
  assume ab: "emits a b" and bc: "emits b c"
  obtain new where new: "bpe_offsets b = bpe_offsets a @ new" "sum_list new = prev_end b - prev_end a" "0 \<notin> set new"
    using ab by (auto simp: emits_def)
  obtain more where more: "bpe_offsets c = bpe_offsets b @ more" "sum_list more = prev_end c - prev_end b" "0 \<notin> set more"
    using bc by (auto simp: emits_def)
  have "prev_end a \<le> prev_end b" "prev_end b \<le> prev_end c" using ab bc by (auto simp: emits_def)
  then show ?thesis using new more unfolding emits_def by (intro conjI exI [of _ "new @ more"]) auto
qed

lemma add_token_emits:
  assumes "prev_end st \<le> e" "e \<le> send g"
  shows "\<exists>st'. add_token g e st = Inr (e - prev_end st, st') \<and> emits st st' \<and> prev_end st' = e \<and> spos st' = spos st"
  using assms by (auto simp: add_token_def rassert_def Let_def emits_def)

lemma emit_emits:
  assumes "prev_end st \<le> e" "e \<le> send g"
  shows "\<exists>st'. emit g e st = Inr st' \<and> emits st st' \<and> prev_end st' = e \<and> spos st' = e"
  using add_token_emits [OF assms] by (auto simp: emit_def emits_def)

lemma good_step_emits:
  "prev_end st = spos st \<Longrightarrow> good_step g st st' \<longleftrightarrow>
     emits st st' \<and> prev_end st' = spos st' \<and> spos st < spos st' \<and> spos st' \<le> send g"
  by (auto simp: good_step_def emits_def)

lemma number_groups_spec:
  assumes "prev_end st \<le> spos st" "spos st \<le> send g" "send g - spos st < fuel"
  shows "\<exists>st'. number_groups fuel D g ini st = Inr st' \<and> emits st st' \<and> prev_end st' = spos st' \<and>
    spos st' \<le> send g \<and> (if number_at D g (spos st) then spos st < spos st' else spos st' = spos st)"
  using assms
proof (induction fuel arbitrary: ini st)
  case (Suc fuel)
  show ?case
  proof (cases "number_at D g (spos st)")
    case True
    then have in_g: "spos st < send g" by (rule flag_at_inside)
    then have less: "send g - Suc (spos st) < fuel" using Suc.prems(3) by linarith
    show ?thesis
    proof (cases "Suc (spos st) - ini \<ge> 3")
      case big: True
      obtain st1 where st1: "emit g (Suc (spos st)) st = Inr st1" "emits st st1"
        "prev_end st1 = Suc (spos st)" "spos st1 = Suc (spos st)"
        using emit_emits [of st "Suc (spos st)" g] Suc.prems in_g by auto
      obtain st' where "number_groups fuel D g (spos st1) st1 = Inr st'" "emits st1 st'"
        "prev_end st' = spos st'" "spos st' \<le> send g" "spos st1 \<le> spos st'"
        using Suc.IH [of st1 "spos st1"] st1 less in_g by (auto split: if_splits)
      then show ?thesis using True big st1 emits_trans by auto
    next
      case small: False
      let ?st1 = "st\<lparr>spos := Suc (spos st)\<rparr>"
      obtain st' where "number_groups fuel D g ini ?st1 = Inr st'" "emits ?st1 st'"
        "prev_end st' = spos st'" "spos st' \<le> send g" "spos ?st1 \<le> spos st'"
        using Suc.IH [of ?st1 ini] Suc.prems less in_g by (auto split: if_splits)
      then show ?thesis using True small by (auto simp: emits_def)
    qed
  next
    case False
    then show ?thesis using emit_emits [of st "spos st" g] Suc.prems by auto
  qed
qed simp

lemma number_groups_good:
  assumes "ready g st" "number_at D g (spos st)"
  shows "\<exists>st'. number_groups (Suc (send g - spos st)) D g ini st = Inr st' \<and> good_step g st st'"
  using number_groups_spec [of st g "Suc (send g - spos st)" D ini] assms
  by (auto simp: ready_def good_step_emits)

lemma last_newline_Suc:
  "last_newline g p (Suc num) = (if nl_at g (p + num) then p + num + 1 else last_newline g p num)"
  unfolding last_newline_def by (simp only: upt_Suc_append le0 fold_append fold_simps comp_apply)

lemma last_newline_bound:
  "last_newline g p num \<le> p + num \<and> (last_newline g p num > 0 \<longrightarrow> p < last_newline g p num)"
  by (induction num) (auto simp: last_newline_Suc, auto simp: last_newline_def)

lemma split_spaces_nl_good:
  assumes "ready g st"
  shows "\<exists>st'. split_spaces_nl D g st = Inr st' \<and> good_step g st st'"
proof -
  let ?p = "spos st" and ?e = "scan_while (space_at D g) (send g) (spos st)"
  have "?p \<le> ?e" "?e \<le> send g" using assms scan_while_bounds [of ?p "send g"] by (auto simp: ready_def)
  then show ?thesis
    using emit_good [OF assms, of "last_newline g ?p (?e - ?p)"] last_newline_bound [of g ?p "?e - ?p"]
      split_spaces_good [OF assms] by (simp add: split_spaces_nl_def Let_def)
qed

lemma other_end_bounds: "p1 \<le> send g \<Longrightarrow> p1 \<le> other_end D g p1 \<and> other_end D g p1 \<le> send g"
  using scan_while_bounds [of p1 "send g" "other_at D g"]
    scan_while_bounds [of "scan_while (other_at D g) (send g) p1" "send g" "nl_at g"]
  by (simp add: other_end_def)

lemma other_end_progress: "other_at D g p1 \<Longrightarrow> p1 < other_end D g p1"
  using scan_while_progress [of p1 "send g" "other_at D g"] flag_at_inside(4) [of D g p1]
    scan_while_bounds [of "scan_while (other_at D g) (send g) p1" "send g" "nl_at g"]
    scan_while_bounds [of p1 "send g" "other_at D g"]
  by (simp add: other_end_def)

lemma llama3_rest_good:
  assumes "ready g st"
  shows "\<exists>st'. llama3_rest D g st = Inr st' \<and> good_step g st st'"
proof -
  let ?p = "spos st" and ?flags = "get_flags D g (spos st)"
  let ?p1 = "if get_cpt g ?p = 0x20 then ?p + 1 else ?p"
  have p: "?p < send g" using assms by (simp add: ready_def)
  show ?thesis
  proof (cases "\<not> (space_at D g ?p1 \<or> letter_at D g ?p1 \<or> number_at D g ?p1) \<and> ?flags \<noteq> 0")
    case True
    then have "?p < other_end D g ?p1"
      using other_end_bounds [of ?p1 g D] other_end_progress [of D g ?p1] p
      by (auto simp: is_other_def split: if_splits)
    moreover have "other_end D g ?p1 \<le> send g" using other_end_bounds [of ?p1 g D] p by auto
    ultimately show ?thesis using emit_good [OF assms] True by (simp add: llama3_rest_def Let_def)
  next
    case False
    then show ?thesis using split_spaces_nl_good [OF assms] by (auto simp: llama3_rest_def Let_def)
  qed
qed

lemma llama3_words_good:
  assumes "ready g st"
    and "number_at D g (spos st) \<Longrightarrow> \<exists>st'. numbers st = Inr st' \<and> good_step g st st'"
  shows "\<exists>st'. llama3_words numbers D g st = Inr st' \<and> good_step g st st'"
proof -
  let ?e = "scan_while (letter_at D g) (send g) (spos st + 1)"
  have "spos st + 1 \<le> send g" using assms(1) by (simp add: ready_def)
  then have e: "spos st < ?e" "?e \<le> send g" using scan_while_bounds [of "spos st + 1" "send g" "letter_at D g"] by auto
  show ?thesis
    using emit_by_good [OF assms(1)] contraction_bound [of "unicode_tolower D" g "spos st"]
      emit_good [OF assms(1) e] assms(2) llama3_rest_good [OF assms(1), of D]
    unfolding llama3_words_def Let_def by presburger
qed

lemma llama3_step_good: "ready g st \<Longrightarrow> \<exists>st'. llama3_step D g st = Inr st' \<and> good_step g st st'"
  unfolding llama3_step_def by (rule llama3_words_good, assumption, rule number_groups_good)

lemma qwen2_step_good: "ready g st \<Longrightarrow> \<exists>st'. qwen2_step D g st = Inr st' \<and> good_step g st st'"
  unfolding qwen2_step_def by (rule llama3_words_good) (auto intro: emit_good simp: ready_def)

lemma kimi_word_end_good:
  assumes "kimi_word_end D g lead p1 = Some e" "p1 \<le> send g"
  shows "p1 < e" "e \<le> send g"
proof -
  let ?p2 = "scan_while (word_at D g) (send g) p1"
  let ?p3 = "if ?p2 > p1 then ?p2 else ?p2 + 1"
  let ?p4 = "scan_while (word_at D g) (send g) ?p3"
  have e: "e = ?p4 + contraction (unicode_tolower D) g ?p4" and some: "?p2 > p1 \<or> letter_at D g ?p2"
    using assms(1) by (auto simp: kimi_word_end_def Let_def split: if_splits)
  have "p1 \<le> ?p2" "?p2 \<le> send g" using scan_while_bounds [OF assms(2)] by auto
  moreover have "?p2 < send g" if "\<not> ?p2 > p1" using some that flag_at_inside(1) by blast
  ultimately have p3: "p1 < ?p3" "?p3 \<le> send g" by auto
  then have "?p3 \<le> ?p4" "?p4 \<le> send g" using scan_while_bounds [OF p3(2)] by auto
  then show "p1 < e" "e \<le> send g"
    using p3 e contraction_bound [of "unicode_tolower D" g ?p4] by linarith+
qed

lemma kimi_rest_good:
  assumes "ready g st"
  shows "\<exists>st'. kimi_rest D g st = Inr st' \<and> good_step g st st'"
proof -
  let ?p = "spos st"
  let ?p1 = "if get_cpt g ?p = 0x20 then ?p + 1 else ?p"
  have p: "?p < send g" using assms by (simp add: ready_def)
  have "\<exists>st'. emit g (other_end D g ?p1) st = Inr st' \<and> good_step g st st'" if "other_at D g ?p1"
    by (rule emit_good [OF assms])
      (use other_end_bounds [of ?p1 g D] other_end_progress [OF that] p in \<open>auto split: if_splits\<close>)
  then show ?thesis using number_groups_good [OF assms] split_spaces_nl_good [OF assms]
    unfolding kimi_rest_def Let_def by presburger
qed

lemma han_inside: "unicode_cpt_is_han (get_cpt g p) \<Longrightarrow> p < send g"
  by (auto simp: get_cpt_def OUT_OF_RANGE_def unicode_cpt_is_han_def split: if_splits)

lemma kimi_k2_step_good:
  assumes "ready g st"
  shows "\<exists>st'. kimi_k2_step D g st = Inr st' \<and> good_step g st st'"
proof -
  let ?p = "spos st"
  have p: "?p < send g" using assms by (simp add: ready_def)
  have han: "\<exists>st'. emit g (scan_while (han_at g) (send g) ?p) st = Inr st' \<and> good_step g st st'"
    if "han_at g ?p"
    using emit_good [OF assms] scan_while_progress [of ?p "send g" "han_at g"]
      scan_while_bounds [of ?p "send g" "han_at g"] that p by auto
  have word: "\<exists>st'. emit g e st = Inr st' \<and> good_step g st st'"
    if "kimi_word_end D g lead (if lead then ?p + 1 else ?p) = Some e" for lead e
  proof (rule emit_good [OF assms])
    have "(if lead then ?p + 1 else ?p) \<le> send g" using p by simp
    from kimi_word_end_good [OF that this] show "?p < e" "e \<le> send g" by (auto split: if_splits)
  qed
  show ?thesis using han word [of True] word [of False] kimi_rest_good [OF assms, of D]
    unfolding kimi_k2_step_def Let_def by (auto split: option.splits)
qed

lemma newlines_step_good:
  assumes "ready g st"
  shows "\<exists>st'. newlines_step g st = Inr st' \<and> good_step g st st'"
proof -
  let ?P = "\<lambda>q. (scpts g ! q = 0x0A) = (scpts g ! spos st = 0x0A)"
  have "spos st < send g" using assms by (simp add: ready_def)
  then have "spos st < scan_while ?P (send g) (spos st)" "scan_while ?P (send g) (spos st) \<le> send g"
    using scan_while_progress [of "spos st" "send g" ?P] scan_while_bounds [of "spos st" "send g" ?P] by auto
  then show ?thesis by (auto simp: newlines_step_def good_step_def Let_def)
qed

section \<open>Loops\<close>

text \<open>What the loop over a segment needs of a step: it succeeds, moves on inside the segment, and emits
  tokens up to a point that is not past the position.\<close>

locale splitter =
  fixes step :: "segment \<Rightarrow> split_state \<Rightarrow> split_state result"
    and settled :: "split_state \<Rightarrow> bool"
  assumes step_ok: "settled st \<Longrightarrow> sini g \<le> spos st \<Longrightarrow> spos st < send g \<Longrightarrow>
      \<exists>st'. step g st = Inr st' \<and> emits st st' \<and> settled st' \<and> spos st < spos st' \<and> spos st' \<le> send g"
begin

lemma loop_total:
  assumes "settled st" "sini g \<le> spos st" "spos st \<le> send g" "send g - spos st \<le> fuel"
  shows "\<exists>st'. split_loop fuel step g st = Inr st' \<and> emits st st' \<and> settled st' \<and> spos st' = send g"
  using assms
proof (induction fuel arbitrary: st)
  case 0
  then show ?case by (auto simp: emits_def)
next
  case (Suc fuel)
  show ?case
  proof (cases "spos st < send g")
    case True
    obtain st1 where st1: "step g st = Inr st1" "emits st st1" "settled st1" "spos st < spos st1" "spos st1 \<le> send g"
      using step_ok [OF Suc.prems(1,2) True] by blast
    have "send g - spos st1 \<le> fuel" using Suc.prems(4) st1(4) by linarith
    then obtain st' where "split_loop fuel step g st1 = Inr st'" "emits st1 st'" "settled st'" "spos st' = send g"
      using Suc.IH [of st1] st1 Suc.prems(2) by auto
    then show ?thesis using True st1 emits_trans by auto
  next
    case False
    then show ?thesis using Suc.prems by (auto simp: emits_def)
  qed
qed

end

text \<open>What the loop over the segments needs of a segment function: it appends tokens that add up to the
  segment. \<open>room\<close> is the number of code points.\<close>

locale segment_cutter =
  fixes room :: nat
    and seg :: "nat \<Rightarrow> nat \<times> nat list \<Rightarrow> (nat \<times> nat list) result"
    and fair :: "nat \<Rightarrow> bool"
  assumes seg_ok: "start + offset \<le> room \<Longrightarrow>
      \<exists>new. seg offset (start, out) = Inr (start + offset, out @ new) \<and> sum_list new = offset \<and> list_all fair new"
begin

lemma cut_all:
  assumes "start + sum_list offsets \<le> room"
  shows "\<exists>new. rfold seg offsets (start, out) = Inr (start + sum_list offsets, out @ new) \<and>
    finer new offsets \<and> list_all fair new"
  using assms
proof (induction offsets arbitrary: start out)
  case Nil
  then show ?case by (simp add: finer_Nil)
next
  case (Cons n ns)
  obtain new where new: "seg n (start, out) = Inr (start + n, out @ new)" "sum_list new = n" "list_all fair new"
    using seg_ok [of start n out] Cons.prems by auto
  obtain more where "rfold seg ns (start + n, out @ new) = Inr (start + n + sum_list ns, (out @ new) @ more)"
    "finer more ns" "list_all fair more"
    using Cons.IH [of "start + n" "out @ new"] Cons.prems by (auto simp: add.assoc)
  then show ?case
    using new finer_append [OF finer_single [OF new(2)], of more ns] by (auto simp: add.assoc intro!: exI [of _ "new @ more"])
qed

end

text \<open>A step that leaves no text behind the position.\<close>

abbreviation exact :: "split_state \<Rightarrow> bool" where
  "exact st \<equiv> prev_end st = spos st"

locale exact_splitter = splitter step exact for step
begin

lemma segment_ok: "segment_cutter (length cpts) (split_segment step cpts) (\<lambda>n. 0 < n)"
proof
  fix start offset :: nat and out
  assume room: "start + offset \<le> length cpts"
  let ?g = "\<lparr>scpts = cpts, sini = start, send = start + offset\<rparr>"
  let ?st = "\<lparr>spos = start, prev_end = start, bpe_offsets = out\<rparr>"
  obtain st' where st': "split_loop offset step ?g ?st = Inr st'" "emits ?st st'" "exact st'" "spos st' = start + offset"
    using loop_total [of ?st ?g offset] by auto
  then obtain new where "bpe_offsets st' = out @ new" "sum_list new = offset" "0 \<notin> set new"
    by (auto simp: emits_def)
  then show "\<exists>new. split_segment step cpts offset (start, out) = Inr (start + offset, out @ new) \<and>
      sum_list new = offset \<and> list_all (\<lambda>n. 0 < n) new"
    using room st'(1) by (auto simp: split_segment_def rassert_def list_all_iff intro: gr0I)
qed

lemma split_with_partitions:
  assumes "sum_list offsets \<le> length (unicode_cpts_from_utf8 src)"
  shows "\<exists>out. split_with step src offsets = Inr out \<and> finer out offsets \<and> 0 \<notin> set out"
  using segment_cutter.cut_all [OF segment_ok, of 0 offsets "unicode_cpts_from_utf8 src" "[]"] assms
  by (auto simp: split_with_def list_all_iff)

end

interpretation gpt2: exact_splitter "gpt2_step D" for D
  using gpt2_step_good by unfold_locales (fastforce simp: ready_def good_step_emits)

interpretation llama3: exact_splitter "llama3_step D" for D
  using llama3_step_good by unfold_locales (fastforce simp: ready_def good_step_emits)

interpretation qwen2: exact_splitter "qwen2_step D" for D
  using qwen2_step_good by unfold_locales (fastforce simp: ready_def good_step_emits)

interpretation kimi_k2: exact_splitter "kimi_k2_step D" for D
  using kimi_k2_step_good by unfold_locales (fastforce simp: ready_def good_step_emits)

interpretation newlines: exact_splitter newlines_step
  using newlines_step_good by unfold_locales (fastforce simp: ready_def good_step_emits)

section \<open>Digits from the right\<close>

lemma afmoe_groups_ok:
  assumes "prev_end st \<le> c" "c \<le> stop" "stop \<le> send g" "(stop - c) mod 3 = 0"
  shows "\<exists>st'. afmoe_groups g c stop st = Inr st' \<and> emits st st' \<and> prev_end st' \<le> stop \<and> spos st' = spos st"
  using assms
proof (induction g c stop st rule: afmoe_groups.induct)
  case (1 g c stop st)
  show ?case
  proof (cases "c < stop")
    case True
    then have c3: "c + 3 \<le> stop" "(stop - (c + 3)) mod 3 = 0" using "1.prems"(4) by presburger+
    obtain st1 where st1: "add_token g (c + 3) st = Inr (c + 3 - prev_end st, st1)" "emits st st1"
      "prev_end st1 = c + 3" "spos st1 = spos st"
      using add_token_emits [of st "c + 3" g] "1.prems" c3 by auto
    obtain st' where "afmoe_groups g (c + 3) stop st1 = Inr st'" "emits st1 st'" "prev_end st' \<le> stop" "spos st' = spos st1"
      using "1.IH" [OF True st1(1) refl] st1(3) c3 "1.prems"(3) by auto
    then show ?thesis using True st1 emits_trans by (subst afmoe_groups.simps) auto
  next
    case False
    then show ?thesis using "1.prems" by (subst afmoe_groups.simps) (auto simp: emits_def)
  qed
qed

lemma afmoe_lead_ok:
  assumes "prev_end st \<le> p" "p + r \<le> send g"
  shows "\<exists>st'. (if r > 0 then rbind (add_token g (p + r) st) (\<lambda>(_, st'). Inr st') else Inr st) = Inr st' \<and>
    emits st st' \<and> prev_end st' \<le> p + r"
  using add_token_emits [of st "p + r" g] assms by (cases "r > 0") (auto simp: emits_def)

lemma afmoe_step_ok:
  assumes "prev_end st \<le> spos st" "spos st < send g"
  shows "\<exists>st'. afmoe_step D g st = Inr st' \<and> emits st st' \<and> prev_end st' \<le> spos st' \<and>
    spos st < spos st' \<and> spos st' \<le> send g"
proof (cases "number_at D g (spos st)")
  case True
  define p stop where "p = spos st" and "stop = scan_while (number_at D g) (send g) (spos st)"
  define r where "r = (stop - p) mod 3"
  have stop: "p < stop" "stop \<le> send g"
    using scan_while_progress [of p "send g" "number_at D g"] True assms(2)
      scan_while_bounds [of p "send g" "number_at D g"] by (auto simp: p_def stop_def)
  have "stop - p = 3 * ((stop - p) div 3) + r" by (simp add: r_def)
  then have "stop - (p + r) = 3 * ((stop - p) div 3)" by linarith
  then have r: "p + r \<le> stop" "(stop - (p + r)) mod 3 = 0"
    using stop(1) mod_less_eq_dividend [of "stop - p" 3] by (simp_all add: r_def)
  obtain st1 where st1: "(if r > 0 then rbind (add_token g (p + r) st) (\<lambda>(_, st'). Inr st') else Inr st) = Inr st1"
    "emits st st1" "prev_end st1 \<le> p + r"
    using afmoe_lead_ok [of st p r g] assms(1) r(1) stop(2) unfolding p_def by fastforce
  obtain st2 where st2: "afmoe_groups g (p + r) stop st1 = Inr st2" "emits st1 st2" "prev_end st2 \<le> stop"
    using afmoe_groups_ok [OF st1(3) r(1) stop(2) r(2)] by blast
  have "afmoe_step D g st = Inr (st2\<lparr>spos := stop\<rparr>)"
    using True st1(1) st2(1) by (simp only: afmoe_step_def Let_def if_True p_def stop_def r_def rbind.simps)
  moreover have "emits st (st2\<lparr>spos := stop\<rparr>)" using emits_trans [OF st1(2) st2(2)] by (simp add: emits_def)
  ultimately show ?thesis using st2(3) stop by (simp add: p_def)
next
  case False
  then show ?thesis using assms by (auto simp: afmoe_step_def emits_def)
qed

interpretation afmoe: splitter "afmoe_step D" "\<lambda>st. prev_end st \<le> spos st" for D
  using afmoe_step_ok by unfold_locales blast

interpretation afmoe_cutter: segment_cutter "length cpts" "afmoe_segment D cpts" "\<lambda>n. 0 < n" for D cpts
proof
  fix start offset :: nat and out
  assume room: "start + offset \<le> length cpts"
  let ?g = "\<lparr>scpts = cpts, sini = start, send = start + offset\<rparr>"
  let ?st = "\<lparr>spos = start, prev_end = start, bpe_offsets = out\<rparr>"
  obtain st1 where st1: "split_loop offset (afmoe_step D) ?g ?st = Inr st1" "emits ?st st1"
    "prev_end st1 \<le> spos st1" "spos st1 = start + offset"
    using afmoe.loop_total [of ?st ?g offset D] by auto
  obtain st2 where st2: "(if prev_end st1 < send ?g then rbind (add_token ?g (send ?g) st1) (\<lambda>(_, st'). Inr st') else Inr st1) = Inr st2"
    "emits st1 st2" "prev_end st2 = start + offset"
    using add_token_emits [of st1 "send ?g" ?g] st1(3,4) by (cases "prev_end st1 < send ?g") (auto simp: emits_def)
  obtain new where "bpe_offsets st2 = out @ new" "sum_list new = offset" "0 \<notin> set new"
    using emits_trans [OF st1(2) st2(2)] st2(3) by (auto simp: emits_def)
  then show "\<exists>new. afmoe_segment D cpts offset (start, out) = Inr (start + offset, out @ new) \<and>
      sum_list new = offset \<and> list_all (\<lambda>n. 0 < n) new"
    using room st1(1) st2(1) by (auto simp: afmoe_segment_def rassert_def list_all_iff intro: gr0I)
qed

lemma afmoe_partitions:
  assumes "sum_list offsets \<le> length (unicode_cpts_from_utf8 src)"
  shows "\<exists>out. unicode_regex_split_custom_afmoe D src offsets = Inr out \<and> finer out offsets \<and> 0 \<notin> set out"
  using afmoe_cutter.cut_all [of 0 offsets "unicode_cpts_from_utf8 src" D "[]"] assms
  by (auto simp: unicode_regex_split_custom_afmoe_def list_all_iff)

text \<open>The first group of digits takes the text in front of it along: \<open>abc1234\<close> is cut into \<open>abc1\<close> and
  \<open>234\<close>. The comment on the expression says that a run of digits is isolated.\<close>

definition digit_data :: unicode_data where
  "digit_data = \<lparr>ranges_flags = [(0x30, CPT_NUMBER), (0x3A, CPT_LETTER), (0x7B, CPT_LETTER)], set_whitespace = [],
     map_lowercase = [], map_uppercase = [], ranges_nfd = []\<rparr>"

lemma digit_data_number:
  "c < 0x80 \<Longrightarrow> is_number (unicode_cpt_flags_from_cpt digit_data c) \<longleftrightarrow> 0x30 \<le> c \<and> c < 0x3A"
  by (auto simp: unicode_cpt_flags_from_cpt_def MAX_CODEPOINTS_def cpt_flags_entry_def digit_data_def is_number_def
      CPT_NUMBER_def CPT_LETTER_def CPT_UNDEFINED_def word_less_nat_alt word_le_nat_alt)

lemma scan_while_iff:
  "p < e \<Longrightarrow> P p \<Longrightarrow> scan_while P e p = scan_while P e (Suc p)" "\<not> (p < e \<and> P p) \<Longrightarrow> scan_while P e p = p"
  by (subst scan_while.simps, simp)+

lemma afmoe_glues_prefix:
  "afmoe_segment digit_data [0x61, 0x62, 0x63, 0x31, 0x32, 0x33, 0x34] 7 (0, []) = Inr (7, [4, 3])"
proof -
  let ?cpts = "[0x61, 0x62, 0x63, 0x31, 0x32, 0x33, 0x34] :: u32 list"
  let ?g = "\<lparr>scpts = ?cpts, sini = 0, send = 7\<rparr>"
  have num: "number_at digit_data ?g p \<longleftrightarrow> 3 \<le> p" if "p \<in> {0, 1, 2, 3, 4, 5, 6}" for p
    using that by (auto simp: get_flags_def digit_data_number)
  have scan: "scan_while (number_at digit_data ?g) 7 3 = 7" by (simp add: scan_while_iff num)
  have walk: "afmoe_step digit_data ?g \<lparr>spos = p, prev_end = 0, bpe_offsets = []\<rparr> =
      Inr \<lparr>spos = Suc p, prev_end = 0, bpe_offsets = []\<rparr>" if "p \<in> {0, 1, 2}" for p
    using that num [of p] by (auto simp: afmoe_step_def)
  have digits: "afmoe_step digit_data ?g \<lparr>spos = 3, prev_end = 0, bpe_offsets = []\<rparr> =
      Inr \<lparr>spos = 7, prev_end = 7, bpe_offsets = [4, 3]\<rparr>"
    using num [of 3] scan by (simp add: afmoe_step_def Let_def add_token_def rassert_def afmoe_groups.simps)
  show ?thesis
    using walk [of 0] walk [of 1] walk [of 2] digits
    by (simp add: afmoe_segment_def rassert_def numeral_eq_Suc)
qed

section \<open>Every splitter cuts\<close>

definition custom_exprs :: "u8 list list" where
  "custom_exprs = [GPT2_EXPR, ascii (CASELESS_EXPR @ LETTERS_EXPR @ ''{1,3}'' @ REST_EXPR),
     ascii (BOTH_CASES_EXPR @ LETTERS_EXPR @ ''{1,3}'' @ REST_EXPR), ascii (BOTH_CASES_EXPR @ LETTERS_EXPR @ REST_EXPR),
     ascii ([CHR 0x5C] @ ''p{Han}+''), ascii ([CHR 0x5C] @ ''p{AFMoE_digits}''),
     ascii (''[^'' @ [CHR 0x5C] @ ''n]+|['' @ [CHR 0x5C] @ ''n]+''),
     ascii ([CHR 0x5C] @ ''d{1,3}(?=(?:'' @ [CHR 0x5C] @ ''d{3})*'' @ [CHR 0x5C] @ ''b)'')]"

lemmas splitters_partition =
  gpt2.split_with_partitions [folded unicode_regex_split_custom_gpt2_def]
  llama3.split_with_partitions [folded unicode_regex_split_custom_llama3_def]
  qwen2.split_with_partitions [folded unicode_regex_split_custom_qwen2_def]
  kimi_k2.split_with_partitions [folded unicode_regex_split_custom_kimi_k2_def]
  newlines.split_with_partitions [folded unicode_regex_split_custom_newlines_def]
  afmoe_partitions

definition cuts :: "nat list result \<Rightarrow> nat list \<Rightarrow> bool" where
  "cuts r offsets \<longleftrightarrow> (\<exists>out. r = Inr out \<and> finer out offsets \<and> 0 \<notin> set out)"

lemma cuts_if: "(c \<Longrightarrow> cuts a offsets) \<Longrightarrow> (\<not> c \<Longrightarrow> cuts b offsets) \<Longrightarrow> cuts (if c then a else b) offsets"
  by simp

lemma custom_cuts:
  assumes "sum_list offsets \<le> length (unicode_cpts_from_utf8 src)"
  shows "\<exists>out. unicode_regex_split_custom D src regex_expr offsets = Inr out \<and> 0 \<notin> set out \<and>
    (if regex_expr \<in> set custom_exprs then finer out offsets else out = [])"
proof (cases "regex_expr \<in> set custom_exprs")
  case True
  have "cuts (unicode_regex_split_custom D src regex_expr offsets) offsets"
    unfolding unicode_regex_split_custom_def
    by (intro cuts_if; (rule splitters_partition [OF assms, folded cuts_def])?)
      (use True in \<open>simp only: custom_exprs_def list.set insert_iff empty_iff simp_thms\<close>)
  then show ?thesis using True by (auto simp: cuts_def)
next
  case False
  then have "unicode_regex_split_custom D src regex_expr offsets = Inr []"
    unfolding unicode_regex_split_custom_def custom_exprs_def
    by (simp only: list.set insert_iff empty_iff de_Morgan_disj if_False simp_thms)
  then show ?thesis using False by simp
qed

text \<open>
  C30. The hand-written splitters only cut. For every text, every tables of character classes and every
  list of segments that fits into the text, \<open>unicode_regex_split_custom\<close> returns: no loop runs forever
  and no assertion fires. For each of the eight expressions it knows, the offsets it returns cut every
  segment into consecutive pieces, none of them empty; for any other expression it returns no offsets.
\<close>

theorem custom_split_cuts:
  assumes "sum_list offsets \<le> length (unicode_cpts_from_utf8 src)"
  shows "\<exists>out. unicode_regex_split_custom D src regex_expr offsets = Inr out \<and> 0 \<notin> set out \<and>
    (if regex_expr \<in> set custom_exprs then finer out offsets else out = [])"
  using assms by (rule custom_cuts)

lemma two_cpts: "unicode_cpts_from_utf8 [0x61, 0x31, 0x32] = [0x61, 0x31, 0x32]"
  by code_simp

theorem custom_split_cuts_witness:
  "\<exists>out. unicode_regex_split_custom digit_data [0x61, 0x31, 0x32] (ascii ([CHR 0x5C] @ ''p{AFMoE_digits}'')) [2, 1] = Inr out \<and>
     0 \<notin> set out \<and> finer out [2, 1]"
  using custom_split_cuts [of "[2, 1]" "[0x61, 0x31, 0x32]" digit_data "ascii ([CHR 0x5C] @ ''p{AFMoE_digits}'')"]
  by (simp add: two_cpts custom_exprs_def)

section \<open>The splitter over an engine\<close>

text \<open>The matches of a regular expression iterator, in order, without overlap and inside the text.\<close>

fun in_order :: "nat \<Rightarrow> (nat \<times> nat) list \<Rightarrow> nat \<Rightarrow> bool" where
  "in_order start [] n \<longleftrightarrow> start \<le> n"
| "in_order start ((p, len) # ms) n \<longleftrightarrow> start \<le> p \<and> in_order (p + len) ms n"

definition engine_ok :: "regex_engine \<Rightarrow> bool" where
  "engine_ok rx \<longleftrightarrow> (\<forall>e m s. rx_byte rx e = Some m \<longrightarrow> in_order 0 (m s) (length s)) \<and>
     (\<forall>e m s. rx_wide rx e = Some m \<longrightarrow> in_order 0 (m s) (length s))"

lemma match_offsets_sum:
  "in_order start ms n \<Longrightarrow> match_offsets ms start = (out, fin) \<Longrightarrow>
     sum_list out = fin - start \<and> start \<le> fin \<and> fin \<le> n"
proof (induction ms arbitrary: start out fin)
  case (Cons m ms)
  obtain p len where m: "m = (p, len)" by fastforce
  obtain out1 where out1: "match_offsets ms (p + len) = (out1, fin)"
    "out = (if p > start then [p - start] else []) @ [len] @ out1"
    using Cons.prems(2) by (auto simp: m Let_def split: prod.splits)
  then show ?case using Cons.IH [OF _ out1(1)] Cons.prems(1) by (auto simp: m)
qed auto

lemma stl_cutter:
  assumes "\<And>s. in_order 0 (m s) (length s)"
  shows "segment_cutter (length src) (\<lambda>offset acc. Inr (stl_segment m src offset acc)) (\<lambda>_. True)"
proof
  fix start offset :: nat and out
  assume "start + offset \<le> length src"
  then have len: "length (take offset (drop start src)) = offset" by simp
  obtain new fin where "match_offsets (m (take offset (drop start src))) 0 = (new, fin)" by fastforce
  moreover from this have "sum_list new = fin" "fin \<le> offset"
    using match_offsets_sum [OF assms] len by (fastforce, fastforce)
  ultimately show "\<exists>new. Inr (stl_segment m src offset (start, out)) = Inr (start + offset, out @ new) \<and>
      sum_list new = offset \<and> list_all (\<lambda>_. True) new"
    by (auto simp: stl_segment_def list_all_iff)
qed

lemma rfold_pure: "rfold (\<lambda>x s. Inr (f x s)) xs s = Inr (fold f xs s)"
  by (induction xs arbitrary: s) auto

lemma stl_cuts:
  assumes "\<And>s. in_order 0 (m s) (length s)" "sum_list offsets \<le> length src"
  shows "finer (unicode_regex_split_stl m src offsets) offsets"
  using segment_cutter.cut_all [OF stl_cutter [OF assms(1)], of 0 offsets src "[]"] assms(2)
  by (auto simp: unicode_regex_split_stl_def rfold_pure)

definition regex_errors :: "failure set" where
  "regex_errors = {Throw ''Failed to process regex'',
     Throw ''Regex includes both unicode categories and non-ASCII characters - not supported''}"

lemma fallback_cuts:
  assumes "engine_ok rx" "sum_list offsets \<le> length cpts"
  shows "case regex_fallback D rx cpts regex_expr offsets of Inl e \<Rightarrow> e \<in> regex_errors | Inr out \<Rightarrow> finer out offsets"
  using assms stl_cuts [of _ offsets "map (collapse_cpt D) cpts"] stl_cuts [of _ offsets "map (wide_cpt D) cpts"]
  by (auto simp: regex_fallback_def regex_errors_def engine_ok_def Let_def split: option.splits)

lemma split_by_expr_cuts:
  assumes "engine_ok rx" "sum_list offsets = length (unicode_cpts_from_utf8 src)"
  shows "case split_by_expr D rx src regex_expr offsets of Inl e \<Rightarrow> e \<in> regex_errors | Inr out \<Rightarrow> finer out offsets"
proof -
  obtain out where out: "unicode_regex_split_custom D src regex_expr offsets = Inr out"
    "if regex_expr \<in> set custom_exprs then finer out offsets else out = []"
    using custom_cuts [of offsets src D regex_expr] assms(2) by auto
  show ?thesis
  proof (cases "out = []")
    case True
    then show ?thesis
      using fallback_cuts [OF assms(1), of offsets "unicode_cpts_from_utf8 src" D regex_expr] assms(2) out(1)
      by (simp add: split_by_expr_def)
  next
    case False
    then show ?thesis using out by (simp add: split_by_expr_def split: if_splits)
  qed
qed

lemma split_by_custom_expr:
  assumes "regex_expr \<in> set custom_exprs" "sum_list offsets = length (unicode_cpts_from_utf8 src)" "0 < sum_list offsets"
  shows "\<exists>out. split_by_expr D rx src regex_expr offsets = Inr out \<and> finer out offsets"
proof -
  obtain out where out: "unicode_regex_split_custom D src regex_expr offsets = Inr out" "finer out offsets"
    using custom_cuts [of offsets src D regex_expr] assms(1,2) by auto
  have "out \<noteq> []"
  proof
    assume "out = []"
    then have "sum_list offsets = 0" using finer_sum [OF out(2)] by simp
    then show False using assms(3) by linarith
  qed
  then show ?thesis using out by (simp add: split_by_expr_def)
qed

lemma rfold_cases:
  assumes "P s" "\<And>x s. x \<in> set xs \<Longrightarrow> P s \<Longrightarrow> case f x s of Inl e \<Rightarrow> E e | Inr s' \<Rightarrow> P s'"
  shows "case rfold f xs s of Inl e \<Rightarrow> E e | Inr s' \<Rightarrow> P s'"
  using assms
proof (induction xs arbitrary: s)
  case (Cons x xs)
  have step: "case f x s of Inl e \<Rightarrow> E e | Inr s' \<Rightarrow> P s'" using Cons.prems by auto
  show ?case
  proof (cases "f x s")
    case (Inr t)
    then show ?thesis using Cons.IH [of t] Cons.prems(2) step by simp
  qed (use step in simp)
qed simp

lemma split_all_cuts:
  fixes src :: "u8 list"
  defines "n \<equiv> length (unicode_cpts_from_utf8 src)"
  assumes "engine_ok rx"
  shows "case rfold (split_by_expr D rx src) regex_exprs [n] of Inl e \<Rightarrow> e \<in> regex_errors | Inr out \<Rightarrow> finer out [n]"
proof (rule rfold_cases)
  fix regex_expr offsets
  assume fin: "finer offsets [n]"
  then have "sum_list offsets = n" by (auto dest: finer_sum)
  then show "case split_by_expr D rx src regex_expr offsets of Inl e \<Rightarrow> e \<in> regex_errors | Inr out \<Rightarrow> finer out [n]"
    using split_by_expr_cuts [OF assms(2), of offsets src D regex_expr] finer_trans [OF _ fin]
    by (auto simp: n_def split: sum.splits)
qed (rule finer_refl)

lemma split_all_custom:
  fixes src :: "u8 list"
  defines "n \<equiv> length (unicode_cpts_from_utf8 src)"
  assumes "set regex_exprs \<subseteq> set custom_exprs" "0 < n"
  shows "\<exists>out. rfold (split_by_expr D rx src) regex_exprs [n] = Inr out \<and> finer out [n]"
proof (rule rfold_total)
  fix regex_expr offsets
  assume e: "regex_expr \<in> set regex_exprs" and fin: "finer offsets [n]"
  have "sum_list offsets = n" using finer_sum [OF fin] by simp
  then show "\<exists>out. split_by_expr D rx src regex_expr offsets = Inr out \<and> finer out [n]"
    using split_by_custom_expr [of regex_expr offsets src D rx] e assms(2,3) finer_trans [OF _ fin]
    unfolding n_def by auto
qed (rule finer_refl)

section \<open>Words\<close>

lemma rmap_append:
  "rmap f (xs @ ys) = rbind (rmap f xs) (\<lambda>a. rbind (rmap f ys) (\<lambda>b. Inr (a @ b)))"
proof (induction xs)
  case Nil
  then show ?case by (cases "rmap f ys") auto
next
  case (Cons x xs)
  then show ?case by (cases "f x"; cases "rmap f xs"; cases "rmap f ys") auto
qed

lemma decode_encoded: "unicode_cpts_to_utf8 cs = Inr w \<Longrightarrow> unicode_cpts_from_utf8 w = cs"
  using cpts_from_loop_encoded [of cs _ "[]" "[]"]
  by (auto simp: unicode_cpts_to_utf8_rmap unicode_cpts_from_utf8_def cpts_from_loop_end)

lemma cut_words_ok:
  assumes "unicode_cpts_to_utf8 cpts = Inr bs" "sum_list offsets = length cpts"
  shows "\<exists>ws. cut_words cpts offsets = Inr ws \<and> concat ws = bs \<and> length ws = length offsets \<and>
    (\<forall>w\<in>set ws. \<exists>cs. unicode_cpts_to_utf8 cs = Inr w)"
  using assms
proof (induction offsets arbitrary: cpts bs)
  case Nil
  then show ?case by (simp add: unicode_cpts_to_utf8_def)
next
  case (Cons n ns)
  obtain bss where bss: "rmap unicode_cpt_to_utf8 cpts = Inr bss" "bs = concat bss"
    using Cons.prems(1) by (auto simp: unicode_cpts_to_utf8_rmap)
  obtain a b where ab: "rmap unicode_cpt_to_utf8 (take n cpts) = Inr a" "rmap unicode_cpt_to_utf8 (drop n cpts) = Inr b" "bss = a @ b"
    using bss(1) rmap_append [of unicode_cpt_to_utf8 "take n cpts" "drop n cpts", symmetric]
    by (auto simp: result_simps)
  have take: "unicode_cpts_to_utf8 (take n cpts) = Inr (concat a)" and drop: "unicode_cpts_to_utf8 (drop n cpts) = Inr (concat b)"
    using ab by (auto simp: unicode_cpts_to_utf8_rmap)
  have rest: "sum_list ns = length (drop n cpts)" using Cons.prems(2) by simp
  obtain ws where ws: "cut_words (drop n cpts) ns = Inr ws" "concat ws = concat b" "length ws = length ns"
    "\<forall>w\<in>set ws. \<exists>cs. unicode_cpts_to_utf8 cs = Inr w"
    using Cons.IH [OF drop] rest by blast
  have "n \<le> length cpts" using Cons.prems(2) by simp
  then show ?case using take ws ab(3) bss(2) by auto
qed

text \<open>The byte alphabet, applied to words that are valid UTF-8.\<close>

definition byte_image :: "u8 \<Rightarrow> u8 list" where
  "byte_image b = code_bytes (byte_cpt (unat b))"

lemma byte_to_utf8_image: "unicode_byte_to_utf8 b = Inr (byte_image b)"
  using unsigned_less [of b] by (simp add: unicode_byte_to_utf8_def byte_to_utf8_map_eq map_at_def byte_tab_def byte_image_def)

lemma byte_images_fold:
  "rfold (\<lambda>c tok. rbind (unicode_byte_to_utf8 c) (\<lambda>s. Inr (tok @ s))) bs acc = Inr (acc @ concat (map byte_image bs))"
  by (induction bs arbitrary: acc) (auto simp: byte_to_utf8_image)

lemma byte_encoding_ok:
  "\<forall>w\<in>set ws. \<exists>cs. unicode_cpts_to_utf8 cs = Inr w \<Longrightarrow>
   unicode_byte_encoding_process ws = Inr (map (\<lambda>w. concat (map byte_image w)) ws)"
proof (induction ws)
  case (Cons w ws)
  obtain cs where cs: "unicode_cpts_to_utf8 cs = Inr w" using Cons.prems by auto
  show ?case using Cons cs
    by (simp add: unicode_byte_encoding_process_def decode_encoded [OF cs] byte_images_fold
        cs [unfolded unicode_cpts_to_utf8_def])
qed (simp add: unicode_byte_encoding_process_def)

lemma concat_images: "concat (map (\<lambda>w. concat (map byte_image w)) ws) = concat (map byte_image (concat ws))"
  by (induction ws) auto

text \<open>The words are consecutive pieces of the text, each the encoding of code points.\<close>

lemma split_words:
  assumes "engine_ok rx" "unicode_cpts_to_utf8 cpts = Inr src"
  shows "case unicode_regex_split D rx src regex_exprs byte_encode of
       Inl e \<Rightarrow> e \<in> regex_errors
     | Inr ws \<Rightarrow> \<exists>vs. concat vs = src \<and> ws = (if byte_encode then map (\<lambda>w. concat (map byte_image w)) vs else vs)"
    and "cpts \<noteq> [] \<Longrightarrow> set regex_exprs \<subseteq> set custom_exprs \<Longrightarrow> \<exists>ws. unicode_regex_split D rx src regex_exprs byte_encode = Inr ws"
proof -
  have dec: "unicode_cpts_from_utf8 src = cpts" by (rule decode_encoded [OF assms(2)])
  have words: "\<exists>vs. concat vs = src \<and>
      unicode_regex_split D rx src regex_exprs byte_encode = Inr (if byte_encode then map (\<lambda>w. concat (map byte_image w)) vs else vs)"
    if "rfold (split_by_expr D rx src) regex_exprs [length cpts] = Inr offs" "finer offs [length cpts]" for offs
  proof -
    have "sum_list offs = length cpts" using finer_sum [OF that(2)] by simp
    then obtain ws where ws: "cut_words cpts offs = Inr ws" "concat ws = src" "\<forall>w\<in>set ws. \<exists>cs. unicode_cpts_to_utf8 cs = Inr w"
      using cut_words_ok [OF assms(2)] by blast
    then show ?thesis using that(1) byte_encoding_ok [OF ws(3)]
      by (auto simp: unicode_regex_split_def dec)
  qed
  show "case unicode_regex_split D rx src regex_exprs byte_encode of
       Inl e \<Rightarrow> e \<in> regex_errors
     | Inr ws \<Rightarrow> \<exists>vs. concat vs = src \<and> ws = (if byte_encode then map (\<lambda>w. concat (map byte_image w)) vs else vs)"
  proof (cases "rfold (split_by_expr D rx src) regex_exprs [length cpts]")
    case (Inl e)
    then show ?thesis using split_all_cuts [OF assms(1), of src D regex_exprs] by (simp add: dec unicode_regex_split_def)
  next
    case (Inr offs)
    then show ?thesis using words split_all_cuts [OF assms(1), of src D regex_exprs] by (auto simp: dec)
  qed
  show "\<exists>ws. unicode_regex_split D rx src regex_exprs byte_encode = Inr ws"
    if "cpts \<noteq> []" "set regex_exprs \<subseteq> set custom_exprs"
    using split_all_custom [of regex_exprs src D rx] words that by (auto simp: dec)
qed

text \<open>
  C31. Splitting loses no text. Take a text that is the encoding of code points and a regular expression
  engine whose matches come in order, without overlap and inside the text. Then \<open>unicode_regex_split\<close>,
  for any list of expressions, either reports that an expression cannot be processed, or returns words
  that, put together, are the text: byte for byte without byte encoding, and with byte encoding the
  image of every byte in the byte alphabet. When the text is not empty and every expression is one of
  those with a hand-written splitter, it always returns words.
\<close>

theorem regex_split_lossless:
  assumes "engine_ok rx" "unicode_cpts_to_utf8 cpts = Inr src"
  shows "(case unicode_regex_split D rx src regex_exprs byte_encode of
       Inl e \<Rightarrow> e \<in> regex_errors
     | Inr ws \<Rightarrow> (if byte_encode then rmap unicode_byte_to_utf8 src = Inr (map byte_image src) \<and>
                     concat ws = concat (map byte_image src) else concat ws = src)) \<and>
   (cpts \<noteq> [] \<and> set regex_exprs \<subseteq> set custom_exprs \<longrightarrow>
      (\<exists>ws. unicode_regex_split D rx src regex_exprs byte_encode = Inr ws))"
proof -
  have img: "rmap unicode_byte_to_utf8 bs = Inr (map byte_image bs)" for bs
    by (induction bs) (auto simp: byte_to_utf8_image)
  show ?thesis
    using split_words [OF assms, where D = D and regex_exprs = regex_exprs and byte_encode = byte_encode] img concat_images
    by (auto split: sum.splits if_splits)
qed

text \<open>An engine that takes every expression and cuts the text after its first character.\<close>

definition first_char_engine :: regex_engine where
  "first_char_engine = \<lparr>rx_byte = (\<lambda>e. Some (\<lambda>s. if s = [] then [] else [(0, 1)])),
     rx_wide = (\<lambda>e. Some (\<lambda>s. if s = [] then [] else [(0, 1)]))\<rparr>"

lemma first_char_engine_ok: "engine_ok first_char_engine"
  by (auto simp: engine_ok_def first_char_engine_def Suc_le_eq)

theorem regex_split_lossless_witness:
  "(case unicode_regex_split digit_data first_char_engine [0x61, 0x31, 0x32] [ascii ''a'', ascii ([CHR 0x5C] @ ''p{Han}+'')] False of
      Inl e \<Rightarrow> e \<in> regex_errors | Inr ws \<Rightarrow> concat ws = [0x61, 0x31, 0x32]) \<and>
   (\<exists>ws. unicode_regex_split digit_data first_char_engine [0x61, 0x31, 0x32] [ascii ([CHR 0x5C] @ ''p{Han}+'')] True = Inr ws)"
proof -
  have enc: "unicode_cpts_to_utf8 [0x61, 0x31, 0x32] = Inr [0x61, 0x31, 0x32]" by code_simp
  note lossless = regex_split_lossless [of first_char_engine "[0x61, 0x31, 0x32]" "[0x61, 0x31, 0x32]", OF first_char_engine_ok enc]
  have "ascii ([CHR 0x5C] @ ''p{Han}+'') \<in> set custom_exprs" by (simp add: custom_exprs_def)
  then have "\<exists>ws. unicode_regex_split digit_data first_char_engine [0x61, 0x31, 0x32] [ascii ([CHR 0x5C] @ ''p{Han}+'')] True = Inr ws"
    by (intro lossless [of True digit_data, THEN conjunct2, rule_format]) simp
  then show ?thesis
    using lossless [of False digit_data "[ascii ''a'', ascii ([CHR 0x5C] @ ''p{Han}+'')]", THEN conjunct1]
    by (simp only: if_False)
qed

text \<open>On the empty text a hand-written splitter has no offsets to return, which the caller reads as no
  splitter at all: the expression goes to the engine. The names \<open>\p{Han}\<close> and \<open>\p{AFMoE_digits}\<close> are not
  expressions of that engine, and when it rejects them the caller gets an exception.\<close>

lemma empty_text_uses_engine:
  assumes "rx_wide rx (unicode_cpts_from_utf8 e) = None" "e \<in> set custom_exprs" "\<not> uses_category e"
  shows "unicode_regex_split D rx [] [e] byte_encode = Inl (Throw ''Failed to process regex'')"
proof -
  have empty: "unicode_cpts_from_utf8 [] = []" by code_simp
  obtain out where out: "unicode_regex_split_custom D [] e [0] = Inr out" "finer out [0]" "0 \<notin> set out"
    using custom_cuts [of "[0]" "[]" D e] assms(2) by auto
  have "out = []" using finer_sum [OF out(2)] out(3) by (cases out) auto
  then show ?thesis using out(1) assms(1,3)
    by (simp add: unicode_regex_split_def empty split_by_expr_def regex_fallback_def Let_def)
qed

section \<open>Lower case\<close>

lemma lower_bound_split:
  assumes "first + len \<le> length xs" "first \<le> k" "k \<le> first + len"
    "\<And>i. first \<le> i \<Longrightarrow> i < k \<Longrightarrow> before (xs ! i)" "\<And>i. k \<le> i \<Longrightarrow> i < first + len \<Longrightarrow> \<not> before (xs ! i)"
  shows "lower_bound before xs first len = k"
  using assms
proof (induction before xs first len rule: lower_bound.induct)
  case (1 before xs first len)
  show ?case
  proof (cases "len > 0")
    case True
    let ?half = "len div 2"
    have half: "?half < len" using True by simp
    show ?thesis
    proof (cases "before (xs ! (first + ?half))")
      case lt: True
      then have "first + ?half < k" using "1.prems"(5) [of "first + ?half"] half by (meson add_less_cancel_left le_add1 not_less)
      then have "lower_bound before xs (first + ?half + 1) (len - ?half - 1) = k"
        by (intro "1.IH"(1) [OF True refl lt]) (use "1.prems" half in auto)
      then show ?thesis using True lt by (subst lower_bound.simps) (simp add: Let_def)
    next
      case ge: False
      then have "k \<le> first + ?half" using "1.prems"(4) [of "first + ?half"] by (meson le_add1 not_le)
      then have "lower_bound before xs first ?half = k"
        by (intro "1.IH"(2) [OF True refl ge]) (use "1.prems" half in auto)
      then show ?thesis using True ge by (subst lower_bound.simps) (simp add: Let_def)
    qed
  next
    case False
    then show ?thesis using "1.prems" by (subst lower_bound.simps) simp
  qed
qed

text \<open>On a sorted table the search is a lookup.\<close>

lemma tolower_lookup:
  assumes "sorted (map fst (map_lowercase D))" "distinct (map fst (map_lowercase D))"
  shows "unicode_tolower D c = (case map_of (map_lowercase D) c of None \<Rightarrow> c | Some l \<Rightarrow> l)"
proof -
  define tab where "tab = map_lowercase D"
  define k where "k = length (takeWhile (\<lambda>p. fst p < c) tab)"
  have k: "k \<le> length tab" "\<And>i. i < k \<Longrightarrow> fst (tab ! i) < c"
    unfolding k_def by (auto simp: length_takeWhile_le) (metis (lifting) nth_mem set_takeWhileD takeWhile_nth)
  have mono: "i \<le> j \<Longrightarrow> j < length tab \<Longrightarrow> fst (tab ! i) \<le> fst (tab ! j)" for i j
    using sorted_nth_mono [OF assms(1), of i j] by (simp add: tab_def)
  have ge: "\<not> fst (tab ! i) < c" if "k \<le> i" "i < length tab" for i
    using nth_length_takeWhile [of "\<lambda>p. fst p < c" tab] mono [OF that] that by (auto simp: k_def)
  have it: "lower_bound (\<lambda>p. fst p < c) tab 0 (length tab) = k"
    by (rule lower_bound_split) (use k ge in auto)
  show ?thesis
  proof (cases "map_of tab c")
    case None
    then have "fst (tab ! k) \<noteq> c" if "k \<noteq> length tab"
      using that k(1) nth_mem [of k tab] by (force simp: map_of_eq_None_iff)
    then show ?thesis using None it by (auto simp: unicode_tolower_def tab_def [symmetric] Let_def)
  next
    case (Some l)
    then obtain i where i: "i < length tab" "tab ! i = (c, l)" by (auto dest!: map_of_SomeD simp: in_set_conv_nth)
    have "k \<le> i" using k(2) [of i] i by (force simp: not_less [symmetric])
    then have "fst (tab ! k) = c" using mono [of k i] ge [of k] i by auto
    moreover have "k = i"
      using nth_eq_iff_index_eq [OF assms(2), of k i] i calculation \<open>k \<le> i\<close> by (simp add: tab_def)
    ultimately show ?thesis using Some it i by (simp add: unicode_tolower_def tab_def [symmetric] Let_def)
  qed
qed

text \<open>In any other order the search misses entries: with the table iterated from the last entry to the
  first, as a hash map may do, \<open>T\<close> is not found although the table maps it to \<open>t\<close>. The case insensitive
  contractions of the Llama 3, Qwen 2 and Kimi K2 splitters then depend on the order of a hash map.\<close>

lemma tolower_unsorted_misses:
  "unicode_tolower \<lparr>ranges_flags = [], set_whitespace = [], map_lowercase = [(0x54, 0x74), (0x53, 0x73), (0x41, 0x61)],
     map_uppercase = [], ranges_nfd = []\<rparr> 0x54 = 0x54"
  by (simp add: unicode_tolower_def lower_bound.simps Let_def)

end
