(* ===== verification/Vocab.thy ===== *)
theory Vocab
  imports Bigram_Merge Unicode_Split_Correct
begin

text \<open>
  The vocabulary of \<open>src/llama-vocab.cpp\<close>: the fields of \<open>llama_vocab::impl\<close> that the tokenizers read, the
  lookups on them, the byte tokens \<open><0xXX>\<close>, white space escaping, and the way from a token back to its
  text (\<open>token_to_piece\<close>, \<open>detokenize\<close>). The score of a token is a C++ \<open>float\<close> of which the tokenizers
  use the order only; it is a type parameter. A \<open>.at()\<close> outside its container throws, an index outside
  its vector is \<open>Undefined\<close>, and a failed \<open>GGML_ASSERT\<close> is an \<open>Abort\<close>.
\<close>

section \<open>Definitions\<close>

datatype llama_vocab_type =
    LLAMA_VOCAB_TYPE_NONE | LLAMA_VOCAB_TYPE_SPM | LLAMA_VOCAB_TYPE_BPE | LLAMA_VOCAB_TYPE_WPM
  | LLAMA_VOCAB_TYPE_UGM | LLAMA_VOCAB_TYPE_RWKV | LLAMA_VOCAB_TYPE_PLAMO2

type_synonym token_attr = "32 word"

definition ATTR_UNKNOWN :: token_attr where "ATTR_UNKNOWN = 0x1"
definition ATTR_UNUSED :: token_attr where "ATTR_UNUSED = 0x2"
definition ATTR_NORMAL :: token_attr where "ATTR_NORMAL = 0x4"
definition ATTR_CONTROL :: token_attr where "ATTR_CONTROL = 0x8"
definition ATTR_USER_DEFINED :: token_attr where "ATTR_USER_DEFINED = 0x10"
definition ATTR_BYTE :: token_attr where "ATTR_BYTE = 0x20"
definition ATTR_LSTRIP :: token_attr where "ATTR_LSTRIP = 0x80"
definition ATTR_RSTRIP :: token_attr where "ATTR_RSTRIP = 0x100"

definition has_attr :: "token_attr \<Rightarrow> token_attr \<Rightarrow> bool" where
  "has_attr a m \<longleftrightarrow> a AND m \<noteq> 0"

record 's token_data =
  ttext :: "u8 list"
  score :: 's
  tattr :: token_attr

record 's llama_vocab =
  vtype :: llama_vocab_type
  pre_type :: nat
  max_token_len :: int
  special_bos_id :: int
  special_eos_id :: int
  special_unk_id :: int
  special_sep_id :: int
  add_space_prefix :: bool
  add_bos :: bool
  add_eos :: bool
  ignore_merges :: bool
  clean_spaces :: bool
  remove_extra_whitespaces :: bool
  escape_whitespaces :: bool
  treat_whitespace_as_suffix :: bool
  token_to_id :: "u8 list \<rightharpoonup> int"
  id_to_token :: "'s token_data list"
  cache_special_tokens :: "int list"
  cache_token_to_piece :: "u8 list list"
  bpe_ranks :: "u8 list \<times> u8 list \<rightharpoonup> int"

definition LLAMA_TOKEN_NULL :: int where "LLAMA_TOKEN_NULL = -1"
definition PRE_TYPE_GEMMA4 :: nat where "PRE_TYPE_GEMMA4 = 50"

definition vector_at :: "'a list \<Rightarrow> int \<Rightarrow> 'a result" where
  "vector_at xs i = (if 0 \<le> i \<and> nat i < length xs then Inr (xs ! nat i) else Inl (Throw ''out_of_range''))"

definition has_vocab :: "('s, 'z) llama_vocab_scheme \<Rightarrow> unit result" where
  "has_vocab V = rassert ''type != LLAMA_VOCAB_TYPE_NONE'' (vtype V \<noteq> LLAMA_VOCAB_TYPE_NONE)"

definition n_tokens :: "('s, 'z) llama_vocab_scheme \<Rightarrow> nat" where
  "n_tokens V = length (id_to_token V) mod 4294967296"

definition text_to_token :: "('s, 'z) llama_vocab_scheme \<Rightarrow> u8 list \<Rightarrow> int result" where
  "text_to_token V t =
     rbind (has_vocab V) (\<lambda>_. Inr (case token_to_id V t of Some tok \<Rightarrow> tok | None \<Rightarrow> LLAMA_TOKEN_NULL))"

definition get_token_data :: "('s, 'z) llama_vocab_scheme \<Rightarrow> int \<Rightarrow> 's token_data result" where
  "get_token_data V tid = rbind (has_vocab V) (\<lambda>_. vector_at (id_to_token V) tid)"

definition token_get_attr :: "('s, 'z) llama_vocab_scheme \<Rightarrow> int \<Rightarrow> token_attr result" where
  "token_get_attr V tid = rbind (has_vocab V) (\<lambda>_. rbind (vector_at (id_to_token V) tid) (\<lambda>d. Inr (tattr d)))"

text \<open>\<open>is_normal\<close>, \<open>is_unknown\<close>, \<open>is_control\<close>, \<open>is_byte\<close>, \<open>is_user_defined\<close> and \<open>is_unused\<close> index the vector unchecked.\<close>

definition token_is :: "token_attr \<Rightarrow> ('s, 'z) llama_vocab_scheme \<Rightarrow> int \<Rightarrow> bool result" where
  "token_is m V tid = rbind (has_vocab V) (\<lambda>_.
     if 0 \<le> tid \<and> nat tid < length (id_to_token V) then Inr (has_attr (tattr (id_to_token V ! nat tid)) m) else Inl Undefined)"

definition find_bpe_rank :: "('s, 'z) llama_vocab_scheme \<Rightarrow> u8 list \<Rightarrow> u8 list \<Rightarrow> int result" where
  "find_bpe_rank V token_left token_right =
     rbind (rassert ''token_left.find(space) == npos'' (0x20 \<notin> set token_left)) (\<lambda>_.
     rbind (rassert ''token_right.find(space) == npos'' (0x20 \<notin> set token_right)) (\<lambda>_.
     Inr (case bpe_ranks V (token_left, token_right) of None \<Rightarrow> -1 | Some rank \<Rightarrow> rank)))"

subsection \<open>Byte tokens\<close>

definition hex_digits :: "u8 list" where
  "hex_digits = ascii ''0123456789ABCDEF''"

definition byte_name :: "u8 \<Rightarrow> u8 list" where
  "byte_name ch = ascii ''<0x'' @ [hex_digits ! unat (drop_bit 4 ch), hex_digits ! unat (ch AND 15)] @ ascii ''>''"

definition byte_to_token :: "('s, 'z) llama_vocab_scheme \<Rightarrow> u8 \<Rightarrow> int result" where
  "byte_to_token V ch = rbind (has_vocab V) (\<lambda>_.
     case vtype V of
       LLAMA_VOCAB_TYPE_SPM \<Rightarrow>
         (case token_to_id V (byte_name ch) of Some tok \<Rightarrow> Inr tok | None \<Rightarrow> map_at (token_to_id V) (if ch = 0 then [] else [ch]))
     | LLAMA_VOCAB_TYPE_UGM \<Rightarrow>
         (case token_to_id V (byte_name ch) of Some tok \<Rightarrow> Inr tok | None \<Rightarrow> map_at (token_to_id V) (if ch = 0 then [] else [ch]))
     | LLAMA_VOCAB_TYPE_WPM \<Rightarrow> rbind (unicode_byte_to_utf8 ch) (map_at (token_to_id V))
     | LLAMA_VOCAB_TYPE_BPE \<Rightarrow> rbind (unicode_byte_to_utf8 ch) (map_at (token_to_id V))
     | LLAMA_VOCAB_TYPE_PLAMO2 \<Rightarrow> map_at (token_to_id V) (byte_name ch)
     | _ \<Rightarrow> Inl (Abort ''fatal error''))"

text \<open>\<open>strtol\<close> with base 16 on at most two characters: white space, a sign, then digits.\<close>

definition is_space :: "u8 \<Rightarrow> bool" where
  "is_space c \<longleftrightarrow> c = 0x20 \<or> 0x09 \<le> c \<and> c \<le> 0x0D"

definition hex_value :: "u8 \<Rightarrow> int option" where
  "hex_value c = (if 0x30 \<le> c \<and> c \<le> 0x39 then Some (uint c - 0x30)
     else if 0x41 \<le> c \<and> c \<le> 0x46 then Some (uint c - 0x37)
     else if 0x61 \<le> c \<and> c \<le> 0x66 then Some (uint c - 0x57) else None)"

fun hex_number :: "u8 list \<Rightarrow> int \<Rightarrow> int" where
  "hex_number [] acc = acc"
| "hex_number (c # cs) acc = (case hex_value c of None \<Rightarrow> acc | Some d \<Rightarrow> hex_number cs (16 * acc + d))"

definition strtol16 :: "u8 list \<Rightarrow> int" where
  "strtol16 s = (case dropWhile is_space s of
       [] \<Rightarrow> 0
     | c # cs \<Rightarrow> if c = 0x2D then - hex_number cs 0 else if c = 0x2B then hex_number cs 0 else hex_number (c # cs) 0)"

definition token_to_byte :: "('s, 'z) llama_vocab_scheme \<Rightarrow> int \<Rightarrow> u8 result" where
  "token_to_byte V tid =
     rbind (has_vocab V) (\<lambda>_. rbind (token_is ATTR_BYTE V tid) (\<lambda>b. rbind (rassert ''is_byte(tid)'' b) (\<lambda>_.
     rbind (vector_at (id_to_token V) tid) (\<lambda>d.
     if vtype V \<in> {LLAMA_VOCAB_TYPE_SPM, LLAMA_VOCAB_TYPE_UGM, LLAMA_VOCAB_TYPE_BPE} then
       (if length (ttext d) < 3 then Inl (Throw ''out_of_range'')
        else Inr (word_of_int (strtol16 (take 2 (drop 3 (ttext d))))))
     else Inl (Abort ''fatal error'')))))"

subsection \<open>White space\<close>

text \<open>\<open>std::string::find\<close> from a position.\<close>

definition find_from :: "u8 list \<Rightarrow> u8 list \<Rightarrow> nat \<Rightarrow> nat option" where
  "find_from pat s pos =
     (if length pat \<le> length s
      then List.find (\<lambda>i. take (length pat) (drop i s) = pat) [pos..<Suc (length s - length pat)] else None)"

lemma find_from_Some:
  assumes "find_from pat s pos = Some i"
  shows "pos \<le> i" "i + length pat \<le> length s" "take (length pat) (drop i s) = pat"
    and "pos \<le> j \<Longrightarrow> j < i \<Longrightarrow> take (length pat) (drop j s) \<noteq> pat"
proof -
  define n where "n = Suc (length s - length pat)"
  have "length pat \<le> length s" "List.find (\<lambda>i. take (length pat) (drop i s) = pat) [pos..<n] = Some i"
    using assms unfolding find_from_def n_def by (auto split: if_splits)
  then obtain k where k: "k < n - pos" "i = pos + k" "take (length pat) (drop i s) = pat"
    and first: "\<forall>j<k. take (length pat) (drop ([pos..<n] ! j) s) \<noteq> pat"
    unfolding find_Some_iff by auto
  show "pos \<le> i" "i + length pat \<le> length s" "take (length pat) (drop i s) = pat"
    using k \<open>length pat \<le> length s\<close> unfolding n_def by auto
  show "take (length pat) (drop j s) \<noteq> pat" if "pos \<le> j" "j < i"
    using first [rule_format, of "j - pos"] that k by simp
qed

lemma find_from_None:
  "find_from pat s pos = None \<Longrightarrow> pos \<le> i \<Longrightarrow> i + length pat \<le> length s \<Longrightarrow> take (length pat) (drop i s) \<noteq> pat"
  by (auto simp: find_from_def find_None_iff split: if_splits)

function replace_loop :: "u8 list \<Rightarrow> u8 list \<Rightarrow> u8 list \<Rightarrow> nat \<Rightarrow> u8 list" where
  "replace_loop search replace s last_pos =
     (if search = [] then s
      else case find_from search s last_pos of
        None \<Rightarrow> drop last_pos s
      | Some pos \<Rightarrow> take (pos - last_pos) (drop last_pos s) @ replace @ replace_loop search replace s (pos + length search))"
  by pat_completeness auto
termination
proof (relation "measure (\<lambda>(search, replace, s, last_pos). length s - last_pos)", goal_cases)
  case (2 search replace s last_pos pos)
  then show ?case using find_from_Some (1,2) [of search s last_pos pos] by (cases search) auto
qed simp

declare replace_loop.simps [simp del]

definition replace_all :: "u8 list \<Rightarrow> u8 list \<Rightarrow> u8 list \<Rightarrow> u8 list" where
  "replace_all s search replace = (if search = [] then s else replace_loop search replace s 0)"

definition escaped_space :: "u8 list" where
  "escaped_space = [0xE2, 0x96, 0x81]"

definition llama_escape_whitespace :: "u8 list \<Rightarrow> u8 list" where
  "llama_escape_whitespace t = replace_all t [0x20] escaped_space"

definition llama_unescape_whitespace :: "u8 list \<Rightarrow> u8 list" where
  "llama_unescape_whitespace w = replace_all w escaped_space [0x20]"

definition hex_lower :: "u8 list" where
  "hex_lower = ascii ''0123456789abcdef''"

definition decode_cpt :: "u8 list \<Rightarrow> u32 \<Rightarrow> u8 list result" where
  "decode_cpt t cpt = rbind (unicode_cpt_to_utf8 cpt) (\<lambda>utf8.
     case unicode_utf8_to_byte utf8 of
       Inr b \<Rightarrow> Inr [b]
     | Inl e \<Rightarrow> if e = Throw ''out_of_range''
         then Inr (ascii ''[UNK_BYTE_0x'' @
           concat (map (\<lambda>c. [hex_lower ! unat (drop_bit 4 c), hex_lower ! unat (c AND 15)]) utf8) @ t @ ascii '']'')
         else Inl e)"

definition llama_decode_text :: "u8 list \<Rightarrow> u8 list result" where
  "llama_decode_text t = rbind (rmap (decode_cpt t) (unicode_cpts_from_utf8 t)) (\<lambda>ps. Inr (concat ps))"

section \<open>Replacing\<close>

text \<open>Replacement as a scan from left to right.\<close>

function scan_replace :: "'a list \<Rightarrow> 'a list \<Rightarrow> 'a list \<Rightarrow> 'a list" where
  "scan_replace search rep s =
     (if s = [] then []
      else if search \<noteq> [] \<and> take (length search) s = search then rep @ scan_replace search rep (drop (length search) s)
      else hd s # scan_replace search rep (tl s))"
  by pat_completeness auto
termination by (relation "measure (\<lambda>(search, rep, s). length s)") auto

declare scan_replace.simps [simp del]

lemma scan_replace_Nil [simp]: "scan_replace search rep [] = []"
  by (subst scan_replace.simps) simp

lemma scan_replace_skip:
  "k \<le> length s \<Longrightarrow> (\<And>j. j < k \<Longrightarrow> take (length search) (drop j s) \<noteq> search) \<Longrightarrow>
   scan_replace search rep s = take k s @ scan_replace search rep (drop k s)"
proof (induction k arbitrary: s)
  case (Suc k)
  then obtain c cs where s: "s = c # cs" by (cases s) auto
  have "scan_replace search rep cs = take k cs @ scan_replace search rep (drop k cs)"
    using Suc.prems(1) Suc.prems(2) [of "Suc j" for j] s by (intro Suc.IH) auto
  moreover have "scan_replace search rep s = c # scan_replace search rep cs"
    using Suc.prems(2) [of 0] s by (subst scan_replace.simps) auto
  ultimately show ?case using s by simp
qed simp

lemma scan_replace_match:
  "search \<noteq> [] \<Longrightarrow> take (length search) s = search \<Longrightarrow>
   scan_replace search rep s = rep @ scan_replace search rep (drop (length search) s)"
  by (subst scan_replace.simps) auto

lemma replace_loop_scan:
  "search \<noteq> [] \<Longrightarrow> pos \<le> length s \<Longrightarrow> replace_loop search rep s pos = scan_replace search rep (drop pos s)"
proof (induction "length s - pos" arbitrary: pos rule: less_induct)
  case less
  show ?case
  proof (cases "find_from search s pos")
    case None
    have "take (length search) (drop j (drop pos s)) \<noteq> search" if "j < length s - pos" for j
    proof (cases "j + pos + length search \<le> length s")
      case False
      then have "length (take (length search) (drop j (drop pos s))) \<noteq> length search" using that by auto
      then show ?thesis by metis
    qed (use find_from_None [OF None, of "j + pos"] in \<open>simp add: add.commute\<close>)
    then have "scan_replace search rep (drop pos s) = drop pos s"
      using scan_replace_skip [of "length s - pos" "drop pos s" search rep] by simp
    then show ?thesis using None less.prems by (subst replace_loop.simps) simp
  next
    case (Some p)
    note f = find_from_Some [OF Some]
    have "scan_replace search rep (drop pos s) = take (p - pos) (drop pos s) @ scan_replace search rep (drop p s)"
      using scan_replace_skip [of "p - pos" "drop pos s" search rep] f(1,2) f(4) [of "j + pos" for j] by (simp add: add.commute)
    also have "scan_replace search rep (drop p s) = rep @ scan_replace search rep (drop (p + length search) s)"
      using scan_replace_match [OF less.prems(1) f(3)] by (simp add: add.commute)
    also have "scan_replace search rep (drop (p + length search) s) = replace_loop search rep s (p + length search)"
    proof -
      have "length s - (p + length search) < length s - pos" using f(1,2) less.prems(1) by (cases search) auto
      then show ?thesis using less.hyps [OF _ less.prems(1)] f(2) by simp
    qed
    finally show ?thesis using Some less.prems by (subst replace_loop.simps) simp
  qed
qed

lemma replace_all_scan: "search \<noteq> [] \<Longrightarrow> replace_all s search rep = scan_replace search rep s"
  using replace_loop_scan [of search 0 s rep] by (simp add: replace_all_def)

lemma escape_eq: "llama_escape_whitespace t = concat (map (\<lambda>b. if b = 0x20 then escaped_space else [b]) t)"
proof -
  have "scan_replace [0x20] escaped_space t = concat (map (\<lambda>b. if b = 0x20 then escaped_space else [b]) t)"
    by (induction t) (auto simp: scan_replace.simps)
  then show ?thesis by (simp add: llama_escape_whitespace_def replace_all_scan)
qed

text \<open>On encoded text the escape is found at the start of a character only.\<close>

lemma escape_length [simp]: "length escaped_space = 3"
  by (simp add: escaped_space_def)

definition unescape_char :: "u8 list \<Rightarrow> u8 list" where
  "unescape_char b = (if b = escaped_space then [0x20] else b)"

definition encoded :: "u8 list \<Rightarrow> bool" where
  "encoded b \<longleftrightarrow> (\<exists>c. unicode_cpt_to_utf8 c = Inr b)"

lemma tail_not_lead:
  assumes "encoded b" "c \<in> set (tl b)"
  shows "c \<noteq> 0xE2"
proof -
  obtain cp where cp: "unicode_cpt_to_utf8 cp = Inr b" using assms(1) unfolding encoded_def by blast
  then obtain x where "c = tagged 2 6 x" using assms(2) by (cases rule: unicode_cpt_to_utf8_cases) auto
  then have "\<not> bit c 6" using bit_tagged [of 2 6 x 6] by simp
  moreover have "bit (0xE2 :: u8) 6" by simp
  ultimately show ?thesis by metis
qed

lemma unescape_chars:
  "\<forall>b \<in> set bss. encoded b \<Longrightarrow> llama_unescape_whitespace (concat bss) = concat (map unescape_char bss)"
proof -
  have "\<forall>b \<in> set bss. encoded b \<Longrightarrow> scan_replace escaped_space [0x20] (concat bss) = concat (map unescape_char bss)"
  proof (induction bss)
    case (Cons b bss)
    have b: "encoded b" "b \<noteq> []" "unicode_len_utf8 (hd b) = length b"
      using Cons.prems encoded_length unfolding encoded_def by auto
    have ih: "scan_replace escaped_space [0x20] (concat bss) = concat (map unescape_char bss)" using Cons by simp
    show ?case
    proof (cases "b = escaped_space")
      case True
      then have "unescape_char b = [0x20]" by (simp add: unescape_char_def)
      then show ?thesis using True ih scan_replace_match [of escaped_space "b @ concat bss" "[0x20]"]
        by (simp add: escaped_space_def)
    next
      case False
      have "take 3 (drop j (b @ concat bss)) \<noteq> escaped_space" if j: "j < length b" for j
      proof
        assume m: "take 3 (drop j (b @ concat bss)) = escaped_space"
        then have lead: "b ! j = 0xE2" using j by (cases "drop j b") (auto simp: escaped_space_def nth_via_drop)
        have "j = 0"
        proof (rule ccontr)
          assume "j \<noteq> 0"
          then have "b ! j = tl b ! (j - 1)" "j - 1 < length (tl b)" using j by (cases b; simp)+
          then show False using tail_not_lead [OF b(1), of "b ! j"] lead nth_mem [of "j - 1" "tl b"] by metis
        qed
        moreover have "length b = 3" using lead b(3) calculation b(2) by (simp add: hd_conv_nth unicode_len_utf8_def utf8_lookup_def)
        ultimately show False using m False by simp
      qed
      then have "scan_replace escaped_space [0x20] (b @ concat bss) = b @ scan_replace escaped_space [0x20] (concat bss)"
        using scan_replace_skip [of "length b" "b @ concat bss" escaped_space "[0x20]"] escape_length by simp
      moreover have "unescape_char b = b" using False by (simp add: unescape_char_def)
      ultimately show ?thesis using ih by simp
    qed
  qed simp
  then show "\<forall>b \<in> set bss. encoded b \<Longrightarrow> ?thesis"
    by (simp add: llama_unescape_whitespace_def replace_all_scan escaped_space_def)
qed

end
