(* ===== verification/Tokenizer_Bpe.thy ===== *)
theory Tokenizer_Bpe
  imports Vocab
begin

text \<open>
  The BPE tokenizer of \<open>src/llama-vocab.cpp\<close>: \<open>llm_tokenizer_bpe_session::tokenize\<close> cuts the text into words
  with \<open>unicode_regex_split\<close>, merges the symbols of each word by the ranks of the vocabulary, joins what is
  left of all words into one chain, and walks it to look up the tokens, with single bytes for a symbol
  that is no token. The merge loop is an instance of \<open>bigram_engine\<close>, so each word becomes exactly what the
  reference merges, and tokenizing loses no text.
\<close>

section \<open>Definitions\<close>

record bpe_bigram = bigram +
  btext :: "u8 list"
  rank :: int

record llm_tokenizer_bpe =
  regex_exprs :: "u8 list list"
  byte_encode :: bool

text \<open>The comparator: the first argument comes after the second.\<close>

definition bpe_after :: "bpe_bigram \<Rightarrow> bpe_bigram \<Rightarrow> bool" where
  "bpe_after l r \<longleftrightarrow> rank l > rank r \<or> rank l = rank r \<and> bleft l > bleft r"

definition bpe_stale :: "bpe_bigram \<Rightarrow> llm_symbol \<Rightarrow> llm_symbol \<Rightarrow> bool result" where
  "bpe_stale b left_symbol right_symbol =
     rbind (sym_string left_symbol) (\<lambda>left_token. rbind (sym_string right_symbol) (\<lambda>right_token.
       Inr (left_token @ right_token \<noteq> btext b)))"

definition add_new_bigram ::
  "('s, 'z) llama_vocab_scheme \<Rightarrow> int \<Rightarrow> int \<Rightarrow> bpe_bigram session \<Rightarrow> bpe_bigram session result" where
  "add_new_bigram V left right st =
     (if left = -1 \<or> right = -1 then Inr st
      else rbind (rbind (sym_at (symbols st) left) sym_string) (\<lambda>left_token.
        rbind (rbind (sym_at (symbols st) right) sym_string) (\<lambda>right_token.
        rbind (find_bpe_rank V left_token right_token) (\<lambda>rank_found.
        if rank_found < 0 then Inr st
        else Inr (st\<lparr>work_queue := heap_push bpe_after
          \<lparr>bleft = left, bright = right, bsize = length left_token + length right_token,
           btext = left_token @ right_token, rank = rank_found\<rparr> (work_queue st)\<rparr>)))))"

text \<open>The symbols of a word: one for the whole word where merges are ignored for tokens, and for the runs
  of new lines of one family of models.\<close>

definition word_symbols :: "('s, 'z) llama_vocab_scheme \<Rightarrow> u8 list \<Rightarrow> llm_symbol list result" where
  "word_symbols V w =
     (let whole = [\<lparr>sprev = -1, snext = -1, stext = w, sn = length w\<rparr>]; parts = split_symbols w 0;
          by_token = (\<lambda>rest. rbind (text_to_token V w) (\<lambda>tok. if tok \<noteq> LLAMA_TOKEN_NULL then Inr whole else rest));
          newlines = (if pre_type V = PRE_TYPE_GEMMA4 \<and> (\<forall>c \<in> set w. c = 0x0A) then by_token (Inr parts) else Inr parts) in
      if ignore_merges V then by_token newlines else newlines)"

definition bpe_word :: "('s, 'z) llama_vocab_scheme \<Rightarrow> u8 list \<Rightarrow> llm_symbol list result" where
  "bpe_word V w =
     rbind (word_symbols V w) (\<lambda>syms.
     rbind (merge_all bpe_after bpe_stale (add_new_bigram V) \<lparr>symbols = syms, work_queue = []\<rparr>) (\<lambda>st. Inr (symbols st)))"

text \<open>The finished symbols of a word go to the end of the final chain.\<close>

fun append_final :: "llm_symbol list \<Rightarrow> llm_symbol list \<times> int \<Rightarrow> llm_symbol list \<times> int" where
  "append_final [] (fin, prev) = (fin, prev)"
| "append_final (sy # syms) (fin, prev) =
     (if sn sy > 0 then
        let fin' = (if prev \<noteq> -1 then fin[nat prev := (fin ! nat prev)\<lparr>snext := int (length fin)\<rparr>] else fin) in
        append_final syms (fin' @ [sy\<lparr>sprev := prev, snext := -1\<rparr>], int (length fin))
      else append_final syms (fin, prev))"

text \<open>\<open>for (int i = 0; i != -1; i = symbols[i].next)\<close>; the chain has no more links than symbols.\<close>

primrec chain_walk ::
  "nat \<Rightarrow> (llm_symbol \<Rightarrow> 'o \<Rightarrow> 'o result) \<Rightarrow> llm_symbol list \<Rightarrow> int \<Rightarrow> 'o \<Rightarrow> 'o result" where
  "chain_walk 0 f syms i out = (if i = -1 then Inr out else Inl OutOfFuel)"
| "chain_walk (Suc n) f syms i out =
     (if i = -1 then Inr out
      else rbind (sym_at syms i) (\<lambda>s. rbind (f s out) (chain_walk n f syms (snext s))))"

definition emit_byte :: "('s, 'z) llama_vocab_scheme \<Rightarrow> llm_tokenizer_bpe \<Rightarrow> u8 \<Rightarrow> int list \<Rightarrow> int list result" where
  "emit_byte V tz c out =
     rbind (text_to_token V (if byte_encode tz then [c] else byte_name c)) (\<lambda>token_multibyte.
       Inr (if token_multibyte \<noteq> LLAMA_TOKEN_NULL then out @ [token_multibyte] else out))"

definition emit_symbol :: "('s, 'z) llama_vocab_scheme \<Rightarrow> llm_tokenizer_bpe \<Rightarrow> llm_symbol \<Rightarrow> int list \<Rightarrow> int list result" where
  "emit_symbol V tz s out =
     (if sn s = 0 then Inr out
      else rbind (sym_string s) (\<lambda>str. rbind (text_to_token V str) (\<lambda>token.
        if token = LLAMA_TOKEN_NULL then rfold (emit_byte V tz) str out else Inr (out @ [token]))))"

definition bpe_tokenize ::
  "unicode_data \<Rightarrow> regex_engine \<Rightarrow> ('s, 'z) llama_vocab_scheme \<Rightarrow> llm_tokenizer_bpe \<Rightarrow> u8 list \<Rightarrow> int list \<Rightarrow> int list result" where
  "bpe_tokenize D rx V tz t out =
     rbind (unicode_regex_split D rx t (regex_exprs tz) (byte_encode tz)) (\<lambda>word_collection.
     rbind (rfold (\<lambda>w acc. rbind (bpe_word V w) (\<lambda>syms. Inr (append_final syms acc))) word_collection ([], -1)) (\<lambda>(fin, _).
     if fin = [] then Inr out else chain_walk (length fin) (emit_symbol V tz) fin 0 out))"

definition append_bos :: "('s, 'z) llama_vocab_scheme \<Rightarrow> int list \<Rightarrow> int list result" where
  "append_bos V out =
     (if add_bos V then rbind (rassert ''token_bos() != LLAMA_TOKEN_NULL'' (special_bos_id V \<noteq> LLAMA_TOKEN_NULL)) (\<lambda>_. Inr (out @ [special_bos_id V]))
      else Inr out)"

definition append_eos :: "('s, 'z) llama_vocab_scheme \<Rightarrow> int list \<Rightarrow> int list result" where
  "append_eos V out =
     (if add_eos V then rbind (rassert ''token_eos() != LLAMA_TOKEN_NULL'' (special_eos_id V \<noteq> LLAMA_TOKEN_NULL)) (\<lambda>_. Inr (out @ [special_eos_id V]))
      else Inr out)"

section \<open>The merge loop is the reference\<close>

definition bpe_key :: "('s, 'z) llama_vocab_scheme \<Rightarrow> u8 list \<Rightarrow> u8 list \<Rightarrow> int option" where
  "bpe_key V v w = (case bpe_ranks V (v, w) of Some r \<Rightarrow> if r < 0 then None else Some r | None \<Rightarrow> None)"

interpretation bpe: bigram_engine bpe_after bpe_stale "add_new_bigram V" "bpe_key V" "(<)" rank
  "\<lambda>b u. btext b = u" "\<lambda>x. x \<noteq> 0x20" "\<lambda>_. True" for V
proof
  show "bpe_stale p ls rs = Inr (length v + length w \<noteq> bsize p)"
    if "sym_string ls = Inr v" "sym_string rs = Inr w" "btext p = u" "length u = bsize p" "length v + length w = bsize p \<Longrightarrow> v @ w = u"
    for ls rs v w p u
    using that unfolding bpe_stale_def by (auto simp flip: length_append)
  show "\<exists>st'. add_new_bigram V (int i) (int j) st = Inr st' \<and> True \<and> symbols st' = symbols st \<and>
      (case bpe_key V v w of None \<Rightarrow> work_queue st' = work_queue st
       | Some k \<Rightarrow> \<exists>p. work_queue st' = heap_push bpe_after p (work_queue st) \<and> bleft p = int i \<and> bright p = int j \<and>
           rank p = k \<and> bsize p = length v + length w \<and> btext p = v @ w)"
    if "i < length (symbols st)" "j < length (symbols st)" "sym_string (symbols st ! i) = Inr v" "sym_string (symbols st ! j) = Inr w"
      "\<forall>x \<in> set (v @ w). x \<noteq> 0x20" for i j v w and st :: "bpe_bigram session"
  proof -
    have "find_bpe_rank V v w = Inr (case bpe_ranks V (v, w) of None \<Rightarrow> -1 | Some r \<Rightarrow> r)"
      using that(5) by (auto simp: find_bpe_rank_def rassert_def)
    then show ?thesis using that(1-4) by (auto simp: add_new_bigram_def bpe_key_def split: option.splits)
  qed
qed (auto simp: bpe_after_def add_new_bigram_def)

definition lookup :: "('s, 'z) llama_vocab_scheme \<Rightarrow> u8 list \<Rightarrow> int" where
  "lookup V t = (case token_to_id V t of Some tok \<Rightarrow> tok | None \<Rightarrow> LLAMA_TOKEN_NULL)"

definition whole_word :: "('s, 'z) llama_vocab_scheme \<Rightarrow> u8 list \<Rightarrow> bool" where
  "whole_word V w \<longleftrightarrow> (ignore_merges V \<or> pre_type V = PRE_TYPE_GEMMA4 \<and> (\<forall>c \<in> set w. c = 0x0A)) \<and>
     lookup V w \<noteq> LLAMA_TOKEN_NULL"

text \<open>The reference for one word.\<close>

definition bpe_pieces :: "('s, 'z) llama_vocab_scheme \<Rightarrow> u8 list \<Rightarrow> u8 list list" where
  "bpe_pieces V w = (if w = [] then [] else if whole_word V w then [w] else greedy_merge (<) (bpe_key V) (utf8_chars w))"

lemma text_to_token_eq:
  "vtype V \<noteq> LLAMA_VOCAB_TYPE_NONE \<Longrightarrow>
   text_to_token V t = Inr (case token_to_id V t of Some tok \<Rightarrow> tok | None \<Rightarrow> LLAMA_TOKEN_NULL)"
  by (simp add: text_to_token_def has_vocab_def rassert_def)

lemma word_symbols_eq:
  "vtype V \<noteq> LLAMA_VOCAB_TYPE_NONE \<Longrightarrow>
   word_symbols V w = Inr (if whole_word V w then [\<lparr>sprev = -1, snext = -1, stext = w, sn = length w\<rparr>] else split_symbols w 0)"
  by (auto simp: word_symbols_def whole_word_def text_to_token_eq Let_def lookup_def)

lemma whole_chain:
  "w \<noteq> [] \<Longrightarrow> chain [\<lparr>sprev = -1, snext = -1, stext = w, sn = length w\<rparr>] [0] w"
  by (simp add: chain_def)

lemma greedy_merge_single: "greedy_merge better key [w] = [w]"
  by (subst greedy_merge.simps) simp

lemma bpe_word_merges:
  assumes "vtype V \<noteq> LLAMA_VOCAB_TYPE_NONE" "0x20 \<notin> set w"
  shows "\<exists>syms. bpe_word V w = Inr syms \<and> sym_words syms = bpe_pieces V w \<and>
    (\<forall>s \<in> set syms. 0 < sn s \<longrightarrow> sn s \<le> length (stext s))"
proof (cases "w = []")
  case True
  have "word_symbols V w = Inr [] \<or> word_symbols V w = Inr [\<lparr>sprev = -1, snext = -1, stext = [], sn = 0\<rparr>]"
    using word_symbols_eq [OF assms(1)] True by (simp add: split_symbols.simps)
  then show ?thesis using True
    by (auto simp: bpe_word_def merge_all_def seed_queue_def merge_loop_empty sym_words_def bpe_pieces_def)
next
  case False
  define syms where "syms = (if whole_word V w then [\<lparr>sprev = -1, snext = -1, stext = w, sn = length w\<rparr>] else split_symbols w 0)"
  have ch: "chain syms [0..<length syms] w"
    using whole_chain [OF False] split_symbols_chain(1) unfolding syms_def by simp
  have words: "greedy_merge (<) (bpe_key V) (map (word syms) [0..<length syms]) = bpe_pieces V w"
    using False split_symbols_chain(2) unfolding syms_def bpe_pieces_def by (simp add: word_def greedy_merge_single)
  have legal: "\<forall>x \<in> set w. x \<noteq> 0x20" using assms(2) by blast
  obtain st ixs where st: "merge_all bpe_after bpe_stale (add_new_bigram V) \<lparr>symbols = syms, work_queue = []\<rparr> = Inr st"
    "chain (symbols st) ixs w" "map (word (symbols st)) ixs = bpe_pieces V w"
    using bpe.merge_all_greedy [of "\<lparr>symbols = syms, work_queue = []\<rparr>" w V] ch words legal by auto
  have "bpe_word V w = Inr (symbols st)"
    using word_symbols_eq [OF assms(1), of w] st(1) unfolding bpe_word_def syms_def by simp
  then show ?thesis using chain_sym_words [OF st(2)] chain_readable [OF st(2)] st(3) by auto
qed

subsection \<open>The final chain\<close>

definition linked :: "llm_symbol list \<Rightarrow> int \<Rightarrow> bool" where
  "linked fin prev \<longleftrightarrow> prev = int (length fin) - 1 \<and>
     (\<forall>i < length fin. snext (fin ! i) = (if Suc i < length fin then int (Suc i) else -1))"

abbreviation content :: "llm_symbol \<Rightarrow> u8 list \<times> nat" where
  "content s \<equiv> (stext s, sn s)"

lemma append_final_ok:
  "linked fin prev \<Longrightarrow> append_final syms (fin, prev) = (fin', prev') \<Longrightarrow>
   linked fin' prev' \<and> map content fin' = map content fin @ map content (filter (\<lambda>s. 0 < sn s) syms)"
proof (induction syms "(fin, prev)" arbitrary: fin prev rule: append_final.induct)
  case (2 sy syms fin prev)
  show ?case
  proof (cases "sn sy > 0")
    case True
    define mid where "mid = (if prev \<noteq> -1 then fin[nat prev := (fin ! nat prev)\<lparr>snext := int (length fin)\<rparr>] else fin)"
    define new where "new = mid @ [sy\<lparr>sprev := prev, snext := -1\<rparr>]"
    have prev: "prev = int (length fin) - 1" using 2(3) unfolding linked_def by blast
    have len: "length mid = length fin" unfolding mid_def by simp
    have next_mid: "snext (mid ! i) = int (Suc i)" if "i < length fin" for i
      using that 2(3) unfolding mid_def linked_def by (auto simp: nth_list_update)
    have same: "map content mid = map content fin"
    proof (cases "fin = []")
      case False
      then have "nat prev < length fin" using prev by (cases fin) auto
      then show ?thesis unfolding mid_def by (simp add: map_update list_update_same_conv)
    qed (use prev mid_def in simp)
    have "linked new (int (length fin))"
      unfolding linked_def new_def using len next_mid by (auto simp: nth_append)
    moreover have "append_final syms (new, int (length fin)) = (fin', prev')"
      using 2(4) True unfolding new_def mid_def by (simp add: Let_def)
    ultimately have "linked fin' prev'" "map content fin' = map content new @ map content (filter (\<lambda>s. 0 < sn s) syms)"
      using 2(1) [OF True refl] unfolding mid_def [symmetric] new_def [symmetric] by blast+
    then show ?thesis using True same unfolding new_def by simp
  next
    case False
    then show ?thesis using 2(2) [OF False 2(3)] 2(4) by simp
  qed
qed simp

lemma chain_walk_linked:
  assumes "linked fin prev"
  shows "i \<le> length fin \<Longrightarrow>
    chain_walk (length fin - i) f fin (if i < length fin then int i else -1) out = rfold f (drop i fin) out"
proof (induction "length fin - i" arbitrary: i out)
  case (Suc n)
  then have i: "i < length fin" by simp
  have n: "length fin - i = Suc (length fin - Suc i)" using i by simp
  have "chain_walk (length fin - Suc i) f fin (snext (fin ! i)) o' = rfold f (drop (Suc i) fin) o'" for o'
    using Suc(1) [of "Suc i" o'] Suc(2) i assms unfolding linked_def by auto
  then have "chain_walk (length fin - Suc i) f fin (snext (fin ! i)) = rfold f (drop (Suc i) fin)" by blast
  then show ?case using i unfolding n by (simp add: Cons_nth_drop_Suc [symmetric])
qed simp

lemma chain_walk_all:
  "linked fin prev \<Longrightarrow> fin \<noteq> [] \<Longrightarrow> chain_walk (length fin) f fin 0 out = rfold f fin out"
  using chain_walk_linked [of fin prev 0 f out] by simp

subsection \<open>The output\<close>

text \<open>The tokens of one string: its own, or those of its bytes, where a byte without token is left out.\<close>

definition tokens_of :: "('s, 'z) llama_vocab_scheme \<Rightarrow> llm_tokenizer_bpe \<Rightarrow> u8 list \<Rightarrow> int list" where
  "tokens_of V tz str =
     (if lookup V str \<noteq> LLAMA_TOKEN_NULL then [lookup V str]
      else filter (\<lambda>tok. tok \<noteq> LLAMA_TOKEN_NULL) (map (\<lambda>c. lookup V (if byte_encode tz then [c] else byte_name c)) str))"

lemma emit_bytes_eq:
  "vtype V \<noteq> LLAMA_VOCAB_TYPE_NONE \<Longrightarrow> rfold (emit_byte V tz) cs out =
     Inr (out @ filter (\<lambda>tok. tok \<noteq> LLAMA_TOKEN_NULL) (map (\<lambda>c. lookup V (if byte_encode tz then [c] else byte_name c)) cs))"
  by (induction cs arbitrary: out) (auto simp: emit_byte_def text_to_token_eq lookup_def)

lemma emit_symbol_eq:
  "vtype V \<noteq> LLAMA_VOCAB_TYPE_NONE \<Longrightarrow> 0 < sn s \<Longrightarrow> sn s \<le> length (stext s) \<Longrightarrow>
   emit_symbol V tz s out = Inr (out @ tokens_of V tz (take (sn s) (stext s)))"
  by (simp add: emit_symbol_def sym_string_def tokens_of_def emit_bytes_eq text_to_token_eq flip: lookup_def)

abbreviation readable :: "llm_symbol \<Rightarrow> bool" where
  "readable s \<equiv> 0 < sn s \<and> sn s \<le> length (stext s)"

lemma emit_all:
  "vtype V \<noteq> LLAMA_VOCAB_TYPE_NONE \<Longrightarrow> \<forall>s \<in> set fin. readable s \<Longrightarrow>
   rfold (emit_symbol V tz) fin out = Inr (out @ concat (map (tokens_of V tz) (map (\<lambda>s. take (sn s) (stext s)) fin)))"
  by (induction fin arbitrary: out) (auto simp: emit_symbol_eq)

lemma words_fold:
  assumes "vtype V \<noteq> LLAMA_VOCAB_TYPE_NONE"
  shows "\<forall>w \<in> set ws. 0x20 \<notin> set w \<Longrightarrow> linked fin prev \<Longrightarrow> \<forall>s \<in> set fin. readable s \<Longrightarrow>
    \<exists>fin' prev'. rfold (\<lambda>w acc. rbind (bpe_word V w) (\<lambda>syms. Inr (append_final syms acc))) ws (fin, prev) = Inr (fin', prev') \<and>
      linked fin' prev' \<and> (\<forall>s \<in> set fin'. readable s) \<and>
      map (\<lambda>s. take (sn s) (stext s)) fin' = map (\<lambda>s. take (sn s) (stext s)) fin @ concat (map (bpe_pieces V) ws)"
proof (induction ws arbitrary: fin prev)
  case (Cons w ws)
  obtain syms where syms: "bpe_word V w = Inr syms" "sym_words syms = bpe_pieces V w"
    "\<forall>s \<in> set syms. 0 < sn s \<longrightarrow> sn s \<le> length (stext s)"
    using bpe_word_merges [OF assms, of w] Cons.prems(1) by auto
  obtain mid p where mid: "append_final syms (fin, prev) = (mid, p)" by fastforce
  note ok = append_final_ok [OF Cons.prems(2) mid]
  have strings: "map (\<lambda>s. take (sn s) (stext s)) xs = map (\<lambda>(t, n). take n t) (map content xs)" for xs :: "llm_symbol list"
    by simp
  have "map (\<lambda>s. take (sn s) (stext s)) mid = map (\<lambda>s. take (sn s) (stext s)) fin @ bpe_pieces V w"
    using ok syms(2) unfolding strings sym_words_def by simp
  moreover have "readable s" if "s \<in> set mid" for s
  proof -
    have "content s \<in> set (map content mid)" using that by simp
    then have "content s \<in> content ` set fin \<union> content ` set (filter (\<lambda>s. 0 < sn s) syms)"
      using ok by (simp only: set_append set_map)
    then show ?thesis using Cons.prems(3) syms(3) by auto
  qed
  ultimately show ?case using Cons.IH [of mid p] Cons.prems(1) ok syms(1) mid by simp
qed simp

lemma bpe_tokenize_eq:
  assumes "vtype V \<noteq> LLAMA_VOCAB_TYPE_NONE" and split: "unicode_regex_split D rx t (regex_exprs tz) (byte_encode tz) = Inr ws"
    and "\<forall>w \<in> set ws. 0x20 \<notin> set w"
  shows "bpe_tokenize D rx V tz t out = Inr (out @ concat (map (tokens_of V tz) (concat (map (bpe_pieces V) ws))))"
proof -
  obtain fin prev where fin: "rfold (\<lambda>w acc. rbind (bpe_word V w) (\<lambda>syms. Inr (append_final syms acc))) ws ([], -1) = Inr (fin, prev)"
    "linked fin prev" "\<forall>s \<in> set fin. readable s" "map (\<lambda>s. take (sn s) (stext s)) fin = concat (map (bpe_pieces V) ws)"
    using words_fold [OF assms(1,3), of "[]" "-1"] by (auto simp: linked_def)
  have "(if fin = [] then Inr out else chain_walk (length fin) (emit_symbol V tz) fin 0 out) = rfold (emit_symbol V tz) fin out"
    using chain_walk_all [OF fin(2)] by (cases "fin = []") simp_all
  also have "\<dots> = Inr (out @ concat (map (tokens_of V tz) (concat (map (bpe_pieces V) ws))))"
    using emit_all [OF assms(1) fin(3)] fin(4) by simp
  finally show ?thesis using split fin(1) by (simp add: bpe_tokenize_def)
qed

text \<open>
  C38. The BPE tokenizer computes what byte pair encoding means. For words without a blank, each word is
  cut into its UTF-8 sequences, then the neighbours of lowest rank are merged, the leftmost first, over and
  over until no pair of neighbours has a rank (a word that is a token and ignores merges stays whole), and
  the tokens of the resulting strings are appended to the output, in order. The heap, the entries that are
  out of date, the links between the symbols and the bound on the number of rounds leave no trace.
\<close>

theorem bpe_tokenize_reference:
  assumes "vtype V \<noteq> LLAMA_VOCAB_TYPE_NONE" "unicode_regex_split D rx t (regex_exprs tz) (byte_encode tz) = Inr ws"
    and "\<forall>w \<in> set ws. 0x20 \<notin> set w"
  shows "bpe_tokenize D rx V tz t out = Inr (out @ concat (map (tokens_of V tz) (concat (map (bpe_pieces V) ws))))"
  using assms by (rule bpe_tokenize_eq)

text \<open>A vocabulary over the letters \<open>a\<close> and \<open>b\<close> with the merges \<open>ab\<close> and \<open>aab\<close>.\<close>

definition ab_token :: "string \<Rightarrow> int token_data" where
  "ab_token s = \<lparr>ttext = ascii s, score = 0, tattr = ATTR_NORMAL\<rparr>"

definition ab_vocab :: "int llama_vocab" where
  "ab_vocab = \<lparr>vtype = LLAMA_VOCAB_TYPE_BPE, pre_type = 0, max_token_len = 3, special_bos_id = 1, special_eos_id = 2,
     special_unk_id = 0, special_sep_id = -1, add_space_prefix = False, add_bos = False, add_eos = False,
     ignore_merges = False, clean_spaces = False, remove_extra_whitespaces = False, escape_whitespaces = False,
     treat_whitespace_as_suffix = False,
     token_to_id = [ascii ''a'' \<mapsto> 0, ascii ''b'' \<mapsto> 1, ascii ''ab'' \<mapsto> 2, ascii ''aab'' \<mapsto> 3],
     id_to_token = map ab_token [''a'', ''b'', ''ab'', ''aab''], cache_special_tokens = [], cache_token_to_piece = [],
     bpe_ranks = [(ascii ''a'', ascii ''b'') \<mapsto> 0, (ascii ''a'', ascii ''ab'') \<mapsto> 1]\<rparr>"

lemma ab_split: "unicode_regex_split digit_data first_char_engine (ascii ''aabb'') [] False = Inr [ascii ''aabb'']"
  by code_simp

theorem bpe_tokenize_reference_witness:
  "bpe_tokenize digit_data first_char_engine ab_vocab \<lparr>regex_exprs = [], byte_encode = False\<rparr> (ascii ''aabb'') [7] = Inr [7, 3, 1]"
proof -
  have blank: "\<forall>w \<in> set [ascii ''aabb'']. 0x20 \<notin> set w" by code_simp
  have pieces: "concat (map (bpe_pieces ab_vocab) [ascii ''aabb'']) = [ascii ''aab'', ascii ''b'']" by code_simp
  have tokens: "concat (map (tokens_of ab_vocab \<lparr>regex_exprs = [], byte_encode = False\<rparr>) [ascii ''aab'', ascii ''b'']) = [3, 1]" by code_simp
  show ?thesis
    using bpe_tokenize_reference [of ab_vocab digit_data first_char_engine "ascii ''aabb''" "\<lparr>regex_exprs = [], byte_encode = False\<rparr>" "[ascii ''aabb'']" "[7]"]
      ab_split blank pieces tokens by (simp add: ab_vocab_def)
qed

end
