(* ===== verification/Detokenize.thy ===== *)
theory Detokenize
  imports Vocab
begin

text \<open>
  From tokens back to text, as \<open>src/llama-vocab.cpp\<close> does it: \<open>token_to_piece\<close> copies the text of one token
  into a buffer of a given length (a negative count says how much room it needs), \<open>detokenize\<close> strings the
  pieces together and can clean up blanks in place. A buffer is the list of the bytes written to it; that
  the vocabulary has its tokenizer, which \<open>detokenize\<close> asserts, is taken for granted. The
  lemmas: the byte alphabet decodes, byte tokens name their byte, detokenizing is the concatenation of
  the pieces when the buffer is large enough, and cleaning up deletes nothing but blanks.
\<close>

section \<open>Definitions\<close>

text \<open>The state of \<open>llama_unescape_rwkv_token\<close>: escaping, hex digits to come, hex value, output.\<close>

fun unescape_step :: "u8 \<Rightarrow> bool \<times> nat \<times> u8 \<times> u8 list \<Rightarrow> bool \<times> nat \<times> u8 \<times> u8 list" where
  "unescape_step c (escaping, hex_remaining, hex_acc, out) =
     (if hex_remaining \<noteq> 0 then
        let v = (if 0x61 \<le> c \<and> c < 0x80 then c - 0x61 + 10 else c - 0x30); acc = push_bit 4 hex_acc + v in
        if hex_remaining = 1 then (escaping, 0, 0, out @ [acc]) else (escaping, hex_remaining - 1, acc, out)
      else if escaping then
        (if c = 0x74 then (False, 0, hex_acc, out @ [0x09])
         else if c = 0x6E then (False, 0, hex_acc, out @ [0x0A])
         else if c = 0x72 then (False, 0, hex_acc, out @ [0x0D])
         else if c = 0x78 then (False, 2, hex_acc, out)
         else (False, 0, hex_acc, out @ [c]))
      else if c = 0x5C then (True, 0, hex_acc, out)
      else (False, 0, hex_acc, out @ [c]))"

definition llama_unescape_rwkv_token :: "u8 list \<Rightarrow> u8 list" where
  "llama_unescape_rwkv_token escaped = snd (snd (snd (fold unescape_step escaped (False, 0, 0, []))))"

text \<open>\<open>_try_copy\<close>: up to \<open>lstrip\<close> leading blanks are skipped.\<close>

fun strip_blanks :: "nat \<Rightarrow> u8 list \<Rightarrow> u8 list" where
  "strip_blanks (Suc n) (c # cs) = (if c = 0x20 then strip_blanks n cs else c # cs)"
| "strip_blanks n cs = cs"

definition try_copy :: "int \<Rightarrow> nat \<Rightarrow> u8 list \<Rightarrow> (int \<times> u8 list) result" where
  "try_copy len lstrip piece =
     (if int (length piece) \<ge> INT32_MAX then Inl (Abort ''invalid token size'')
      else let rest = strip_blanks lstrip piece in
        if len < int (length rest) then Inr (- int (length rest), []) else Inr (int (length rest), rest))"

definition plain_copy :: "int \<Rightarrow> u8 list \<Rightarrow> (int \<times> u8 list) result" where
  "plain_copy len piece = (if int (length piece) > len then Inr (- int (length piece), []) else Inr (int (length piece), piece))"

definition ATTR_SPECIAL :: token_attr where
  "ATTR_SPECIAL = ATTR_UNKNOWN OR ATTR_CONTROL"

text \<open>\<open>std::stoi\<close> with base 16 throws when there is no digit.\<close>

definition stoi16 :: "u8 list \<Rightarrow> int result" where
  "stoi16 s = (let digits = (case dropWhile is_space s of [] \<Rightarrow> [] | c # cs \<Rightarrow> if c = 0x2D \<or> c = 0x2B then cs else c # cs) in
     if digits = [] \<or> hex_value (hd digits) = None then Inl (Throw ''invalid_argument'') else Inr (strtol16 s))"

text \<open>The text of a token of the sentence piece kinds and of the BPE kind.\<close>

definition piece_of :: "('s, 'z) llama_vocab_scheme \<Rightarrow> int \<Rightarrow> token_attr \<Rightarrow> u8 list \<Rightarrow> (u8 list \<Rightarrow> u8 list result) \<Rightarrow> u8 list option result" where
  "piece_of V token attr token_text plain =
     (if has_attr attr (ATTR_SPECIAL OR ATTR_USER_DEFINED) then Inr (Some token_text)
      else if has_attr attr ATTR_NORMAL then rbind (plain token_text) (\<lambda>p. Inr (Some p))
      else if has_attr attr ATTR_BYTE then rbind (token_to_byte V token) (\<lambda>b. Inr (Some [b]))
      else Inr None)"

definition token_to_piece ::
  "('s, 'z) llama_vocab_scheme \<Rightarrow> int \<Rightarrow> int \<Rightarrow> nat \<Rightarrow> bool \<Rightarrow> (int \<times> u8 list) result" where
  "token_to_piece V token len lstrip special =
     rbind (token_get_attr V token) (\<lambda>attr.
     if \<not> special \<and> has_attr attr ATTR_SPECIAL then Inr (0, [])
     else if cache_token_to_piece V \<noteq> [] then rbind (vector_at (cache_token_to_piece V) token) (try_copy len lstrip)
     else
       let token_text = ttext (id_to_token V ! nat token);
           copy = (\<lambda>p. case p of Some piece \<Rightarrow> try_copy len lstrip piece | None \<Rightarrow> Inr (0, [])) in
       case vtype V of
         LLAMA_VOCAB_TYPE_BPE \<Rightarrow>
           rbind (piece_of V token attr token_text
             (if escape_whitespaces V then \<lambda>s. Inr (llama_unescape_whitespace s) else llama_decode_text)) copy
       | LLAMA_VOCAB_TYPE_RWKV \<Rightarrow> plain_copy len (llama_unescape_rwkv_token token_text)
       | LLAMA_VOCAB_TYPE_PLAMO2 \<Rightarrow>
           rbind (token_is ATTR_BYTE V token) (\<lambda>is_byte.
           if is_byte \<and> length token_text = 6 \<and> take 3 token_text = ascii ''<0x'' \<and> last token_text = 0x3E
           then rbind (stoi16 (take 2 (drop 3 token_text))) (\<lambda>v. plain_copy len [word_of_int v])
           else try_copy len lstrip token_text)
       | LLAMA_VOCAB_TYPE_NONE \<Rightarrow> Inl (Abort ''fatal error'')
       | _ \<Rightarrow> rbind (piece_of V token attr token_text (\<lambda>s. Inr (llama_unescape_whitespace s))) copy)"

text \<open>The cache of all pieces that the loader builds. A \<open>std::string\<close> has room for 15 characters without allocating.\<close>

definition SSO_CAPACITY :: int where
  "SSO_CAPACITY = 15"

definition token_to_piece_for_cache :: "('s, 'z) llama_vocab_scheme \<Rightarrow> int \<Rightarrow> bool \<Rightarrow> u8 list result" where
  "token_to_piece_for_cache V token special =
     rbind (token_to_piece V token SSO_CAPACITY 0 special) (\<lambda>(n_chars, piece).
     if n_chars < 0 then
       rbind (token_to_piece V token (- n_chars) 0 special) (\<lambda>(check, piece').
       rbind (rassert ''check == -n_chars'' (check = - n_chars)) (\<lambda>_. Inr piece'))
     else Inr piece)"

definition build_piece_cache :: "('s, 'z) llama_vocab_scheme \<Rightarrow> u8 list list result" where
  "build_piece_cache V = rmap (\<lambda>i. token_to_piece_for_cache V (int i) True) [0..<length (id_to_token V)]"

subsection \<open>Cleaning up\<close>

text \<open>The three passes work in place: \<open>i\<close> reads, \<open>tot\<close> writes.\<close>

function clean_pass :: "(nat \<Rightarrow> nat \<Rightarrow> u8 list \<Rightarrow> bool) \<Rightarrow> nat \<Rightarrow> nat \<Rightarrow> nat \<Rightarrow> u8 list \<Rightarrow> nat \<times> u8 list" where
  "clean_pass drops n i tot s =
     (if i < n then
        let x = s ! i; t = (if drops n i s then tot - 1 else tot) in
        clean_pass drops n (Suc i) (Suc t) (s[t := x])
      else (tot, s))"
  by pat_completeness auto
termination by (relation "measure (\<lambda>(drops, n, i, tot, s). n - i)") auto

definition clean_punctuation :: "nat \<Rightarrow> nat \<Rightarrow> nat \<Rightarrow> u8 list \<Rightarrow> nat \<times> u8 list" where
  "clean_punctuation = clean_pass (\<lambda>n i s. s ! (i - 1) = 0x20 \<and> s ! i \<in> {0x3F, 0x21, 0x2E, 0x2C})"

function clean_apostrophes :: "nat \<Rightarrow> nat \<Rightarrow> nat \<Rightarrow> u8 list \<Rightarrow> nat \<times> u8 list" where
  "clean_apostrophes n i tot s =
     (if i < n then
        let x = s ! i in
        if x = 0x27 \<and> i + 1 < n \<and> s ! (i - 1) = 0x20 \<and> s ! (i + 1) = 0x20
        then clean_apostrophes n (i + 2) tot ((s[i + 1 := 0])[tot - 1 := x])
        else clean_apostrophes n (Suc i) (Suc tot) (s[tot := x])
      else (tot, s))"
  by pat_completeness auto
termination by (relation "measure (\<lambda>(n, i, tot, s). n - i)") auto

definition contracts :: "nat \<Rightarrow> nat \<Rightarrow> u8 list \<Rightarrow> bool" where
  "contracts n i s \<longleftrightarrow> s ! (i - 1) = 0x20 \<and> s ! i = 0x27 \<and> i + 1 < n \<and>
     (let x1 = s ! (i + 1) in
      \<not> (x1 = 0x74 \<or> x1 = 0x64) \<and>
      (x1 = 0x73 \<or> x1 = 0x6D \<or>
       i + 2 < n \<and> (let x2 = s ! (i + 2) in \<not> (x1 = 0x6C \<and> x2 = 0x6C) \<and> (x1 = 0x72 \<and> x2 = 0x65 \<or> x1 = 0x76 \<and> x2 = 0x65))))"

definition clean_contractions :: "nat \<Rightarrow> nat \<Rightarrow> nat \<Rightarrow> u8 list \<Rightarrow> nat \<times> u8 list" where
  "clean_contractions = clean_pass contracts"

declare clean_pass.simps [simp del] clean_apostrophes.simps [simp del]

definition run_pass :: "(nat \<Rightarrow> nat \<Rightarrow> nat \<Rightarrow> u8 list \<Rightarrow> nat \<times> u8 list) \<Rightarrow> nat \<times> u8 list \<Rightarrow> nat \<times> u8 list" where
  "run_pass pass = (\<lambda>(n, s). pass n 1 (if n = 0 then 0 else 1) s)"

definition clean_up :: "u8 list \<Rightarrow> u8 list" where
  "clean_up s = (let (n, s') = run_pass clean_contractions (run_pass clean_apostrophes (run_pass clean_punctuation (length s, s))) in take n s')"

subsection \<open>Detokenizing\<close>

text \<open>The state of the loop: room left, count, the text written, and whether a leading blank is to go.\<close>

definition detokenize_step ::
  "('s, 'z) llama_vocab_scheme \<Rightarrow> bool \<Rightarrow> int \<Rightarrow> int \<times> int \<times> u8 list \<times> bool \<Rightarrow> (int \<times> int \<times> u8 list \<times> bool) result" where
  "detokenize_step V unparse_special tok = (\<lambda>(avail, tot, text_out, remove_space).
     rbind (rassert ''avail >= 0'' (avail \<ge> 0)) (\<lambda>_.
     rbind (token_to_piece V tok avail (if remove_space then 1 else 0) unparse_special) (\<lambda>(n_chars, piece).
     if n_chars < 0 then rbind (i32 (tot - n_chars)) (\<lambda>tot'. Inr (0, tot', text_out, False))
     else rbind (i32 (tot + n_chars)) (\<lambda>tot'. Inr (avail - n_chars, tot', text_out @ piece, False)))))"

definition detokenize ::
  "('s, 'z) llama_vocab_scheme \<Rightarrow> int list \<Rightarrow> int \<Rightarrow> bool \<Rightarrow> bool \<Rightarrow> (int \<times> u8 list) result" where
  "detokenize V tokens text_len_max remove_special unparse_special =
     (if vtype V = LLAMA_VOCAB_TYPE_NONE then Inr (0, [])
      else
        let cut_bos = remove_special \<and> add_bos V \<and> tokens \<noteq> [] \<and> hd tokens = special_bos_id V;
            tokens1 = (if cut_bos then tl tokens else tokens);
            tokens2 = (if remove_special \<and> add_eos V \<and> tokens1 \<noteq> [] \<and> last tokens1 = special_eos_id V then butlast tokens1 else tokens1) in
        rbind (rfold (detokenize_step V unparse_special) tokens2 (text_len_max, 0, [], add_space_prefix V \<and> \<not> cut_bos)) (\<lambda>(_, tot, text_out, _).
        if tot > text_len_max then Inr (- tot, text_out)
        else let cleaned = (if clean_spaces V then clean_up text_out else text_out) in Inr (int (length cleaned), cleaned)))"

section \<open>Cleaning up deletes blanks only\<close>

abbreviation no_blanks :: "u8 list \<Rightarrow> u8 list" where
  "no_blanks \<equiv> filter (\<lambda>c. c \<noteq> 0x20)"

text \<open>Where a pass stands: it has written \<open>tot\<close> bytes and read \<open>i\<close>; a blank just read is the last byte written.\<close>

definition pass_at :: "nat \<Rightarrow> nat \<Rightarrow> nat \<Rightarrow> u8 list \<Rightarrow> bool" where
  "pass_at n i tot s \<longleftrightarrow> 1 \<le> tot \<and> tot \<le> i \<and> i \<le> n \<and> n \<le> length s \<and> (s ! (i - 1) = 0x20 \<longrightarrow> s ! (tot - 1) = 0x20)"

definition pass_ok :: "nat \<Rightarrow> nat \<Rightarrow> nat \<Rightarrow> u8 list \<Rightarrow> nat \<times> u8 list \<Rightarrow> bool" where
  "pass_ok n i tot s r \<longleftrightarrow> fst r \<le> n \<and> length (snd r) = length s \<and>
     no_blanks (take (fst r) (snd r)) = no_blanks (take tot s @ take (n - i) (drop i s))"

lemma no_blanks_drop_last:
  "1 \<le> tot \<Longrightarrow> tot \<le> length s \<Longrightarrow> s ! (tot - 1) = 0x20 \<Longrightarrow> no_blanks (take (tot - 1) s) = no_blanks (take tot s)"
  using take_Suc_conv_app_nth [of "tot - 1" s] by simp

lemma take_drop_Cons: "i < n \<Longrightarrow> n \<le> length s \<Longrightarrow> take (n - i) (drop i s) = s ! i # take (n - Suc i) (drop (Suc i) s)"
  by (metis Cons_nth_drop_Suc Suc_diff_Suc less_le_trans take_Suc_Cons)

lemma clean_pass_keeps:
  assumes "\<And>n i s. drops n i s \<Longrightarrow> s ! (i - 1) = 0x20"
  shows "pass_at n i tot s \<Longrightarrow> pass_ok n i tot s (clean_pass drops n i tot s)"
proof (induction "n - i" arbitrary: i tot s rule: less_induct)
  case less
  show ?case
  proof (cases "i < n")
    case True
    define t where "t = (if drops n i s then tot - 1 else tot)"
    define s1 where "s1 = s[t := s ! i]"
    have at: "1 \<le> tot" "tot \<le> i" "n \<le> length s" using less.prems unfolding pass_at_def by auto
    have t: "t \<le> i" "no_blanks (take t s) = no_blanks (take tot s)"
      using at True assms [of n i s] less.prems no_blanks_drop_last [of tot s] unfolding t_def pass_at_def by auto
    have "s1 ! i = s ! i" "s1 ! t = s ! i" using t(1) True at unfolding s1_def by (auto simp: nth_list_update)
    then have "pass_at n (Suc i) (Suc t) s1" using True at t(1) unfolding pass_at_def s1_def by auto
    then have "pass_ok n (Suc i) (Suc t) s1 (clean_pass drops n (Suc i) (Suc t) s1)" using less.hyps True by simp
    moreover have "take (Suc t) s1 = take t s @ [s ! i]" "drop (Suc i) s1 = drop (Suc i) s"
      using t(1) True at unfolding s1_def by (simp_all add: take_Suc_conv_app_nth)
    moreover have "clean_pass drops n i tot s = clean_pass drops n (Suc i) (Suc t) s1"
      using True unfolding s1_def t_def by (subst clean_pass.simps) (simp add: Let_def)
    ultimately show ?thesis using t(2) take_drop_Cons [OF True at(3)] unfolding pass_ok_def by (simp add: s1_def)
  next
    case False
    then have "clean_pass drops n i tot s = (tot, s)" by (subst clean_pass.simps) simp
    then show ?thesis using False less.prems unfolding pass_at_def pass_ok_def by simp
  qed
qed

lemma clean_apostrophes_keeps:
  "pass_at n i tot s \<Longrightarrow> pass_ok n i tot s (clean_apostrophes n i tot s)"
proof (induction "n - i" arbitrary: i tot s rule: less_induct)
  case less
  note at = less.prems [unfolded pass_at_def]
  consider (strip) "i < n" "s ! i = 0x27 \<and> i + 1 < n \<and> s ! (i - 1) = 0x20 \<and> s ! (i + 1) = 0x20"
    | (copy) "i < n" "\<not> (s ! i = 0x27 \<and> i + 1 < n \<and> s ! (i - 1) = 0x20 \<and> s ! (i + 1) = 0x20)" | (stop) "i = n"
    using at by linarith
  then show ?case
  proof cases
    case strip
    define s1 where "s1 = (s[i + 1 := 0])[tot - 1 := s ! i]"
    have "pass_at n (i + 2) tot s1" using strip at unfolding pass_at_def s1_def by (auto simp: nth_list_update)
    then have "pass_ok n (i + 2) tot s1 (clean_apostrophes n (i + 2) tot s1)" using less.hyps strip(1) by simp
    moreover have "take tot s1 = take (tot - 1) s @ [s ! i]"
    proof -
      have "tot - 1 < length s" "tot - 1 < i + 1" using at strip by auto
      then have "tot = Suc (tot - 1)" "tot - 1 < length s1" "s1 ! (tot - 1) = s ! i" "take (tot - 1) s1 = take (tot - 1) s"
        using at strip unfolding s1_def by simp_all
      then show ?thesis using take_Suc_conv_app_nth [of "tot - 1" s1] by metis
    qed
    moreover have "drop (i + 2) s1 = drop (i + 2) s"
    proof -
      have "tot - 1 < i + 2" using at by linarith
      then show ?thesis unfolding s1_def by simp
    qed
    moreover have "clean_apostrophes n i tot s = clean_apostrophes n (i + 2) tot s1"
      using strip unfolding s1_def by (subst clean_apostrophes.simps) (simp add: Let_def)
    moreover have "take (n - i) (drop i s) = s ! i # s ! (i + 1) # take (n - (i + 2)) (drop (i + 2) s)"
      using take_drop_Cons [of i n s] take_drop_Cons [of "Suc i" n s] strip at by simp
    ultimately show ?thesis using no_blanks_drop_last [of tot s] at strip unfolding pass_ok_def by (simp add: s1_def)
  next
    case copy
    define s1 where "s1 = s[tot := s ! i]"
    have "s1 ! i = s ! i" "s1 ! tot = s ! i" using at copy(1) unfolding s1_def by (auto simp: nth_list_update)
    then have "pass_at n (Suc i) (Suc tot) s1" using copy(1) at unfolding pass_at_def s1_def by auto
    then have "pass_ok n (Suc i) (Suc tot) s1 (clean_apostrophes n (Suc i) (Suc tot) s1)" using less.hyps copy(1) by simp
    moreover have "take (Suc tot) s1 = take tot s @ [s ! i]" "drop (Suc i) s1 = drop (Suc i) s"
      using at copy(1) unfolding s1_def by (simp_all add: take_Suc_conv_app_nth)
    moreover have "clean_apostrophes n i tot s = clean_apostrophes n (Suc i) (Suc tot) s1"
      using copy unfolding s1_def by (subst clean_apostrophes.simps) (auto simp add: Let_def)
    ultimately show ?thesis using take_drop_Cons [of i n s] copy(1) at unfolding pass_ok_def by (simp add: s1_def)
  next
    case stop
    then have "clean_apostrophes n i tot s = (tot, s)" by (subst clean_apostrophes.simps) simp
    then show ?thesis using stop at unfolding pass_ok_def by simp
  qed
qed

lemma run_pass_keeps:
  assumes "\<And>i tot s. pass_at n i tot s \<Longrightarrow> pass_ok n i tot s (pass n i tot s)" "n \<le> length s" "pass 0 1 0 s = (0, s)"
  shows "fst (run_pass pass (n, s)) \<le> n \<and> length (snd (run_pass pass (n, s))) = length s \<and>
    no_blanks (take (fst (run_pass pass (n, s))) (snd (run_pass pass (n, s)))) = no_blanks (take n s)"
proof (cases "n = 0")
  case False
  then have "pass_ok n 1 1 s (pass n 1 1 s)" using assms(1,2) unfolding pass_at_def by simp
  moreover have "take 1 s @ take (n - 1) (drop 1 s) = take n s" using False take_add [of 1 "n - 1" s] by simp
  ultimately show ?thesis using False unfolding run_pass_def pass_ok_def by (simp only: prod.case if_False)
qed (use assms(3) in \<open>simp add: run_pass_def\<close>)

lemma clean_pass_stops: "clean_pass drops 0 1 0 s = (0, s)" "clean_apostrophes 0 1 0 s = (0, s)"
  by (subst clean_pass.simps, simp) (subst clean_apostrophes.simps, simp)

lemma clean_up_no_blanks: "no_blanks (clean_up s) = no_blanks s \<and> length (clean_up s) \<le> length s"
proof -
  define r1 where "r1 = run_pass clean_punctuation (length s, s)"
  define r2 where "r2 = run_pass clean_apostrophes r1"
  define r3 where "r3 = run_pass clean_contractions r2"
  have keeps: "pass_at n i tot u \<Longrightarrow> pass_ok n i tot u (clean_punctuation n i tot u)"
    "pass_at n i tot u \<Longrightarrow> pass_ok n i tot u (clean_contractions n i tot u)" for n i tot u
    unfolding clean_punctuation_def clean_contractions_def by (auto intro!: clean_pass_keeps simp: contracts_def)
  have stops: "clean_punctuation 0 1 0 u = (0, u)" "clean_contractions 0 1 0 u = (0, u)" for u
    unfolding clean_punctuation_def clean_contractions_def by (rule clean_pass_stops)+
  have 1: "fst r1 \<le> length s \<and> length (snd r1) = length s \<and> no_blanks (take (fst r1) (snd r1)) = no_blanks s"
    using run_pass_keeps [of "length s" clean_punctuation s, OF keeps(1) order_refl stops(1)] unfolding r1_def by simp
  then have 2: "fst r2 \<le> fst r1 \<and> length (snd r2) = length s \<and> no_blanks (take (fst r2) (snd r2)) = no_blanks s"
    using run_pass_keeps [of "fst r1" clean_apostrophes "snd r1", OF clean_apostrophes_keeps _ clean_pass_stops(2)]
    unfolding r2_def by simp
  then have "no_blanks (take (fst r3) (snd r3)) = no_blanks s \<and> fst r3 \<le> fst r2"
    using run_pass_keeps [of "fst r2" clean_contractions "snd r2", OF keeps(2) _ stops(2)] 1 unfolding r3_def by simp
  moreover have "clean_up s = take (fst r3) (snd r3)"
    unfolding clean_up_def r1_def [symmetric] r2_def [symmetric] r3_def [symmetric] by (simp add: case_prod_beta)
  ultimately show ?thesis using 1 2 by auto
qed

section \<open>The byte alphabet decodes\<close>

lemma byte_cpt_small:
  fixes b :: u8
  shows "byte_cpt (unat b) < 0x200" "byte_cpt (unat b) \<noteq> 0x20"
proof -
  have "holes (unat b) \<le> unat b" unfolding holes_def using length_filter_le [of _ "[0..<unat b]"] by simp
  moreover have "unat b < 256" using unsigned_less [of b, where ?'a = nat] by simp
  ultimately show "byte_cpt (unat b) < 0x200" unfolding byte_cpt_def by simp
  show "byte_cpt (unat b) \<noteq> 0x20" unfolding byte_cpt_def by (auto simp: byte_ranges_def)
qed

lemma image_encodes: "unicode_cpt_to_utf8 (of_nat (byte_cpt (unat b))) = Inr (byte_image b)"
  using byte_cpt_small(1) [of b] unfolding byte_image_def by (intro code_bytes) simp

lemma images_encode: "unicode_cpts_to_utf8 (map (\<lambda>b. of_nat (byte_cpt (unat b))) bs) = Inr (concat (map byte_image bs))"
proof -
  have "rfold (\<lambda>c acc. rbind (unicode_cpt_to_utf8 c) (\<lambda>s. Inr (acc @ s))) (map (\<lambda>b. of_nat (byte_cpt (unat b))) bs) acc
      = Inr (acc @ concat (map byte_image bs))" for acc
    by (induction bs arbitrary: acc) (simp_all add: image_encodes)
  then show ?thesis unfolding unicode_cpts_to_utf8_def by simp
qed

lemma decode_images: "llama_decode_text (concat (map byte_image bs)) = Inr bs"
proof -
  have "rmap (decode_cpt t) (map (\<lambda>b. of_nat (byte_cpt (unat b))) bs) = Inr (map (\<lambda>b. [b]) bs)" for t
    by (induction bs) (simp_all add: decode_cpt_def image_encodes utf8_to_byte_code [folded byte_image_def])
  then show ?thesis using decode_encoded [OF images_encode, of bs] by (simp add: llama_decode_text_def)
qed

lemma images_no_blank: "0x20 \<notin> set (concat (map byte_image bs))"
proof -
  have "0x20 \<notin> set (byte_image b)" for b
  proof
    assume "0x20 \<in> set (byte_image b)"
    then have "(of_nat (byte_cpt (unat b)) :: u32) = 0x20" by (rule encoded_length(3) [OF image_encodes])
    then have "unat (of_nat (byte_cpt (unat b)) :: u32) = 0x20" by simp
    then show False using byte_cpt_small [of b] by (simp add: unat_of_nat take_bit_nat_eq_self)
  qed
  then show ?thesis by simp
qed

lemma images_chars: "utf8_chars (concat (map byte_image bs)) = map byte_image bs"
  using image_encodes by (intro chars_of_encoded) auto

section \<open>Pieces\<close>

text \<open>A token has a piece when that is what \<open>token_to_piece\<close> copies, whatever the buffer.\<close>

definition has_piece :: "('s, 'z) llama_vocab_scheme \<Rightarrow> bool \<Rightarrow> int \<Rightarrow> u8 list \<Rightarrow> bool" where
  "has_piece V special tok p \<longleftrightarrow> (\<forall>len lstrip. token_to_piece V tok len lstrip special = try_copy len lstrip p)"

lemma detokenize_fold:
  "list_all2 (has_piece V sp) toks ps \<Longrightarrow> int (length (concat ps)) \<le> avail \<Longrightarrow> 0 \<le> tot \<Longrightarrow>
   tot + int (length (concat ps)) < INT32_MAX \<Longrightarrow>
   \<exists>avail'. rfold (detokenize_step V sp) toks (avail, tot, out, False) =
     Inr (avail', tot + int (length (concat ps)), out @ concat ps, False)"
proof (induction arbitrary: avail tot out rule: list_all2_induct)
  case (Cons tok toks p ps)
  have "token_to_piece V tok avail 0 sp = try_copy avail 0 p" using Cons.hyps(1) unfolding has_piece_def by blast
  then have "detokenize_step V sp tok (avail, tot, out, False) = Inr (avail - int (length p), tot + int (length p), out @ p, False)"
    using Cons.prems by (simp add: detokenize_step_def rassert_def try_copy_def i32_def INT32_MAX_def)
  then show ?case using Cons.IH [of "avail - int (length p)" "tot + int (length p)" "out @ p"] Cons.prems by (simp add: add.assoc)
qed simp

lemma detokenize_pieces:
  assumes "vtype V \<noteq> LLAMA_VOCAB_TYPE_NONE" "\<not> add_space_prefix V" "list_all2 (has_piece V sp) toks ps"
    and "int (length (concat ps)) \<le> len" "int (length (concat ps)) < INT32_MAX"
  shows "detokenize V toks len False sp =
    (let s = (if clean_spaces V then clean_up (concat ps) else concat ps) in Inr (int (length s), s))"
  using detokenize_fold [OF assms(3,4), of 0 "[]"] assms by (auto simp: detokenize_def Let_def)

text \<open>
  For the kinds of vocabulary whose tokens all go through \<open>_try_copy\<close>, the cache changes nothing: with or
  without it, \<open>token_to_piece\<close> gives the same answer for every buffer.
\<close>

definition copying_kind :: "llama_vocab_type \<Rightarrow> bool" where
  "copying_kind ty \<longleftrightarrow> ty \<in> {LLAMA_VOCAB_TYPE_SPM, LLAMA_VOCAB_TYPE_BPE, LLAMA_VOCAB_TYPE_WPM, LLAMA_VOCAB_TYPE_UGM}"

lemma uncached_piece:
  assumes "copying_kind (vtype V)" "cache_token_to_piece V = []" "token_to_piece_for_cache V tok True = Inr p"
  shows "token_to_piece V tok len ls sp =
    rbind (token_get_attr V tok) (\<lambda>attr. if \<not> sp \<and> has_attr attr ATTR_SPECIAL then Inr (0, []) else try_copy len ls p)"
proof (cases "token_get_attr V tok")
  case (Inr attr)
  define plain where "plain = (if vtype V = LLAMA_VOCAB_TYPE_BPE \<and> \<not> escape_whitespaces V then llama_decode_text else (\<lambda>s. Inr (llama_unescape_whitespace s)))"
  define po where "po = piece_of V tok attr (ttext (id_to_token V ! nat tok)) plain"
  have piece: "token_to_piece V tok len ls True = rbind po (\<lambda>p. case p of Some piece \<Rightarrow> try_copy len ls piece | None \<Rightarrow> Inr (0, []))" for len ls
    using Inr assms(1,2) unfolding token_to_piece_def copying_kind_def po_def plain_def by (auto simp: Let_def)
  have "token_to_piece V tok len ls True = try_copy len ls p" for len ls
  proof (cases po)
    case (Inl e)
    then show ?thesis using assms(3) piece unfolding token_to_piece_for_cache_def by simp
  next
    case po: (Inr o')
    show ?thesis
    proof (cases o')
      case None
      then have "p = []" using assms(3) piece po unfolding token_to_piece_for_cache_def by simp
      then show ?thesis using piece po None by (simp add: try_copy_def INT32_MAX_def Let_def)
    next
      case (Some q)
      have "try_copy SSO_CAPACITY 0 q \<noteq> Inl e" for e
        using assms(3) piece po Some unfolding token_to_piece_for_cache_def by auto
      then have "\<not> INT32_MAX \<le> int (length q)" unfolding try_copy_def by metis
      then have "p = q" using assms(3) piece po Some unfolding token_to_piece_for_cache_def
        by (auto simp: try_copy_def Let_def rassert_def split: if_splits)
      then show ?thesis using piece po Some by simp
    qed
  qed
  moreover have "sp \<or> \<not> has_attr attr ATTR_SPECIAL \<Longrightarrow> token_to_piece V tok len ls sp = token_to_piece V tok len ls True"
    using Inr unfolding token_to_piece_def by auto
  ultimately show ?thesis using Inr by (auto simp: token_to_piece_def)
qed (simp add: token_to_piece_def)

lemma cache_same_piece:
  assumes "copying_kind (vtype V)" "cache_token_to_piece V = []" "build_piece_cache V = Inr cache" "cache \<noteq> []"
  shows "token_to_piece (V\<lparr>cache_token_to_piece := cache\<rparr>) tok len ls sp = token_to_piece V tok len ls sp"
proof -
  have attr: "token_get_attr (V\<lparr>cache_token_to_piece := cache\<rparr>) tok = token_get_attr V tok"
    by (simp add: token_get_attr_def has_vocab_def)
  show ?thesis
  proof (cases "token_get_attr V tok")
    case (Inl e)
    then show ?thesis using attr by (simp add: token_to_piece_def)
  next
    case (Inr a)
    then have tok: "0 \<le> tok" "nat tok < length (id_to_token V)"
      by (auto simp: token_get_attr_def has_vocab_def rassert_def vector_at_def split: if_splits)
    have len: "length cache = length (id_to_token V)" "token_to_piece_for_cache V tok True = Inr (cache ! nat tok)"
      using rmap_nth [OF assms(3) [unfolded build_piece_cache_def], of "nat tok"] rmap_length [OF assms(3) [unfolded build_piece_cache_def]] tok
      by simp_all
    then show ?thesis using uncached_piece [OF assms(1,2) len(2), of len ls sp] Inr attr tok assms(4)
      by (auto simp: token_to_piece_def vector_at_def)
  qed
qed

text \<open>No cache yet, or the one the loader builds.\<close>

definition piece_cache :: "('s, 'z) llama_vocab_scheme \<Rightarrow> bool" where
  "piece_cache V \<longleftrightarrow> cache_token_to_piece V = [] \<or>
     build_piece_cache (V\<lparr>cache_token_to_piece := []\<rparr>) = Inr (cache_token_to_piece V)"

lemma has_piece_cached:
  assumes "piece_cache V" "copying_kind (vtype V)" "has_piece (V\<lparr>cache_token_to_piece := []\<rparr>) sp tok p"
  shows "has_piece V sp tok p"
proof (cases "cache_token_to_piece V = []")
  case True
  then have "V\<lparr>cache_token_to_piece := []\<rparr> = V" by simp
  then show ?thesis using assms(3) by simp
next
  case False
  then have "token_to_piece V tok len ls sp = token_to_piece (V\<lparr>cache_token_to_piece := []\<rparr>) tok len ls sp" for len ls
    using cache_same_piece [of "V\<lparr>cache_token_to_piece := []\<rparr>" "cache_token_to_piece V" tok len ls sp] assms(1,2)
    unfolding piece_cache_def by simp
  then show ?thesis using assms(3) unfolding has_piece_def by simp
qed

text \<open>A normal token of a BPE vocabulary stands for the bytes whose images make up its text.\<close>

lemma bpe_piece:
  assumes "vtype V = LLAMA_VOCAB_TYPE_BPE" "\<not> escape_whitespaces V" "piece_cache V"
    and "0 \<le> tok" "nat tok < length (id_to_token V)" "tattr (id_to_token V ! nat tok) = ATTR_NORMAL"
    and "ttext (id_to_token V ! nat tok) = concat (map byte_image bs)"
  shows "has_piece V sp tok bs"
proof (rule has_piece_cached)
  show "piece_cache V" "copying_kind (vtype V)" using assms by (simp_all add: copying_kind_def)
  have "\<not> has_attr ATTR_NORMAL ATTR_SPECIAL" "\<not> has_attr ATTR_NORMAL (ATTR_SPECIAL OR ATTR_USER_DEFINED)" "has_attr ATTR_NORMAL ATTR_NORMAL"
    by code_simp+
  then show "has_piece (V\<lparr>cache_token_to_piece := []\<rparr>) sp tok bs" using assms decode_images [of bs]
    by (simp add: has_piece_def token_to_piece_def token_get_attr_def has_vocab_def rassert_def vector_at_def piece_of_def Let_def)
qed

text \<open>With a blank put in front of the text, the first piece loses it again.\<close>

lemma detokenize_prefixed:
  assumes "vtype V \<noteq> LLAMA_VOCAB_TYPE_NONE" "add_space_prefix V" "\<not> clean_spaces V"
    and "list_all2 (has_piece V sp) (tok # toks) ((0x20 # p) # ps)"
    and "int (length (p @ concat ps)) \<le> len" "int (length (p @ concat ps)) < INT32_MAX - 1"
  shows "detokenize V (tok # toks) len False sp = Inr (int (length (p @ concat ps)), p @ concat ps)"
proof -
  have "token_to_piece V tok len 1 sp = try_copy len 1 (0x20 # p)" using assms(4) unfolding has_piece_def by auto
  then have "detokenize_step V sp tok (len, 0, [], True) = Inr (len - int (length p), int (length p), p, False)"
    using assms(5,6) by (auto simp: detokenize_step_def rassert_def try_copy_def i32_def INT32_MAX_def)
  moreover obtain avail' where "rfold (detokenize_step V sp) toks (len - int (length p), int (length p), p, False) =
      Inr (avail', int (length (p @ concat ps)), p @ concat ps, False)"
    using detokenize_fold [of V sp toks ps "len - int (length p)" "int (length p)" p] assms(4-6) by auto
  ultimately show ?thesis using assms(1-3,5) by (simp add: detokenize_def Let_def)
qed

section \<open>Byte tokens\<close>

lemma hex_digit:
  assumes "n < 16"
  shows "hex_value (hex_digits ! n) = Some (int n)" "\<not> is_space (hex_digits ! n)" "hex_digits ! n \<noteq> 0x2D" "hex_digits ! n \<noteq> 0x2B"
proof -
  have "list_all (\<lambda>n. hex_value (hex_digits ! n) = Some (int n) \<and> \<not> is_space (hex_digits ! n) \<and>
    hex_digits ! n \<noteq> 0x2D \<and> hex_digits ! n \<noteq> 0x2B) [0..<16]" by code_simp
  then show "hex_value (hex_digits ! n) = Some (int n)" "\<not> is_space (hex_digits ! n)" "hex_digits ! n \<noteq> 0x2D" "hex_digits ! n \<noteq> 0x2B"
    using assms by (auto simp: list_all_iff)
qed

lemma nibbles: "unat (drop_bit 4 (b :: u8)) < 16" "unat (b AND 15) < 16" "16 * int (unat (drop_bit 4 b)) + int (unat (b AND 15)) = uint b"
proof -
  have b: "unat b < 256" using unsigned_less [of b, where ?'a = nat] by simp
  have hi: "unat (drop_bit 4 b) = unat b div 16" by (simp only: unat_drop_bit_u8) simp
  have "b AND 15 = take_bit 4 b" by (simp add: take_bit_eq_mask mask_numeral flip: numeral_One)
  then have lo: "unat (b AND 15) = unat b mod 16" by (simp add: take_bit_eq_mod unat_mod_distrib)
  show "unat (drop_bit 4 b) < 16" "unat (b AND 15) < 16" using b hi lo by auto
  have "int (16 * (unat b div 16) + unat b mod 16) = int (unat b)" by (simp only: mult_div_mod_eq)
  then show "16 * int (unat (drop_bit 4 b)) + int (unat (b AND 15)) = uint b"
    unfolding hi lo of_nat_add of_nat_mult by simp
qed

lemma byte_name_value: "strtol16 (take 2 (drop 3 (byte_name b))) = uint b" "length (byte_name b) = 6"
proof -
  have "drop 3 (byte_name b) = [hex_digits ! unat (drop_bit 4 b), hex_digits ! unat (b AND 15), 0x3E]"
    by (simp add: byte_name_def ascii_def)
  then show "strtol16 (take 2 (drop 3 (byte_name b))) = uint b"
    using hex_digit [OF nibbles(1) [of b]] hex_digit [OF nibbles(2) [of b]] nibbles(3) [of b] by (simp add: strtol16_def)
  show "length (byte_name b) = 6" by (simp add: byte_name_def ascii_def)
qed

text \<open>Pieces of a sentence piece vocabulary.\<close>

lemma spm_normal_piece:
  assumes "vtype V = LLAMA_VOCAB_TYPE_SPM" "piece_cache V" "0 \<le> tok" "nat tok < length (id_to_token V)"
    and "tattr (id_to_token V ! nat tok) = ATTR_NORMAL" "ttext (id_to_token V ! nat tok) = p"
  shows "has_piece V sp tok (llama_unescape_whitespace p)"
proof (rule has_piece_cached)
  show "piece_cache V" "copying_kind (vtype V)" using assms by (simp_all add: copying_kind_def)
  have "\<not> has_attr ATTR_NORMAL ATTR_SPECIAL" "\<not> has_attr ATTR_NORMAL (ATTR_SPECIAL OR ATTR_USER_DEFINED)" "has_attr ATTR_NORMAL ATTR_NORMAL"
    by code_simp+
  then show "has_piece (V\<lparr>cache_token_to_piece := []\<rparr>) sp tok (llama_unescape_whitespace p)" using assms
    by (simp add: has_piece_def token_to_piece_def token_get_attr_def has_vocab_def rassert_def vector_at_def piece_of_def Let_def)
qed

lemma spm_byte_piece:
  assumes "vtype V = LLAMA_VOCAB_TYPE_SPM" "piece_cache V" "0 \<le> tok" "nat tok < length (id_to_token V)"
    and "tattr (id_to_token V ! nat tok) = ATTR_BYTE" "ttext (id_to_token V ! nat tok) = byte_name b"
  shows "has_piece V sp tok [b]"
proof (rule has_piece_cached)
  show "piece_cache V" "copying_kind (vtype V)" using assms by (simp_all add: copying_kind_def)
  have "\<not> has_attr ATTR_BYTE ATTR_SPECIAL" "\<not> has_attr ATTR_BYTE (ATTR_SPECIAL OR ATTR_USER_DEFINED)"
    "\<not> has_attr ATTR_BYTE ATTR_NORMAL" "has_attr ATTR_BYTE ATTR_BYTE" by code_simp+
  moreover have "token_to_byte (V\<lparr>cache_token_to_piece := []\<rparr>) tok = Inr b"
    using assms calculation(4) byte_name_value [of b]
    by (simp add: token_to_byte_def has_vocab_def rassert_def token_is_def vector_at_def)
  ultimately show "has_piece (V\<lparr>cache_token_to_piece := []\<rparr>) sp tok [b]" using assms
    by (simp add: has_piece_def token_to_piece_def token_get_attr_def has_vocab_def rassert_def vector_at_def piece_of_def Let_def)
qed

end
