(* ===== verification/Tokenizer_Bpe_Correct.thy ===== *)
theory Tokenizer_Bpe_Correct
  imports Tokenizer_Bpe Detokenize
begin

text \<open>
  Tokenizing with byte pair encoding and detokenizing again, composed: splitting into words, byte
  encoding, merging, looking up the tokens, and the way back through \<open>detokenize\<close>.
\<close>

section \<open>Round trip\<close>

text \<open>
  A complete vocabulary: every byte has a token, every merge makes a token, and a token's text is the one
  that it is found under. These are the vocabularies that byte pair encoding is trained to produce.
\<close>

definition bpe_vocab_ok :: "('s, 'z) llama_vocab_scheme \<Rightarrow> bool" where
  "bpe_vocab_ok V \<longleftrightarrow> vtype V = LLAMA_VOCAB_TYPE_BPE \<and> \<not> escape_whitespaces V \<and> piece_cache V \<and>
     (\<forall>b. token_to_id V (byte_image b) \<noteq> None) \<and>
     (\<forall>v w r. bpe_ranks V (v, w) = Some r \<and> 0 \<le> r \<longrightarrow> token_to_id V (v @ w) \<noteq> None) \<and>
     (\<forall>s tok. token_to_id V s = Some tok \<longrightarrow> 0 \<le> tok \<and> nat tok < length (id_to_token V) \<and>
        ttext (id_to_token V ! nat tok) = s \<and> tattr (id_to_token V ! nat tok) = ATTR_NORMAL)"

text \<open>A string of the byte alphabet that is a token.\<close>

definition token_image :: "('s, 'z) llama_vocab_scheme \<Rightarrow> u8 list \<Rightarrow> bool" where
  "token_image V p \<longleftrightarrow> token_to_id V p \<noteq> None \<and> (\<exists>bs. p = concat (map byte_image bs))"

lemma pieces_are_tokens:
  assumes "bpe_vocab_ok V"
  shows "\<forall>p \<in> set (bpe_pieces V (concat (map byte_image w))). token_image V p"
proof -
  have chars: "\<forall>p \<in> set (map byte_image w). token_image V p"
    using assms unfolding bpe_vocab_ok_def token_image_def by (auto intro!: exI [of _ "[b]" for b])
  have "token_image V (v @ u)" if tok: "token_image V v" "token_image V u" "bpe_key V v u = Some k" for v u k
  proof -
    obtain r where "bpe_ranks V (v, u) = Some r" "0 \<le> r"
      using tok(3) by (auto simp: bpe_key_def split: option.splits if_splits)
    then have "token_to_id V (v @ u) \<noteq> None" using assms unfolding bpe_vocab_ok_def by blast
    moreover have "\<exists>bs. v @ u = concat (map byte_image bs)"
      using tok(1,2) unfolding token_image_def by (metis concat_append map_append)
    ultimately show ?thesis unfolding token_image_def by blast
  qed
  then have "\<forall>p \<in> set (greedy_merge (<) (bpe_key V) (map byte_image w)). token_image V p"
    using greedy_merge_all [OF chars] by blast
  then show ?thesis unfolding bpe_pieces_def
    by (auto simp: images_chars token_image_def whole_word_def lookup_def split: option.splits)
qed

lemma pieces_concat: "concat (bpe_pieces V w) = w"
  by (simp add: bpe_pieces_def greedy_merge_concat utf8_chars_concat)

lemma tokens_have_pieces:
  assumes "bpe_vocab_ok V" "\<forall>p \<in> set ps. token_image V p"
  shows "\<exists>bss. list_all2 (has_piece V sp) (concat (map (tokens_of V tz) ps)) bss \<and> concat (map byte_image (concat bss)) = concat ps"
  using assms(2)
proof (induction ps)
  case (Cons p ps)
  obtain bss where bss: "list_all2 (has_piece V sp) (concat (map (tokens_of V tz) ps)) bss"
    "concat (map byte_image (concat bss)) = concat ps" using Cons by auto
  obtain tok bs where p: "token_to_id V p = Some tok" "p = concat (map byte_image bs)"
    using Cons.prems unfolding token_image_def by auto
  have tok: "0 \<le> tok" "nat tok < length (id_to_token V)" "ttext (id_to_token V ! nat tok) = p" "tattr (id_to_token V ! nat tok) = ATTR_NORMAL"
    using assms(1) p(1) unfolding bpe_vocab_ok_def by blast+
  then have "tokens_of V tz p = [tok]" using p(1) by (simp add: tokens_of_def lookup_def LLAMA_TOKEN_NULL_def)
  moreover have "has_piece V sp tok bs"
    using assms(1) tok p(2) by (intro bpe_piece) (auto simp: bpe_vocab_ok_def)
  ultimately show ?case using bss p(2) by (intro exI [of _ "bs # bss"]) simp
qed simp

lemma images_inj: "concat (map byte_image bs) = concat (map byte_image cs) \<Longrightarrow> bs = cs"
  by (drule arg_cong [of _ _ llama_decode_text]) (simp add: decode_images)


text \<open>A token for every byte, and one merge.\<close>

definition byte_vocab :: "int llama_vocab" where
  "byte_vocab = ab_vocab\<lparr>
     token_to_id := (\<lambda>s. if s = ascii ''ab'' then Some 256 else map_of (map (\<lambda>k. (byte_image (of_nat k), int k)) [0..<256]) s),
     id_to_token := map (\<lambda>k. \<lparr>ttext = byte_image (of_nat k), score = 0, tattr = ATTR_NORMAL\<rparr>) [0..<256] @ [ab_token ''ab''],
     bpe_ranks := [(ascii ''a'', ascii ''b'') \<mapsto> 0]\<rparr>"

lemma byte_vocab_ok: "bpe_vocab_ok byte_vocab"
proof -
  define m where "m = map_of (map (\<lambda>k. (byte_image (of_nat k), int k)) [0..<256])"
  have "m (byte_image b) \<noteq> None" for b
  proof -
    have "(byte_image b, int (unat b)) \<in> set (map (\<lambda>k. (byte_image (of_nat k), int k)) [0..<256])"
      using unsigned_less [of b, where ?'a = nat] by (auto intro!: image_eqI [of _ _ "unat b"])
    then show ?thesis unfolding m_def by (metis weak_map_of_SomeI option.distinct(1))
  qed
  moreover have "0 \<le> tok \<and> nat tok < 256 \<and> byte_image (of_nat (nat tok)) = s" if "m s = Some tok" for s tok
    using map_of_SomeD [OF that [unfolded m_def]] by auto
  moreover have "token_to_id byte_vocab = (\<lambda>s. if s = ascii ''ab'' then Some 256 else m s)"
    unfolding m_def by (simp add: byte_vocab_def)
  moreover have "id_to_token byte_vocab = map (\<lambda>k. \<lparr>ttext = byte_image (of_nat k), score = 0, tattr = ATTR_NORMAL\<rparr>) [0..<256] @ [ab_token ''ab'']"
    "vtype byte_vocab = LLAMA_VOCAB_TYPE_BPE" "\<not> escape_whitespaces byte_vocab" "piece_cache byte_vocab"
    "bpe_ranks byte_vocab = [(ascii ''a'', ascii ''b'') \<mapsto> 0]"
    by (simp_all add: byte_vocab_def ab_vocab_def piece_cache_def)
  moreover have "ascii ''a'' @ ascii ''b'' = ascii ''ab''" by (simp add: ascii_def)
  ultimately show ?thesis unfolding bpe_vocab_ok_def
    by (fastforce simp: nth_append ab_token_def split: if_splits)
qed


end
