(* ===== verification/Tokenizer_Spm.thy ===== *)
theory Tokenizer_Spm
  imports Tokenizer_Bpe
begin

text \<open>
  The sentence piece tokenizer of \<open>src/llama-vocab.cpp\<close>, \<open>llm_tokenizer_spm_session\<close>: the same merge loop as
  for byte pair encoding, with two neighbours being candidates when their concatenation is a token,
  the one of highest score first. What is left is looked up again by \<open>resegment\<close>; a symbol that is no
  token becomes the tokens of its bytes. The session remembers in \<open>rev_merge\<close> what each candidate was made
  of, for symbols that are not tokens themselves; as only tokens get there, that branch is never taken.
\<close>

section \<open>Definitions\<close>

record 's spm_bigram = bigram +
  bscore :: 's

record 's spm_session = "'s spm_bigram session" +
  rev_merge :: "u8 list \<rightharpoonup> int \<times> int"

definition spm_after :: "'s::linorder spm_bigram \<Rightarrow> 's spm_bigram \<Rightarrow> bool" where
  "spm_after l r \<longleftrightarrow> bscore l < bscore r \<or> bscore l = bscore r \<and> bleft l > bleft r"

definition spm_stale :: "'s spm_bigram \<Rightarrow> llm_symbol \<Rightarrow> llm_symbol \<Rightarrow> bool result" where
  "spm_stale b left_sym right_sym = Inr (sn left_sym + sn right_sym \<noteq> bsize b)"

definition try_add_bigram ::
  "('s::linorder, 'z) llama_vocab_scheme \<Rightarrow> int \<Rightarrow> int \<Rightarrow> 's spm_session \<Rightarrow> 's spm_session result" where
  "try_add_bigram V left right st =
     (if left = -1 \<or> right = -1 then Inr st
      else rbind (sym_at (symbols st) left) (\<lambda>l. rbind (sym_at (symbols st) right) (\<lambda>r.
        rbind (sym_string (l\<lparr>sn := sn l + sn r\<rparr>)) (\<lambda>t.
        rbind (text_to_token V t) (\<lambda>token.
        if token = LLAMA_TOKEN_NULL then Inr st
        else if u32_of_int token \<ge> n_tokens V then Inr st
        else rbind (get_token_data V token) (\<lambda>tok_data.
          Inr (st\<lparr>work_queue := heap_push spm_after
                 \<lparr>bleft = left, bright = right, bsize = length t, bscore = score tok_data\<rparr> (work_queue st),
               rev_merge := (rev_merge st)(t \<mapsto> (left, right))\<rparr>)))))))"

primrec resegment ::
  "nat \<Rightarrow> ('s::linorder, 'z) llama_vocab_scheme \<Rightarrow> 's spm_session \<Rightarrow> llm_symbol \<Rightarrow> int list \<Rightarrow> int list result" where
  "resegment 0 V st s out = Inl OutOfFuel"
| "resegment (Suc n) V st s out =
     rbind (sym_string s) (\<lambda>t. rbind (text_to_token V t) (\<lambda>token.
     if token \<noteq> LLAMA_TOKEN_NULL then Inr (out @ [token])
     else case rev_merge st t of
       None \<Rightarrow> rfold (\<lambda>c acc. rbind (byte_to_token V c) (\<lambda>tok. Inr (acc @ [tok]))) t out
     | Some (l, r) \<Rightarrow>
         rbind (sym_at (symbols st) l) (\<lambda>ls. rbind (resegment n V st ls out) (\<lambda>out'.
         rbind (sym_at (symbols st) r) (\<lambda>rs. resegment n V st rs out')))))"

definition spm_tokenize :: "('s::linorder, 'z) llama_vocab_scheme \<Rightarrow> u8 list \<Rightarrow> int list \<Rightarrow> int list result" where
  "spm_tokenize V t out =
     rbind (merge_all spm_after spm_stale (try_add_bigram V)
       \<lparr>symbols = split_symbols t 0, work_queue = [], rev_merge = Map.empty\<rparr>) (\<lambda>st.
     chain_walk (length (symbols st)) (resegment (Suc (length (symbols st))) V st) (symbols st) 0 out)"

section \<open>The merge loop is the reference\<close>

definition spm_key :: "('s::linorder, 'z) llama_vocab_scheme \<Rightarrow> u8 list \<Rightarrow> u8 list \<Rightarrow> 's option" where
  "spm_key V v w = (case token_to_id V (v @ w) of
       None \<Rightarrow> None
     | Some tok \<Rightarrow> if tok = LLAMA_TOKEN_NULL \<or> u32_of_int tok \<ge> n_tokens V then None else Some (score (id_to_token V ! nat tok)))"

text \<open>A vocabulary of a size and with token numbers that an \<open>int32_t\<close> can hold.\<close>

definition spm_vocab :: "('s, 'z) llama_vocab_scheme \<Rightarrow> bool" where
  "spm_vocab V \<longleftrightarrow> vtype V \<noteq> LLAMA_VOCAB_TYPE_NONE \<and> length (id_to_token V) \<le> 2147483648 \<and>
     (\<forall>t tok. token_to_id V t = Some tok \<longrightarrow> -2147483648 \<le> tok \<and> tok \<le> 2147483647)"

definition rev_merge_ok :: "('s::linorder, 'z) llama_vocab_scheme \<Rightarrow> 's spm_session \<Rightarrow> bool" where
  "rev_merge_ok V st \<longleftrightarrow> spm_vocab V \<and> (\<forall>t \<in> dom (rev_merge st). lookup V t \<noteq> LLAMA_TOKEN_NULL)"

lemma small_token:
  assumes "spm_vocab V" "token_to_id V t = Some tok" "\<not> u32_of_int tok \<ge> n_tokens V"
  shows "get_token_data V tok = Inr (id_to_token V ! nat tok)"
proof -
  have tok: "-2147483648 \<le> tok" "tok \<le> 2147483647" and len: "length (id_to_token V) \<le> 2147483648"
    using assms(1,2) unfolding spm_vocab_def by blast+
  have n: "n_tokens V = length (id_to_token V)" using len by (simp add: n_tokens_def)
  have "0 \<le> tok"
  proof (rule ccontr)
    assume "\<not> 0 \<le> tok"
    then have "tok mod 4294967296 = tok + 4294967296" using tok by (intro int_mod_pos_eq [where q = "-1"]) auto
    then show False using assms(3) n len tok by (simp add: u32_of_int_def)
  qed
  moreover have "nat tok < length (id_to_token V)" using assms(3) n tok calculation by (simp add: u32_of_int_def)
  ultimately show ?thesis using assms(1) by (simp add: get_token_data_def vector_at_def spm_vocab_def has_vocab_def rassert_def)
qed

interpretation spm: bigram_engine spm_after spm_stale "try_add_bigram V" "spm_key V" "\<lambda>x y. y < x" bscore
  "\<lambda>_ _. True" "\<lambda>_. True" "rev_merge_ok V" for V :: "('s::linorder, 'z) llama_vocab_scheme"
proof
  show "spm_stale p ls rs = Inr (length v + length w \<noteq> bsize p)"
    if "sym_string ls = Inr v" "sym_string rs = Inr w" for ls rs v w and p :: "'s spm_bigram"
    using that by (auto simp: spm_stale_def sym_string_def split: if_splits)
  show "\<exists>st'. try_add_bigram V (int i) (int j) st = Inr st' \<and> rev_merge_ok V st' \<and> symbols st' = symbols st \<and>
      (case spm_key V v w of None \<Rightarrow> work_queue st' = work_queue st
       | Some k \<Rightarrow> \<exists>p. work_queue st' = heap_push spm_after p (work_queue st) \<and> bleft p = int i \<and> bright p = int j \<and>
           bscore p = k \<and> bsize p = length v + length w \<and> True)"
    if "i < length (symbols st)" "j < length (symbols st)" "sym_string (symbols st ! i) = Inr v" "sym_string (symbols st ! j) = Inr w"
      "take (sn (symbols st ! i) + sn (symbols st ! j)) (stext (symbols st ! i)) = v @ w" "rev_merge_ok V st" for i j v w st
  proof -
    have vocab: "spm_vocab V" and vt: "vtype V \<noteq> LLAMA_VOCAB_TYPE_NONE" using that(6) by (auto simp: rev_merge_ok_def spm_vocab_def)
    have "length v = sn (symbols st ! i)" "length w = sn (symbols st ! j)"
      using that(3,4) by (auto simp: sym_string_def split: if_splits)
    then have "sn (symbols st ! i) + sn (symbols st ! j) \<le> length (stext (symbols st ! i))"
      using arg_cong [OF that(5), of length] by auto
    then have str: "sym_string ((symbols st ! i)\<lparr>sn := sn (symbols st ! i) + sn (symbols st ! j)\<rparr>) = Inr (v @ w)"
      using that(5) by (simp add: sym_string_def)
    show ?thesis
    proof (cases "spm_key V v w")
      case None
      then have "try_add_bigram V (int i) (int j) st = Inr st"
        using that(1,2) str vt by (auto simp: try_add_bigram_def text_to_token_eq spm_key_def split: option.splits if_splits)
      then show ?thesis using None that(6) by simp
    next
      case (Some k)
      then obtain tok where tok: "token_to_id V (v @ w) = Some tok" "tok \<noteq> LLAMA_TOKEN_NULL" "\<not> u32_of_int tok \<ge> n_tokens V"
        "k = score (id_to_token V ! nat tok)" by (auto simp: spm_key_def split: option.splits if_splits)
      define st' where "st' = st\<lparr>work_queue := heap_push spm_after \<lparr>bleft = int i, bright = int j, bsize = length (v @ w), bscore = k\<rparr> (work_queue st),
        rev_merge := (rev_merge st)(v @ w \<mapsto> (int i, int j))\<rparr>"
      have "try_add_bigram V (int i) (int j) st = Inr st'"
        using that(1,2) str vt tok small_token [OF vocab tok(1,3)] by (simp add: try_add_bigram_def text_to_token_eq st'_def)
      moreover have "rev_merge_ok V st'" using that(6) tok(1,2) by (auto simp: rev_merge_ok_def st'_def lookup_def)
      ultimately show ?thesis using Some by (auto simp: st'_def)
    qed
  qed
qed (auto simp: spm_after_def try_add_bigram_def rev_merge_ok_def)

section \<open>The output\<close>

text \<open>The tokens of a string: its own, or those of its bytes.\<close>

definition byte_lookup :: "('s, 'z) llama_vocab_scheme \<Rightarrow> u8 \<Rightarrow> int" where
  "byte_lookup V c = (case byte_to_token V c of Inr tok \<Rightarrow> tok | Inl _ \<Rightarrow> LLAMA_TOKEN_NULL)"

definition spm_tokens :: "('s, 'z) llama_vocab_scheme \<Rightarrow> u8 list \<Rightarrow> int list" where
  "spm_tokens V p = (if lookup V p \<noteq> LLAMA_TOKEN_NULL then [lookup V p] else map (byte_lookup V) p)"

definition bytes_known :: "('s, 'z) llama_vocab_scheme \<Rightarrow> bool" where
  "bytes_known V \<longleftrightarrow> (\<forall>c. \<exists>tok. byte_to_token V c = Inr tok)"

lemma byte_tokens_eq:
  assumes "bytes_known V"
  shows "rfold (\<lambda>c acc. rbind (byte_to_token V c) (\<lambda>tok. Inr (acc @ [tok]))) cs out = Inr (out @ map (byte_lookup V) cs)"
proof (induction cs arbitrary: out)
  case (Cons c cs)
  obtain tok where "byte_to_token V c = Inr tok" using assms unfolding bytes_known_def by blast
  then show ?case using Cons by (simp add: byte_lookup_def)
qed simp

lemma resegment_eq:
  assumes "rev_merge_ok V st" "bytes_known V" "sn s \<le> length (stext s)"
  shows "resegment (Suc n) V st s out = Inr (out @ spm_tokens V (take (sn s) (stext s)))"
proof -
  define t where "t = take (sn s) (stext s)"
  have vt: "vtype V \<noteq> LLAMA_VOCAB_TYPE_NONE" using assms(1) by (simp add: rev_merge_ok_def spm_vocab_def)
  have "rev_merge st t = None" if "lookup V t = LLAMA_TOKEN_NULL" using that assms(1) unfolding rev_merge_ok_def by blast
  then show ?thesis using assms(3) byte_tokens_eq [OF assms(2)] text_to_token_eq [OF vt, of t]
    by (simp add: sym_string_def spm_tokens_def flip: t_def lookup_def)
qed

lemma chain_walk_seg:
  "seg syms p ixs (-1) t [] \<Longrightarrow> length ixs \<le> n \<Longrightarrow> \<forall>i \<in> set ixs. \<forall>o'. f (syms ! i) o' = Inr (o' @ g (word syms i)) \<Longrightarrow>
   chain_walk n f syms (hd_or (-1) ixs) out = Inr (out @ concat (map g (map (word syms) ixs)))"
proof (induction ixs arbitrary: n p t out)
  case Nil
  then show ?case by (cases n) simp_all
next
  case (Cons i ixs)
  then obtain m where n: "n = Suc m" "length ixs \<le> m" by (cases n) auto
  have "snext (syms ! i) = hd_or (-1) ixs" "i < length syms" using Cons.prems by auto
  then show ?case using Cons.IH [of "int i" "drop (sn (syms ! i)) t" m] Cons.prems n by simp
qed

lemma chain_short: "chain syms ixs t \<Longrightarrow> length ixs \<le> length syms"
proof -
  assume ch: "chain syms ixs t"
  then have "distinct ixs" "set ixs \<subseteq> {..<length syms}"
    using chain_mem [OF ch] unfolding chain_def by (auto simp: strict_sorted_iff)
  then show ?thesis using card_mono [of "{..<length syms}" "set ixs"] distinct_card [of ixs] by simp
qed

abbreviation spm_pieces :: "('s::linorder, 'z) llama_vocab_scheme \<Rightarrow> u8 list \<Rightarrow> u8 list list" where
  "spm_pieces V t \<equiv> greedy_merge (\<lambda>x y. y < x) (spm_key V) (utf8_chars t)"

lemma spm_tokenize_eq:
  fixes V :: "('s::linorder, 'z) llama_vocab_scheme"
  assumes "spm_vocab V" "bytes_known V" "t \<noteq> []"
  shows "spm_tokenize V t out = Inr (out @ concat (map (spm_tokens V) (spm_pieces V t)))"
proof -
  define st0 :: "'s spm_session" where "st0 = \<lparr>symbols = split_symbols t 0, work_queue = [], rev_merge = Map.empty\<rparr>"
  have "symbols st0 \<noteq> []" using assms(3) unfolding st0_def by (subst split_symbols.simps) (simp add: Let_def)
  moreover have "rev_merge_ok V st0" using assms(1) by (simp add: rev_merge_ok_def st0_def)
  ultimately obtain st ixs where st: "merge_all spm_after spm_stale (try_add_bigram V) st0 = Inr st" "rev_merge_ok V st"
    "chain (symbols st) ixs t" "hd ixs = 0" "map (word (symbols st)) ixs = spm_pieces V t"
    using spm.merge_all_greedy [of st0 t V] split_symbols_chain [of t] unfolding st0_def by auto
  have "ixs \<noteq> []" using st(3) assms(3) unfolding chain_def by auto
  then have start: "hd_or (-1) ixs = 0" using st(4) by (cases ixs) auto
  have sg: "seg (symbols st) (-1) ixs (-1) t []" using st(3) unfolding chain_def by blast
  have "\<forall>i \<in> set ixs. \<forall>o'. resegment (Suc (length (symbols st))) V st (symbols st ! i) o' = Inr (o' @ spm_tokens V (word (symbols st) i))"
    using resegment_eq [OF st(2) assms(2)] seg_mem [OF sg] unfolding word_def by blast
  then have "chain_walk (length (symbols st)) (resegment (Suc (length (symbols st))) V st) (symbols st) 0 out =
    Inr (out @ concat (map (spm_tokens V) (spm_pieces V t)))"
    using chain_walk_seg [OF sg chain_short [OF st(3)]] start st(5) by metis
  then show ?thesis using st(1) unfolding spm_tokenize_def st0_def by simp
qed

end
