(* ===== verification/Tokenizer_Spm_Correct.thy ===== *)
theory Tokenizer_Spm_Correct
  imports Tokenizer_Spm Detokenize "HOL-Library.Sublist"
begin

text \<open>
  The sentence piece tokenizer and the way back: blanks are escaped, the escaped text is merged into tokens
  and byte tokens, and \<open>detokenize\<close> returns the text.
\<close>

section \<open>Escaping\<close>

lemma encode_chars:
  "unicode_cpts_to_utf8 cs = Inr t \<Longrightarrow> \<exists>bss. t = concat bss \<and> list_all2 (\<lambda>c b. unicode_cpt_to_utf8 c = Inr b) cs bss"
proof -
  have "rfold (\<lambda>c r. rbind (unicode_cpt_to_utf8 c) (\<lambda>s. Inr (r @ s))) cs acc = Inr t \<Longrightarrow>
    \<exists>bss. t = acc @ concat bss \<and> list_all2 (\<lambda>c b. unicode_cpt_to_utf8 c = Inr b) cs bss" for acc
  proof (induction cs arbitrary: acc)
    case (Cons c cs)
    then obtain b where b: "unicode_cpt_to_utf8 c = Inr b"
      "rfold (\<lambda>c r. rbind (unicode_cpt_to_utf8 c) (\<lambda>s. Inr (r @ s))) cs (acc @ b) = Inr t"
      by (cases "unicode_cpt_to_utf8 c") auto
    then obtain bss where "t = acc @ b @ concat bss" "list_all2 (\<lambda>c b. unicode_cpt_to_utf8 c = Inr b) cs bss"
      using Cons.IH [OF b(2)] by auto
    then show ?case using b(1) by (intro exI [of _ "b # bss"]) simp
  qed simp
  then show "unicode_cpts_to_utf8 cs = Inr t \<Longrightarrow> ?thesis" unfolding unicode_cpts_to_utf8_def by force
qed

definition escape_char :: "u8 list \<Rightarrow> u8 list" where
  "escape_char b = (if b = [0x20] then escaped_space else b)"

lemma encoded_blank: "encoded [0x20]" "encoded escaped_space" "unicode_cpt_to_utf8 0x2581 = Inr escaped_space"
proof -
  show e: "unicode_cpt_to_utf8 0x2581 = Inr escaped_space" by code_simp
  have "unicode_cpt_to_utf8 0x20 = Inr [0x20]" by code_simp
  then show "encoded [0x20]" "encoded escaped_space" using e unfolding encoded_def by blast+
qed

lemma escape_chars:
  "\<forall>b \<in> set bss. encoded b \<Longrightarrow> llama_escape_whitespace (concat bss) = concat (map escape_char bss)"
proof (induction bss)
  case (Cons b bss)
  obtain c where c: "unicode_cpt_to_utf8 c = Inr b" using Cons.prems unfolding encoded_def by auto
  have "concat (map (\<lambda>x. if x = 0x20 then escaped_space else [x]) b) = escape_char b"
  proof (cases "0x20 \<in> set b")
    case True
    then have "c = 0x20" by (rule encoded_length(3) [OF c])
    then have "b = [0x20]" using c by (simp add: unicode_cpt_to_utf8_def)
    then show ?thesis by (simp add: escape_char_def)
  next
    case False
    then have "concat (map (\<lambda>x. if x = 0x20 then escaped_space else [x]) b) = b" by (induction b) auto
    then show ?thesis using False by (auto simp: escape_char_def)
  qed
  then show ?case using Cons by (simp add: escape_eq)
qed (simp add: escape_eq)

lemma unescape_escape:
  assumes "\<forall>b \<in> set bss. encoded b" "escaped_space \<notin> set bss"
  shows "llama_unescape_whitespace (llama_escape_whitespace (concat bss)) = concat bss"
proof -
  have "\<forall>b \<in> set (map escape_char bss). encoded b" using assms(1) encoded_blank(2) by (auto simp: escape_char_def)
  moreover have "map unescape_char (map escape_char bss) = bss"
    using assms(2) by (induction bss) (auto simp: unescape_char_def escape_char_def escaped_space_def)
  ultimately show ?thesis using unescape_chars [of "map escape_char bss"] escape_chars [OF assms(1)] by simp
qed

section \<open>Pieces\<close>

text \<open>
  A sentence piece vocabulary: every byte and the escaped blank have a token, the text of a token is the
  one that it is found under, and the tokens named \<open><0xXX>\<close> are the byte tokens.
\<close>

definition spm_vocab_ok :: "('s, 'z) llama_vocab_scheme \<Rightarrow> bool" where
  "spm_vocab_ok V \<longleftrightarrow> vtype V = LLAMA_VOCAB_TYPE_SPM \<and> piece_cache V \<and> length (id_to_token V) \<le> 2147483648 \<and>
     (\<forall>b. token_to_id V (byte_name b) \<noteq> None) \<and> token_to_id V escaped_space \<noteq> None \<and>
     (\<forall>s tok. token_to_id V s = Some tok \<longrightarrow> 0 \<le> tok \<and> nat tok < length (id_to_token V) \<and>
        ttext (id_to_token V ! nat tok) = s \<and>
        tattr (id_to_token V ! nat tok) = (if s \<in> range byte_name then ATTR_BYTE else ATTR_NORMAL))"

lemma spm_token:
  assumes "spm_vocab_ok V" "token_to_id V s = Some tok"
  shows "0 \<le> tok" "nat tok < length (id_to_token V)" "ttext (id_to_token V ! nat tok) = s"
    and "tattr (id_to_token V ! nat tok) = (if s \<in> range byte_name then ATTR_BYTE else ATTR_NORMAL)"
    and "vtype V = LLAMA_VOCAB_TYPE_SPM" "piece_cache V"
  using assms unfolding spm_vocab_ok_def by blast+

lemma spm_vocab_okD:
  assumes "spm_vocab_ok V"
  shows "spm_vocab V" "bytes_known V" "byte_to_token V c = Inr tok \<Longrightarrow> token_to_id V (byte_name c) = Some tok"
    and "token_to_id V s = Some tok \<Longrightarrow> lookup V s = tok \<and> tok \<noteq> LLAMA_TOKEN_NULL"
proof -
  show "token_to_id V s = Some tok \<Longrightarrow> lookup V s = tok \<and> tok \<noteq> LLAMA_TOKEN_NULL"
    using assms unfolding spm_vocab_ok_def lookup_def LLAMA_TOKEN_NULL_def by fastforce
  have bt: "byte_to_token V c = Inr (the (token_to_id V (byte_name c)))" for c
  proof -
    obtain tok where "token_to_id V (byte_name c) = Some tok" using assms unfolding spm_vocab_ok_def by blast
    then show ?thesis using assms unfolding spm_vocab_ok_def byte_to_token_def by (simp add: has_vocab_def rassert_def)
  qed
  then show "bytes_known V" unfolding bytes_known_def by blast
  show "byte_to_token V c = Inr tok \<Longrightarrow> token_to_id V (byte_name c) = Some tok"
    using bt [of c] assms unfolding spm_vocab_ok_def by (metis Inr_inject option.collapse)
  have "-2147483648 \<le> tok \<and> tok \<le> 2147483647" if "token_to_id V t = Some tok" for t tok
    using assms that unfolding spm_vocab_ok_def by fastforce
  then show "spm_vocab V" using assms unfolding spm_vocab_def spm_vocab_ok_def by simp
qed

definition spm_piece :: "('s, 'z) llama_vocab_scheme \<Rightarrow> u8 list \<Rightarrow> bool" where
  "spm_piece V p \<longleftrightarrow> (\<exists>cs. p = concat cs \<and> cs \<noteq> [] \<and> (\<forall>b \<in> set cs. encoded b) \<and> (token_to_id V p \<noteq> None \<or> (\<exists>b. cs = [b])))"

lemma pieces_ok:
  assumes "\<forall>b \<in> set bss. encoded b"
  shows "\<forall>p \<in> set (spm_pieces V (concat bss)). spm_piece V p"
proof -
  have "spm_piece V p" if "p \<in> set bss" for p
    using assms that unfolding spm_piece_def by (intro exI [of _ "[p]"]) simp
  moreover have "spm_piece V (v @ w)" if p: "spm_piece V v" "spm_piece V w" "spm_key V v w = Some k" for v w k
  proof -
    obtain cs ds where "v = concat cs" "cs \<noteq> []" "\<forall>b \<in> set cs. encoded b" "w = concat ds" "\<forall>b \<in> set ds. encoded b"
      using p(1,2) unfolding spm_piece_def by blast
    moreover have "token_to_id V (v @ w) \<noteq> None" using p(3) by (auto simp: spm_key_def split: option.splits)
    ultimately show ?thesis unfolding spm_piece_def by (intro exI [of _ "cs @ ds"]) auto
  qed
  moreover have "utf8_chars (concat bss) = bss" using assms unfolding encoded_def by (rule chars_of_encoded)
  ultimately show ?thesis using greedy_merge_all [of bss "spm_piece V"] by metis
qed

lemma encoded_nonempty: "encoded b \<Longrightarrow> b \<noteq> []"
  using encoded_length(1) unfolding encoded_def by blast

lemma piece_text:
  assumes V: "spm_vocab_ok V" and p: "spm_piece V p" "p \<notin> range byte_name"
  shows "\<exists>qs. list_all2 (has_piece V sp) (spm_tokens V p) qs \<and> concat qs = llama_unescape_whitespace p \<and> [] \<notin> set qs"
proof -
  obtain cs where cs: "p = concat cs" "cs \<noteq> []" "\<forall>b \<in> set cs. encoded b" "token_to_id V p \<noteq> None \<or> (\<exists>b. cs = [b])"
    using p(1) unfolding spm_piece_def by blast
  show ?thesis
  proof (cases "token_to_id V p")
    case (Some tok)
    then have "spm_tokens V p = [tok]" using spm_vocab_okD(4) [OF V] by (simp add: spm_tokens_def)
    moreover have "has_piece V sp tok (llama_unescape_whitespace p)"
      using spm_token [OF V Some] p(2) by (intro spm_normal_piece) simp_all
    moreover have "llama_unescape_whitespace p \<noteq> []"
      using unescape_chars [OF cs(3)] cs(1-3) encoded_nonempty by (cases cs) (auto simp: unescape_char_def)
    ultimately show ?thesis by (intro exI [of _ "[llama_unescape_whitespace p]"]) simp
  next
    case None
    then have single: "cs = [p]" using cs(1,4) by auto
    have "p \<noteq> escaped_space" using None V unfolding spm_vocab_ok_def by auto
    then have "unescape_char p = p" by (simp add: unescape_char_def)
    then have "llama_unescape_whitespace p = p" using unescape_chars [of "[p]"] cs(3) unfolding single by simp
    moreover have "has_piece V sp (byte_lookup V c) [c]" for c
    proof -
      obtain tok where tok: "byte_to_token V c = Inr tok" using spm_vocab_okD(2) [OF V] unfolding bytes_known_def by blast
      then have "token_to_id V (byte_name c) = Some tok" by (rule spm_vocab_okD(3) [OF V])
      then show ?thesis using tok spm_token [OF V, of "byte_name c" tok] unfolding byte_lookup_def by (intro spm_byte_piece) simp_all
    qed
    moreover have "spm_tokens V p = map (byte_lookup V) p" using None by (simp add: spm_tokens_def lookup_def)
    ultimately show ?thesis by (intro exI [of _ "map (\<lambda>c. [c]) p"]) (auto simp: list_all2_map1 list_all2_map2 list_all2_same)
  qed
qed

lemma pieces_text:
  assumes "spm_vocab_ok V"
  shows "\<forall>p \<in> set ps. spm_piece V p \<and> p \<notin> range byte_name \<Longrightarrow>
    \<exists>qs. list_all2 (has_piece V sp) (concat (map (spm_tokens V) ps)) qs \<and> concat qs = concat (map llama_unescape_whitespace ps) \<and> [] \<notin> set qs"
proof (induction ps)
  case (Cons p ps)
  obtain qs rs where "list_all2 (has_piece V sp) (spm_tokens V p) qs" "concat qs = llama_unescape_whitespace p" "[] \<notin> set qs"
    "list_all2 (has_piece V sp) (concat (map (spm_tokens V) ps)) rs" "concat rs = concat (map llama_unescape_whitespace ps)" "[] \<notin> set rs"
    using piece_text [OF assms, of p sp] Cons by auto
  then show ?case by (intro exI [of _ "qs @ rs"]) (simp add: list_all2_appendI)
qed simp

lemma unescape_pieces:
  "\<forall>p \<in> set ps. spm_piece V p \<Longrightarrow> concat (map llama_unescape_whitespace ps) = llama_unescape_whitespace (concat ps)"
proof -
  assume ps: "\<forall>p \<in> set ps. spm_piece V p"
  have "\<exists>css. ps = map concat css \<and> (\<forall>b \<in> set (concat css). encoded b)"
    using ps
  proof (induction ps)
    case (Cons p ps)
    obtain cs css where "p = concat cs" "\<forall>b \<in> set cs. encoded b" "ps = map concat css" "\<forall>b \<in> set (concat css). encoded b"
      using Cons unfolding spm_piece_def by auto
    then show ?case by (intro exI [of _ "cs # css"]) auto
  qed simp
  then obtain css where css: "ps = map concat css" "\<forall>b \<in> set (concat css). encoded b" by blast
  then have "concat (map llama_unescape_whitespace ps) = concat (map unescape_char (concat css))"
    by (induction css arbitrary: ps) (auto simp: unescape_chars)
  moreover have "concat ps = concat (concat css)" using css(1) by (induction css arbitrary: ps) auto
  ultimately show ?thesis using unescape_chars [OF css(2)] by simp
qed

text \<open>What the session makes of an escaped text has the text as its pieces.\<close>

lemma spm_session_pieces:
  assumes V: "spm_vocab_ok V" and bss: "\<forall>b \<in> set bss. encoded b" "escaped_space \<notin> set bss" "bss \<noteq> []"
    and names: "\<forall>b. \<not> sublist (byte_name b) (llama_escape_whitespace (concat bss))"
  shows "\<exists>toks qs. spm_tokenize V (llama_escape_whitespace (concat bss)) out = Inr (out @ toks) \<and>
    list_all2 (has_piece V sp) toks qs \<and> concat qs = concat bss \<and> [] \<notin> set qs"
proof -
  define e where "e = llama_escape_whitespace (concat bss)"
  define ps where "ps = spm_pieces V e"
  have esc: "e = concat (map escape_char bss)" "\<forall>b \<in> set (map escape_char bss). encoded b"
    using escape_chars [OF bss(1)] bss(1) encoded_blank(2) unfolding e_def by (auto simp: escape_char_def)
  then have "e \<noteq> []" using bss(3) encoded_nonempty by (cases bss) auto
  then have toks: "spm_tokenize V e out = Inr (out @ concat (map (spm_tokens V) ps))"
    using spm_tokenize_eq spm_vocab_okD(1,2) [OF V] unfolding ps_def by blast
  have piece: "\<forall>p \<in> set ps. spm_piece V p" using pieces_ok [OF esc(2)] unfolding ps_def esc(1) by blast
  have all: "concat ps = e" unfolding ps_def by (simp add: greedy_merge_concat utf8_chars_concat)
  have "p \<notin> range byte_name" if "p \<in> set ps" for p
  proof -
    obtain as bs where "ps = as @ p # bs" using split_list [of p ps] \<open>p \<in> set ps\<close> by blast
    then have "e = concat as @ p @ concat bs" using all by simp
    then have "sublist p e" unfolding sublist_def by blast
    then show ?thesis using names unfolding e_def by auto
  qed
  then obtain qs where "list_all2 (has_piece V sp) (concat (map (spm_tokens V) ps)) qs"
    "concat qs = concat (map llama_unescape_whitespace ps)" "[] \<notin> set qs" using pieces_text [OF V, of ps sp] piece by auto
  then show ?thesis using toks unescape_pieces [OF piece] all unescape_escape [OF bss(1,2)] unfolding e_def by auto
qed

end
