(* ===== verification/Naive_Trie.thy ===== *)
theory Naive_Trie
  imports Detokenize "HOL-Library.Sublist"
begin

text \<open>
  The prefix tree \<open>naive_trie\<close> of \<open>src/llama-vocab.cpp\<close> and the RWKV tokenizer that walks it:
  \<open>llm_tokenizer_rwkv\<close> puts every token into the tree and \<open>llm_tokenizer_rwkv_session::tokenize\<close> takes the longest
  token at each position. The tree is shown to be the map of what was inserted; the tokenizer to be greedy
  longest match, provided every byte that starts a token is a token; without that it goes back to the
  start of the text and never ends.
\<close>

section \<open>Definitions\<close>

datatype naive_trie = Trie (children: "u8 \<Rightarrow> naive_trie option") (has_value: bool) (tvalue: int)

definition empty_trie :: naive_trie where
  "empty_trie = Trie Map.empty False 0"

fun trie_insert :: "u8 list \<Rightarrow> int \<Rightarrow> naive_trie \<Rightarrow> naive_trie" where
  "trie_insert [] v (Trie ch h x) = Trie ch True v"
| "trie_insert (c # cs) v (Trie ch h x) =
     Trie (ch(c \<mapsto> trie_insert cs v (case ch c of Some t \<Rightarrow> t | None \<Rightarrow> empty_trie))) h x"

definition traverse :: "naive_trie \<Rightarrow> u8 \<Rightarrow> naive_trie option" where
  "traverse t c = children t c"

fun get_longest_prefix :: "naive_trie \<Rightarrow> u8 list \<Rightarrow> nat" where
  "get_longest_prefix t [] = 0"
| "get_longest_prefix t (c # cs) = (case children t c of Some u \<Rightarrow> Suc (get_longest_prefix u cs) | None \<Rightarrow> 0)"

definition rwkv_trie :: "('s, 'z) llama_vocab_scheme \<Rightarrow> naive_trie" where
  "rwkv_trie V = fold (\<lambda>tid. trie_insert (llama_unescape_rwkv_token (ttext (id_to_token V ! tid))) (int tid))
     [0..<length (id_to_token V)] empty_trie"

text \<open>\<open>text[i]\<close> of a \<open>std::string\<close>: one position behind the end reads zero.\<close>

definition string_at :: "u8 list \<Rightarrow> nat \<Rightarrow> u8 result" where
  "string_at t i = (if i < length t then Inr (t ! i) else if i = length t then Inr 0 else Inl Undefined)"

function rwkv_match :: "u8 list \<Rightarrow> naive_trie option \<Rightarrow> nat \<Rightarrow> int \<times> nat \<Rightarrow> (int \<times> nat) result" where
  "rwkv_match t None position best = Inr best"
| "rwkv_match t (Some node) position best =
     (let best' = (if has_value node then (tvalue node, position + 1) else best) in
      if position \<le> length t then
        rbind (string_at t (position + 1)) (\<lambda>c. rwkv_match t (traverse node c) (position + 1) best')
      else Inl Undefined)"
  by pat_completeness auto
termination by (relation "measure (\<lambda>(t, node, position, best). Suc (length t) - position)") auto

primrec rwkv_loop :: "nat \<Rightarrow> int \<Rightarrow> naive_trie \<Rightarrow> u8 list \<Rightarrow> nat \<Rightarrow> int list \<Rightarrow> int list result" where
  "rwkv_loop 0 unk root t position out = (if position < length t then Inl OutOfFuel else Inr out)"
| "rwkv_loop (Suc fuel) unk root t position out =
     (if position < length t then
        (case traverse root (t ! position) of
           None \<Rightarrow> rwkv_loop fuel unk root t (position + 1) (out @ [unk])
         | Some node \<Rightarrow>
             rbind (rwkv_match t (Some node) position (0, 0)) (\<lambda>(token_id, token_length).
             rwkv_loop fuel unk root t token_length (out @ [token_id])))
      else Inr out)"

definition rwkv_tokenize :: "('s, 'z) llama_vocab_scheme \<Rightarrow> naive_trie \<Rightarrow> u8 list \<Rightarrow> int list \<Rightarrow> int list result" where
  "rwkv_tokenize V root t out = rwkv_loop (length t) (special_unk_id V) root t 0 out"

section \<open>The tree is a map\<close>

fun node_at :: "naive_trie \<Rightarrow> u8 list \<Rightarrow> naive_trie option" where
  "node_at t [] = Some t"
| "node_at t (c # cs) = (case children t c of Some u \<Rightarrow> node_at u cs | None \<Rightarrow> None)"

definition trie_get :: "naive_trie \<Rightarrow> u8 list \<rightharpoonup> int" where
  "trie_get t k = (case node_at t k of Some u \<Rightarrow> if has_value u then Some (tvalue u) else None | None \<Rightarrow> None)"

lemma node_empty: "node_at empty_trie k = (if k = [] then Some empty_trie else None)"
  by (cases k) (auto simp: empty_trie_def)

lemma trie_get_empty [simp]: "trie_get empty_trie = Map.empty"
  by (rule ext) (simp add: trie_get_def node_empty, simp add: empty_trie_def)

lemma trie_get_Cons: "trie_get (Trie ch h x) (c # cs) = (case ch c of Some u \<Rightarrow> trie_get u cs | None \<Rightarrow> None)"
  by (simp add: trie_get_def split: option.split)

lemma trie_get_insert: "trie_get (trie_insert k v t) = (trie_get t)(k \<mapsto> v)"
proof (induction k v t rule: trie_insert.induct)
  case (1 v ch h x)
  have "trie_get (Trie ch True v) l = ((trie_get (Trie ch h x))([] \<mapsto> v)) l" for l
    by (cases l) (auto simp: trie_get_Cons trie_get_def)
  then show ?case by auto
next
  case (2 c cs v ch h x)
  have "trie_get (trie_insert (c # cs) v (Trie ch h x)) l = ((trie_get (Trie ch h x))(c # cs \<mapsto> v)) l" for l
  proof (cases l)
    case Nil
    then show ?thesis by (simp add: trie_get_def)
  next
    case (Cons d ds)
    then show ?thesis using 2 by (cases "d = c") (auto simp: trie_get_Cons split: option.split)
  qed
  then show ?case by blast
qed

text \<open>A node is there for every prefix of a key, and the walk stops at the last node.\<close>

lemma node_at_insert:
  "node_at (trie_insert k v t) p \<noteq> None \<longleftrightarrow> node_at t p \<noteq> None \<or> prefix p k"
proof (induction k v t arbitrary: p rule: trie_insert.induct)
  case (1 v ch h x)
  show ?case by (cases p) auto
next
  case (2 c cs v ch h x)
  show ?case
  proof (cases p)
    case (Cons d ds)
    then show ?thesis using 2 [of ds] by (cases "d = c") (auto simp: node_empty split: option.splits)
  qed simp
qed

lemma longest_prefix_node:
  "n \<le> length s \<Longrightarrow> n \<le> get_longest_prefix t s \<longleftrightarrow> node_at t (take n s) \<noteq> None"
proof (induction t s arbitrary: n rule: get_longest_prefix.induct)
  case (2 t c cs)
  then show ?case by (cases n) (auto split: option.split)
qed simp

lemma longest_prefix_le: "get_longest_prefix t s \<le> length s"
  by (induction t s rule: get_longest_prefix.induct) (auto split: option.split)

section \<open>Greedy longest match\<close>

text \<open>The length of the longest token that starts the text, of length \<open>k\<close> at least, and the reference.\<close>

definition longest_token :: "(u8 list \<rightharpoonup> int) \<Rightarrow> u8 list \<Rightarrow> nat \<Rightarrow> nat option" where
  "longest_token m s k = List.find (\<lambda>n. m (take n s) \<noteq> None) (rev [k..<Suc (length s)])"

lemma find_SomeD: "List.find P xs = Some x \<Longrightarrow> x \<in> set xs \<and> P x"
  by (induction xs) (auto split: if_splits)

lemma longest_token_Some:
  assumes "longest_token m s k = Some n"
  shows "k \<le> n" "n \<le> length s" "m (take n s) \<noteq> None"
proof -
  have "n \<in> set (rev [k..<Suc (length s)])" "m (take n s) \<noteq> None"
    using find_SomeD [OF assms [unfolded longest_token_def]] by blast+
  then show "k \<le> n" "n \<le> length s" "m (take n s) \<noteq> None" by (auto simp del: upt_Suc)
qed

lemma find_append: "List.find P (xs @ ys) = (case List.find P xs of Some x \<Rightarrow> Some x | None \<Rightarrow> List.find P ys)"
  by (induction xs) auto

lemma longest_token_step:
  "k \<le> length s \<Longrightarrow> longest_token m s k =
     (case longest_token m s (Suc k) of Some n \<Rightarrow> Some n | None \<Rightarrow> if m (take k s) \<noteq> None then Some k else None)"
  unfolding longest_token_def by (simp add: upt_conv_Cons find_append del: upt_Suc split: option.split)

lemma longest_token_end: "length s < k \<Longrightarrow> longest_token m s k = None"
  unfolding longest_token_def by simp

function greedy_tokens :: "(u8 list \<rightharpoonup> int) \<Rightarrow> int \<Rightarrow> u8 list \<Rightarrow> int list" where
  "greedy_tokens m unk s =
     (if s = [] then []
      else case longest_token m s 1 of
        Some n \<Rightarrow> the (m (take n s)) # greedy_tokens m unk (drop n s)
      | None \<Rightarrow> unk # greedy_tokens m unk (tl s))"
  by pat_completeness auto
termination
proof (relation "measure (\<lambda>(m, unk, s). length s)", goal_cases)
  case (3 m unk s n)
  then show ?case using longest_token_Some(1,2) [of m s 1 n] by (cases s) auto
qed auto

declare greedy_tokens.simps [simp del]

text \<open>Every byte that starts a token is a token; no token has a zero byte but at its start.\<close>

definition rwkv_ok :: "naive_trie \<Rightarrow> bool" where
  "rwkv_ok root \<longleftrightarrow> (\<forall>c. children root c \<noteq> None \<longrightarrow> trie_get root [c] \<noteq> None) \<and>
     (\<forall>p. p \<noteq> [] \<longrightarrow> node_at root (p @ [0]) = None)"

lemma node_at_snoc: "node_at t (p @ [c]) = (case node_at t p of Some u \<Rightarrow> children u c | None \<Rightarrow> None)"
  by (induction t p rule: node_at.induct) (auto split: option.split)

lemma node_at_None_append: "node_at t p = None \<Longrightarrow> node_at t (p @ q) = None"
  by (induction t p rule: node_at.induct) (auto split: option.splits)

lemma rwkv_match_eq:
  assumes ok: "rwkv_ok root" and s: "s = drop pos t" "pos \<le> length t"
  shows "0 < k \<Longrightarrow> k \<le> length s \<Longrightarrow> rwkv_match t (node_at root (take k s)) (pos + k - 1) best =
    Inr (case longest_token (trie_get root) s k of Some n \<Rightarrow> (the (trie_get root (take n s)), pos + n) | None \<Rightarrow> best)"
proof (induction "length s - k" arbitrary: k best)
  case (0 k best)
  then have k: "k = length s" by simp
  show ?case
  proof (cases "node_at root s")
    case None
    then have "trie_get root s = None" by (simp add: trie_get_def)
    then show ?thesis using k None longest_token_step [of k s "trie_get root"] longest_token_end [of s "Suc k"] by simp
  next
    case (Some node)
    have "children node 0 = None" using ok 0(2) k Some node_at_snoc [of root s 0] unfolding rwkv_ok_def by auto
    moreover have "pos + k = length t" "Suc (length t - 1) = length t" using s k 0(2) by auto
    moreover have "trie_get root s = (if has_value node then Some (tvalue node) else None)" using Some by (simp add: trie_get_def)
    ultimately show ?thesis
      using k Some 0(2) longest_token_step [of k s "trie_get root"] longest_token_end [of s "Suc k"]
      by (simp add: traverse_def string_at_def Let_def)
  qed
next
  case (Suc d k best)
  have k: "Suc k \<le> length s" using Suc(2) by simp
  have take: "take (Suc k) s = take k s @ [s ! k]" using k by (simp add: take_Suc_conv_app_nth)
  show ?case
  proof (cases "node_at root (take k s)")
    case None
    have "trie_get root (take n s) = None" if "k \<le> n" for n
    proof -
      have "take n s = take k s @ take (n - k) (drop k s)" using that take_add [of k "n - k" s] by simp
      then show ?thesis using node_at_None_append [OF None] by (simp add: trie_get_def)
    qed
    then have "longest_token (trie_get root) s k = None" using longest_token_Some(1,3) by (metis not_Some_eq)
    then show ?thesis using None by simp
  next
    case (Some node)
    define best' where "best' = (if has_value node then (tvalue node, pos + k) else best)"
    have got: "trie_get root (take k s) = (if has_value node then Some (tvalue node) else None)" using Some by (simp add: trie_get_def)
    have next_node: "traverse node (s ! k) = node_at root (take (Suc k) s)"
      using Some take node_at_snoc [of root "take k s" "s ! k"] by (simp add: traverse_def)
    have "pos + k < length t" using s k by simp
    then have at: "string_at t (pos + k) = Inr (s ! k)" using s by (simp add: string_at_def)
    have "rwkv_match t (node_at root (take k s)) (pos + k - 1) best = rwkv_match t (node_at root (take (Suc k) s)) (pos + Suc k - 1) best'"
    proof -
      have p: "pos + k - 1 \<le> length t" "pos + k - 1 + 1 = pos + k" "pos + Suc k - 1 = pos + k"
        using \<open>pos + k < length t\<close> Suc.prems(1) by auto
      show ?thesis unfolding Some rwkv_match.simps Let_def p(2) at if_P [OF p(1)] rbind.simps next_node p(3) best'_def ..
    qed
    also have "\<dots> = Inr (case longest_token (trie_get root) s (Suc k) of Some n \<Rightarrow> (the (trie_get root (take n s)), pos + n) | None \<Rightarrow> best')"
      using Suc.hyps(1) [of "Suc k" best'] Suc.hyps(2) k by simp
    finally show ?thesis using longest_token_step [of k s "trie_get root"] got k unfolding best'_def
      by (auto split: option.splits)
  qed
qed

lemma rwkv_loop_greedy:
  assumes "rwkv_ok root"
  shows "position \<le> length t \<Longrightarrow> length t - position \<le> fuel \<Longrightarrow>
    rwkv_loop fuel unk root t position out = Inr (out @ greedy_tokens (trie_get root) unk (drop position t))"
proof (induction fuel arbitrary: position out)
  case 0
  then show ?case by (simp add: greedy_tokens.simps [of _ _ "[]"])
next
  case (Suc fuel)
  show ?case
  proof (cases "position < length t")
    case False
    then show ?thesis using Suc.prems by (simp add: greedy_tokens.simps [of _ _ "[]"])
  next
    case True
    define s where "s = drop position t"
    define c where "c = t ! position"
    have sc: "s = c # drop (Suc position) t" using True unfolding s_def c_def by (simp add: Cons_nth_drop_Suc)
    have node: "node_at root (take 1 s) = traverse root c" using sc by (simp add: traverse_def split: option.split)
    show ?thesis
    proof (cases "traverse root c")
      case None
      have "trie_get root (take n s) = None" if "1 \<le> n" for n
        using that None sc by (cases n) (simp_all add: trie_get_def traverse_def)
      then have "longest_token (trie_get root) s 1 = None" using longest_token_Some(1,3) by (metis not_Some_eq)
      then have "greedy_tokens (trie_get root) unk s = unk # greedy_tokens (trie_get root) unk (drop (Suc position) t)"
        using sc by (subst greedy_tokens.simps) simp
      then show ?thesis using True None Suc.IH [of "Suc position" "out @ [unk]"] Suc.prems unfolding s_def c_def by simp
    next
      case (Some u)
      then have "trie_get root [c] \<noteq> None" using assms unfolding rwkv_ok_def traverse_def by auto
      then have "trie_get root (take 1 s) \<noteq> None" using sc by simp
      then obtain n where n: "longest_token (trie_get root) s 1 = Some n"
        using longest_token_step [of 1 s "trie_get root"] sc by (auto split: option.splits)
      note l = longest_token_Some [OF n]
      have "rwkv_match t (Some u) position (0, 0) = Inr (the (trie_get root (take n s)), position + n)"
        using rwkv_match_eq [OF assms s_def, of 1 "(0, 0)"] node Some n True sc by simp
      moreover have "greedy_tokens (trie_get root) unk s = the (trie_get root (take n s)) # greedy_tokens (trie_get root) unk (drop n s)"
        using sc n by (subst greedy_tokens.simps) simp
      moreover have "position + n \<le> length t" "length t - (position + n) \<le> fuel" using l(1,2) True Suc.prems unfolding s_def by auto
      moreover have "drop n s = drop (position + n) t" unfolding s_def by (simp add: add.commute)
      ultimately show ?thesis using True Some Suc.IH [of "position + n" "out @ [the (trie_get root (take n s))]"] unfolding s_def c_def by simp
    qed
  qed
qed

lemma rwkv_tokenize_greedy:
  "rwkv_ok root \<Longrightarrow> rwkv_tokenize V root t out = Inr (out @ greedy_tokens (trie_get root) (special_unk_id V) t)"
  using rwkv_loop_greedy [of root 0 t "length t"] by (simp add: rwkv_tokenize_def)

text \<open>The tokens spell the text, but for the bytes that start no token.\<close>

lemma greedy_tokens_spell:
  assumes "\<And>k v. m k = Some v \<Longrightarrow> txt v = k"
  shows "(\<And>c. c \<in> set s \<Longrightarrow> m [c] \<noteq> None) \<Longrightarrow> concat (map txt (greedy_tokens m unk s)) = s"
proof (induction "length s" arbitrary: s rule: less_induct)
  case less
  show ?case
  proof (cases s)
    case (Cons c cs)
    have "m (take 1 s) \<noteq> None" using less.prems Cons by simp
    then obtain n where n: "longest_token m s 1 = Some n" using longest_token_step [of 1 s m] Cons by (auto split: option.splits)
    note l = longest_token_Some [OF n]
    have "concat (map txt (greedy_tokens m unk (drop n s))) = drop n s"
      using l(1,2) less.prems in_set_dropD [of _ n s] by (intro less.hyps) auto
    moreover have "greedy_tokens m unk s = the (m (take n s)) # greedy_tokens m unk (drop n s)"
      using Cons n by (subst greedy_tokens.simps) simp
    ultimately show ?thesis using assms l(3) by auto
  qed (simp add: greedy_tokens.simps [of _ _ "[]"])
qed

text \<open>
  The loop keeps \<open>token_length = 0\<close> when a byte starts a token but no prefix of the rest is one, and goes on
  from there: at the start of the text. With the single token \<open>ab\<close> and the text \<open>aa\<close> it never ends.
\<close>

lemma rwkv_never_ends:
  "rwkv_loop fuel unk (trie_insert (ascii ''ab'') 0 empty_trie) (ascii ''aa'') 0 out = Inl OutOfFuel"
proof (induction fuel arbitrary: out)
  case 0
  then show ?case by (simp add: ascii_def)
next
  case (Suc fuel)
  have "rwkv_match (ascii ''aa'') (traverse (trie_insert (ascii ''ab'') 0 empty_trie) 0x61) 0 (0, 0) = Inr (0, 0)" by code_simp
  moreover obtain node where "traverse (trie_insert (ascii ''ab'') 0 empty_trie) 0x61 = Some node"
    by (simp add: traverse_def ascii_def empty_trie_def)
  moreover have "ascii ''aa'' ! 0 = 0x61" "0 < length (ascii ''aa'')" by (simp_all add: ascii_def)
  ultimately show ?case using Suc by simp
qed

text \<open>
  \<open>get_longest_prefix\<close> measures how far the text follows some key, not the longest key that starts it: it does
  not look at \<open>has_value\<close>.
\<close>

lemma longest_prefix_of_no_key:
  "get_longest_prefix (trie_insert (ascii ''<sep>'') 0 empty_trie) (ascii ''<s'') = 2 \<and>
   (\<forall>n. trie_get (trie_insert (ascii ''<sep>'') 0 empty_trie) (take n (ascii ''<s'')) = None)"
proof
  show "get_longest_prefix (trie_insert (ascii ''<sep>'') 0 empty_trie) (ascii ''<s'') = 2" by code_simp
  have "take n (ascii ''<s'') \<noteq> ascii ''<sep>''" for n
    using length_take [of n "ascii ''<s''"] by (auto simp: ascii_def dest!: arg_cong [of _ _ length])
  then show "\<forall>n. trie_get (trie_insert (ascii ''<sep>'') 0 empty_trie) (take n (ascii ''<s'')) = None"
    by (simp add: trie_get_insert)
qed

end
