(* ===== verification/Tokenizer_Wpm.thy ===== *)
theory Tokenizer_Wpm
  imports Tokenizer_Bpe Naive_Trie
begin

text \<open>
  The word piece tokenizer of \<open>src/llama-vocab.cpp\<close>, \<open>llm_tokenizer_wpm_session\<close>: \<open>preprocess\<close> decomposes and lower
  cases the text and splits it into words at white space, punctuation and Chinese characters; \<open>tokenize\<close> puts
  the escaped blank in front of each word and takes the longest token at each position; a word that
  cannot be finished becomes the unknown token. The check \<open>assert(!flags.is_separator)\<close> of debug builds is left out.
\<close>

section \<open>Definitions\<close>

definition CPT_CONTROL :: unicode_cpt_flags where "CPT_CONTROL = 0x0080"

definition is_punctuation :: "unicode_cpt_flags \<Rightarrow> bool" where "is_punctuation f \<longleftrightarrow> f AND CPT_PUNCTUATION \<noteq> 0"
definition is_symbol :: "unicode_cpt_flags \<Rightarrow> bool" where "is_symbol f \<longleftrightarrow> f AND CPT_SYMBOL \<noteq> 0"
definition is_control :: "unicode_cpt_flags \<Rightarrow> bool" where "is_control f \<longleftrightarrow> f AND CPT_CONTROL \<noteq> 0"

definition is_chinese_char :: "u32 \<Rightarrow> bool" where
  "is_chinese_char cpt \<longleftrightarrow>
     (cpt \<ge> 0x04E00 \<and> cpt \<le> 0x09FFF) \<or>
     (cpt \<ge> 0x03400 \<and> cpt \<le> 0x04DBF) \<or>
     (cpt \<ge> 0x20000 \<and> cpt \<le> 0x2A6DF) \<or>
     (cpt \<ge> 0x2A700 \<and> cpt \<le> 0x2B73F) \<or>
     (cpt \<ge> 0x2B740 \<and> cpt \<le> 0x2B81F) \<or>
     (cpt \<ge> 0x2B920 \<and> cpt \<le> 0x2CEAF) \<or>
     (cpt \<ge> 0x0F900 \<and> cpt \<le> 0x0FAFF) \<or>
     (cpt \<ge> 0x2F800 \<and> cpt \<le> 0x2FA1F)"

text \<open>\<open>words\<close> is never empty here; its last element is the word under construction.\<close>

definition finish_word :: "u8 list list \<Rightarrow> u8 list list" where
  "finish_word ws = (if last ws \<noteq> [] then ws @ [[]] else ws)"

definition wpm_step :: "unicode_data \<Rightarrow> u32 \<Rightarrow> u8 list list \<Rightarrow> u8 list list result" where
  "wpm_step D cpt ws =
     (let flags = unicode_cpt_flags_from_cpt D cpt in
      if is_whitespace flags then Inr (finish_word ws)
      else if cpt = 0 \<or> cpt = 0xFFFD \<or> is_control flags then Inr ws
      else rbind (unicode_cpt_to_utf8 (unicode_tolower D cpt)) (\<lambda>s.
        if is_punctuation flags \<or> (cpt < 0x7F \<and> is_symbol flags) \<or> is_chinese_char cpt
        then Inr (butlast (finish_word ws) @ [s, []])
        else Inr (butlast ws @ [last ws @ s])))"

definition wpm_preprocess :: "unicode_data \<Rightarrow> u8 list \<Rightarrow> u8 list list result" where
  "wpm_preprocess D t =
     rbind (unicode_cpts_normalize_nfd D (unicode_cpts_from_utf8 t)) (\<lambda>cpts_nfd.
     rbind (rfold (wpm_step D) cpts_nfd [[]]) (\<lambda>ws. Inr (if last ws = [] then butlast ws else ws)))"

text \<open>The inner loop: candidate ends from the longest match length downwards.\<close>

primrec wpm_match :: "('s, 'z) llama_vocab_scheme \<Rightarrow> u8 list \<Rightarrow> nat \<Rightarrow> nat \<Rightarrow> (int \<times> nat) option result" where
  "wpm_match V word1 i 0 = Inr None"
| "wpm_match V word1 i (Suc j) =
     (if Suc j > i then
        rbind (text_to_token V (take (Suc j - i) (drop i word1))) (\<lambda>tok.
        if tok \<noteq> LLAMA_TOKEN_NULL then Inr (Some (tok, Suc j)) else wpm_match V word1 i j)
      else Inr None)"

lemma wpm_match_bound: "wpm_match V word1 i j = Inr (Some (tok, e)) \<Longrightarrow> i < e \<and> e \<le> j"
proof (induction j)
  case (Suc j)
  then show ?case by (auto simp: result_simps split: if_splits)
qed simp

text \<open>The loop over the positions of a word; no match discards what was found.\<close>

function wpm_word :: "('s, 'z) llama_vocab_scheme \<Rightarrow> u8 list \<Rightarrow> nat \<Rightarrow> int list \<Rightarrow> int list result" where
  "wpm_word V word1 i acc =
     (if i < length word1 then
        case wpm_match V word1 i (nat (min (int (length word1)) (int i + max_token_len V + 1))) of
          Inl e \<Rightarrow> Inl e
        | Inr None \<Rightarrow> Inr []
        | Inr (Some (tok, e)) \<Rightarrow> wpm_word V word1 e (acc @ [tok])
      else Inr acc)"
  by pat_completeness auto
termination
proof (relation "measure (\<lambda>(V, word1, i, acc). length word1 - i)", goal_cases)
  case (2 V word1 i acc r p tok e)
  then have "i < e" using wpm_match_bound by blast
  then show ?case using 2(1) by simp
qed simp

declare wpm_word.simps [simp del]

definition wpm_tokenize :: "unicode_data \<Rightarrow> ('s, 'z) llama_vocab_scheme \<Rightarrow> u8 list \<Rightarrow> int list \<Rightarrow> int list result" where
  "wpm_tokenize D V t out =
     rbind (wpm_preprocess D t) (\<lambda>words.
     rfold (\<lambda>w acc. if w = [] then Inr acc
       else rbind (wpm_word V (escaped_space @ w) 0 []) (\<lambda>toks.
         Inr (if toks = [] then acc @ [special_unk_id V] else acc @ toks))) words out)"

section \<open>Words\<close>

text \<open>Every finished word has a character; only the last may be empty.\<close>

definition words_ok :: "u8 list list \<Rightarrow> bool" where
  "words_ok ws \<longleftrightarrow> ws \<noteq> [] \<and> [] \<notin> set (butlast ws)"

lemma finish_word_ok: "words_ok ws \<Longrightarrow> words_ok (finish_word ws) \<and> last (finish_word ws) = []"
proof -
  assume ws: "words_ok ws"
  then have "set ws = insert (last ws) (set (butlast ws))" unfolding words_ok_def
    by (metis Un_insert_right append_butlast_last_id empty_set list.simps(15) set_append sup_bot_right)
  then show ?thesis using ws unfolding words_ok_def finish_word_def by auto
qed

lemma wpm_step_ok: "words_ok ws \<Longrightarrow> wpm_step D cpt ws = Inr ws' \<Longrightarrow> words_ok ws'"
proof -
  assume ws: "words_ok ws" "wpm_step D cpt ws = Inr ws'"
  note fin = finish_word_ok [OF ws(1)]
  consider "ws' = finish_word ws" | "ws' = ws"
    | s where "unicode_cpt_to_utf8 (unicode_tolower D cpt) = Inr s" "ws' = butlast (finish_word ws) @ [s, []] \<or> ws' = butlast ws @ [last ws @ s]"
    using ws(2) unfolding wpm_step_def by (auto simp: Let_def result_simps split: if_splits)
  then show ?thesis
  proof cases
    case (3 s)
    have "s \<noteq> []" using encoded_length(1) [OF 3(1)] .
    then show ?thesis using 3(2) ws(1) fin unfolding words_ok_def by (auto simp: butlast_append)
  qed (use ws fin in auto)
qed

lemma preprocess_no_empty: "wpm_preprocess D t = Inr ws \<Longrightarrow> [] \<notin> set ws"
proof -
  assume p: "wpm_preprocess D t = Inr ws"
  then obtain cpts vs where vs: "rfold (wpm_step D) cpts [[]] = Inr vs" "ws = (if last vs = [] then butlast vs else vs)"
    unfolding wpm_preprocess_def by (auto simp: result_simps)
  have "words_ok vs"
  proof (rule rfold_invariant [OF vs(1)])
    show "words_ok [[]]" by (simp add: words_ok_def)
  qed (rule wpm_step_ok)
  moreover have "vs = butlast vs @ [last vs]" using calculation unfolding words_ok_def by simp
  then have "set vs = insert (last vs) (set (butlast vs))" by (metis Un_insert_right empty_set list.simps(15) set_append sup_bot_right)
  ultimately show ?thesis using vs(2) unfolding words_ok_def by auto
qed

section \<open>Longest match\<close>

definition token_map :: "('s, 'z) llama_vocab_scheme \<Rightarrow> u8 list \<rightharpoonup> int" where
  "token_map V s = (if lookup V s = LLAMA_TOKEN_NULL then None else Some (lookup V s))"

text \<open>The reference for a word: the longest token, then the rest, or nothing.\<close>

function word_pieces :: "(u8 list \<rightharpoonup> int) \<Rightarrow> u8 list \<Rightarrow> int list option" where
  "word_pieces m s =
     (if s = [] then Some []
      else case longest_token m s 1 of
        None \<Rightarrow> None
      | Some n \<Rightarrow> map_option ((#) (the (m (take n s)))) (word_pieces m (drop n s)))"
  by pat_completeness auto
termination
proof (relation "measure (\<lambda>(m, s). length s)", goal_cases)
  case (2 m s n)
  then show ?case using longest_token_Some(1,2) [of m s 1 n] by (cases s) auto
qed simp

declare word_pieces.simps [simp del]

definition lengths_ok :: "('s, 'z) llama_vocab_scheme \<Rightarrow> bool" where
  "lengths_ok V \<longleftrightarrow> vtype V \<noteq> LLAMA_VOCAB_TYPE_NONE \<and> 0 \<le> max_token_len V \<and>
     (\<forall>s. token_to_id V s \<noteq> None \<longrightarrow> int (length s) \<le> max_token_len V)"

lemma wpm_match_longest:
  assumes "lengths_ok V" "i \<le> length w"
  shows "j \<le> length w \<Longrightarrow> (\<And>n. j - i < n \<Longrightarrow> n \<le> length w - i \<Longrightarrow> token_map V (take n (drop i w)) = None) \<Longrightarrow>
    wpm_match V w i j = Inr (map_option (\<lambda>n. (the (token_map V (take n (drop i w))), i + n)) (longest_token (token_map V) (drop i w) 1))"
proof (induction j)
  case 0
  then have "longest_token (token_map V) (drop i w) 1 = None"
    using longest_token_Some [of "token_map V" "drop i w" 1] by (metis One_nat_def Suc_le_eq diff_0_eq_0 length_drop not_Some_eq)
  then show ?case by simp
next
  case (Suc j)
  show ?case
  proof (cases "Suc j > i")
    case False
    then have "longest_token (token_map V) (drop i w) 1 = None"
      using longest_token_Some [of "token_map V" "drop i w" 1] Suc.prems(2) by (metis Suc_le_eq diff_is_0_eq length_drop linorder_not_le not_Some_eq One_nat_def)
    then show ?thesis using False by simp
  next
    case True
    define n where "n = Suc j - i"
    have n: "1 \<le> n" "n \<le> length (drop i w)" "i + n = Suc j" using True Suc.prems(1) unfolding n_def by auto
    have tok: "text_to_token V (take n (drop i w)) = Inr (lookup V (take n (drop i w)))"
      using assms(1) unfolding lengths_ok_def lookup_def by (simp add: text_to_token_eq)
    show ?thesis
    proof (cases "lookup V (take n (drop i w)) = LLAMA_TOKEN_NULL")
      case False
      then have at: "token_map V (take n (drop i w)) = Some (lookup V (take n (drop i w)))" by (simp add: token_map_def)
      have "longest_token (token_map V) (drop i w) 1 = Some n"
      proof -
        have above: "longest_token (token_map V) (drop i w) (Suc n) = None"
        proof (rule ccontr)
          assume "\<not> ?thesis"
          then obtain l where l: "longest_token (token_map V) (drop i w) (Suc n) = Some l" by blast
          note ls = longest_token_Some [OF l]
          then show False using Suc.prems(2) [of l] unfolding n_def by auto
        qed
        have "longest_token (token_map V) (drop i w) k = Some n" if "k \<le> n" for k
          using that
        proof (induction "n - k" arbitrary: k)
          case 0
          then show ?case using above at n(2) longest_token_step [of n "drop i w" "token_map V"] by simp
        next
          case (Suc d)
          then show ?case using longest_token_step [of k "drop i w" "token_map V"] n(2) by simp
        qed
        then show ?thesis using n(1) by blast
      qed
      then show ?thesis using True tok False at n(3) unfolding n_def by simp
    next
      case null: True
      then have "token_map V (take n (drop i w)) = None" by (simp add: token_map_def)
      then have "token_map V (take l (drop i w)) = None" if "j - i < l" "l \<le> length w - i" for l
        using that Suc.prems(2) [of l] True unfolding n_def by (cases "l = Suc j - i") auto
      then have "wpm_match V w i j = Inr (map_option (\<lambda>n. (the (token_map V (take n (drop i w))), i + n)) (longest_token (token_map V) (drop i w) 1))"
        using Suc.IH Suc.prems(1) by simp
      then show ?thesis using True tok null unfolding n_def by simp
    qed
  qed
qed

lemma wpm_word_ref:
  assumes V: "lengths_ok V"
  shows "i \<le> length w \<Longrightarrow> wpm_word V w i acc =
    Inr (case word_pieces (token_map V) (drop i w) of None \<Rightarrow> [] | Some toks \<Rightarrow> acc @ toks)"
proof (induction "length w - i" arbitrary: i acc rule: less_induct)
  case less
  show ?case
  proof (cases "i < length w")
    case False
    then show ?thesis by (subst wpm_word.simps) (simp add: word_pieces.simps [of _ "[]"])
  next
    case True
    define j where "j = nat (min (int (length w)) (int i + max_token_len V + 1))"
    have j: "j \<le> length w" unfolding j_def by simp
    have "token_map V (take n (drop i w)) = None" if "j - i < n" "n \<le> length w - i" for n
    proof (rule ccontr)
      assume "token_map V (take n (drop i w)) \<noteq> None"
      then have "int (length (take n (drop i w))) \<le> max_token_len V"
        using V unfolding lengths_ok_def token_map_def lookup_def by (auto split: if_splits option.splits)
      then have "int n \<le> max_token_len V" using that(2) by simp
      then show False using that unfolding j_def by auto
    qed
    note m = wpm_match_longest [OF V less.prems j this]
    show ?thesis
    proof (cases "longest_token (token_map V) (drop i w) 1")
      case None
      then have "word_pieces (token_map V) (drop i w) = None" using True by (subst word_pieces.simps) simp
      then show ?thesis using True m None unfolding j_def by (subst wpm_word.simps) simp
    next
      case (Some n)
      note l = longest_token_Some [OF Some]
      define tok where "tok = the (token_map V (take n (drop i w)))"
      have ih: "wpm_word V w (i + n) (acc @ [tok]) = Inr (case word_pieces (token_map V) (drop (i + n) w) of None \<Rightarrow> [] | Some toks \<Rightarrow> (acc @ [tok]) @ toks)"
        using l(1,2) True by (intro less.hyps) auto
      have "word_pieces (token_map V) (drop i w) = map_option ((#) tok) (word_pieces (token_map V) (drop (i + n) w))"
        using True Some unfolding tok_def by (subst word_pieces.simps) (simp add: add.commute)
      moreover have "wpm_word V w i acc = wpm_word V w (i + n) (acc @ [tok])"
        using True m Some unfolding j_def tok_def by (subst wpm_word.simps) simp
      ultimately show ?thesis using ih by (simp split: option.split)
    qed
  qed
qed

lemma wpm_tokenize_ref:
  assumes "lengths_ok V" "wpm_preprocess D t = Inr ws"
  shows "wpm_tokenize D V t out = Inr (out @ concat (map (\<lambda>w.
    case word_pieces (token_map V) (escaped_space @ w) of Some toks \<Rightarrow> toks | None \<Rightarrow> [special_unk_id V]) ws))"
proof -
  have some: "toks \<noteq> []" if "word_pieces (token_map V) (escaped_space @ w) = Some toks" for w toks
    using that by (subst (asm) word_pieces.simps) (auto simp: escaped_space_def split: option.splits)
  have word: "wpm_word V (escaped_space @ w) 0 [] = Inr (case word_pieces (token_map V) (escaped_space @ w) of None \<Rightarrow> [] | Some toks \<Rightarrow> toks)" for w
    using wpm_word_ref [OF assms(1), of 0 "escaped_space @ w" "[]"]
    by (cases "word_pieces (token_map V) (escaped_space @ w)") simp_all
  have "[] \<notin> set vs \<Longrightarrow> rfold (\<lambda>w acc. if w = [] then Inr acc
       else rbind (wpm_word V (escaped_space @ w) 0 []) (\<lambda>toks.
         Inr (if toks = [] then acc @ [special_unk_id V] else acc @ toks))) vs out =
     Inr (out @ concat (map (\<lambda>w. case word_pieces (token_map V) (escaped_space @ w) of Some toks \<Rightarrow> toks | None \<Rightarrow> [special_unk_id V]) vs))" for vs out
  proof (induction vs arbitrary: out)
    case (Cons w vs)
    then show ?case using word [of w] some [of w] by (auto split: option.splits)
  qed simp
  then show ?thesis using assms(2) preprocess_no_empty [OF assms(2)] unfolding wpm_tokenize_def by simp
qed

text \<open>
  C16. The word piece tokenizer is greedy longest match. When no token is longer than the recorded length,
  the tokens of a text are those of its preprocessed words, each with the escaped blank in front: the
  longest token that starts the word, then those of the rest of the word; a word that cannot be finished
  this way becomes one unknown token. The only other outcome is the failure of the preprocessing.
\<close>

theorem wpm_reference:
  assumes "lengths_ok V"
  shows "wpm_tokenize D V t out = rbind (wpm_preprocess D t) (\<lambda>ws. Inr (out @ concat (map (\<lambda>w.
    case word_pieces (token_map V) (escaped_space @ w) of Some toks \<Rightarrow> toks | None \<Rightarrow> [special_unk_id V]) ws)))"
proof (cases "wpm_preprocess D t")
  case (Inl e)
  then show ?thesis by (simp add: wpm_tokenize_def)
next
  case (Inr ws)
  then show ?thesis using wpm_tokenize_ref [OF assms Inr] by simp
qed

definition piece_vocab :: "int llama_vocab" where
  "piece_vocab = ab_vocab\<lparr>vtype := LLAMA_VOCAB_TYPE_WPM, max_token_len := 5, special_unk_id := 9,
     token_to_id := [escaped_space @ ascii ''ab'' \<mapsto> 0, ascii ''b'' \<mapsto> 1]\<rparr>"

definition letter_data :: unicode_data where
  "letter_data = digit_data\<lparr>ranges_nfd := [(0, 0, 0)]\<rparr>"

theorem wpm_reference_witness:
  "wpm_tokenize letter_data piece_vocab (ascii ''abb'') [7] = Inr [7, 0, 1]"
proof -
  have letter: "unicode_cpt_flags_from_cpt letter_data 0x61 = CPT_LETTER" "unicode_cpt_flags_from_cpt letter_data 0x62 = CPT_LETTER"
    by (simp_all add: unicode_cpt_flags_from_cpt_def MAX_CODEPOINTS_def cpt_flags_entry_def letter_data_def digit_data_def)
  have "unicode_cpts_normalize_nfd letter_data (unicode_cpts_from_utf8 (ascii ''abb'')) = Inr [0x61, 0x62, 0x62]" by code_simp
  moreover have "unicode_tolower letter_data 0x61 = 0x61" "unicode_tolower letter_data 0x62 = 0x62" by code_simp+
  moreover have "unicode_cpt_to_utf8 0x61 = Inr (ascii ''a'')" "unicode_cpt_to_utf8 0x62 = Inr (ascii ''b'')" by code_simp+
  moreover have "\<not> is_chinese_char 0x61" "\<not> is_chinese_char 0x62" by (simp_all add: is_chinese_char_def)
  ultimately have words: "wpm_preprocess letter_data (ascii ''abb'') = Inr [ascii ''abb'']"
    by (simp add: wpm_preprocess_def wpm_step_def letter is_whitespace_def is_control_def is_punctuation_def is_symbol_def
      CPT_LETTER_def CPT_CONTROL_def CPT_PUNCTUATION_def CPT_SYMBOL_def CPT_WHITESPACE_def ascii_def)
  have pieces: "word_pieces (token_map piece_vocab) (escaped_space @ ascii ''abb'') = Some [0, 1]" by code_simp
  have "lengths_ok piece_vocab" by (auto simp: lengths_ok_def piece_vocab_def ab_vocab_def escaped_space_def ascii_def split: if_splits)
  then show ?thesis using wpm_reference [of piece_vocab letter_data "ascii ''abb''" "[7]"] words pieces by simp
qed

end
