(* ===== verification/Tokenizer_Ugm.thy ===== *)
theory Tokenizer_Ugm
  imports Naive_Trie
begin

text \<open>
  The unigram tokenizer of \<open>src/llama-vocab.cpp\<close> (\<open>llm_tokenizer_ugm\<close> and its session): a text is
  normalized with the help of a compressed double array of replacements and then cut into the tokens
  with the highest sum of scores, found by dynamic programming over the code points. The floating point
  numbers are a parameter: two ordered types (NaN does not occur) with the operations the code uses. The
  main result needs of them only that addition is monotone, which rounded addition is. It says that the
  path that is read off the table is one of highest score among all the ways to cut the text.
\<close>

section \<open>Definitions\<close>

text \<open>Of \<open>float\<close> (\<open>'s\<close>) and \<open>double\<close> (\<open>'d\<close>): the limits, the penalty, conversion and addition.\<close>

record ('s, 'd) floats =
  flt_max :: 's
  flt_lowest :: 's
  sub_penalty :: "'s \<Rightarrow> 's"
  to_double :: "'s \<Rightarrow> 'd"
  dbl_zero :: 'd
  dbl_lowest :: 'd
  dbl_add :: "'d \<Rightarrow> 'd \<Rightarrow> 'd"

record 's llm_tokenizer_ugm =
  prefix_replacements :: "u8 list"
  xcda_array :: "u32 list"
  user_defined_token_matcher :: naive_trie
  min_score :: 's
  max_score :: 's
  unknown_token_score :: 's
  token_matcher :: naive_trie

subsection \<open>Construction\<close>

text \<open>A \<open>uint32_t\<close> read from memory, on a little-endian machine.\<close>

definition load_u32 :: "u8 list \<Rightarrow> u32" where
  "load_u32 bs = ucast (bs ! 0) OR push_bit 8 (ucast (bs ! 1)) OR push_bit 16 (ucast (bs ! 2)) OR push_bit 24 (ucast (bs ! 3))"

definition load_charsmap :: "u8 list \<Rightarrow> (u32 list \<times> u8 list) result" where
  "load_charsmap charsmap =
     (if charsmap = [] then Inr ([], [])
      else if length charsmap < 4 then Inl Undefined
      else let xcda_blob_size = unat (load_u32 charsmap) in
        if xcda_blob_size + 4 \<ge> length charsmap then Inl (Throw ''Index out of array bounds in precompiled charsmap!'')
        else Inr (map (\<lambda>i. load_u32 (drop (4 + 4 * i) charsmap)) [0..<xcda_blob_size div 4], drop (4 + xcda_blob_size) charsmap))"

definition ugm_add_token ::
  "('s::linorder, 'z) llama_vocab_scheme \<Rightarrow> nat \<Rightarrow> 's llm_tokenizer_ugm \<Rightarrow> 's llm_tokenizer_ugm result" where
  "ugm_add_token V n tz = (let tid = i32_of_u32 n in
     rbind (get_token_data V tid) (\<lambda>data.
     rbind (token_is ATTR_NORMAL V tid) (\<lambda>normal.
     rbind (token_is ATTR_USER_DEFINED V tid) (\<lambda>user_defined.
     rbind (token_is ATTR_UNUSED V tid) (\<lambda>unused.
     let tz1 = (if normal then tz\<lparr>min_score := min (min_score tz) (score data), max_score := max (max_score tz) (score data)\<rparr> else tz);
         tz2 = (if normal \<or> user_defined \<or> unused then tz1\<lparr>token_matcher := trie_insert (ttext data) tid (token_matcher tz1)\<rparr> else tz1) in
     Inr (if user_defined then tz2\<lparr>user_defined_token_matcher := trie_insert (ttext data) 0 (user_defined_token_matcher tz2)\<rparr> else tz2))))))"

definition make_ugm ::
  "('s::linorder, 'd) floats \<Rightarrow> ('s, 'z) llama_vocab_scheme \<Rightarrow> u8 list \<Rightarrow> 's llm_tokenizer_ugm result" where
  "make_ugm F V charsmap =
     rbind (load_charsmap charsmap) (\<lambda>(xcda, replacements).
     rbind (rfold (ugm_add_token V) [0..<n_tokens V]
       \<lparr>prefix_replacements = replacements, xcda_array = xcda, user_defined_token_matcher = empty_trie,
        min_score = flt_max F, max_score = flt_lowest F, unknown_token_score = flt_max F, token_matcher = empty_trie\<rparr>) (\<lambda>tz.
     Inr (tz\<lparr>unknown_token_score := sub_penalty F (min_score tz)\<rparr>)))"

subsection \<open>Normalization\<close>

definition get_node :: "u32 list \<Rightarrow> u32 \<Rightarrow> u32 result" where
  "get_node A index = (if unat index \<ge> length A then Inl (Throw ''Index out of array bounds in XCDA array!'') else Inr (A ! unat index))"

definition get_base :: "u32 list \<Rightarrow> u32 \<Rightarrow> u32 result" where
  "get_base A index = rbind (get_node A index) (\<lambda>packed_node.
     Inr (push_bit (unat (drop_bit 6 (packed_node AND push_bit 9 1))) (drop_bit 10 packed_node)))"

definition get_lcheck :: "u32 list \<Rightarrow> u32 \<Rightarrow> u32 result" where
  "get_lcheck A index = rbind (get_node A index) (\<lambda>packed_node. Inr (packed_node AND (push_bit 31 1 OR 0xff)))"

definition get_leaf :: "u32 list \<Rightarrow> u32 \<Rightarrow> bool result" where
  "get_leaf A index = rbind (get_node A index) (\<lambda>packed_node. Inr (drop_bit 8 packed_node AND 1 \<noteq> 0))"

definition get_value :: "u32 list \<Rightarrow> u32 \<Rightarrow> u32 result" where
  "get_value A index = rbind (get_node A index) (\<lambda>packed_node. Inr (packed_node AND (push_bit 31 1 - 1)))"

text \<open>The walk over the array: the longest match so far, and the offset of its replacement.\<close>

fun xcda_walk :: "u32 list \<Rightarrow> u32 \<Rightarrow> nat \<Rightarrow> u8 list \<Rightarrow> nat \<times> nat \<Rightarrow> (nat \<times> nat) result" where
  "xcda_walk A node_index k [] longest = Inr longest"
| "xcda_walk A node_index k (c # cs) longest =
     (if c = 0 then Inr longest
      else let index1 = node_index XOR ucast c in
        rbind (get_lcheck A index1) (\<lambda>lcheck.
        if lcheck \<noteq> ucast c then Inr longest
        else rbind (get_leaf A index1) (\<lambda>is_leaf.
        rbind (get_base A index1) (\<lambda>base. let index2 = index1 XOR base in
        rbind (if is_leaf then rbind (get_value A index2) (\<lambda>v. Inr (Suc k, unat v)) else Inr longest) (\<lambda>longest'.
        xcda_walk A index2 (Suc k) cs longest')))))"

text \<open>A string in memory up to its zero byte.\<close>

definition c_string :: "u8 list \<Rightarrow> u8 list result" where
  "c_string bs = (if 0 \<in> set bs then Inr (takeWhile (\<lambda>b. b \<noteq> 0) bs) else Inl Undefined)"

definition replacement_character :: "u8 list" where
  "replacement_character = [0xEF, 0xBF, 0xBD]"

text \<open>The normal form of a prefix of the input, and how many bytes it takes.\<close>

definition normalize_prefix :: "'s llm_tokenizer_ugm \<Rightarrow> u8 list \<Rightarrow> nat \<Rightarrow> (u8 list \<times> nat) result" where
  "normalize_prefix tz input input_offset =
     (if input_offset = length input then Inr ([], 0)
      else let user_len = get_longest_prefix (user_defined_token_matcher tz) (drop input_offset input) in
        if user_len > 0 then Inr (take user_len (drop input_offset input), user_len)
        else rbind (if xcda_array tz = [] then Inr (0, 0)
                    else rbind (get_base (xcda_array tz) 0) (\<lambda>node_index.
                      xcda_walk (xcda_array tz) node_index 0 (drop input_offset input) (0, 0))) (\<lambda>(prefix_len, prefix_off).
        if prefix_len > 0 then
          (if prefix_off \<ge> length (prefix_replacements tz) then Inl (Throw ''Index out of array bounds in precompiled charsmap!'')
           else rbind (c_string (drop prefix_off (prefix_replacements tz))) (\<lambda>s. Inr (s, prefix_len)))
        else (case unicode_cpt_from_utf8 input input_offset of
                Inr (_, prefix_offset) \<Rightarrow> Inr (take (prefix_offset - input_offset) (drop input_offset input), prefix_offset - input_offset)
              | Inl (Throw _) \<Rightarrow> Inr (replacement_character, 1)
              | Inl e \<Rightarrow> Inl e)))"

text \<open>One byte of normalized text: the output, whether a blank has been put in front, and whether a word is going on.\<close>

definition normalize_char ::
  "('s, 'z) llama_vocab_scheme \<Rightarrow> u8 list \<Rightarrow> u8 \<Rightarrow> u8 list \<times> bool \<times> bool \<Rightarrow> u8 list \<times> bool \<times> bool" where
  "normalize_char V space c = (\<lambda>(normalized, is_space_prepended, processing_non_ws).
     let shall_prepend_space = \<not> treat_whitespace_as_suffix V \<and> add_space_prefix V;
         shall_merge_spaces = remove_extra_whitespaces V in
     if c \<noteq> 0x20 then
       (if \<not> processing_non_ws then
          (if (shall_prepend_space \<and> \<not> is_space_prepended) \<or> shall_merge_spaces
           then (normalized @ space @ [c], True, True) else (normalized @ [c], is_space_prepended, True))
        else (normalized @ [c], is_space_prepended, True))
     else (if shall_merge_spaces then normalized else normalized @ space, is_space_prepended, False))"

primrec normalize_loop ::
  "nat \<Rightarrow> 's llm_tokenizer_ugm \<Rightarrow> (u8 \<Rightarrow> 'st \<Rightarrow> 'st) \<Rightarrow> u8 list \<Rightarrow> nat \<Rightarrow> 'st \<Rightarrow> 'st result" where
  "normalize_loop 0 tz step input input_offset st = (if input_offset < length input then Inl OutOfFuel else Inr st)"
| "normalize_loop (Suc fuel) tz step input input_offset st =
     (if input_offset < length input then
        rbind (normalize_prefix tz input input_offset) (\<lambda>(norm, consumed).
        normalize_loop fuel tz step input (input_offset + consumed) (fold step norm st))
      else Inr st)"

definition ugm_space :: "('s, 'z) llama_vocab_scheme \<Rightarrow> u8 list" where
  "ugm_space V = (if escape_whitespaces V then escaped_space else [0x20])"

definition ugm_normalize :: "('s, 'z) llama_vocab_scheme \<Rightarrow> 's llm_tokenizer_ugm \<Rightarrow> u8 list \<Rightarrow> u8 list result" where
  "ugm_normalize V tz input =
     rbind (normalize_loop (length input) tz (normalize_char V (ugm_space V)) input 0 ([], False, False)) (\<lambda>(normalized, _, _).
     Inr (if treat_whitespace_as_suffix V \<and> add_space_prefix V then normalized @ ugm_space V else normalized))"

subsection \<open>The best tokenization\<close>

record 'd best_tokenization =
  token_id :: int
  input_offset :: nat
  score_sum :: 'd

definition challenge :: "int \<Rightarrow> nat \<Rightarrow> 'd::linorder \<Rightarrow> nat \<Rightarrow> 'd best_tokenization list \<Rightarrow> 'd best_tokenization list" where
  "challenge tok off challenger p results =
     (if challenger > score_sum (results ! p)
      then results[p := \<lparr>token_id = tok, input_offset = off, score_sum = challenger\<rparr>] else results)"

text \<open>The walk of the token tree from one position: whether a token of one code point was found, and the table.\<close>

function ugm_match ::
  "('s, 'd::linorder) floats \<Rightarrow> ('s, 'z) llama_vocab_scheme \<Rightarrow> u8 list \<Rightarrow> nat \<Rightarrow> nat \<Rightarrow> naive_trie option \<Rightarrow> nat \<Rightarrow>
   bool \<times> 'd best_tokenization list \<Rightarrow> (bool \<times> 'd best_tokenization list) result" where
  "ugm_match F V s off units None prefix_offset st = Inr st"
| "ugm_match F V s off units (Some node) prefix_offset st =
     (if prefix_offset \<le> length s then
        rbind (if has_value node then
            rbind (get_token_data V (tvalue node)) (\<lambda>data.
            rbind (token_is ATTR_USER_DEFINED V (tvalue node)) (\<lambda>user_defined.
            let token_score = (if user_defined then dbl_zero F else to_double F (score data)) in
            Inr (fst st \<or> prefix_offset - off = units,
                 challenge (tvalue node) off (dbl_add F (score_sum (snd st ! off)) token_score) prefix_offset (snd st))))
          else Inr st) (\<lambda>st'.
        rbind (string_at s prefix_offset) (\<lambda>c.
        ugm_match F V s off units (traverse node c) (Suc prefix_offset) st'))
      else Inr st)"
  by pat_completeness auto
termination by (relation "measure (\<lambda>(F, V, s, off, units, node, p, st). Suc (length s) - p)") auto

definition ugm_units :: "u8 list \<Rightarrow> nat \<Rightarrow> nat" where
  "ugm_units s off = min (unicode_len_utf8 (s ! off)) (length s - off)"

definition ugm_step ::
  "('s, 'd::linorder) floats \<Rightarrow> ('s, 'z) llama_vocab_scheme \<Rightarrow> 's llm_tokenizer_ugm \<Rightarrow> u8 list \<Rightarrow> nat \<Rightarrow>
   'd best_tokenization list \<Rightarrow> 'd best_tokenization list result" where
  "ugm_step F V tz s off results =
     rbind (ugm_match F V s off (ugm_units s off) (traverse (token_matcher tz) (s ! off)) (Suc off) (False, results)) (\<lambda>(found, results').
     Inr (if \<not> found
          then challenge (special_unk_id V) off (dbl_add F (score_sum (results' ! off)) (to_double F (unknown_token_score tz)))
                 (off + ugm_units s off) results'
          else results'))"

primrec ugm_loop ::
  "nat \<Rightarrow> ('s, 'd::linorder) floats \<Rightarrow> ('s, 'z) llama_vocab_scheme \<Rightarrow> 's llm_tokenizer_ugm \<Rightarrow> u8 list \<Rightarrow> nat \<Rightarrow>
   'd best_tokenization list \<Rightarrow> 'd best_tokenization list result" where
  "ugm_loop 0 F V tz s off results = (if off < length s then Inl OutOfFuel else Inr results)"
| "ugm_loop (Suc fuel) F V tz s off results =
     (if off < length s then
        rbind (ugm_step F V tz s off results) (\<lambda>results'. ugm_loop fuel F V tz s (off + ugm_units s off) results')
      else Inr results)"

text \<open>
  The way back. The loop variable is a reference to the last entry of the table, so each round overwrites
  that entry with the next one.
\<close>

primrec backtrack :: "nat \<Rightarrow> int \<Rightarrow> nat \<Rightarrow> 'd best_tokenization list \<Rightarrow> bool \<Rightarrow> int list \<Rightarrow> int list result" where
  "backtrack 0 unk n results is_prev_unknown out = Inl OutOfFuel"
| "backtrack (Suc fuel) unk n results is_prev_unknown out =
     (let tokenization = results ! n;
          is_unknown = (token_id tokenization = unk);
          out' = (if is_prev_unknown \<and> is_unknown then out else out @ [token_id tokenization]) in
      if input_offset tokenization = 0 then Inr out'
      else backtrack fuel unk n (results[n := results ! input_offset tokenization]) is_unknown out')"

definition ugm_tokenize ::
  "('s, 'd::linorder) floats \<Rightarrow> ('s, 'z) llama_vocab_scheme \<Rightarrow> 's llm_tokenizer_ugm \<Rightarrow> u8 list \<Rightarrow> int list \<Rightarrow> int list result" where
  "ugm_tokenize F V tz t out =
     rbind (ugm_normalize V tz t) (\<lambda>s.
     if s = [] then Inr out
     else let unknown = \<lparr>token_id = special_unk_id V, input_offset = 0, score_sum = dbl_lowest F\<rparr>;
              initial = (replicate (length s + 1) unknown)[0 := unknown\<lparr>score_sum := dbl_zero F\<rparr>] in
       rbind (ugm_loop (length s) F V tz s 0 initial) (\<lambda>results.
       rbind (backtrack (length s) (special_unk_id V) (length s) results False []) (\<lambda>toks.
       Inr (out @ rev toks))))"

text \<open>The comment on the array puts the leaf flag into bit 9. It is in bit 8; bit 9 scales the base by 256.\<close>

lemma leaf_is_bit_8:
  "get_leaf [0x200] 0 = Inr False" "get_leaf [0x100] 0 = Inr True"
  "get_base [0xC00] 0 = Inr 3" "get_base [0xE00] 0 = Inr 0x300"
  by (simp_all add: get_leaf_def get_base_def get_node_def push_bit_eq_mult)

section \<open>What the tree of tokens holds\<close>

definition ugm_token :: "('s, 'z) llama_vocab_scheme \<Rightarrow> int \<Rightarrow> u8 list \<Rightarrow> bool" where
  "ugm_token V tok k \<longleftrightarrow> 0 \<le> tok \<and> nat tok < length (id_to_token V) \<and> ttext (id_to_token V ! nat tok) = k \<and>
     (\<exists>m \<in> {ATTR_NORMAL, ATTR_USER_DEFINED, ATTR_UNUSED}. has_attr (tattr (id_to_token V ! nat tok)) m)"

definition ugm_tree :: "('s, 'z) llama_vocab_scheme \<Rightarrow> naive_trie \<Rightarrow> bool" where
  "ugm_tree V t \<longleftrightarrow> (\<forall>k tok. trie_get t k = Some tok \<longrightarrow> ugm_token V tok k)"

lemma ugm_add_token_ok:
  assumes "vtype V \<noteq> LLAMA_VOCAB_TYPE_NONE" "length (id_to_token V) \<le> 2147483648" "n < length (id_to_token V)" "ugm_tree V (token_matcher tz)"
  shows "\<exists>tz'. ugm_add_token V n tz = Inr tz' \<and> ugm_tree V (token_matcher tz')"
proof -
  define data where "data = id_to_token V ! n"
  have ids: "i32_of_u32 n = int n" using assms(2,3) by simp
  have vals: "get_token_data V (int n) = Inr data" "token_is m V (int n) = Inr (has_attr (tattr data) m)" for m
    using assms(1,3) by (simp_all add: get_token_data_def token_is_def has_vocab_def rassert_def vector_at_def data_def)
  define P where "P = (\<lambda>m. has_attr (tattr data) m)"
  have tok: "P ATTR_NORMAL \<or> P ATTR_USER_DEFINED \<or> P ATTR_UNUSED \<Longrightarrow> ugm_token V (int n) (ttext data)"
    using assms(3) unfolding ugm_token_def P_def data_def by auto
  then have tree: "P ATTR_NORMAL \<or> P ATTR_USER_DEFINED \<or> P ATTR_UNUSED \<Longrightarrow> ugm_tree V (trie_insert (ttext data) (int n) (token_matcher tz))"
    using assms(4) unfolding ugm_tree_def by (simp add: trie_get_insert)
  show ?thesis unfolding ugm_add_token_def ids Let_def vals rbind.simps P_def [symmetric]
    using tree assms(4) by auto
qed

lemma make_ugm_tree:
  assumes "vtype V \<noteq> LLAMA_VOCAB_TYPE_NONE" "length (id_to_token V) \<le> 2147483648" "make_ugm F V charsmap = Inr tz"
  shows "ugm_tree V (token_matcher tz)"
proof -
  have "ugm_tree V (token_matcher tz')"
    if "rfold (ugm_add_token V) ns tz0 = Inr tz'" "set ns \<subseteq> {..<length (id_to_token V)}" "ugm_tree V (token_matcher tz0)" for ns tz0 tz'
    using that
  proof (induction ns arbitrary: tz0)
    case (Cons n ns)
    obtain tz1 where "ugm_add_token V n tz0 = Inr tz1" "ugm_tree V (token_matcher tz1)"
      using ugm_add_token_ok [OF assms(1,2), of n tz0] Cons.prems by auto
    then show ?case using Cons by auto
  qed simp
  moreover have "n_tokens V = length (id_to_token V)" using assms(2) by (simp add: n_tokens_def)
  moreover have "ugm_tree V empty_trie" by (simp add: ugm_tree_def)
  ultimately show ?thesis using assms(3) by (force simp: make_ugm_def rbind_Inr_iff split: prod.splits)
qed

section \<open>Ways to cut the text\<close>

text \<open>
  The reference. A cut goes from a code point boundary to a later position: over the text of a token, or, where
  no token is exactly the code point, over that code point as an unknown token. The score of a way to cut the
  text is the sum of its scores from left to right.
\<close>

abbreviation cut_text :: "u8 list \<Rightarrow> nat \<Rightarrow> nat \<Rightarrow> u8 list" where
  "cut_text s i j \<equiv> take (j - i) (drop i s)"

inductive boundary :: "u8 list \<Rightarrow> nat \<Rightarrow> bool" for s where
  boundary_0: "boundary s 0"
| boundary_Suc: "boundary s i \<Longrightarrow> i < length s \<Longrightarrow> boundary s (i + ugm_units s i)"

definition token_weight :: "('s, 'd) floats \<Rightarrow> ('s, 'z) llama_vocab_scheme \<Rightarrow> int \<Rightarrow> 'd" where
  "token_weight F V tok = (let d = id_to_token V ! nat tok in
     if has_attr (tattr d) ATTR_USER_DEFINED then dbl_zero F else to_double F (score d))"

definition ugm_cut ::
  "('s, 'd) floats \<Rightarrow> ('s, 'z) llama_vocab_scheme \<Rightarrow> 's llm_tokenizer_ugm \<Rightarrow> u8 list \<Rightarrow> nat \<Rightarrow> nat \<Rightarrow> (int \<times> 'd) option" where
  "ugm_cut F V tz s i j =
     (if i < j \<and> j \<le> length s then
        (case trie_get (token_matcher tz) (cut_text s i j) of
           Some tok \<Rightarrow> Some (tok, token_weight F V tok)
         | None \<Rightarrow> if j = i + ugm_units s i then Some (special_unk_id V, to_double F (unknown_token_score tz)) else None)
      else None)"

inductive ugm_path ::
  "('s, 'd) floats \<Rightarrow> ('s, 'z) llama_vocab_scheme \<Rightarrow> 's llm_tokenizer_ugm \<Rightarrow> u8 list \<Rightarrow> nat \<Rightarrow> int list \<Rightarrow> 'd \<Rightarrow> bool"
  for F V tz s where
  path_Nil: "ugm_path F V tz s 0 [] (dbl_zero F)"
| path_snoc: "ugm_path F V tz s i toks sc \<Longrightarrow> boundary s i \<Longrightarrow> ugm_cut F V tz s i j = Some (tok, w) \<Longrightarrow>
     ugm_path F V tz s j (toks @ [tok]) (dbl_add F sc w)"

lemma ugm_units_pos: "i < length s \<Longrightarrow> 0 < ugm_units s i \<and> i + ugm_units s i \<le> length s"
  using unicode_len_pos by (auto simp: ugm_units_def)

lemma boundary_le: "boundary s i \<Longrightarrow> i \<le> length s"
  by (induction rule: boundary.induct) (auto dest: ugm_units_pos)

lemma cut_bounds: "ugm_cut F V tz s i j = Some x \<Longrightarrow> i < j \<and> j \<le> length s"
  by (auto simp: ugm_cut_def split: if_splits)

lemma cut_unit: "i < length s \<Longrightarrow> ugm_cut F V tz s i (i + ugm_units s i) \<noteq> None"
  using ugm_units_pos [of i s] by (auto simp: ugm_cut_def split: option.split)

section \<open>One step of the table\<close>

definition relaxed ::
  "('s, 'd::linorder) floats \<Rightarrow> nat \<Rightarrow> (int \<times> 'd) option \<Rightarrow> 'd \<Rightarrow> 'd best_tokenization \<Rightarrow> 'd best_tokenization" where
  "relaxed F i c base old =
     (case c of None \<Rightarrow> old
      | Some (tok, w) \<Rightarrow> if dbl_add F base w > score_sum old
          then \<lparr>token_id = tok, input_offset = i, score_sum = dbl_add F base w\<rparr> else old)"

definition token_cut :: "('s, 'd) floats \<Rightarrow> ('s, 'z) llama_vocab_scheme \<Rightarrow> 's llm_tokenizer_ugm \<Rightarrow> u8 list \<Rightarrow> nat \<Rightarrow> nat \<Rightarrow> (int \<times> 'd) option" where
  "token_cut F V tz s i j = map_option (\<lambda>tok. (tok, token_weight F V tok)) (trie_get (token_matcher tz) (cut_text s i j))"

lemma challenge_nth:
  "p < length R \<Longrightarrow> challenge tok i (dbl_add F base w) p R ! q = (if q = p then relaxed F i (Some (tok, w)) base (R ! q) else R ! q)"
  by (auto simp: challenge_def relaxed_def)

lemma challenge_length [simp]: "length (challenge tok i c p R) = length R"
  by (simp add: challenge_def)

lemma ugm_match_eq:
  fixes F :: "('s, 'd::linorder) floats"
  assumes V: "vtype V \<noteq> LLAMA_VOCAB_TYPE_NONE" and tree: "ugm_tree V (token_matcher tz)" and i: "i < length s"
  shows "i < p \<Longrightarrow> p \<le> Suc (length s) \<Longrightarrow> length R = Suc (length s) \<Longrightarrow>
    (p \<le> length s \<longrightarrow> node = node_at (token_matcher tz) (cut_text s i p)) \<Longrightarrow>
    \<exists>R'. ugm_match F V s i units node p (found, R) =
      Inr (found \<or> (p \<le> i + units \<and> i + units \<le> length s \<and> trie_get (token_matcher tz) (cut_text s i (i + units)) \<noteq> None), R') \<and>
    length R' = length R \<and>
    (\<forall>q \<le> length s. R' ! q = (if p \<le> q then relaxed F i (token_cut F V tz s i q) (score_sum (R ! i)) (R ! q) else R ! q))"
proof (induction "Suc (length s) - p" arbitrary: p node found R)
  case 0
  then have p: "p = Suc (length s)" by simp
  have "ugm_match F V s i units node p (found, R) = Inr (found, R)" using p by (cases node) auto
  then show ?case using p by auto
next
  case (Suc d)
  then have p: "p \<le> length s" by simp
  let ?get = "\<lambda>q. trie_get (token_matcher tz) (cut_text s i q)"
  have node: "node = node_at (token_matcher tz) (cut_text s i p)" using Suc.prems(4) p by blast
  have longer: "cut_text s i q = cut_text s i p @ cut_text s p q" if "p \<le> q" for q
    using that Suc.prems(1) take_add [of "p - i" "q - p" "drop i s"] by simp
  show ?case
  proof (cases node)
    case None
    then have "node_at (token_matcher tz) (cut_text s i q) = None" if "p \<le> q" for q
      using that node longer [OF that] node_at_None_append by metis
    then have none: "?get q = None" if "p \<le> q" for q using that by (simp add: trie_get_def)
    then show ?thesis using None none [of "i + units"] by (auto simp: token_cut_def relaxed_def)
  next
    case (Some nd)
    have nd: "node_at (token_matcher tz) (cut_text s i p) = Some nd" using node Some by simp
    have get: "?get p = (if has_value nd then Some (tvalue nd) else None)" using nd by (simp add: trie_get_def)
    define found1 where "found1 = (found \<or> (has_value nd \<and> p - i = units))"
    define R1 where "R1 = (if has_value nd then challenge (tvalue nd) i (dbl_add F (score_sum (R ! i)) (token_weight F V (tvalue nd))) p R else R)"
    obtain c where c: "string_at s p = Inr c" "p < length s \<longrightarrow> c = s ! p" using p by (cases "p < length s") (auto simp: string_at_def)
    have tok: "ugm_token V (tvalue nd) (cut_text s i p)" if "has_value nd" using tree get that unfolding ugm_tree_def by simp
    have first: "ugm_match F V s i units node p (found, R) = ugm_match F V s i units (traverse nd c) (Suc p) (found1, R1)"
      using Some p c(1) tok V unfolding ugm_token_def
      by (auto simp: found1_def R1_def get_token_data_def token_is_def has_vocab_def rassert_def vector_at_def token_weight_def Let_def)
    have "traverse nd c = node_at (token_matcher tz) (cut_text s i (Suc p))" if "Suc p \<le> length s"
    proof -
      have "cut_text s i (Suc p) = cut_text s i p @ [s ! p]"
        using that Suc.prems(1) take_Suc_conv_app_nth [of "p - i" "drop i s"] by (simp add: Suc_diff_le)
      then show ?thesis using that c(2) nd node_at_snoc [of "token_matcher tz" "cut_text s i p" "s ! p"] by (simp add: traverse_def)
    qed
    moreover have len1: "length R1 = Suc (length s)" using Suc.prems(3) by (simp add: R1_def)
    moreover have "d = Suc (length s) - Suc p" using Suc.hyps(2) by simp
    ultimately obtain R' where R': "ugm_match F V s i units (traverse nd c) (Suc p) (found1, R1) =
        Inr (found1 \<or> (Suc p \<le> i + units \<and> i + units \<le> length s \<and> ?get (i + units) \<noteq> None), R')"
      "length R' = length R1"
      "\<forall>q \<le> length s. R' ! q = (if Suc p \<le> q then relaxed F i (token_cut F V tz s i q) (score_sum (R1 ! i)) (R1 ! q) else R1 ! q)"
      using Suc.hyps(1) [of "Suc p" R1 "traverse nd c" found1] Suc.prems(1) p by auto
    have nth1: "R1 ! q = (if q = p then relaxed F i (token_cut F V tz s i p) (score_sum (R ! i)) (R ! p) else R ! q)" for q
      using get p Suc.prems(3) by (auto simp: R1_def token_cut_def challenge_nth [where F = F] relaxed_def [where c = None])
    have "R' ! q = (if p \<le> q then relaxed F i (token_cut F V tz s i q) (score_sum (R ! i)) (R ! q) else R ! q)" if "q \<le> length s" for q
      using R'(3) that nth1 Suc.prems(1) by (auto simp: not_less_eq_eq le_Suc_eq)
    moreover have "(found1 \<or> (Suc p \<le> i + units \<and> i + units \<le> length s \<and> ?get (i + units) \<noteq> None)) =
        (found \<or> (p \<le> i + units \<and> i + units \<le> length s \<and> ?get (i + units) \<noteq> None))"
    proof (cases "i + units = p")
      case True
      then show ?thesis using get p Suc.prems(1) by (auto simp: found1_def)
    next
      case False
      then show ?thesis using Suc.prems(1) by (auto simp: found1_def)
    qed
    ultimately show ?thesis using first R'(1,2) len1 Suc.prems(3) by auto
  qed
qed

lemma ugm_step_eq:
  fixes F :: "('s, 'd::linorder) floats"
  assumes V: "vtype V \<noteq> LLAMA_VOCAB_TYPE_NONE" and tree: "ugm_tree V (token_matcher tz)" and i: "i < length s" and R: "length R = Suc (length s)"
  shows "\<exists>R'. ugm_step F V tz s i R = Inr R' \<and> length R' = length R \<and>
    (\<forall>q \<le> length s. R' ! q = relaxed F i (ugm_cut F V tz s i q) (score_sum (R ! i)) (R ! q))"
proof -
  define u where "u = ugm_units s i"
  let ?get = "\<lambda>q. trie_get (token_matcher tz) (cut_text s i q)"
  have u: "0 < u" "i + u \<le> length s" using ugm_units_pos [OF i] unfolding u_def by auto
  have "cut_text s i (Suc i) = [s ! i]" using i by (simp add: take_Suc_conv_app_nth)
  then have node: "traverse (token_matcher tz) (s ! i) = node_at (token_matcher tz) (cut_text s i (Suc i))"
    by (simp add: traverse_def split: option.split)
  obtain R1 where R1: "ugm_match F V s i u (traverse (token_matcher tz) (s ! i)) (Suc i) (False, R) =
      Inr (?get (i + u) \<noteq> None, R1)" "length R1 = length R"
    "\<forall>q \<le> length s. R1 ! q = (if Suc i \<le> q then relaxed F i (token_cut F V tz s i q) (score_sum (R ! i)) (R ! q) else R ! q)"
    using ugm_match_eq [OF V tree i, of "Suc i" R "traverse (token_matcher tz) (s ! i)" F u False] node i u R by auto
  define R' where "R' = (if ?get (i + u) = None
     then challenge (special_unk_id V) i (dbl_add F (score_sum (R1 ! i)) (to_double F (unknown_token_score tz))) (i + u) R1 else R1)"
  have step: "ugm_step F V tz s i R = Inr R'" unfolding ugm_step_def u_def [symmetric] R1(1) R'_def by simp
  have base: "R1 ! i = R ! i" using R1(3) i by simp
  have "R' ! q = relaxed F i (ugm_cut F V tz s i q) (score_sum (R ! i)) (R ! q)" if q: "q \<le> length s" for q
  proof (cases "q \<le> i")
    case True
    then have "q \<noteq> i + u" using u by simp
    then have "R' ! q = R ! q" using R1(2,3) True q u R unfolding R'_def by (simp add: challenge_nth [where F = F])
    then show ?thesis using True by (simp add: ugm_cut_def relaxed_def)
  next
    case False
    have r1: "R1 ! q = relaxed F i (token_cut F V tz s i q) (score_sum (R ! i)) (R ! q)" using R1(3) False q by simp
    show ?thesis
    proof (cases "?get q")
      case None
      then have "R1 ! q = R ! q" using r1 by (simp add: token_cut_def relaxed_def)
      then have "R' ! q = (if q = i + u then relaxed F i (Some (special_unk_id V, to_double F (unknown_token_score tz))) (score_sum (R ! i)) (R ! q) else R ! q)"
        using None base R R1(2) u unfolding R'_def by (auto simp: challenge_nth [where F = F])
      then show ?thesis using None False q by (simp add: ugm_cut_def u_def relaxed_def)
    next
      case (Some tok)
      then have "R' ! q = R1 ! q" using R R1(2) u unfolding R'_def by (auto simp: challenge_nth [where F = F])
      then show ?thesis using r1 Some False q by (simp add: ugm_cut_def token_cut_def)
    qed
  qed
  then show ?thesis using step R1(2) unfolding R'_def by auto
qed

section \<open>The table\<close>

text \<open>
  What holds once the boundaries before \<open>b\<close> have been processed: an entry is untouched when no cut leads to it
  yet, otherwise it stands for a cut from an earlier boundary; and it beats every such cut.
\<close>

definition table_ok ::
  "('s, 'd::linorder) floats \<Rightarrow> ('s, 'z) llama_vocab_scheme \<Rightarrow> 's llm_tokenizer_ugm \<Rightarrow> u8 list \<Rightarrow> nat \<Rightarrow> 'd best_tokenization list \<Rightarrow> bool" where
  "table_ok F V tz s b R \<longleftrightarrow> length R = Suc (length s) \<and> score_sum (R ! 0) = dbl_zero F \<and>
     (\<forall>p. 0 < p \<and> p \<le> length s \<longrightarrow>
        (\<forall>i. boundary s i \<and> i < b \<longrightarrow> ugm_cut F V tz s i p = None) \<and> score_sum (R ! p) = dbl_lowest F \<or>
        (\<exists>i tok w. boundary s i \<and> i < b \<and> ugm_cut F V tz s i p = Some (tok, w) \<and>
           R ! p = \<lparr>token_id = tok, input_offset = i, score_sum = dbl_add F (score_sum (R ! i)) w\<rparr>)) \<and>
     (\<forall>i p tok w. boundary s i \<and> i < b \<and> ugm_cut F V tz s i p = Some (tok, w) \<longrightarrow> dbl_add F (score_sum (R ! i)) w \<le> score_sum (R ! p))"

lemma table_cut:
  assumes ok: "table_ok F V tz s b R" and i: "boundary s i" "i < b" "ugm_cut F V tz s i p = Some x"
  shows "\<exists>i tok w. boundary s i \<and> i < b \<and> ugm_cut F V tz s i p = Some (tok, w) \<and>
    R ! p = \<lparr>token_id = tok, input_offset = i, score_sum = dbl_add F (score_sum (R ! i)) w\<rparr>"
proof -
  have p: "0 < p \<and> p \<le> length s" using cut_bounds [OF i(3)] by auto
  have "\<not> (\<forall>j. boundary s j \<and> j < b \<longrightarrow> ugm_cut F V tz s j p = None)" using i by auto
  moreover have "(\<forall>j. boundary s j \<and> j < b \<longrightarrow> ugm_cut F V tz s j p = None) \<and> score_sum (R ! p) = dbl_lowest F \<or>
      (\<exists>j tok w. boundary s j \<and> j < b \<and> ugm_cut F V tz s j p = Some (tok, w) \<and>
           R ! p = \<lparr>token_id = tok, input_offset = j, score_sum = dbl_add F (score_sum (R ! j)) w\<rparr>)"
    using ok p unfolding table_ok_def by blast
  ultimately show ?thesis by blast
qed

lemma boundary_cases_cut:
  assumes "boundary s p" "0 < p"
  shows "\<exists>i. boundary s i \<and> i < p \<and> ugm_cut F V tz s i p \<noteq> None"
  using assms
proof (cases rule: boundary.cases)
  case (boundary_Suc i)
  then show ?thesis using cut_unit [of i s F V tz] ugm_units_pos [of i s] by auto
qed simp

text \<open>The entries of the boundaries are the scores of ways to cut the text.\<close>

lemma table_path:
  assumes ok: "table_ok F V tz s b R"
  shows "boundary s p \<Longrightarrow> p \<le> b \<Longrightarrow> \<exists>toks. ugm_path F V tz s p toks (score_sum (R ! p))"
proof (induction p rule: less_induct)
  case (less p)
  show ?case
  proof (cases "p = 0")
    case True
    then show ?thesis using ok path_Nil unfolding table_ok_def by metis
  next
    case False
    then obtain j x where "boundary s j" "j < p" "ugm_cut F V tz s j p = Some x"
      using boundary_cases_cut [OF less.prems(1), of F V tz] by auto
    then obtain i tok w where e: "boundary s i" "i < b" "ugm_cut F V tz s i p = Some (tok, w)"
      "R ! p = \<lparr>token_id = tok, input_offset = i, score_sum = dbl_add F (score_sum (R ! i)) w\<rparr>"
      using table_cut [OF ok] less.prems(2) by (metis order_less_le_trans)
    have "i < p" using cut_bounds [OF e(3)] by simp
    then obtain toks where "ugm_path F V tz s i toks (score_sum (R ! i))" using less.IH [of i] e(1) less.prems(2) by auto
    then show ?thesis using path_snoc [OF _ e(1,3)] e(4) by auto
  qed
qed

text \<open>No way to cut the text scores as low as the initial value of the table.\<close>

definition scores_above :: "('s, 'd::linorder) floats \<Rightarrow> ('s, 'z) llama_vocab_scheme \<Rightarrow> 's llm_tokenizer_ugm \<Rightarrow> u8 list \<Rightarrow> bool" where
  "scores_above F V tz s \<longleftrightarrow> (\<forall>p toks sc. ugm_path F V tz s p toks sc \<longrightarrow> dbl_lowest F < sc)"

lemma table_step:
  fixes F :: "('s, 'd::linorder) floats"
  assumes ok: "table_ok F V tz s b R" and b: "boundary s b" and above: "scores_above F V tz s"
    and R': "length R' = length R" "\<forall>q \<le> length s. R' ! q = relaxed F b (ugm_cut F V tz s b q) (score_sum (R ! b)) (R ! q)"
    and next_b: "\<And>i. boundary s i \<Longrightarrow> i < b' \<Longrightarrow> i \<le> b" and "b < b'"
  shows "table_ok F V tz s b' R'"
proof -
  have same: "R' ! q = R ! q" if "q \<le> b" for q
    using R'(2) that boundary_le [OF b] by (simp add: ugm_cut_def relaxed_def)
  obtain toks where path: "ugm_path F V tz s b toks (score_sum (R ! b))" using table_path [OF ok b] by auto
  have high: "dbl_lowest F < dbl_add F (score_sum (R ! b)) w" if "ugm_cut F V tz s b p = Some (tok, w)" for p tok w
    using path_snoc [OF path b that] above unfolding scores_above_def by blast
  have grow: "score_sum (R ! p) \<le> score_sum (R' ! p)" if "p \<le> length s" for p
    using R'(2) that by (auto simp: relaxed_def split: option.split)
  have "(\<forall>i. boundary s i \<and> i < b' \<longrightarrow> ugm_cut F V tz s i p = None) \<and> score_sum (R' ! p) = dbl_lowest F \<or>
      (\<exists>i tok w. boundary s i \<and> i < b' \<and> ugm_cut F V tz s i p = Some (tok, w) \<and>
         R' ! p = \<lparr>token_id = tok, input_offset = i, score_sum = dbl_add F (score_sum (R' ! i)) w\<rparr>)" if p: "0 < p" "p \<le> length s" for p
  proof (cases "R' ! p = R ! p")
    case False
    then obtain tok w where "ugm_cut F V tz s b p = Some (tok, w)"
      "R' ! p = \<lparr>token_id = tok, input_offset = b, score_sum = dbl_add F (score_sum (R ! b)) w\<rparr>"
      using R'(2) p(2) by (auto simp: relaxed_def split: option.splits if_splits)
    then show ?thesis using b \<open>b < b'\<close> same [of b] by auto
  next
    case True
    show ?thesis
    proof (cases "\<exists>i. boundary s i \<and> i < b \<and> ugm_cut F V tz s i p \<noteq> None")
      case early: True
      then obtain i tok w where e: "boundary s i" "i < b" "ugm_cut F V tz s i p = Some (tok, w)"
        "R ! p = \<lparr>token_id = tok, input_offset = i, score_sum = dbl_add F (score_sum (R ! i)) w\<rparr>"
        using table_cut [OF ok] by (metis not_Some_eq)
      then have "R' ! p = \<lparr>token_id = tok, input_offset = i, score_sum = dbl_add F (score_sum (R' ! i)) w\<rparr>"
        using True same [of i] by simp
      then show ?thesis using e(1-3) \<open>b < b'\<close> by (metis order.strict_trans)
    next
      case none: False
      then have low: "score_sum (R ! p) = dbl_lowest F" using ok p unfolding table_ok_def by blast
      have "ugm_cut F V tz s b p = None"
      proof (rule ccontr)
        assume "ugm_cut F V tz s b p \<noteq> None"
        then obtain tok w where c: "ugm_cut F V tz s b p = Some (tok, w)" by auto
        then have "score_sum (R' ! p) = dbl_add F (score_sum (R ! b)) w" using R'(2) p(2) high [OF c] low by (simp add: relaxed_def)
        then show False using high [OF c] low True by simp
      qed
      then have "\<forall>i. boundary s i \<and> i < b' \<longrightarrow> ugm_cut F V tz s i p = None" using none next_b by (metis order_le_less)
      then show ?thesis using low True by simp
    qed
  qed
  moreover have "dbl_add F (score_sum (R' ! i)) w \<le> score_sum (R' ! p)"
    if i: "boundary s i" "i < b'" "ugm_cut F V tz s i p = Some (tok, w)" for i p tok w
  proof -
    have p: "p \<le> length s" using cut_bounds [OF i(3)] by simp
    have "i \<le> b" using next_b i(1,2) by blast
    show ?thesis
    proof (cases "i = b")
      case True
      then show ?thesis using R'(2) p i(3) same [of b] by (auto simp: relaxed_def)
    next
      case False
      then have "dbl_add F (score_sum (R ! i)) w \<le> score_sum (R ! p)" using ok i \<open>i \<le> b\<close> unfolding table_ok_def by auto
      then show ?thesis using same [OF \<open>i \<le> b\<close>] grow [OF p] by simp
    qed
  qed
  moreover have "length R' = Suc (length s)" "score_sum (R' ! 0) = dbl_zero F" using ok R'(1) same [of 0] unfolding table_ok_def by auto
  ultimately show ?thesis unfolding table_ok_def by blast
qed

text \<open>Between a boundary and the next there is none.\<close>

lemma boundary_next: "boundary s b \<Longrightarrow> boundary s i \<Longrightarrow> i < b \<Longrightarrow> i + ugm_units s i \<le> b"
proof (induction b arbitrary: i rule: less_induct)
  case (less b)
  show ?case
    using less.prems(1)
  proof (cases rule: boundary.cases)
    case (boundary_Suc a)
    then have a: "a < b" using ugm_units_pos [of a s] by simp
    consider "i < a" | "i = a" | "a < i" by linarith
    then show ?thesis
    proof cases
      case 1
      then show ?thesis using less.IH [OF a boundary_Suc(2) less.prems(2)] a by simp
    next
      case 3
      then show ?thesis using less.IH [OF less.prems(3,2) boundary_Suc(2)] boundary_Suc(1) less.prems(3) by simp
    qed (use boundary_Suc in simp)
  qed (use less.prems(3) in simp)
qed

lemma ugm_loop_table:
  fixes F :: "('s, 'd::linorder) floats"
  assumes V: "vtype V \<noteq> LLAMA_VOCAB_TYPE_NONE" and tree: "ugm_tree V (token_matcher tz)" and above: "scores_above F V tz s"
  shows "length s - b \<le> fuel \<Longrightarrow> boundary s b \<Longrightarrow> table_ok F V tz s b R \<Longrightarrow>
    boundary s (length s) \<and> (\<exists>R'. ugm_loop fuel F V tz s b R = Inr R' \<and> table_ok F V tz s (length s) R')"
proof (induction fuel arbitrary: b R)
  case 0
  then show ?case using boundary_le [of s b] by auto
next
  case (Suc fuel)
  show ?case
  proof (cases "b < length s")
    case True
    define b' where "b' = b + ugm_units s b"
    have b': "b < b'" "boundary s b'" using ugm_units_pos [OF True] boundary_Suc [OF Suc.prems(2) True] unfolding b'_def by auto
    have "length R = Suc (length s)" using Suc.prems(3) unfolding table_ok_def by simp
    then obtain R' where R': "ugm_step F V tz s b R = Inr R'" "length R' = length R"
      "\<forall>q \<le> length s. R' ! q = relaxed F b (ugm_cut F V tz s b q) (score_sum (R ! b)) (R ! q)"
      using ugm_step_eq [OF V tree True, of R F] by blast
    have "i \<le> b" if "boundary s i" "i < b'" for i
      using boundary_next [OF that(1) Suc.prems(2)] that(2) unfolding b'_def by linarith
    then have "table_ok F V tz s b' R'" using table_step [OF Suc.prems(3,2) above R'(2,3) _ b'(1)] by blast
    then show ?thesis using Suc.IH [of b' R'] Suc.prems(1) b' True R'(1) unfolding b'_def by simp
  next
    case False
    then have "b = length s" using boundary_le [OF Suc.prems(2)] by simp
    then show ?thesis using Suc.prems(2,3) by auto
  qed
qed

text \<open>The last entry of the finished table beats every way to cut the text.\<close>

definition monotone_add :: "('s, 'd::linorder) floats \<Rightarrow> bool" where
  "monotone_add F \<longleftrightarrow> (\<forall>a b w. a \<le> b \<longrightarrow> dbl_add F a w \<le> dbl_add F b w)"

lemma table_best:
  assumes "table_ok F V tz s (length s) R" "monotone_add F"
  shows "ugm_path F V tz s p toks sc \<Longrightarrow> sc \<le> score_sum (R ! p)"
proof (induction rule: ugm_path.induct)
  case path_Nil
  then show ?case using assms(1) unfolding table_ok_def by simp
next
  case (path_snoc i toks sc j tok w)
  have "i < length s" using cut_bounds [OF path_snoc.hyps(3)] by simp
  then have "dbl_add F (score_sum (R ! i)) w \<le> score_sum (R ! j)"
    using assms(1) path_snoc.hyps(2,3) unfolding table_ok_def by blast
  then show ?case using assms(2) path_snoc.IH unfolding monotone_add_def by (meson order_trans)
qed

section \<open>The way back\<close>

text \<open>A run of unknown tokens counts as one.\<close>

fun merge_unknown :: "int \<Rightarrow> bool \<Rightarrow> int list \<Rightarrow> int list" where
  "merge_unknown unk prev [] = []"
| "merge_unknown unk prev (tok # toks) = (if prev \<and> tok = unk then [] else [tok]) @ merge_unknown unk (tok = unk) toks"

lemma merge_append:
  "merge_unknown unk prev (xs @ [x]) = merge_unknown unk prev xs @
     (if (if xs = [] then prev else last xs = unk) \<and> x = unk then [] else [x])"
  by (induction xs arbitrary: prev) auto

lemma merge_prev: "merge_unknown unk True xs = (if xs \<noteq> [] \<and> hd xs = unk then tl (merge_unknown unk False xs) else merge_unknown unk False xs)"
  by (cases xs) auto

lemma merge_rev: "rev (merge_unknown unk False (rev xs)) = merge_unknown unk False xs"
proof (induction xs)
  case (Cons x xs)
  have "rev (merge_unknown unk False (rev (x # xs))) =
      (if xs \<noteq> [] \<and> hd xs = unk \<and> x = unk then [] else [x]) @ merge_unknown unk False xs"
    using Cons by (simp add: merge_append last_rev)
  also have "\<dots> = merge_unknown unk False (x # xs)"
    using merge_prev [of unk xs] by (cases xs) auto
  finally show ?case .
qed simp

lemma backtrack_path:
  assumes ok: "table_ok F V tz s (length s) R" and n: "boundary s (length s)"
  shows "boundary s p \<Longrightarrow> 0 < p \<Longrightarrow> p \<le> fuel \<Longrightarrow>
    \<exists>toks. ugm_path F V tz s p toks (score_sum (R ! p)) \<and>
      (\<forall>prev out. backtrack fuel unk (length s) (R[length s := R ! p]) prev out = Inr (out @ merge_unknown unk prev (rev toks)))"
proof (induction fuel arbitrary: p)
  case (Suc fuel)
  have len: "length s < length R" using ok unfolding table_ok_def by simp
  obtain j x where "boundary s j" "j < p" "ugm_cut F V tz s j p = Some x"
    using boundary_cases_cut [OF Suc.prems(1,2), of F V tz] by auto
  then obtain i tok w where e: "boundary s i" "ugm_cut F V tz s i p = Some (tok, w)"
    "R ! p = \<lparr>token_id = tok, input_offset = i, score_sum = dbl_add F (score_sum (R ! i)) w\<rparr>"
    using table_cut [OF ok] boundary_le [OF Suc.prems(1)] by (metis order_less_le_trans)
  have i: "i < p" "i < length s" using cut_bounds [OF e(2)] by auto
  show ?case
  proof (cases "i = 0")
    case True
    have "ugm_path F V tz s 0 [] (score_sum (R ! 0))" using ok path_Nil [of F V tz s] unfolding table_ok_def by simp
    then have "ugm_path F V tz s p [tok] (score_sum (R ! p))" using path_snoc [OF _ e(1,2)] True e(3) by force
    then show ?thesis using True e(3) len by (intro exI [of _ "[tok]"]) (simp add: Let_def)
  next
    case False
    then obtain toks where toks: "ugm_path F V tz s i toks (score_sum (R ! i))"
      "\<forall>prev out. backtrack fuel unk (length s) (R[length s := R ! i]) prev out = Inr (out @ merge_unknown unk prev (rev toks))"
      using Suc.IH [OF e(1)] Suc.prems(3) i by auto
    have "ugm_path F V tz s p (toks @ [tok]) (score_sum (R ! p))" using path_snoc [OF toks(1) e(1,2)] e(3) by simp
    then show ?thesis using False toks(2) e(3) len i by (intro exI [of _ "toks @ [tok]"]) (simp add: Let_def)
  qed
qed simp

section \<open>Normalization ends\<close>

lemma normalize_prefix_progress:
  assumes "normalize_prefix tz input off = Inr (norm, n)" "off < length input"
  shows "0 < n"
  using assms cpt_from_utf8_progress [of input off]
  by (auto simp: normalize_prefix_def Let_def rbind_Inr_iff split: if_splits sum.splits prod.splits failure.splits)

lemma xcda_walk_errors: "xcda_walk A node k cs longest \<noteq> Inl OutOfFuel"
  by (induction A node k cs longest rule: xcda_walk.induct)
    (auto simp: Let_def rbind_Inl_iff get_lcheck_def get_leaf_def get_base_def get_value_def get_node_def split: if_splits)

lemma normalize_prefix_errors: "normalize_prefix tz input off \<noteq> Inl OutOfFuel"
proof -
  have "unicode_cpt_from_utf8 input off \<noteq> Inl OutOfFuel" by (auto simp: unicode_cpt_from_utf8_def Let_def)
  moreover have "get_base A i \<noteq> Inl OutOfFuel" "c_string bs \<noteq> Inl OutOfFuel" for A i bs
    by (auto simp: get_base_def get_node_def c_string_def)
  ultimately show ?thesis using xcda_walk_errors
    by (auto simp: normalize_prefix_def Let_def rbind_Inl_iff split: if_splits sum.splits prod.splits failure.splits)
qed

lemma normalize_loop_ends: "length input - off \<le> fuel \<Longrightarrow> normalize_loop fuel tz step input off st \<noteq> Inl OutOfFuel"
proof (induction fuel arbitrary: off st)
  case (Suc fuel)
  show ?case
  proof (cases "normalize_prefix tz input off")
    case (Inl e)
    then show ?thesis using normalize_prefix_errors [of tz input off] by auto
  next
    case (Inr r)
    obtain norm n where r: "r = (norm, n)" by fastforce
    show ?thesis
    proof (cases "off < length input")
      case True
      then have "0 < n" using normalize_prefix_progress Inr r by blast
      then show ?thesis using Suc.IH [of "off + n" "fold step norm st"] Suc.prems Inr r by simp
    qed simp
  qed
qed simp

lemma ugm_normalize_ends: "ugm_normalize V tz t \<noteq> Inl OutOfFuel"
  using normalize_loop_ends [of t 0 "length t" tz "normalize_char V (ugm_space V)" "([], False, False)"]
  by (auto simp: ugm_normalize_def rbind_Inl_iff)

text \<open>
  Without replacements and user-defined tokens a valid text is its own normal form, up to the blanks.
\<close>

lemma normalize_plain:
  assumes "xcda_array tz = []" "user_defined_token_matcher tz = empty_trie"
  shows "\<forall>b \<in> set bss. encoded b \<Longrightarrow> length bss \<le> fuel \<Longrightarrow>
    normalize_loop fuel tz step (pre @ concat bss) (length pre) st = Inr (fold step (concat bss) st)"
proof (induction bss arbitrary: fuel pre st)
  case Nil
  then show ?case by (cases fuel) auto
next
  case (Cons b bss)
  obtain f where fuel: "fuel = Suc f" "length bss \<le> f" using Cons.prems(2) by (cases fuel) auto
  obtain c where c: "unicode_cpt_to_utf8 c = Inr b" using Cons.prems(1) unfolding encoded_def by auto
  have ne: "b \<noteq> []" using encoded_length(1) [OF c] by blast
  have "unicode_cpt_from_utf8 (pre @ b @ concat bss) (length pre) = Inr (c, length pre + length b)"
    using ucodec.dec_enc [OF c, of pre "concat bss"] by (auto simp: dec_unicode_def split: sum.splits)
  moreover have "get_longest_prefix empty_trie s = 0" for s by (cases s) (simp_all add: empty_trie_def)
  ultimately have "normalize_prefix tz (pre @ b @ concat bss) (length pre) = Inr (b, length b)"
    using assms ne by (simp add: normalize_prefix_def)
  then show ?case using Cons.IH [of f "pre @ b" "fold step b st"] Cons.prems(1) fuel ne by (simp add: fold_append)
qed

text \<open>With extra white space removed, what is left are the words, each with a blank in front.\<close>

fun blank_words :: "u8 list \<Rightarrow> u8 list \<Rightarrow> u8 list list" where
  "blank_words w [] = (if w = [] then [] else [w])"
| "blank_words w (c # cs) = (if c = 0x20 then (if w = [] then [] else [w]) @ blank_words [] cs else blank_words (w @ [c]) cs)"

lemma merged_words:
  assumes "remove_extra_whitespaces V"
  shows "\<exists>sp pr. fold (normalize_char V space) cs (concat (map ((@) space) ws) @ (if w = [] then [] else space @ w), sp0, w \<noteq> []) =
    (concat (map ((@) space) (ws @ blank_words w cs)), sp, pr)"
proof (induction cs arbitrary: ws w sp0)
  case (Cons c cs)
  show ?case
  proof (cases "c = 0x20")
    case True
    then show ?thesis using Cons [of "ws @ (if w = [] then [] else [w])" "[]" sp0] assms
      by (auto simp: normalize_char_def Let_def)
  next
    case False
    then show ?thesis using Cons [of ws "w @ [c]" "w = [] \<or> sp0"] assms
      by (auto simp: normalize_char_def Let_def split: if_splits)
  qed
qed (auto)

lemma ugm_normalize_words:
  assumes tz: "xcda_array tz = []" "user_defined_token_matcher tz = empty_trie"
    and V: "remove_extra_whitespaces V" and t: "\<forall>b \<in> set bss. encoded b" "t = concat bss"
  shows "ugm_normalize V tz t = Inr (concat (map ((@) (ugm_space V)) (blank_words [] t)) @
    (if treat_whitespace_as_suffix V \<and> add_space_prefix V then ugm_space V else []))"
proof -
  have "length bss \<le> length t" using t encoded_length(1) unfolding encoded_def
  proof (induction bss arbitrary: t)
    case (Cons b bss)
    then have "b \<noteq> []" "length bss \<le> length (concat bss)" by auto
    then show ?case using Cons.prems(2) by (cases b) auto
  qed simp
  then have loop: "normalize_loop (length t) tz (normalize_char V (ugm_space V)) t 0 ([], False, False) =
      Inr (fold (normalize_char V (ugm_space V)) t ([], False, False))"
    using normalize_plain [OF tz t(1), of "length t" _ "[]"] t(2) by simp
  obtain sp pr where "fold (normalize_char V (ugm_space V)) t ([], False, False) =
      (concat (map ((@) (ugm_space V)) (blank_words [] t)), sp, pr)"
    using merged_words [OF V, of "ugm_space V" t "[]" "[]" False] by auto
  then show ?thesis using loop by (simp add: ugm_normalize_def)
qed

section \<open>The best way to cut the text\<close>

text \<open>
  C11. The unigram tokenizer finds a best tokenization. For a vocabulary of at most \<open>2\<^sup>3\<^sup>1\<close> tokens, a
  tokenizer built from it, and a text whose normal form is not empty, provided that addition of scores is
  monotone and no way to cut the normal form scores as low as the initial value of the table, the
  tokenizer returns, and what it appends is a way to cut the normal form from its beginning to its end, into
  tokens and unknown code points, whose score no other way exceeds, with each run of unknown tokens made one.
\<close>

theorem ugm_optimal:
  fixes F :: "('s::linorder, 'd::linorder) floats"
  assumes V: "vtype V \<noteq> LLAMA_VOCAB_TYPE_NONE" "length (id_to_token V) \<le> 2147483648" "make_ugm F V charsmap = Inr tz"
    and s: "ugm_normalize V tz t = Inr s" "s \<noteq> []" and F: "monotone_add F" "scores_above F V tz s"
  shows "\<exists>toks best. ugm_path F V tz s (length s) toks best \<and>
     (\<forall>toks' sc. ugm_path F V tz s (length s) toks' sc \<longrightarrow> sc \<le> best) \<and>
     ugm_tokenize F V tz t out = Inr (out @ merge_unknown (special_unk_id V) False toks)"
proof -
  define unknown where "unknown = \<lparr>token_id = special_unk_id V, input_offset = 0, score_sum = dbl_lowest F\<rparr>"
  define R0 where "R0 = (replicate (length s + 1) unknown)[0 := unknown\<lparr>score_sum := dbl_zero F\<rparr>]"
  have "table_ok F V tz s 0 R0" unfolding table_ok_def R0_def unknown_def by (auto simp: nth_Cons' nth_list_update)
  then obtain R where R: "ugm_loop (length s) F V tz s 0 R0 = Inr R" "table_ok F V tz s (length s) R" "boundary s (length s)"
    using ugm_loop_table [OF V(1) make_ugm_tree [OF V] F(2), of 0 "length s"] boundary_0 by auto
  have n: "0 < length s" "length s < length R" using s(2) R(2) unfolding table_ok_def by auto
  obtain toks where toks: "ugm_path F V tz s (length s) toks (score_sum (R ! length s))"
    "backtrack (length s) (special_unk_id V) (length s) R False [] = Inr (merge_unknown (special_unk_id V) False (rev toks))"
    using backtrack_path [OF R(2,3,3) n(1) order_refl, of "special_unk_id V"] n(2) by auto
  have "ugm_tokenize F V tz t out = Inr (out @ merge_unknown (special_unk_id V) False toks)"
    using s R(1) toks(2) merge_rev by (simp add: ugm_tokenize_def Let_def R0_def unknown_def)
  then show ?thesis using toks(1) table_best [OF R(2) F(1)] by blast
qed

text \<open>Integer scores, and a vocabulary of two letters and a pair.\<close>

definition int_floats :: "(int, int) floats" where
  "int_floats = \<lparr>flt_max = 1000, flt_lowest = -1000, sub_penalty = (\<lambda>x. x - 10), to_double = (\<lambda>x. x), dbl_zero = 0,
     dbl_lowest = -100000, dbl_add = (+)\<rparr>"

definition uni_vocab :: "int llama_vocab" where
  "uni_vocab = \<lparr>vtype = LLAMA_VOCAB_TYPE_UGM, pre_type = 0, max_token_len = 2, special_bos_id = -1, special_eos_id = -1,
     special_unk_id = 0, special_sep_id = -1, add_space_prefix = False, add_bos = False, add_eos = False,
     ignore_merges = False, clean_spaces = False, remove_extra_whitespaces = False, escape_whitespaces = True,
     treat_whitespace_as_suffix = False,
     token_to_id = [ascii ''a'' \<mapsto> 1, ascii ''b'' \<mapsto> 2, ascii ''ab'' \<mapsto> 3],
     id_to_token = [\<lparr>ttext = ascii ''<unk>'', score = 0, tattr = ATTR_UNKNOWN\<rparr>, \<lparr>ttext = ascii ''a'', score = -3, tattr = ATTR_NORMAL\<rparr>,
       \<lparr>ttext = ascii ''b'', score = -3, tattr = ATTR_NORMAL\<rparr>, \<lparr>ttext = ascii ''ab'', score = -4, tattr = ATTR_NORMAL\<rparr>],
     cache_special_tokens = [], cache_token_to_piece = [], bpe_ranks = Map.empty\<rparr>"

definition uni_tokenizer :: "int llm_tokenizer_ugm" where
  "uni_tokenizer = \<lparr>prefix_replacements = [], xcda_array = [], user_defined_token_matcher = empty_trie,
     min_score = -4, max_score = -3, unknown_token_score = -14,
     token_matcher = trie_insert (ascii ''ab'') 3 (trie_insert (ascii ''b'') 2 (trie_insert (ascii ''a'') 1 empty_trie))\<rparr>"

lemma uni_make: "make_ugm int_floats uni_vocab [] = Inr uni_tokenizer"
proof -
  have vals: "has_attr ATTR_NORMAL ATTR_NORMAL" "\<not> has_attr ATTR_NORMAL ATTR_USER_DEFINED" "\<not> has_attr ATTR_NORMAL ATTR_UNUSED"
    "\<not> has_attr ATTR_UNKNOWN ATTR_NORMAL" "\<not> has_attr ATTR_UNKNOWN ATTR_USER_DEFINED" "\<not> has_attr ATTR_UNKNOWN ATTR_UNUSED"
    by (simp_all add: has_attr_def ATTR_NORMAL_def ATTR_UNKNOWN_def ATTR_USER_DEFINED_def ATTR_UNUSED_def)
  have "n_tokens uni_vocab = 4" by (simp add: n_tokens_def uni_vocab_def)
  then have "[0..<n_tokens uni_vocab] = [0, 1, 2, 3]" by (simp add: upt_rec)
  then show ?thesis using vals
    by (simp add: make_ugm_def load_charsmap_def ugm_add_token_def get_token_data_def token_is_def has_vocab_def rassert_def
      vector_at_def uni_vocab_def int_floats_def uni_tokenizer_def Let_def)
qed

lemma path_bound:
  fixes F :: "('s, int) floats"
  assumes "dbl_add F = (+)" "dbl_zero F = 0" "0 \<le> K" "\<And>i j tok w. ugm_cut F V tz s i j = Some (tok, w) \<Longrightarrow> - K \<le> w"
  shows "ugm_path F V tz s p toks sc \<Longrightarrow> - (K * int p) \<le> sc"
proof (induction rule: ugm_path.induct)
  case (path_snoc i toks sc j tok w)
  have "int i + 1 \<le> int j" using cut_bounds [OF path_snoc.hyps(3)] by simp
  then have "K * (int i + 1) \<le> K * int j" using assms(3) by (rule mult_left_mono)
  then show ?case using path_snoc.IH assms(4) [OF path_snoc.hyps(3)] assms(1) by (simp add: algebra_simps)
qed (simp add: assms(2))

lemma path_end: "ugm_path F V tz s p toks sc \<Longrightarrow> p \<le> length s"
  by (induction rule: ugm_path.induct) (auto dest: cut_bounds)

lemma uni_above: "length s < 1000 \<Longrightarrow> scores_above int_floats uni_vocab uni_tokenizer s"
proof -
  assume s: "length s < 1000"
  have ids: "vtype uni_vocab \<noteq> LLAMA_VOCAB_TYPE_NONE" "length (id_to_token uni_vocab) \<le> 2147483648" by (simp_all add: uni_vocab_def)
  have "-14 \<le> score (id_to_token uni_vocab ! k)" if "k < length (id_to_token uni_vocab)" for k
    using that by (auto simp: uni_vocab_def less_Suc_eq nth_Cons')
  then have tok: "-14 \<le> token_weight int_floats uni_vocab tok" if "ugm_token uni_vocab tok k" for tok k
    using that by (simp add: token_weight_def ugm_token_def int_floats_def Let_def)
  have "- 14 \<le> w" if "ugm_cut int_floats uni_vocab uni_tokenizer s i j = Some (tok, w)" for i j tok w
    using that make_ugm_tree [OF ids uni_make] tok unfolding ugm_tree_def
    by (auto simp: ugm_cut_def int_floats_def uni_tokenizer_def split: if_splits option.splits)
  then have "- (14 * int p) \<le> sc" if "ugm_path int_floats uni_vocab uni_tokenizer s p toks sc" for p toks sc
    using path_bound [OF _ _ _ _ that, of 14] by (simp add: int_floats_def)
  then show ?thesis using s path_end [of int_floats uni_vocab uni_tokenizer s] unfolding scores_above_def
    by (fastforce simp: int_floats_def)
qed

theorem ugm_optimal_witness:
  "\<exists>toks best. ugm_path int_floats uni_vocab uni_tokenizer (ascii ''abc'') 3 toks best \<and>
     (\<forall>toks' sc. ugm_path int_floats uni_vocab uni_tokenizer (ascii ''abc'') 3 toks' sc \<longrightarrow> sc \<le> best) \<and>
     ugm_tokenize int_floats uni_vocab uni_tokenizer (ascii ''abc'') [7] = Inr ([7] @ merge_unknown 0 False toks) \<and>
     merge_unknown 0 False toks = [3, 0]"
proof -
  have len: "length (ascii ''abc'') = 3" by (simp add: ascii_def)
  have norm: "ugm_normalize uni_vocab uni_tokenizer (ascii ''abc'') = Inr (ascii ''abc'')" by code_simp
  have run: "ugm_tokenize int_floats uni_vocab uni_tokenizer (ascii ''abc'') [7] = Inr [7, 3, 0]" by code_simp
  have "monotone_add int_floats" by (simp add: monotone_add_def int_floats_def)
  moreover have "ascii ''abc'' \<noteq> []" "scores_above int_floats uni_vocab uni_tokenizer (ascii ''abc'')"
    using uni_above len by (simp_all add: ascii_def)
  moreover have "vtype uni_vocab \<noteq> LLAMA_VOCAB_TYPE_NONE" "length (id_to_token uni_vocab) \<le> 2147483648" "special_unk_id uni_vocab = 0"
    by (simp_all add: uni_vocab_def)
  ultimately obtain toks best where "ugm_path int_floats uni_vocab uni_tokenizer (ascii ''abc'') 3 toks best"
    "\<forall>toks' sc. ugm_path int_floats uni_vocab uni_tokenizer (ascii ''abc'') 3 toks' sc \<longrightarrow> sc \<le> best"
    "ugm_tokenize int_floats uni_vocab uni_tokenizer (ascii ''abc'') [7] = Inr ([7] @ merge_unknown 0 False toks)"
    using ugm_optimal [OF _ _ uni_make norm, of "[7]"] len by metis
  then show ?thesis using run by (intro exI [of _ toks] exI [of _ best]) simp
qed

end
