(* ===== verification/Special_Tokens.thy ===== *)
theory Special_Tokens
  imports Vocab "HOL-Library.Sublist"
begin

text \<open>
  Special tokens in the text: \<open>tokenizer_st_partition\<close> of \<open>src/llama-vocab.cpp\<close> cuts the raw text at the texts of
  the special tokens, longest first. The buffer is a forward list of fragments, a token or a range of the
  raw text, edited in place behind an iterator; here the iterator is an index into the list. The
  lemmas: for every fragment the edits put its pieces in its place; cutting loses no text but white space
  that a token asks to strip; and no range that is left contains the text of a token that was cut out.
\<close>

section \<open>Definitions\<close>

datatype fragment = FragToken int | FragText nat nat

text \<open>The constructor of a text fragment checks its range.\<close>

definition make_text :: "u8 list \<Rightarrow> nat \<Rightarrow> nat \<Rightarrow> fragment result" where
  "make_text raw off len =
     rbind (rassert ''_length >= 1'' (len \<ge> 1)) (\<lambda>_.
     rbind (rassert ''offset + length <= raw_text.length()'' (off + len \<le> length raw)) (\<lambda>_. Inr (FragText off len)))"

definition emplace_after :: "nat \<Rightarrow> fragment \<Rightarrow> fragment list \<Rightarrow> fragment list" where
  "emplace_after it x buffer = take (Suc it) buffer @ x # drop (Suc it) buffer"

definition erase_at :: "nat \<Rightarrow> fragment list \<Rightarrow> fragment list" where
  "erase_at k buffer = take k buffer @ drop (Suc k) buffer"

text \<open>Stripping white space before and behind a special token.\<close>

fun strip_left :: "u8 list \<Rightarrow> nat \<Rightarrow> nat \<Rightarrow> nat" where
  "strip_left raw off 0 = 0"
| "strip_left raw off (Suc len) = (if is_space (raw ! (off + len)) then strip_left raw off len else Suc len)"

fun strip_right :: "u8 list \<Rightarrow> nat \<Rightarrow> nat \<Rightarrow> nat \<times> nat" where
  "strip_right raw off 0 = (off, 0)"
| "strip_right raw off (Suc len) = (if is_space (raw ! off) then strip_right raw (Suc off) len else (off, Suc len))"

definition left_len :: "token_attr \<Rightarrow> u8 list \<Rightarrow> nat \<Rightarrow> nat \<Rightarrow> nat" where
  "left_len attr raw off len = (if has_attr attr ATTR_LSTRIP then strip_left raw off len else len)"

definition right_range :: "token_attr \<Rightarrow> u8 list \<Rightarrow> nat \<Rightarrow> nat \<Rightarrow> nat \<times> nat" where
  "right_range attr raw off len = (if has_attr attr ATTR_RSTRIP then strip_right raw off len else (off, len))"

definition add_text :: "u8 list \<Rightarrow> nat \<Rightarrow> nat \<Rightarrow> fragment list \<times> nat \<Rightarrow> (fragment list \<times> nat) result" where
  "add_text raw off len = (\<lambda>(buffer, it).
     if len > 0 then rbind (make_text raw off len) (\<lambda>f. Inr (emplace_after it f buffer, Suc it)) else Inr (buffer, it))"

text \<open>The loop over one fragment, for one special token; \<open>(off, len)\<close> is the range still to be searched.\<close>

primrec split_fragment ::
  "nat \<Rightarrow> u8 list \<Rightarrow> int \<Rightarrow> u8 list \<Rightarrow> token_attr \<Rightarrow> fragment list \<times> nat \<Rightarrow> nat \<times> nat \<Rightarrow> (fragment list \<times> nat) result" where
  "split_fragment 0 raw special_id t attr = (\<lambda>_ _. Inl OutOfFuel)"
| "split_fragment (Suc fuel) raw special_id t attr = (\<lambda>(buffer, it) (off, len).
     case find_from t (take (off + len) raw) off of
       None \<Rightarrow> Inr (buffer, it)
     | Some match \<Rightarrow>
         rbind (if match > off then add_text raw off (left_len attr raw off (match - off)) (buffer, it) else Inr (buffer, it)) (\<lambda>(buffer1, it1).
         let buffer2 = emplace_after it1 (FragToken special_id) buffer1; it2 = Suc it1 in
         if match + length t < off + len then
           (let (roff, rlen) = right_range attr raw (match + length t) (len - ((match - off) + length t)) in
            rbind (add_text raw roff rlen (buffer2, it2)) (\<lambda>(buffer3, it3).
            split_fragment fuel raw special_id t attr (erase_at it buffer3, it3 - 1) (roff, rlen)))
         else Inr (erase_at it buffer2, it2 - 1)))"

text \<open>The loop over the fragments; as many are ahead of the iterator after a round as before, less one.\<close>

primrec split_buffer ::
  "nat \<Rightarrow> u8 list \<Rightarrow> int \<Rightarrow> u8 list \<Rightarrow> token_attr \<Rightarrow> fragment list \<times> nat \<Rightarrow> fragment list result" where
  "split_buffer 0 raw special_id t attr = (\<lambda>(buffer, it). if it < length buffer then Inl OutOfFuel else Inr buffer)"
| "split_buffer (Suc fuel) raw special_id t attr = (\<lambda>(buffer, it).
     if it < length buffer then
       (case buffer ! it of
          FragToken _ \<Rightarrow> split_buffer fuel raw special_id t attr (buffer, Suc it)
        | FragText off len \<Rightarrow>
            rbind (split_fragment (Suc (length raw)) raw special_id t attr (buffer, it) (off, len)) (\<lambda>(buffer', it').
            split_buffer fuel raw special_id t attr (buffer', Suc it')))
     else Inr buffer)"

definition split_special ::
  "('s, 'z) llama_vocab_scheme \<Rightarrow> bool \<Rightarrow> u8 list \<Rightarrow> int \<Rightarrow> fragment list \<Rightarrow> fragment list result" where
  "split_special V parse_special raw special_id buffer =
     rbind (get_token_data V special_id) (\<lambda>data.
     if \<not> parse_special \<and> has_attr (tattr data) (ATTR_CONTROL OR ATTR_UNKNOWN) then Inr buffer
     else split_buffer (length buffer) raw special_id (ttext data) (tattr data) (buffer, 0))"

definition tokenizer_st_partition ::
  "('s, 'z) llama_vocab_scheme \<Rightarrow> bool \<Rightarrow> u8 list \<Rightarrow> fragment list \<Rightarrow> fragment list result" where
  "tokenizer_st_partition V parse_special raw buffer = rfold (split_special V parse_special raw) (cache_special_tokens V) buffer"

section \<open>The pieces of a fragment\<close>

text \<open>What takes the place of a range of the text.\<close>

lemma strip_left_le: "strip_left raw off len \<le> len"
  by (induction raw off len rule: strip_left.induct) auto

lemma strip_right_le:
  "strip_right raw off len = (off', len') \<Longrightarrow> off \<le> off' \<and> off' + len' = off + len"
  by (induction raw off len rule: strip_right.induct) (auto split: if_splits)

lemma right_range_le: "right_range attr raw off len = (off', len') \<Longrightarrow> off \<le> off' \<and> off' + len' = off + len"
  using strip_right_le by (auto simp: right_range_def split: if_splits)

lemma left_len_le: "left_len attr raw off len \<le> len"
  using strip_left_le by (simp add: left_len_def)

definition text_frag :: "nat \<Rightarrow> nat \<Rightarrow> fragment list" where
  "text_frag off len = (if len > 0 then [FragText off len] else [])"

function cut_range :: "u8 list \<Rightarrow> int \<Rightarrow> u8 list \<Rightarrow> token_attr \<Rightarrow> nat \<Rightarrow> nat \<Rightarrow> fragment list" where
  "cut_range raw special_id t attr off len =
     (if t = [] then [] else
      case find_from t (take (off + len) raw) off of
        None \<Rightarrow> text_frag off len
      | Some match \<Rightarrow>
          text_frag off (left_len attr raw off (match - off)) @ FragToken special_id #
          (if match + length t < off + len then
             let (roff, rlen) = right_range attr raw (match + length t) (len - ((match - off) + length t)) in
             cut_range raw special_id t attr roff rlen
           else []))"
  by pat_completeness auto
termination
proof (relation "measure (\<lambda>(raw, special_id, t, attr, off, len). len)", goal_cases)
  case (2 raw special_id t attr off len match x roff rlen)
  then have "right_range attr raw (match + length t) (len - ((match - off) + length t)) = (roff, rlen)" by simp
  note r = right_range_le [OF this]
  have "0 < length t" "off \<le> match" using 2(1) find_from_Some(1) [OF 2(2)] by auto
  then have "rlen < len" using r 2(3) by linarith
  then show ?case by simp
qed simp

declare cut_range.simps [simp del]

lemma add_text_eq:
  assumes "buffer = pre @ post" "pre \<noteq> []" "off + len \<le> length raw"
  shows "add_text raw off len (buffer, length pre - 1) = Inr (pre @ text_frag off len @ post, length (pre @ text_frag off len) - 1)"
  using assms by (auto simp: add_text_def make_text_def rassert_def emplace_after_def text_frag_def neq_Nil_conv)

lemma emplace_eq:
  "pre \<noteq> [] \<Longrightarrow> emplace_after (length pre - 1) x (pre @ post) = pre @ x # post"
  by (auto simp: emplace_after_def neq_Nil_conv)

lemma erase_eq: "erase_at (length pre) (pre @ x # post) = pre @ post"
  by (simp add: erase_at_def)

lemma no_match_in_nothing: "t \<noteq> [] \<Longrightarrow> find_from t (take off raw) off = None"
proof (rule ccontr)
  assume "t \<noteq> []" "find_from t (take off raw) off \<noteq> None"
  then obtain i where "find_from t (take off raw) off = Some i" by blast
  note f = find_from_Some (1,2) [OF this]
  have "0 < length t" using \<open>t \<noteq> []\<close> by simp
  then show False using f by (auto simp del: length_greater_0_conv)
qed

text \<open>The edits of the list put the pieces of the fragment in its place.\<close>

lemma split_fragment_cut:
  assumes t: "t \<noteq> []"
  shows "len < fuel \<Longrightarrow> off + len \<le> length raw \<Longrightarrow> pre @ text_frag off len \<noteq> [] \<Longrightarrow>
    split_fragment fuel raw tid t attr (pre @ text_frag off len @ post, length (pre @ text_frag off len) - 1) (off, len) =
    Inr (pre @ cut_range raw tid t attr off len @ post, length (pre @ cut_range raw tid t attr off len) - 1)"
proof (induction fuel arbitrary: off len pre)
  case (Suc fuel)
  show ?case
  proof (cases "find_from t (take (off + len) raw) off")
    case None
    then have "cut_range raw tid t attr off len = text_frag off len" using t by (subst cut_range.simps) simp
    then show ?thesis using None by simp
  next
    case (Some m)
    note f = find_from_Some (1,2) [OF Some]
    have m: "m + length t \<le> off + len" using f(2) Suc.prems(2) by simp
    have "len \<noteq> 0" using Some no_match_in_nothing [OF t] by (cases len) auto
    then have frag: "text_frag off len = [FragText off len]" by (simp add: text_frag_def)
    define left where "left = text_frag off (left_len attr raw off (m - off))"
    define p2 where "p2 = pre @ left @ [FragToken tid]"
    have ll: "left_len attr raw off (m - off) \<le> m - off" by (rule left_len_le)
    define first where "first = (if m > off then add_text raw off (left_len attr raw off (m - off)) (pre @ FragText off len # post, length pre)
      else Inr (pre @ FragText off len # post, length pre))"
    have step: "split_fragment (Suc fuel) raw tid t attr (pre @ text_frag off len @ post, length (pre @ text_frag off len) - 1) (off, len) =
      rbind first (\<lambda>(buffer1, it1).
         let buffer2 = emplace_after it1 (FragToken tid) buffer1; it2 = Suc it1 in
         if m + length t < off + len then
           (let (roff, rlen) = right_range attr raw (m + length t) (len - ((m - off) + length t)) in
            rbind (add_text raw roff rlen (buffer2, it2)) (\<lambda>(buffer3, it3).
            split_fragment fuel raw tid t attr (erase_at (length pre) buffer3, it3 - 1) (roff, rlen)))
         else Inr (erase_at (length pre) buffer2, it2 - 1))"
      unfolding first_def using Some frag by simp
    have start: "first = Inr ((pre @ [FragText off len]) @ left @ post, length (pre @ [FragText off len] @ left) - 1)"
    proof (cases "m > off")
      case True
      then show ?thesis
        using add_text_eq [of "pre @ FragText off len # post" "pre @ [FragText off len]" post off "left_len attr raw off (m - off)" raw] ll m Suc.prems(2)
        unfolding left_def first_def by simp
    next
      case False
      then have "left = []" using ll unfolding left_def text_frag_def by simp
      then show ?thesis using False unfolding first_def by simp
    qed
    have token: "emplace_after (length (pre @ [FragText off len] @ left) - 1) (FragToken tid) ((pre @ [FragText off len]) @ left @ post)
        = pre @ [FragText off len] @ left @ [FragToken tid] @ post"
      using emplace_eq [of "pre @ [FragText off len] @ left" "FragToken tid" post] by simp
    show ?thesis
    proof (cases "m + length t < off + len")
      case False
      have "cut_range raw tid t attr off len = left @ [FragToken tid]"
        using Some False t unfolding left_def by (subst cut_range.simps) simp
      then show ?thesis unfolding step start using False token
        by (simp add: erase_eq [of pre "FragText off len"] Let_def)
    next
      case True
      obtain roff rlen where r: "right_range attr raw (m + length t) (len - ((m - off) + length t)) = (roff, rlen)" by fastforce
      note rl = right_range_le [OF r]
      have rlen: "rlen < fuel" "roff + rlen \<le> length raw"
        using rl m f(1) Suc.prems(1,2) t by (auto simp: neq_Nil_conv)
      have right: "add_text raw roff rlen (pre @ [FragText off len] @ left @ [FragToken tid] @ post, Suc (length (pre @ [FragText off len] @ left) - 1))
          = Inr (pre @ FragText off len # left @ [FragToken tid] @ text_frag roff rlen @ post, length (FragText off len # p2 @ text_frag roff rlen) - 1)"
        using add_text_eq [of "pre @ [FragText off len] @ left @ [FragToken tid] @ post" "pre @ [FragText off len] @ left @ [FragToken tid]" post roff rlen raw] rlen(2)
        unfolding p2_def by simp
      have "split_fragment fuel raw tid t attr (p2 @ text_frag roff rlen @ post, length (p2 @ text_frag roff rlen) - 1) (roff, rlen) =
          Inr (p2 @ cut_range raw tid t attr roff rlen @ post, length (p2 @ cut_range raw tid t attr roff rlen) - 1)"
        using rlen unfolding p2_def by (intro Suc.IH) auto
      moreover have "cut_range raw tid t attr off len = left @ FragToken tid # cut_range raw tid t attr roff rlen"
        using Some True t r unfolding left_def by (subst cut_range.simps) simp
      ultimately show ?thesis unfolding step start using True token r right erase_eq [of pre "FragText off len"] unfolding p2_def
        by (simp add: Let_def)
    qed
  qed
qed simp

definition cut_frag :: "u8 list \<Rightarrow> int \<Rightarrow> u8 list \<Rightarrow> token_attr \<Rightarrow> fragment \<Rightarrow> fragment list" where
  "cut_frag raw tid t attr f = (case f of FragToken _ \<Rightarrow> [f] | FragText off len \<Rightarrow> cut_range raw tid t attr off len)"

definition frag_ok :: "u8 list \<Rightarrow> fragment \<Rightarrow> bool" where
  "frag_ok raw f = (case f of FragToken _ \<Rightarrow> True | FragText off len \<Rightarrow> 0 < len \<and> off + len \<le> length raw)"

lemma cut_range_nonempty: "t \<noteq> [] \<Longrightarrow> 0 < len \<Longrightarrow> cut_range raw tid t attr off len \<noteq> []"
  by (subst cut_range.simps) (auto simp: text_frag_def split: option.split)

lemma split_buffer_cut:
  assumes "t \<noteq> []"
  shows "length rest \<le> fuel \<Longrightarrow> \<forall>f \<in> set rest. frag_ok raw f \<Longrightarrow>
    split_buffer fuel raw tid t attr (pre @ rest, length pre) = Inr (pre @ concat (map (cut_frag raw tid t attr) rest))"
proof (induction fuel arbitrary: pre rest)
  case (Suc fuel)
  show ?case
  proof (cases rest)
    case (Cons f rest')
    show ?thesis
    proof (cases f)
      case (FragToken x)
      then show ?thesis using Suc.IH [of rest' "pre @ [f]"] Suc.prems Cons by (simp add: cut_frag_def)
    next
      case (FragText off len)
      define cut where "cut = cut_range raw tid t attr off len"
      have fr: "0 < len" "off + len \<le> length raw" using Suc.prems(2) Cons FragText by (auto simp: frag_ok_def)
      then have frag: "text_frag off len = [f]" using FragText by (simp add: text_frag_def)
      have "cut \<noteq> []" using cut_range_nonempty [OF assms fr(1)] unfolding cut_def by blast
      then have it: "Suc (length (pre @ cut) - 1) = length (pre @ cut)" by (cases cut) auto
      have "split_fragment (Suc (length raw)) raw tid t attr (pre @ f # rest', length pre) (off, len) = Inr (pre @ cut @ rest', length (pre @ cut) - 1)"
        using split_fragment_cut [OF assms, of len "Suc (length raw)" off raw pre tid attr rest'] fr frag unfolding cut_def by simp
      then have "split_buffer (Suc fuel) raw tid t attr (pre @ rest, length pre) = split_buffer fuel raw tid t attr ((pre @ cut) @ rest', length (pre @ cut))"
        using Cons FragText it by simp
      also have "\<dots> = Inr ((pre @ cut) @ concat (map (cut_frag raw tid t attr) rest'))"
        using Suc.prems Cons by (intro Suc.IH) auto
      also have "(pre @ cut) @ concat (map (cut_frag raw tid t attr) rest') = pre @ concat (map (cut_frag raw tid t attr) rest)"
        unfolding Cons using FragText by (simp add: cut_frag_def [of _ _ _ _ "FragText off len"] cut_def)
      finally show ?thesis .
    qed
  qed simp
qed simp

section \<open>Nothing is lost\<close>

text \<open>With \<open>K\<close> the bytes to keep: all of them, or, where a token strips, those that are no white space.\<close>

definition keeps :: "(u8 \<Rightarrow> bool) \<Rightarrow> token_attr \<Rightarrow> bool" where
  "keeps K attr \<longleftrightarrow> \<not> has_attr attr ATTR_LSTRIP \<and> \<not> has_attr attr ATTR_RSTRIP \<or> (\<forall>c. K c \<longrightarrow> \<not> is_space c)"

abbreviation range_text :: "u8 list \<Rightarrow> nat \<Rightarrow> nat \<Rightarrow> u8 list" where
  "range_text raw off len \<equiv> take len (drop off raw)"

lemma strip_left_keeps:
  "\<forall>c. K c \<longrightarrow> \<not> is_space c \<Longrightarrow> off + len \<le> length raw \<Longrightarrow>
   filter K (range_text raw off (strip_left raw off len)) = filter K (range_text raw off len)"
proof (induction raw off len rule: strip_left.induct)
  case (2 raw off len)
  then show ?case using take_Suc_conv_app_nth [of len "drop off raw"] by auto
qed simp

lemma strip_right_keeps:
  "\<forall>c. K c \<longrightarrow> \<not> is_space c \<Longrightarrow> off + len \<le> length raw \<Longrightarrow> strip_right raw off len = (off', len') \<Longrightarrow>
   filter K (range_text raw off' len') = filter K (range_text raw off len)"
proof (induction raw off len rule: strip_right.induct)
  case (2 raw off len)
  have "drop off raw = raw ! off # drop (Suc off) raw" using 2(3) by (simp add: Cons_nth_drop_Suc)
  then show ?case using 2 by (auto split: if_splits)
qed simp

lemma left_len_keeps:
  "keeps K attr \<Longrightarrow> off + len \<le> length raw \<Longrightarrow> filter K (range_text raw off (left_len attr raw off len)) = filter K (range_text raw off len)"
  using strip_left_keeps by (auto simp: keeps_def left_len_def)

lemma right_range_keeps:
  "keeps K attr \<Longrightarrow> off + len \<le> length raw \<Longrightarrow> right_range attr raw off len = (off', len') \<Longrightarrow>
   filter K (range_text raw off' len') = filter K (range_text raw off len)"
  using strip_right_keeps by (auto simp: keeps_def right_range_def split: if_splits)

definition frag_text :: "(int \<Rightarrow> u8 list) \<Rightarrow> u8 list \<Rightarrow> fragment \<Rightarrow> u8 list" where
  "frag_text tok raw f = (case f of FragToken tid \<Rightarrow> tok tid | FragText off len \<Rightarrow> range_text raw off len)"

lemma text_frag_text: "concat (map (frag_text tok raw) (text_frag off len)) = range_text raw off len"
  by (simp add: text_frag_def frag_text_def)

lemma cut_range_keeps:
  assumes "t \<noteq> []" "keeps K attr" "tok tid = t"
  shows "off + len \<le> length raw \<Longrightarrow> filter K (concat (map (frag_text tok raw) (cut_range raw tid t attr off len))) = filter K (range_text raw off len)"
proof (induction len arbitrary: off rule: less_induct)
  case (less len)
  show ?case
  proof (cases "find_from t (take (off + len) raw) off")
    case None
    then show ?thesis using assms(1) by (subst cut_range.simps) (simp add: text_frag_text)
  next
    case (Some m)
    note f = find_from_Some (1,2,3) [OF Some]
    have m: "m + length t \<le> off + len" using f(2) less.prems by simp
    have occ: "range_text raw m (length t) = t" using f(3) m less.prems by (simp add: drop_take)
    define rest where "rest = len - ((m - off) + length t)"
    have parts: "range_text raw off len = range_text raw off (m - off) @ t @ range_text raw (m + length t) rest"
    proof -
      have "len = (m - off) + (length t + rest)" using m f(1) unfolding rest_def by simp
      then have "range_text raw off len = range_text raw off (m - off) @ take (length t + rest) (drop (m - off) (drop off raw))"
        using take_add [of "m - off" "length t + rest" "drop off raw"] by simp
      also have "drop (m - off) (drop off raw) = drop m raw" using f(1) by simp
      also have "take (length t + rest) (drop m raw) = range_text raw m (length t) @ range_text raw (m + length t) rest"
        by (simp add: take_add add.commute [of m])
      finally show ?thesis using occ by simp
    qed
    have left: "filter K (range_text raw off (left_len attr raw off (m - off))) = filter K (range_text raw off (m - off))"
      using left_len_keeps [OF assms(2)] m f(1) less.prems by simp
    show ?thesis
    proof (cases "m + length t < off + len")
      case False
      then have "rest = 0" using m f(1) unfolding rest_def by simp
      moreover have "cut_range raw tid t attr off len = text_frag off (left_len attr raw off (m - off)) @ [FragToken tid]"
        using Some False assms(1) by (subst cut_range.simps) simp
      ultimately show ?thesis using parts left assms(3) text_frag_text by (simp add: frag_text_def [of tok raw "FragToken tid"])
    next
      case True
      obtain roff rlen where r: "right_range attr raw (m + length t) rest = (roff, rlen)" by fastforce
      have "m + length t + rest \<le> length raw" using m f(1) less.prems unfolding rest_def by simp
      note rk = right_range_keeps [OF assms(2) this r] and rl = right_range_le [OF r]
      have "rlen < len" "roff + rlen \<le> length raw"
        using rl m f(1) less.prems assms(1) unfolding rest_def by (auto simp: neq_Nil_conv)
      then have "filter K (concat (map (frag_text tok raw) (cut_range raw tid t attr roff rlen))) = filter K (range_text raw roff rlen)"
        by (rule less.IH)
      moreover have "cut_range raw tid t attr off len =
          text_frag off (left_len attr raw off (m - off)) @ FragToken tid # cut_range raw tid t attr roff rlen"
        using Some True assms(1) r unfolding rest_def by (subst cut_range.simps) simp
      ultimately show ?thesis using parts left rk assms(3) text_frag_text by (simp add: frag_text_def [of tok raw "FragToken tid"])
    qed
  qed
qed

section \<open>No special token is left in the text\<close>

lemma range_text_sublist:
  assumes "off \<le> o'" "o' + l \<le> off + len"
  shows "sublist (range_text raw o' l) (range_text raw off len)"
proof -
  define a where "a = o' - off"
  have o': "o' = off + a" and l: "a + l \<le> len" using assms unfolding a_def by auto
  have "take l (drop a (range_text raw off len)) = range_text raw o' l"
    using l by (simp add: take_drop [symmetric] drop_take o' add.commute min_def)
  moreover have "sublist (take l (drop a xs)) xs" for xs :: "u8 list"
    by (meson sublist_drop sublist_order.order_trans sublist_take)
  ultimately show ?thesis by metis
qed

lemma no_match_no_sublist:
  assumes "\<And>j. off \<le> j \<Longrightarrow> j + length t \<le> off + len \<Longrightarrow> range_text raw j (length t) \<noteq> t" "off + len \<le> length raw"
  shows "\<not> sublist t (range_text raw off len)"
proof
  assume "sublist t (range_text raw off len)"
  then obtain ps ss where eq: "range_text raw off len = ps @ t @ ss" unfolding sublist_def by blast
  have len: "length ps + length t \<le> len" using arg_cong [OF eq, of length] assms(2) by simp
  have "take (length t) (drop (length ps) (range_text raw off len)) = t" using eq by simp
  then have "range_text raw (off + length ps) (length t) = t"
    using len by (simp add: drop_take add.commute min_absorb1)
  then show False using assms(1) [of "off + length ps"] len by simp
qed

lemma cut_range_pieces:
  assumes t: "t \<noteq> []"
  shows "off + len \<le> length raw \<Longrightarrow> FragText o' l \<in> set (cut_range raw tid t attr off len) \<Longrightarrow>
    0 < l \<and> off \<le> o' \<and> o' + l \<le> off + len \<and> \<not> sublist t (range_text raw o' l)"
proof (induction len arbitrary: off rule: less_induct)
  case (less len)
  show ?case
  proof (cases "find_from t (take (off + len) raw) off")
    case None
    then have "o' = off" "l = len" "0 < len"
      using less.prems(2) t by (subst (asm) cut_range.simps, simp add: text_frag_def split: if_splits)+
    moreover have "range_text raw j (length t) \<noteq> t" if "off \<le> j" "j + length t \<le> off + len" for j
      using find_from_None [OF None that(1)] that less.prems(1) by (simp add: drop_take)
    ultimately show ?thesis using no_match_no_sublist less.prems(1) by simp
  next
    case (Some m)
    note f = find_from_Some [OF Some]
    have m: "m + length t \<le> off + len" using f(2) less.prems(1) by simp
    define rest where "rest = len - ((m - off) + length t)"
    have before: "range_text raw j (length t) \<noteq> t" if "off \<le> j" "j + length t \<le> m" for j
    proof -
      have "j < m" using that t by (cases t) auto
      then have "take (length t) (drop j (take (off + len) raw)) \<noteq> t" using f(4) that(1) by blast
      then show ?thesis using that m less.prems(1) by (simp add: drop_take)
    qed
    have left: "0 < l \<and> off \<le> o' \<and> o' + l \<le> off + len \<and> \<not> sublist t (range_text raw o' l)"
      if "FragText o' l \<in> set (text_frag off (left_len attr raw off (m - off)))"
    proof -
      have o': "o' = off" "l = left_len attr raw off (m - off)" "0 < l" using that by (auto simp: text_frag_def split: if_splits)
      have l: "off + l \<le> m" using o' left_len_le [of attr raw off "m - off"] f(1) by simp
      then have "\<not> sublist t (range_text raw off l)" using before m less.prems(1) by (intro no_match_no_sublist) auto
      then show ?thesis using o' l m by simp
    qed
    show ?thesis
    proof (cases "m + length t < off + len")
      case False
      then have "cut_range raw tid t attr off len = text_frag off (left_len attr raw off (m - off)) @ [FragToken tid]"
        using Some t by (subst cut_range.simps) simp
      then show ?thesis using less.prems(2) left by simp
    next
      case True
      obtain roff rlen where r: "right_range attr raw (m + length t) rest = (roff, rlen)" by fastforce
      note rl = right_range_le [OF r]
      have "rlen < len" "roff + rlen \<le> length raw" "off \<le> roff" "roff + rlen \<le> off + len"
        using rl m f(1) less.prems(1) t unfolding rest_def by (auto simp: neq_Nil_conv)
      moreover have "cut_range raw tid t attr off len =
          text_frag off (left_len attr raw off (m - off)) @ FragToken tid # cut_range raw tid t attr roff rlen"
        using Some True t r unfolding rest_def by (subst cut_range.simps) simp
      ultimately show ?thesis using less.prems(2) left less.IH [of rlen roff] by fastforce
    qed
  qed
qed

lemma cut_range_tokens: "FragToken x \<in> set (cut_range raw tid t attr off len) \<Longrightarrow> x = tid"
proof (induction raw tid t attr off len rule: cut_range.induct)
  case (1 raw tid t attr off len)
  show ?case using 1(2) unfolding cut_range.simps [of raw tid t attr off len]
    using 1(1) by (auto simp: text_frag_def split: if_splits option.splits prod.splits)
qed

section \<open>The partition\<close>

abbreviation tok_text :: "('s, 'z) llama_vocab_scheme \<Rightarrow> int \<Rightarrow> u8 list" where
  "tok_text V tid \<equiv> ttext (id_to_token V ! nat tid)"

abbreviation tok_attr :: "('s, 'z) llama_vocab_scheme \<Rightarrow> int \<Rightarrow> token_attr" where
  "tok_attr V tid \<equiv> tattr (id_to_token V ! nat tid)"

text \<open>The special tokens are tokens, and none has the empty text: the loader renames empty tokens.\<close>

definition special_ok :: "('s, 'z) llama_vocab_scheme \<Rightarrow> bool" where
  "special_ok V \<longleftrightarrow> vtype V \<noteq> LLAMA_VOCAB_TYPE_NONE \<and>
     (\<forall>tid \<in> set (cache_special_tokens V). 0 \<le> tid \<and> nat tid < length (id_to_token V) \<and> tok_text V tid \<noteq> [])"

definition is_active :: "('s, 'z) llama_vocab_scheme \<Rightarrow> bool \<Rightarrow> int \<Rightarrow> bool" where
  "is_active V parse_special tid \<longleftrightarrow> parse_special \<or> \<not> has_attr (tok_attr V tid) (ATTR_CONTROL OR ATTR_UNKNOWN)"

definition partitioned :: "('s, 'z) llama_vocab_scheme \<Rightarrow> (u8 \<Rightarrow> bool) \<Rightarrow> u8 list \<Rightarrow> int set \<Rightarrow> fragment list \<Rightarrow> bool" where
  "partitioned V K raw T fs \<longleftrightarrow>
     filter K (concat (map (frag_text (tok_text V) raw) fs)) = filter K raw \<and>
     (\<forall>tid. FragToken tid \<in> set fs \<longrightarrow> tid \<in> T) \<and>
     (\<forall>off len. FragText off len \<in> set fs \<longrightarrow> 0 < len \<and> off + len \<le> length raw \<and>
        (\<forall>tid \<in> T. \<not> sublist (tok_text V tid) (range_text raw off len)))"

lemma cut_all_partitioned:
  assumes p: "partitioned V K raw T fs" and t: "tok_text V tid \<noteq> []" "keeps K (tok_attr V tid)"
  shows "partitioned V K raw (insert tid T) (concat (map (cut_frag raw tid (tok_text V tid) (tok_attr V tid)) fs))"
proof -
  define cut where "cut = cut_frag raw tid (tok_text V tid) (tok_attr V tid)"
  have fs: "\<forall>f \<in> set fs. frag_ok raw f"
    using p unfolding partitioned_def by (auto simp: frag_ok_def split: fragment.split)
  have "filter K (concat (map (frag_text (tok_text V) raw) (cut f))) = filter K (frag_text (tok_text V) raw f)" if "frag_ok raw f" for f
    using that cut_range_keeps [OF t, of "tok_text V" tid] by (cases f) (auto simp: cut_def cut_frag_def frag_ok_def frag_text_def)
  then have "filter K (concat (map (frag_text (tok_text V) raw) (concat (map cut gs)))) = filter K (concat (map (frag_text (tok_text V) raw) gs))"
    if "\<forall>f \<in> set gs. frag_ok raw f" for gs using that by (induction gs) auto
  then have "filter K (concat (map (frag_text (tok_text V) raw) (concat (map cut fs)))) = filter K raw"
    using fs p unfolding partitioned_def by simp
  moreover have "x \<in> insert tid T" if tok: "FragToken x \<in> set (concat (map cut fs))" for x
  proof -
    obtain f where f: "f \<in> set fs" "FragToken x \<in> set (cut f)" using tok by auto
    show ?thesis
    proof (cases f)
      case (FragToken y)
      then show ?thesis using f p unfolding partitioned_def cut_def cut_frag_def by auto
    next
      case (FragText off len)
      then show ?thesis using f(2) cut_range_tokens unfolding cut_def cut_frag_def by fastforce
    qed
  qed
  moreover have "0 < len \<and> off + len \<le> length raw \<and> (\<forall>x \<in> insert tid T. \<not> sublist (tok_text V x) (range_text raw off len))"
    if piece: "FragText off len \<in> set (concat (map cut fs))" for off len
  proof -
    obtain f where f: "f \<in> set fs" "FragText off len \<in> set (cut f)" using piece by auto
    obtain o' l' where o': "f = FragText o' l'"
      using f(2) unfolding cut_def cut_frag_def by (auto split: fragment.splits)
    then have old: "o' + l' \<le> length raw" "\<forall>x \<in> T. \<not> sublist (tok_text V x) (range_text raw o' l')"
      using p f(1) unfolding partitioned_def by auto
    have "FragText off len \<in> set (cut_range raw tid (tok_text V tid) (tok_attr V tid) o' l')"
      using f(2) o' by (simp add: cut_def cut_frag_def)
    note c = cut_range_pieces [OF t(1) old(1) this]
    then have "sublist (range_text raw off len) (range_text raw o' l')" by (intro range_text_sublist) auto
    then have "\<not> sublist (tok_text V x) (range_text raw off len)" if "x \<in> T" for x
      using old(2) that sublist_order.order_trans by blast
    then show ?thesis using c old(1) by auto
  qed
  ultimately show ?thesis unfolding partitioned_def cut_def [symmetric] by blast
qed

lemma partition_fold:
  assumes "special_ok V"
  shows "set tids \<subseteq> set (cache_special_tokens V) \<Longrightarrow> \<forall>tid \<in> set tids. is_active V ps tid \<longrightarrow> keeps K (tok_attr V tid) \<Longrightarrow>
    partitioned V K raw T fs \<Longrightarrow>
    \<exists>fs'. rfold (split_special V ps raw) tids fs = Inr fs' \<and> partitioned V K raw (T \<union> {tid \<in> set tids. is_active V ps tid}) fs'"
proof (induction tids arbitrary: T fs)
  case (Cons tid tids)
  have tid: "0 \<le> tid" "nat tid < length (id_to_token V)" "tok_text V tid \<noteq> []" "vtype V \<noteq> LLAMA_VOCAB_TYPE_NONE"
    using assms Cons.prems(1) unfolding special_ok_def by auto
  have data: "get_token_data V tid = Inr (id_to_token V ! nat tid)"
    using tid by (simp add: get_token_data_def has_vocab_def rassert_def vector_at_def)
  show ?case
  proof (cases "is_active V ps tid")
    case True
    define fs1 where "fs1 = concat (map (cut_frag raw tid (tok_text V tid) (tok_attr V tid)) fs)"
    have "\<forall>f \<in> set fs. frag_ok raw f"
      using Cons.prems(3) unfolding partitioned_def by (auto simp: frag_ok_def split: fragment.split)
    then have "split_buffer (length fs) raw tid (tok_text V tid) (tok_attr V tid) (fs, 0) = Inr fs1"
      using split_buffer_cut [OF tid(3), of fs "length fs" raw tid "tok_attr V tid" "[]"] unfolding fs1_def by simp
    then have "split_special V ps raw tid fs = Inr fs1"
      using data True by (auto simp: split_special_def is_active_def)
    moreover have "partitioned V K raw (insert tid T) fs1"
      unfolding fs1_def using Cons.prems True by (intro cut_all_partitioned tid) auto
    moreover have "insert tid T \<union> {x \<in> set tids. is_active V ps x} = T \<union> {x \<in> set (tid # tids). is_active V ps x}" using True by auto
    ultimately show ?thesis using Cons.IH [of "insert tid T" fs1] Cons.prems(1,2) by simp
  next
    case False
    have "split_special V ps raw tid fs = Inr fs" using data False by (simp add: split_special_def is_active_def)
    moreover have "{x \<in> set (tid # tids). is_active V ps x} = {x \<in> set tids. is_active V ps x}" using False by auto
    ultimately show ?thesis using Cons.IH [of T fs] Cons.prems by simp
  qed
qed simp


definition chat_vocab :: "int llama_vocab" where
  "chat_vocab = \<lparr>vtype = LLAMA_VOCAB_TYPE_BPE, pre_type = 0, max_token_len = 4, special_bos_id = -1, special_eos_id = 1,
     special_unk_id = -1, special_sep_id = -1, add_space_prefix = False, add_bos = False, add_eos = False,
     ignore_merges = False, clean_spaces = False, remove_extra_whitespaces = False, escape_whitespaces = False,
     treat_whitespace_as_suffix = False, token_to_id = [ascii ''a'' \<mapsto> 0, ascii ''</s>'' \<mapsto> 1],
     id_to_token = [\<lparr>ttext = ascii ''a'', score = 0, tattr = ATTR_NORMAL\<rparr>, \<lparr>ttext = ascii ''</s>'', score = 0, tattr = ATTR_CONTROL\<rparr>],
     cache_special_tokens = [1], cache_token_to_piece = [], bpe_ranks = Map.empty\<rparr>"


end
