(* ===== verification/Llama_Tokenize.thy ===== *)
theory Llama_Tokenize
  imports Tokenizer_Bpe_Correct Tokenizer_Spm_Correct Tokenizer_Wpm Tokenizer_Ugm Special_Tokens
begin

text \<open>
  The entry point of the tokenizers, \<open>llama_vocab::impl::tokenize\<close> of \<open>src/llama-vocab.cpp\<close>: cut the text at the
  special tokens, run the session of the vocabulary's kind on the fragments in between, put the tokens of
  beginning and end around them. The session of the PLaMo-2 tokenizer is a parameter. The
  lemmas compose the parts: tokenizing a text with a sentence piece vocabulary and detokenizing it again.
\<close>

section \<open>Definitions\<close>

type_synonym tokenize_session = "u8 list \<Rightarrow> int list \<Rightarrow> int list result"

datatype 's llm_tokenizer =
    SpmTokenizer | BpeTokenizer llm_tokenizer_bpe | WpmTokenizer | UgmTokenizer "'s llm_tokenizer_ugm"
  | RwkvTokenizer naive_trie | Plamo2Tokenizer tokenize_session

text \<open>The constructors of the byte pair and PLaMo-2 tokenizers are arguments.\<close>

definition init_tokenizer ::
  "(('s::linorder, 'z) llama_vocab_scheme \<Rightarrow> llm_tokenizer_bpe) \<Rightarrow> (('s, 'z) llama_vocab_scheme \<Rightarrow> tokenize_session) \<Rightarrow>
   ('s, 'd) floats \<Rightarrow> u8 list \<Rightarrow> ('s, 'z) llama_vocab_scheme \<Rightarrow> 's llm_tokenizer result" where
  "init_tokenizer bpe plamo2 F precompiled_charsmap V =
     (case vtype V of
        LLAMA_VOCAB_TYPE_SPM \<Rightarrow> Inr SpmTokenizer
      | LLAMA_VOCAB_TYPE_BPE \<Rightarrow> Inr (BpeTokenizer (bpe V))
      | LLAMA_VOCAB_TYPE_WPM \<Rightarrow> Inr WpmTokenizer
      | LLAMA_VOCAB_TYPE_UGM \<Rightarrow> rbind (make_ugm F V precompiled_charsmap) (\<lambda>tz. Inr (UgmTokenizer tz))
      | LLAMA_VOCAB_TYPE_RWKV \<Rightarrow> Inr (RwkvTokenizer (rwkv_trie V))
      | LLAMA_VOCAB_TYPE_PLAMO2 \<Rightarrow> Inr (Plamo2Tokenizer (plamo2 V))
      | LLAMA_VOCAB_TYPE_NONE \<Rightarrow> Inl (Abort ''unsupported vocab type''))"

definition substr :: "u8 list \<Rightarrow> nat \<Rightarrow> nat \<Rightarrow> u8 list result" where
  "substr s off len = (if off > length s then Inl (Throw ''out_of_range'') else Inr (take len (drop off s)))"

text \<open>The loop over the fragments, with what is done to a text before the session gets it.\<close>

definition run_fragment ::
  "(u8 list \<Rightarrow> u8 list) \<Rightarrow> tokenize_session \<Rightarrow> u8 list \<Rightarrow> fragment \<Rightarrow> int list \<Rightarrow> int list result" where
  "run_fragment pre session raw f out =
     (case f of
        FragToken tok \<Rightarrow> Inr (out @ [tok])
      | FragText off len \<Rightarrow> rbind (substr raw off len) (\<lambda>t. session (pre t) out))"

definition run_fragments ::
  "(u8 list \<Rightarrow> u8 list) \<Rightarrow> tokenize_session \<Rightarrow> u8 list \<Rightarrow> fragment list \<Rightarrow> int list \<Rightarrow> int list result" where
  "run_fragments pre session raw = rfold (run_fragment pre session raw)"

text \<open>Of the sentence piece kind a text gets a blank in front when it comes first or behind a special token.\<close>

definition spm_fragment ::
  "('s::linorder, 'z) llama_vocab_scheme \<Rightarrow> u8 list \<Rightarrow> fragment \<Rightarrow> int list \<times> bool \<Rightarrow> (int list \<times> bool) result" where
  "spm_fragment V raw f = (\<lambda>(out, is_prev_special).
     case f of
       FragToken tok \<Rightarrow> Inr (out @ [tok], True)
     | FragText off len \<Rightarrow>
         rbind (substr raw off len) (\<lambda>t.
         rbind (spm_tokenize V (llama_escape_whitespace ((if add_space_prefix V \<and> is_prev_special then [0x20] else []) @ t)) out) (\<lambda>out'.
         Inr (out', False))))"

definition push_token :: "bool \<Rightarrow> char list \<Rightarrow> int \<Rightarrow> int list \<Rightarrow> int list result" where
  "push_token wanted name tok out =
     (if wanted then rbind (rassert name (tok \<noteq> LLAMA_TOKEN_NULL)) (\<lambda>_. Inr (out @ [tok])) else Inr out)"

definition initial_fragments :: "('s, 'z) llama_vocab_scheme \<Rightarrow> u8 list \<Rightarrow> bool \<Rightarrow> fragment list result" where
  "initial_fragments V raw parse_special =
     (if raw = [] then Inr []
      else rbind (make_text raw 0 (length raw)) (\<lambda>f. tokenizer_st_partition V parse_special raw [f]))"

definition llama_tokenize ::
  "unicode_data \<Rightarrow> regex_engine \<Rightarrow> ('s::linorder, 'd::linorder) floats \<Rightarrow> ('s, 'z) llama_vocab_scheme \<Rightarrow> 's llm_tokenizer option \<Rightarrow>
   u8 list \<Rightarrow> bool \<Rightarrow> bool \<Rightarrow> int list result" where
  "llama_tokenize D rx F V tokenizer raw_text add_special parse_special =
     rbind (rassert ''tokenizer'' (tokenizer \<noteq> None)) (\<lambda>_.
     rbind (initial_fragments V raw_text parse_special) (\<lambda>fragment_buffer.
     case vtype V of
       LLAMA_VOCAB_TYPE_SPM \<Rightarrow>
         rbind (push_token (add_special \<and> add_bos V) ''special_bos_id != LLAMA_TOKEN_NULL'' (special_bos_id V) []) (\<lambda>out.
         rbind (rfold (spm_fragment V raw_text) fragment_buffer (out, True)) (\<lambda>(out', _).
         push_token (add_special \<and> add_eos V) ''special_eos_id != LLAMA_TOKEN_NULL'' (special_eos_id V) out'))
     | LLAMA_VOCAB_TYPE_BPE \<Rightarrow>
         (case tokenizer of
            Some (BpeTokenizer tz) \<Rightarrow>
              rbind (if add_special then append_bos V [] else Inr []) (\<lambda>out.
              rbind (run_fragments (if escape_whitespaces V then llama_escape_whitespace else (\<lambda>t. t)) (bpe_tokenize D rx V tz) raw_text fragment_buffer out) (\<lambda>out'.
              if add_special then append_eos V out' else Inr out'))
          | _ \<Rightarrow> Inl Undefined)
     | LLAMA_VOCAB_TYPE_WPM \<Rightarrow>
         rbind (push_token add_special ''special_bos_id != LLAMA_TOKEN_NULL'' (special_bos_id V) []) (\<lambda>out.
         rbind (run_fragments (\<lambda>t. t) (wpm_tokenize D V) raw_text fragment_buffer out) (\<lambda>out'.
         push_token add_special ''special_sep_id != LLAMA_TOKEN_NULL'' (special_sep_id V) out'))
     | LLAMA_VOCAB_TYPE_UGM \<Rightarrow>
         (case tokenizer of
            Some (UgmTokenizer tz) \<Rightarrow>
              rbind (push_token (add_special \<and> add_bos V) ''special_bos_id != LLAMA_TOKEN_NULL'' (special_bos_id V) []) (\<lambda>out.
              rbind (run_fragments (\<lambda>t. t) (ugm_tokenize F V tz) raw_text fragment_buffer out) (\<lambda>out'.
              push_token (add_special \<and> add_eos V) ''special_eos_id != LLAMA_TOKEN_NULL'' (special_eos_id V) out'))
          | _ \<Rightarrow> Inl Undefined)
     | LLAMA_VOCAB_TYPE_RWKV \<Rightarrow>
         (case tokenizer of
            Some (RwkvTokenizer root) \<Rightarrow> run_fragments (\<lambda>t. t) (rwkv_tokenize V root) raw_text fragment_buffer []
          | _ \<Rightarrow> Inl Undefined)
     | LLAMA_VOCAB_TYPE_PLAMO2 \<Rightarrow>
         (case tokenizer of
            Some (Plamo2Tokenizer session) \<Rightarrow> run_fragments (\<lambda>t. t) session raw_text fragment_buffer []
          | _ \<Rightarrow> Inl Undefined)
     | LLAMA_VOCAB_TYPE_NONE \<Rightarrow> Inl (Abort ''fatal error'')))"

section \<open>A text without special tokens\<close>

lemma cut_range_absent:
  assumes "t \<noteq> []" "\<not> sublist t raw"
  shows "cut_range raw tid t attr 0 (length raw) = text_frag 0 (length raw)"
proof -
  have "find_from t raw 0 = None"
  proof (rule ccontr)
    assume "find_from t raw 0 \<noteq> None"
    then obtain i where "find_from t raw 0 = Some i" by blast
    then have "take (length t) (drop i raw) = t" by (rule find_from_Some(3))
    then show False using assms(2) by (metis sublist_take sublist_drop sublist_order.order_trans)
  qed
  then show ?thesis using assms(1) by (subst cut_range.simps) simp
qed

lemma partition_none:
  assumes V: "special_ok V" and raw: "raw \<noteq> []"
    and none: "\<forall>tid \<in> set (cache_special_tokens V). is_active V ps tid \<longrightarrow> \<not> sublist (tok_text V tid) raw"
  shows "initial_fragments V raw ps = Inr [FragText 0 (length raw)]"
proof -
  have "rfold (split_special V ps raw) tids [FragText 0 (length raw)] = Inr [FragText 0 (length raw)]"
    if "set tids \<subseteq> set (cache_special_tokens V)" for tids
    using that
  proof (induction tids)
    case (Cons tid tids)
    have tid: "0 \<le> tid" "nat tid < length (id_to_token V)" "tok_text V tid \<noteq> []" "vtype V \<noteq> LLAMA_VOCAB_TYPE_NONE"
      using V Cons.prems unfolding special_ok_def by auto
    have data: "get_token_data V tid = Inr (id_to_token V ! nat tid)"
      using tid by (simp add: get_token_data_def has_vocab_def rassert_def vector_at_def)
    have "split_special V ps raw tid [FragText 0 (length raw)] = Inr [FragText 0 (length raw)]"
    proof (cases "is_active V ps tid")
      case True
      then have "cut_range raw tid (tok_text V tid) (tok_attr V tid) 0 (length raw) = [FragText 0 (length raw)]"
        using cut_range_absent [OF tid(3)] none Cons.prems raw by (simp add: text_frag_def)
      moreover have "split_buffer 1 raw tid (tok_text V tid) (tok_attr V tid) ([FragText 0 (length raw)], 0) =
          Inr (concat (map (cut_frag raw tid (tok_text V tid) (tok_attr V tid)) [FragText 0 (length raw)]))"
        using split_buffer_cut [OF tid(3), of "[FragText 0 (length raw)]" 1 raw tid "tok_attr V tid" "[]"] raw
        by (simp add: frag_ok_def)
      ultimately show ?thesis using data True by (auto simp: split_special_def is_active_def cut_frag_def)
    qed (use data in \<open>simp add: split_special_def is_active_def\<close>)
    then show ?case using Cons by simp
  qed simp
  then show ?thesis using raw
    by (simp add: initial_fragments_def tokenizer_st_partition_def make_text_def rassert_def Suc_le_eq)
qed

section \<open>Sentence pieces there and back\<close>

text \<open>Escaping blanks makes no new occurrence of a string without blanks and escaped blanks.\<close>

definition plain_bytes :: "u8 list \<Rightarrow> bool" where
  "plain_bytes p \<longleftrightarrow> 0x20 \<notin> set p \<and> set p \<inter> set escaped_space = {}"

lemma escape_Cons:
  "llama_escape_whitespace (c # t) = (if c = 0x20 then escaped_space else [c]) @ llama_escape_whitespace t"
  by (simp add: escape_eq)

lemma prefix_escape:
  "plain_bytes p \<Longrightarrow> prefix p (llama_escape_whitespace t) \<Longrightarrow> prefix p t"
proof (induction t arbitrary: p)
  case (Cons c t)
  show ?case
  proof (cases p)
    case (Cons d p')
    then show ?thesis using Cons.prems Cons.IH [of p']
      by (auto simp: escape_Cons plain_bytes_def escaped_space_def split: if_splits)
  qed simp
qed (simp add: escape_eq)

lemma sublist_escape:
  "plain_bytes p \<Longrightarrow> p \<noteq> [] \<Longrightarrow> sublist p (llama_escape_whitespace t) \<Longrightarrow> sublist p t"
proof (induction t)
  case (Cons c t)
  have pre: "prefix p (llama_escape_whitespace (c # t)) \<Longrightarrow> ?case"
    using prefix_escape [OF Cons.prems(1)] by blast
  show ?case
  proof (cases "c = 0x20")
    case True
    have "\<not> prefix p (b # s)" if "b \<in> set escaped_space" for b s
      using that Cons.prems(1,2) by (cases p) (auto simp: plain_bytes_def)
    then have "sublist p (llama_escape_whitespace t)"
      using Cons.prems(3) True by (auto simp: escape_Cons escaped_space_def sublist_Cons_right)
    then show ?thesis using Cons.IH Cons.prems(1,2) by (simp add: sublist_Cons_right)
  next
    case False
    then have "prefix p (llama_escape_whitespace (c # t)) \<or> sublist p (llama_escape_whitespace t)"
      using Cons.prems(3) by (auto simp: escape_Cons sublist_Cons_right)
    then show ?thesis using pre Cons.IH Cons.prems(1,2) by (auto simp: sublist_Cons_right)
  qed
qed (simp add: escape_eq)

lemma byte_name_plain: "plain_bytes (byte_name b)" "byte_name b \<noteq> []"
proof -
  have d: "n < 16 \<Longrightarrow> hex_digits ! n \<in> set hex_digits" for n by (rule nth_mem) (simp add: hex_digits_def ascii_def)
  have "set (byte_name b) \<subseteq> set hex_digits \<union> set (ascii ''<0x>'')"
    using d [OF nibbles(1) [of b]] d [OF nibbles(2) [of b]] by (auto simp: byte_name_def ascii_def)
  moreover have "0x20 \<notin> set hex_digits \<union> set (ascii ''<0x>'')" "(set hex_digits \<union> set (ascii ''<0x>'')) \<inter> set escaped_space = {}"
    by (simp_all add: hex_digits_def ascii_def escaped_space_def)
  ultimately show "plain_bytes (byte_name b)" unfolding plain_bytes_def by blast
qed (simp add: byte_name_def ascii_def)

text \<open>
  What the sentence piece tokenizer makes of a text without special tokens: tokens whose pieces spell the
  text, with the blank that was put in front of it.
\<close>

definition spm_prefix :: "('s, 'z) llama_vocab_scheme \<Rightarrow> u8 list" where
  "spm_prefix V = (if add_space_prefix V then [0x20] else [])"

lemma spm_pieces_of_text:
  assumes V: "spm_vocab_ok V" and t: "unicode_cpts_to_utf8 cpts = Inr t" "cpts \<noteq> []" "0x2581 \<notin> set cpts"
    and names: "\<forall>b. \<not> sublist (byte_name b) t"
  shows "\<exists>toks qs. spm_tokenize V (llama_escape_whitespace (spm_prefix V @ t)) out = Inr (out @ toks) \<and>
    list_all2 (has_piece V sp) toks qs \<and> concat qs = spm_prefix V @ t \<and> [] \<notin> set qs"
proof -
  obtain bss where bss: "t = concat bss" "list_all2 (\<lambda>c b. unicode_cpt_to_utf8 c = Inr b) cpts bss"
    using encode_chars [OF t(1)] by blast
  have enc: "\<exists>c \<in> set cpts. unicode_cpt_to_utf8 c = Inr b" if "b \<in> set bss" for b
    using bss(2) that by (induction rule: list_all2_induct) auto
  have no: "escaped_space \<notin> set bss"
  proof
    assume "escaped_space \<in> set bss"
    then obtain c where "c \<in> set cpts" "unicode_cpt_to_utf8 c = Inr escaped_space" using enc by blast
    then show False using t(3) ucodec.enc_inj [OF _ encoded_blank(3)] by blast
  qed
  define cs where "cs = (if add_space_prefix V then [[0x20]] else []) @ bss"
  have whole: "spm_prefix V @ t = concat cs" using bss(1) by (simp add: cs_def spm_prefix_def)
  have "\<forall>b \<in> set cs. encoded b" using enc encoded_blank(1) unfolding cs_def encoded_def by auto
  moreover have "escaped_space \<notin> set cs" using no by (auto simp: cs_def escaped_space_def)
  moreover have "cs \<noteq> []" using bss(2) t(2) by (auto simp: cs_def)
  moreover have "\<not> sublist (byte_name b) (llama_escape_whitespace (concat cs))" for b
  proof
    assume "sublist (byte_name b) (llama_escape_whitespace (concat cs))"
    then have "sublist (byte_name b) (spm_prefix V @ t)" using sublist_escape byte_name_plain whole by metis
    moreover have "\<not> prefix (byte_name b) (0x20 # t)" using byte_name_plain [of b] by (cases "byte_name b") (auto simp: plain_bytes_def)
    ultimately show False using names by (auto simp: spm_prefix_def sublist_Cons_right split: if_splits)
  qed
  ultimately show ?thesis using spm_session_pieces [OF V, of cs out sp] whole by auto
qed

text \<open>The whole call, with the tokens of beginning and end where they are asked for.\<close>

definition spm_ends :: "bool \<Rightarrow> ('s, 'z) llama_vocab_scheme \<Rightarrow> bool" where
  "spm_ends add_special V \<longleftrightarrow> add_special \<longrightarrow>
     (add_bos V \<longrightarrow> special_bos_id V \<noteq> LLAMA_TOKEN_NULL) \<and> (add_eos V \<longrightarrow> special_eos_id V \<noteq> LLAMA_TOKEN_NULL)"

lemma spm_llama_tokenize:
  assumes V: "spm_vocab_ok V" "special_ok V" "spm_ends add_special V"
    and t: "unicode_cpts_to_utf8 cpts = Inr t" "cpts \<noteq> []" "0x2581 \<notin> set cpts" "\<forall>b. \<not> sublist (byte_name b) t"
    and none: "\<forall>tid \<in> set (cache_special_tokens V). is_active V ps tid \<longrightarrow> \<not> sublist (tok_text V tid) t"
  shows "\<exists>toks qs. llama_tokenize D rx F V (Some tz) t add_special ps =
      Inr ((if add_special \<and> add_bos V then [special_bos_id V] else []) @ toks @ (if add_special \<and> add_eos V then [special_eos_id V] else [])) \<and>
    list_all2 (has_piece V sp) toks qs \<and> concat qs = spm_prefix V @ t \<and> [] \<notin> set qs"
proof -
  define out where "out = (if add_special \<and> add_bos V then [special_bos_id V] else [])"
  obtain toks qs where toks: "spm_tokenize V (llama_escape_whitespace (spm_prefix V @ t)) out = Inr (out @ toks)"
    "list_all2 (has_piece V sp) toks qs" "concat qs = spm_prefix V @ t" "[] \<notin> set qs"
    using spm_pieces_of_text [OF V(1) t] by blast
  have "t \<noteq> []"
  proof -
    obtain bss where "t = concat bss" "list_all2 (\<lambda>c b. unicode_cpt_to_utf8 c = Inr b) cpts bss"
      using encode_chars [OF t(1)] by blast
    then show ?thesis using t(2) encoded_nonempty unfolding encoded_def by (cases cpts; cases bss) auto
  qed
  then have "initial_fragments V t ps = Inr [FragText 0 (length t)]" by (rule partition_none [OF V(2) _ none])
  moreover have "rfold (spm_fragment V t) [FragText 0 (length t)] (out, True) = Inr (out @ toks, False)"
    using toks(1) by (simp add: spm_fragment_def substr_def spm_prefix_def)
  moreover have "push_token (add_special \<and> add_bos V) ''special_bos_id != LLAMA_TOKEN_NULL'' (special_bos_id V) [] = Inr out"
    using V(3) by (auto simp: push_token_def out_def spm_ends_def rassert_def)
  moreover have "push_token (add_special \<and> add_eos V) ''special_eos_id != LLAMA_TOKEN_NULL'' (special_eos_id V) (out @ toks) =
      Inr (out @ toks @ (if add_special \<and> add_eos V then [special_eos_id V] else []))"
    using V(3) by (auto simp: push_token_def spm_ends_def rassert_def)
  ultimately have "llama_tokenize D rx F V (Some tz) t add_special ps =
      Inr (out @ toks @ (if add_special \<and> add_eos V then [special_eos_id V] else []))"
    using V(1) unfolding llama_tokenize_def spm_vocab_ok_def by (simp add: rassert_def)
  then show ?thesis using toks(2-4) unfolding out_def by blast
qed

text \<open>The pieces of a text with a blank in front lose the blank; without one they are the text.\<close>

lemma detokenize_spm:
  assumes "vtype V \<noteq> LLAMA_VOCAB_TYPE_NONE" "\<not> clean_spaces V" "list_all2 (has_piece V sp) toks qs"
    and "concat qs = spm_prefix V @ t" "[] \<notin> set qs" "int (length t) \<le> len" "int (length t) < INT32_MAX - 1"
  shows "detokenize V toks len False sp = Inr (int (length t), t)"
proof (cases "add_space_prefix V")
  case False
  then show ?thesis using detokenize_pieces [OF assms(1) False assms(3), of len] assms by (simp add: spm_prefix_def)
next
  case True
  obtain q qs' where qs: "qs = q # qs'" using assms(4) True by (cases qs) (auto simp: spm_prefix_def)
  obtain p where p: "q = 0x20 # p" using assms(4,5) True qs by (cases q) (auto simp: spm_prefix_def)
  obtain tok toks' where toks: "toks = tok # toks'" using assms(3) qs by (cases toks) auto
  have "p @ concat qs' = t" using assms(4) True qs p by (simp add: spm_prefix_def)
  then show ?thesis using detokenize_prefixed [OF assms(1) True assms(2), of sp tok toks' p qs' len] assms(3,6,7) qs p toks by simp
qed

text \<open>
  Behind a token of beginning the blank stays. \<open>detokenize\<close> cuts the token off and then treats the text as if
  it had come without a blank, although \<open>tokenize\<close> has put one there.
\<close>

lemma bos_keeps_blank:
  assumes V: "spm_vocab_ok V" "special_ok V" "spm_ends True V" "\<not> clean_spaces V" "add_bos V" "add_space_prefix V"
    and t: "unicode_cpts_to_utf8 cpts = Inr t" "cpts \<noteq> []" "0x2581 \<notin> set cpts" "\<forall>b. \<not> sublist (byte_name b) t"
    and none: "\<forall>tid \<in> set (cache_special_tokens V). is_active V ps tid \<longrightarrow> \<not> sublist (tok_text V tid) t"
    and len: "int (length t) + 1 \<le> len" "int (length t) < INT32_MAX - 1"
  shows "\<exists>toks. llama_tokenize D rx F V (Some tz) t True ps = Inr toks \<and> detokenize V toks len True sp = Inr (int (length t) + 1, 0x20 # t)"
proof -
  define eos where "eos = (if add_eos V then [special_eos_id V] else [])"
  obtain toks qs where toks: "llama_tokenize D rx F V (Some tz) t True ps = Inr (special_bos_id V # toks @ eos)"
    "list_all2 (has_piece V sp) toks qs" "concat qs = 0x20 # t"
    using spm_llama_tokenize [OF V(1-3) t none, of D rx F tz sp] V(5,6) unfolding eos_def spm_prefix_def by auto
  obtain avail where "rfold (detokenize_step V sp) toks (len, 0, [], False) = Inr (avail, int (length t) + 1, 0x20 # t, False)"
    using detokenize_fold [OF toks(2), of len 0 "[]"] toks(3) len by auto
  moreover have "vtype V \<noteq> LLAMA_VOCAB_TYPE_NONE" using V(1) unfolding spm_vocab_ok_def by simp
  ultimately have "detokenize V (special_bos_id V # toks @ eos) len True sp = Inr (int (length t) + 1, 0x20 # t)"
    using V(4,5,6) len by (cases "add_eos V") (auto simp: eos_def detokenize_def Let_def)
  then show ?thesis using toks(1) by blast
qed


definition small_spm :: "int llama_vocab" where
  "small_spm = ab_vocab\<lparr>vtype := LLAMA_VOCAB_TYPE_SPM, add_space_prefix := True,
     token_to_id := (\<lambda>s. if s = escaped_space then Some 256 else map_of (map (\<lambda>k. (byte_name (of_nat k), int k)) [0..<256]) s),
     id_to_token := map (\<lambda>k. \<lparr>ttext = byte_name (of_nat k), score = 0, tattr = ATTR_BYTE\<rparr>) [0..<256] @
       [\<lparr>ttext = escaped_space, score = 0, tattr = ATTR_NORMAL\<rparr>],
     cache_special_tokens := []\<rparr>"

lemma small_spm_ok: "spm_vocab_ok small_spm"
proof -
  define m where "m = map_of (map (\<lambda>k. (byte_name (of_nat k), int k)) [0..<256])"
  have no: "escaped_space \<noteq> byte_name b" for b
  proof
    assume "escaped_space = byte_name b"
    then have "length escaped_space = 6" using byte_name_value(2) [of b] by (simp only:)
    then show False by (simp add: escaped_space_def)
  qed
  have "m (byte_name b) \<noteq> None" for b
  proof -
    have "(byte_name b, int (unat b)) \<in> set (map (\<lambda>k. (byte_name (of_nat k), int k)) [0..<256])"
      using unsigned_less [of b, where ?'a = nat] by (auto intro!: image_eqI [of _ _ "unat b"])
    then show ?thesis unfolding m_def by (metis weak_map_of_SomeI option.distinct(1))
  qed
  moreover have "0 \<le> tok \<and> nat tok < 256 \<and> byte_name (of_nat (nat tok)) = s" if "m s = Some tok" for s tok
    using map_of_SomeD [OF that [unfolded m_def]] by auto
  moreover have "token_to_id small_spm = (\<lambda>s. if s = escaped_space then Some 256 else m s)"
    unfolding m_def by (simp add: small_spm_def)
  moreover have "id_to_token small_spm = map (\<lambda>k. \<lparr>ttext = byte_name (of_nat k), score = 0, tattr = ATTR_BYTE\<rparr>) [0..<256] @
      [\<lparr>ttext = escaped_space, score = 0, tattr = ATTR_NORMAL\<rparr>]"
    "vtype small_spm = LLAMA_VOCAB_TYPE_SPM" "piece_cache small_spm"
    by (simp_all add: small_spm_def ab_vocab_def piece_cache_def)
  ultimately show ?thesis using no unfolding spm_vocab_ok_def
    by (fastforce simp: nth_append image_iff split: if_splits)
qed


end
