(* ===== verification/Vocab_Load.thy ===== *)
theory Vocab_Load
  imports Llama_Tokenize
begin

text \<open>
  How \<open>llama_vocab::impl::load\<close> of \<open>src/llama-vocab.cpp\<close> fills the tables of the vocabulary from the arrays of a model
  file: the tokens with their scores and attributes, the ranks of the merges, and the cache of special
  tokens. The arrays are arguments, as the file they come from is input. The lemmas show that a
  vocabulary that was loaded has what the tokenizers rely on.
\<close>

section \<open>Definitions\<close>

subsection \<open>Tokens\<close>

text \<open>\<open>std::to_string\<close>\<close>

fun decimal :: "nat \<Rightarrow> u8 list" where
  "decimal n = (if n < 10 then [of_nat (48 + n)] else decimal (n div 10) @ [of_nat (48 + n mod 10)])"

declare decimal.simps [simp del]

definition token_word :: "nat \<Rightarrow> u8 list \<Rightarrow> u8 list" where
  "token_word i w = (if w = [] then ascii ''[EMPTY_'' @ decimal i @ ascii '']'' else w)"

definition ATTR_UNDEFINED :: token_attr where "ATTR_UNDEFINED = 0x0"

definition attr_of_type :: "int \<Rightarrow> token_attr" where
  "attr_of_type t =
     (if t = 2 then ATTR_UNKNOWN else if t = 5 then ATTR_UNUSED else if t = 1 then ATTR_NORMAL
      else if t = 3 then ATTR_CONTROL else if t = 4 then ATTR_USER_DEFINED else if t = 6 then ATTR_BYTE else ATTR_UNDEFINED)"

definition load_token ::
  "'s \<Rightarrow> 's list option \<Rightarrow> int list option \<Rightarrow> u8 list list \<Rightarrow> nat \<Rightarrow> ('s, 'z) llama_vocab_scheme \<Rightarrow> ('s, 'z) llama_vocab_scheme" where
  "load_token zero scores toktypes ws i V =
     (let w = token_word i (ws ! i) in
      V\<lparr>token_to_id := (token_to_id V)(w \<mapsto> i32_of_u32 i),
        max_token_len := max (max_token_len V) (i32_of_u32 (length w)),
        id_to_token := (id_to_token V)[i :=
          \<lparr>ttext = w, score = (case scores of Some sc \<Rightarrow> sc ! i | None \<Rightarrow> zero),
           tattr = (case toktypes of Some tt \<Rightarrow> attr_of_type (tt ! i) | None \<Rightarrow> ATTR_NORMAL)\<rparr>]\<rparr>)"

text \<open>
  The tables are empty at the start. At the end the number of keys, which is the number of different texts,
  has to be the number of tokens.
\<close>

definition load_tokens ::
  "'s \<Rightarrow> 's list option \<Rightarrow> int list option \<Rightarrow> u8 list list \<Rightarrow> ('s, 'z) llama_vocab_scheme \<Rightarrow> ('s, 'z) llama_vocab_scheme result" where
  "load_tokens zero scores toktypes ws V =
     (let n = length ws in
      if (case scores of Some sc \<Rightarrow> length sc < n | None \<Rightarrow> False) then Inl (Throw ''Index out of array bounds for scores'')
      else if (case toktypes of Some tt \<Rightarrow> length tt < n | None \<Rightarrow> False) then Inl (Throw ''Index out of array bounds for toktypes'')
      else let V' = fold (load_token zero scores toktypes ws) [0..<n]
                 (V\<lparr>token_to_id := Map.empty, max_token_len := 0, id_to_token := replicate n \<lparr>ttext = [], score = zero, tattr = ATTR_UNDEFINED\<rparr>\<rparr>) in
        rbind (rassert ''id_to_token.size() == token_to_id.size()'' (length (id_to_token V') = card (set (map ttext (id_to_token V'))))) (\<lambda>_.
        Inr V'))"

subsection \<open>Merges\<close>

definition split_merge :: "u8 list \<Rightarrow> u8 list \<times> u8 list" where
  "split_merge w = (case find_from [0x20] w 1 of Some pos \<Rightarrow> (take pos w, drop (pos + 1) w) | None \<Rightarrow> ([], []))"

text \<open>\<open>emplace\<close> keeps the entry that is there.\<close>

definition load_merges :: "u8 list list \<Rightarrow> u8 list \<times> u8 list \<rightharpoonup> int" where
  "load_merges merges = fold (\<lambda>i m. let k = split_merge (merges ! i) in if m k = None then m(k \<mapsto> int i) else m) [0..<length merges] Map.empty"

subsection \<open>Special tokens\<close>

text \<open>
  The identifiers of the special tokens, sorted by descending length of text. \<open>std::sort\<close> may leave tokens
  of equal length in any order, so this is a test of the result.
\<close>

definition special_ids :: "('s, 'z) llama_vocab_scheme \<Rightarrow> int list" where
  "special_ids V = map int (filter (\<lambda>i. has_attr (tattr (id_to_token V ! i)) (ATTR_CONTROL OR ATTR_USER_DEFINED OR ATTR_UNKNOWN))
     [0..<length (id_to_token V)])"

definition is_special_cache :: "('s, 'z) llama_vocab_scheme \<Rightarrow> int list \<Rightarrow> bool" where
  "is_special_cache V ids \<longleftrightarrow> mset ids = mset (special_ids V) \<and>
     sorted_wrt (\<lambda>a b. length (ttext (id_to_token V ! nat b)) \<le> length (ttext (id_to_token V ! nat a))) ids"

section \<open>Loaded tokens\<close>

lemma token_word_nonempty: "token_word i w \<noteq> []"
  by (simp add: token_word_def ascii_def)

definition loaded ::
  "'s \<Rightarrow> 's list option \<Rightarrow> int list option \<Rightarrow> u8 list list \<Rightarrow> nat \<Rightarrow> ('s, 'z) llama_vocab_scheme \<Rightarrow> bool" where
  "loaded zero scores toktypes ws k V \<longleftrightarrow> length (id_to_token V) = length ws \<and> 0 \<le> max_token_len V \<and>
     (\<forall>i < k. ttext (id_to_token V ! i) = token_word i (ws ! i) \<and>
        score (id_to_token V ! i) = (case scores of Some sc \<Rightarrow> sc ! i | None \<Rightarrow> zero) \<and>
        tattr (id_to_token V ! i) = (case toktypes of Some tt \<Rightarrow> attr_of_type (tt ! i) | None \<Rightarrow> ATTR_NORMAL) \<and>
        token_to_id V (token_word i (ws ! i)) \<noteq> None \<and> int (length (token_word i (ws ! i))) \<le> max_token_len V) \<and>
     (\<forall>s tok. token_to_id V s = Some tok \<longrightarrow> (\<exists>i < k. tok = int i \<and> token_word i (ws ! i) = s))"

lemma load_token_step:
  assumes "loaded zero scores toktypes ws k V" "k < length ws" "length ws \<le> 2147483648" "length (token_word k (ws ! k)) < 2147483648"
  shows "loaded zero scores toktypes ws (Suc k) (load_token zero scores toktypes ws k V)"
proof -
  have ids: "i32_of_u32 k = int k" "i32_of_u32 (length (token_word k (ws ! k))) = int (length (token_word k (ws ! k)))" using assms by simp_all
  have "\<forall>s tok. token_to_id (load_token zero scores toktypes ws k V) s = Some tok \<longrightarrow> (\<exists>i < Suc k. tok = int i \<and> token_word i (ws ! i) = s)"
  proof (intro allI impI)
    fix s tok assume s: "token_to_id (load_token zero scores toktypes ws k V) s = Some tok"
    show "\<exists>i < Suc k. tok = int i \<and> token_word i (ws ! i) = s"
    proof (cases "s = token_word k (ws ! k)")
      case True
      then show ?thesis using s by (auto simp: load_token_def Let_def ids)
    next
      case False
      then have "token_to_id V s = Some tok" using s by (simp add: load_token_def Let_def)
      then obtain i where "i < k" "tok = int i" "token_word i (ws ! i) = s" using assms(1) unfolding loaded_def by blast
      then show ?thesis using less_Suc_eq by blast
    qed
  qed
  then show ?thesis using assms(1,2) unfolding loaded_def
    by (auto simp: load_token_def Let_def ids less_Suc_eq le_max_iff_disj nth_list_update)
qed

lemma load_tokens_loaded:
  assumes "load_tokens zero scores toktypes ws V0 = Inr V" "length ws \<le> 2147483648"
    and "\<forall>i < length ws. length (token_word i (ws ! i)) < 2147483648"
  shows "loaded zero scores toktypes ws (length ws) V \<and> distinct (map ttext (id_to_token V))"
proof -
  define V1 where "V1 = V0\<lparr>token_to_id := Map.empty, max_token_len := 0, id_to_token := replicate (length ws) \<lparr>ttext = [], score = zero, tattr = ATTR_UNDEFINED\<rparr>\<rparr>"
  have "loaded zero scores toktypes ws k (fold (load_token zero scores toktypes ws) [0..<k] V1)" if "k \<le> length ws" for k
    using that
  proof (induction k)
    case 0
    then show ?case by (simp add: loaded_def V1_def)
  next
    case (Suc k)
    then show ?case using load_token_step [OF Suc.IH] assms(2,3) by simp
  qed
  moreover have "V = fold (load_token zero scores toktypes ws) [0..<length ws] V1 \<and> length (id_to_token V) = card (set (map ttext (id_to_token V)))"
    using assms(1) by (auto simp: load_tokens_def Let_def V1_def result_simps split: if_splits)
  ultimately show ?thesis by (auto intro!: card_distinct)
qed

text \<open>
  C7. A vocabulary that loads is consistent. When the tokens of a model file, at most \<open>2\<^sup>3\<^sup>1\<close> of them and each
  shorter than that, have been loaded, there is an entry for every token of the file; the table from texts
  to identifiers and the list of tokens are inverse to each other, so no two tokens share a text; no token
  has the empty text; and none is longer than the recorded length.
\<close>

theorem load_tokens_consistent:
  assumes "load_tokens zero scores toktypes ws V0 = Inr V" "length ws \<le> 2147483648"
    and "\<forall>i < length ws. length (token_word i (ws ! i)) < 2147483648"
  shows "length (id_to_token V) = length ws \<and>
     (\<forall>s tok. token_to_id V s = Some tok \<longleftrightarrow> 0 \<le> tok \<and> nat tok < length (id_to_token V) \<and> ttext (id_to_token V ! nat tok) = s) \<and>
     (\<forall>d \<in> set (id_to_token V). ttext d \<noteq> [] \<and> int (length (ttext d)) \<le> max_token_len V)"
proof -
  have l: "loaded zero scores toktypes ws (length ws) V" "distinct (map ttext (id_to_token V))"
    using load_tokens_loaded [OF assms] by auto
  have n: "length (id_to_token V) = length ws" using l(1) unfolding loaded_def by simp
  have words: "ttext (id_to_token V ! i) = token_word i (ws ! i)" if "i < length ws" for i using l(1) that unfolding loaded_def by blast
  have "token_to_id V s = Some tok \<longleftrightarrow> 0 \<le> tok \<and> nat tok < length (id_to_token V) \<and> ttext (id_to_token V ! nat tok) = s" (is "?L \<longleftrightarrow> ?R") for s tok
  proof
    assume ?L
    then show ?R using l(1) words n unfolding loaded_def by fastforce
  next
    assume R: ?R
    then obtain tok' where tok': "token_to_id V s = Some tok'" using l(1) words n unfolding loaded_def by fastforce
    then obtain j where j: "j < length ws" "tok' = int j" "token_word j (ws ! j) = s" using l(1) unfolding loaded_def by blast
    then have "map ttext (id_to_token V) ! j = map ttext (id_to_token V) ! nat tok" using R words n by simp
    then have "j = nat tok" using l(2) R n j(1) by (simp add: nth_eq_iff_index_eq del: nth_map)
    then show ?L using tok' j(2) R by simp
  qed
  moreover have "ttext d \<noteq> [] \<and> int (length (ttext d)) \<le> max_token_len V" if "d \<in> set (id_to_token V)" for d
    using that l(1) words token_word_nonempty n unfolding loaded_def by (auto simp: in_set_conv_nth)
  ultimately show ?thesis using n by blast
qed

theorem load_tokens_consistent_witness:
  "\<exists>V. load_tokens 0 None (Some [2, 1, 1]) [ascii ''<unk>'', [], ascii ''b''] uni_vocab = Inr V \<and>
     token_to_id V (ascii ''b'') = Some 2 \<and> token_to_id V (ascii ''[EMPTY_1]'') = Some 1"
proof -
  let ?ws = "[ascii ''<unk>'', [], ascii ''b'']"
  have words: "token_word 0 (?ws ! 0) = ascii ''<unk>''" "token_word 1 (?ws ! 1) = ascii ''[EMPTY_1]''" "token_word 2 (?ws ! 2) = ascii ''b''"
    by (simp_all add: token_word_def decimal.simps [of 1] decimal.simps [of "Suc 0"] ascii_def)
  have range: "[0..<3] = [0, 1, 2 :: nat]" by (simp add: upt_rec)
  have "card {ascii ''<unk>'', ascii ''[EMPTY_1]'', ascii ''b''} = 3" by (simp add: ascii_def)
  then obtain V where V: "load_tokens 0 None (Some [2, 1, 1]) ?ws uni_vocab = Inr V"
    "map ttext (id_to_token V) = [ascii ''<unk>'', ascii ''[EMPTY_1]'', ascii ''b'']"
    using words by (auto simp: load_tokens_def load_token_def Let_def range rassert_def uni_vocab_def numeral_2_eq_2)
  have "length (token_word i (?ws ! i)) < 2147483648" if "i < length ?ws" for i
    using that words by (auto simp: less_Suc_eq numeral_2_eq_2 ascii_def)
  then have "token_to_id V s = Some tok \<longleftrightarrow> 0 \<le> tok \<and> nat tok < length (id_to_token V) \<and> ttext (id_to_token V ! nat tok) = s" for s tok
    using load_tokens_consistent [OF V(1)] by simp
  moreover have "length (id_to_token V) = 3" "map ttext (id_to_token V) ! 2 = ascii ''b''" "map ttext (id_to_token V) ! 1 = ascii ''[EMPTY_1]''"
    using V(2) length_map [of ttext "id_to_token V"] by simp_all
  ultimately show ?thesis using V(1) by (intro exI [of _ V]) simp
qed

section \<open>What the tokenizers rely on\<close>

lemma loaded_lengths_ok:
  assumes "load_tokens zero scores toktypes ws V0 = Inr V" "length ws \<le> 2147483648"
    and "\<forall>i < length ws. length (token_word i (ws ! i)) < 2147483648" "vtype V \<noteq> LLAMA_VOCAB_TYPE_NONE"
  shows "lengths_ok V"
proof -
  have l: "loaded zero scores toktypes ws (length ws) V" using load_tokens_loaded [OF assms(1-3)] by blast
  have "int (length s) \<le> max_token_len V" if s: "token_to_id V s = Some tok" for s tok
  proof -
    obtain i where "i < length ws" "token_word i (ws ! i) = s" using l s unfolding loaded_def by blast
    then show ?thesis using l unfolding loaded_def by blast
  qed
  then show ?thesis using l assms(4) unfolding lengths_ok_def loaded_def by auto
qed

lemma special_cache_ok:
  assumes "load_tokens zero scores toktypes ws V0 = Inr V" "length ws \<le> 2147483648"
    and "\<forall>i < length ws. length (token_word i (ws ! i)) < 2147483648" "vtype V \<noteq> LLAMA_VOCAB_TYPE_NONE"
    and "is_special_cache V ids"
  shows "special_ok (V\<lparr>cache_special_tokens := ids\<rparr>)"
proof -
  have l: "loaded zero scores toktypes ws (length ws) V" using load_tokens_loaded [OF assms(1-3)] by blast
  have "set ids = set (special_ids V)" using assms(5) unfolding is_special_cache_def by (metis set_mset_mset)
  then have "0 \<le> tid \<and> nat tid < length ws" if "tid \<in> set ids" for tid
    using that l unfolding special_ids_def loaded_def by auto
  then show ?thesis using l assms(4) token_word_nonempty unfolding special_ok_def loaded_def by auto
qed

text \<open>The rank of a pair is the place of its first line in the list of merges.\<close>

lemma load_merges_first:
  "load_merges merges k = Some r \<longleftrightarrow> (\<exists>i < length merges. r = int i \<and> split_merge (merges ! i) = k \<and> (\<forall>j < i. split_merge (merges ! j) \<noteq> k))"
proof -
  define step where "step = (\<lambda>i m. let k = split_merge (merges ! i) in if m k = None then m(k \<mapsto> int i) else m)"
  have "fold step [0..<n] Map.empty k = Some r \<longleftrightarrow> (\<exists>i < n. r = int i \<and> split_merge (merges ! i) = k \<and> (\<forall>j < i. split_merge (merges ! j) \<noteq> k))" for n r
  proof (induction n arbitrary: r)
    case (Suc n)
    define m where "m = fold step [0..<n] Map.empty"
    have ih: "m k = Some r \<longleftrightarrow> (\<exists>i < n. r = int i \<and> split_merge (merges ! i) = k \<and> (\<forall>j < i. split_merge (merges ! j) \<noteq> k))" for r
      unfolding m_def by (rule Suc.IH)
    have none: "m k = None \<longleftrightarrow> (\<forall>j < n. split_merge (merges ! j) \<noteq> k)"
    proof
      assume "\<forall>j < n. split_merge (merges ! j) \<noteq> k"
      then show "m k = None" using ih by (metis not_Some_eq)
    next
      assume m: "m k = None"
      show "\<forall>j < n. split_merge (merges ! j) \<noteq> k"
      proof (rule ccontr)
        assume "\<not> (\<forall>j < n. split_merge (merges ! j) \<noteq> k)"
        then have ex: "\<exists>j. j < n \<and> split_merge (merges ! j) = k" by blast
        define j where "j = (LEAST j. j < n \<and> split_merge (merges ! j) = k)"
        have "j < n" "split_merge (merges ! j) = k" using LeastI_ex [OF ex] unfolding j_def by auto
        moreover have "split_merge (merges ! i) \<noteq> k" if "i < j" for i
          using not_less_Least [of i "\<lambda>j. j < n \<and> split_merge (merges ! j) = k"] \<open>j < n\<close> that unfolding j_def by simp
        ultimately show False using m ih [of "int j"] by auto
      qed
    qed
    have "fold step [0..<Suc n] Map.empty k = (if m k = None \<and> split_merge (merges ! n) = k then Some (int n) else m k)"
      by (auto simp: m_def step_def Let_def)
    then show ?case using ih [of r] none by (auto simp: less_Suc_eq)
  qed simp
  then show ?thesis unfolding load_merges_def step_def by blast
qed

end
