(* ===== verification/Ring_Buffer.thy ===== *)
theory Ring_Buffer
  imports Prelude
begin

text \<open>
  The ring buffer of \<open>src/llama-impl.h\<close>, in which the samplers keep the last tokens. It refines a list of bounded
  length: pushing to a full buffer drops the oldest element. Only \<open>back\<close> does not do what its name says.
\<close>

section \<open>Definitions\<close>

record 'a ring_buffer =
  rb_capacity :: nat
  rb_sz :: nat
  rb_first :: nat
  rb_pos :: nat
  rb_data :: "'a list"

text \<open>The vector starts with \<open>cap\<close> elements of the type's initial value.\<close>

definition rb_new :: "'a \<Rightarrow> nat \<Rightarrow> 'a ring_buffer" where
  "rb_new z cap = \<lparr>rb_capacity = cap, rb_sz = 0, rb_first = 0, rb_pos = 0, rb_data = replicate cap z\<rparr>"

definition rb_front :: "'a ring_buffer \<Rightarrow> 'a result" where
  "rb_front rb = (if rb_sz rb = 0 then Inl (Throw ''ring buffer is empty'') else Inr (rb_data rb ! rb_first rb))"

definition rb_back :: "'a ring_buffer \<Rightarrow> 'a result" where
  "rb_back rb = (if rb_sz rb = 0 then Inl (Throw ''ring buffer is empty'') else Inr (rb_data rb ! rb_pos rb))"

definition rb_push_back :: "'a \<Rightarrow> 'a ring_buffer \<Rightarrow> 'a ring_buffer result" where
  "rb_push_back v rb =
     (if rb_capacity rb = 0 then Inl (Throw ''ring buffer: capacity is zero'')
      else let rb' = (if rb_sz rb = rb_capacity rb then rb\<lparr>rb_first := (rb_first rb + 1) mod rb_capacity rb\<rparr>
                      else rb\<lparr>rb_sz := rb_sz rb + 1\<rparr>) in
        Inr (rb'\<lparr>rb_data := (rb_data rb')[rb_pos rb' := v], rb_pos := (rb_pos rb' + 1) mod rb_capacity rb'\<rparr>))"

definition rb_pop_front :: "'a ring_buffer \<Rightarrow> ('a \<times> 'a ring_buffer) result" where
  "rb_pop_front rb =
     (if rb_sz rb = 0 then Inl (Throw ''ring buffer is empty'')
      else Inr (rb_data rb ! rb_first rb,
                rb\<lparr>rb_first := (rb_first rb + 1) mod rb_capacity rb, rb_sz := rb_sz rb - 1\<rparr>))"

definition rb_rat :: "'a ring_buffer \<Rightarrow> nat \<Rightarrow> 'a result" where
  "rb_rat rb i =
     (if i \<ge> rb_sz rb then Inl (Throw ''ring buffer: index out of bounds'')
      else Inr (rb_data rb ! ((rb_first rb + rb_sz rb - i - 1) mod rb_capacity rb)))"

definition rb_to_vector :: "'a ring_buffer \<Rightarrow> 'a list" where
  "rb_to_vector rb = map (\<lambda>i. rb_data rb ! ((rb_first rb + i) mod rb_capacity rb)) [0..<rb_sz rb]"

definition rb_clear :: "'a ring_buffer \<Rightarrow> 'a ring_buffer" where
  "rb_clear rb = rb\<lparr>rb_sz := 0, rb_first := 0, rb_pos := 0\<rparr>"

definition rb_empty :: "'a ring_buffer \<Rightarrow> bool" where
  "rb_empty rb \<longleftrightarrow> rb_sz rb = 0"

section \<open>What the buffer promises\<close>

text \<open>The interface the samplers use: the content is a list, pushed at its end and read from there.\<close>

locale token_history =
  fixes ok :: "'h \<Rightarrow> bool" and content :: "'h \<Rightarrow> 'a list" and cap :: "'h \<Rightarrow> nat"
    and hsize :: "'h \<Rightarrow> nat" and rat :: "'h \<Rightarrow> nat \<Rightarrow> 'a result" and push :: "'a \<Rightarrow> 'h \<Rightarrow> 'h result"
  assumes size_content: "ok h \<Longrightarrow> hsize h = length (content h)"
    and rat_content: "ok h \<Longrightarrow> i < length (content h) \<Longrightarrow> rat h i = Inr (rev (content h) ! i)"
    and push_content: "ok h \<Longrightarrow> 0 < cap h \<Longrightarrow> \<exists>h'. push v h = Inr h' \<and> ok h' \<and> cap h' = cap h \<and>
       content h' = drop (Suc (length (content h)) - cap h) (content h @ [v])"
    and content_bound: "ok h \<Longrightarrow> length (content h) \<le> cap h"
begin

text \<open>After any number of pushes the content is the end of what was there and what was pushed.\<close>

lemma push_all:
  "ok h \<Longrightarrow> 0 < cap h \<Longrightarrow> \<exists>h'. rfold push vs h = Inr h' \<and> ok h' \<and> cap h' = cap h \<and>
     content h' = drop (length (content h) + length vs - cap h) (content h @ vs)"
proof (induction vs arbitrary: h)
  case Nil
  then show ?case using content_bound by simp
next
  case (Cons v vs)
  obtain h1 where h1: "push v h = Inr h1" "ok h1" "cap h1 = cap h"
    "content h1 = drop (Suc (length (content h)) - cap h) (content h @ [v])"
    using push_content [OF Cons.prems] by blast
  obtain h' where h': "rfold push vs h1 = Inr h'" "ok h'" "cap h' = cap h1"
    "content h' = drop (length (content h1) + length vs - cap h1) (content h1 @ vs)"
    using Cons.IH [OF h1(2)] h1(3) Cons.prems(2) by auto
  define d where "d = Suc (length (content h)) - cap h"
  have d: "d \<le> 1" using content_bound [OF Cons.prems(1)] unfolding d_def by simp
  have "content h1 @ vs = drop d (content h @ v # vs)" using h1(4) d Cons.prems(2) unfolding d_def by simp
  moreover have "length (content h1) + length vs - cap h1 + d = length (content h) + length (v # vs) - cap h"
    using h1(3,4) Cons.prems(2) content_bound [OF Cons.prems(1)] unfolding d_def by auto
  ultimately have "content h' = drop (length (content h) + length (v # vs) - cap h) (content h @ v # vs)"
    using h'(4) drop_drop by metis
  then show ?case using h1 h' by auto
qed

end

definition rb_ok :: "'a ring_buffer \<Rightarrow> bool" where
  "rb_ok rb \<longleftrightarrow> length (rb_data rb) = rb_capacity rb \<and> rb_sz rb \<le> rb_capacity rb \<and>
     (if rb_capacity rb = 0 then rb_first rb = 0 \<and> rb_pos rb = 0
      else rb_first rb < rb_capacity rb \<and> rb_pos rb = (rb_first rb + rb_sz rb) mod rb_capacity rb)"

lemma length_to_vector [simp]: "length (rb_to_vector rb) = rb_sz rb"
  by (simp add: rb_to_vector_def)

lemma wrap_add:
  fixes a c n :: nat
  assumes "c < n" "a \<le> n"
  shows "(c + a) mod n = (if c + a < n then c + a else c + a - n)"
  using assms le_mod_geq [of n "c + a"] by auto

text \<open>The write position is the place behind the last element, where a full buffer has its first.\<close>

lemma push_to_vector:
  assumes ok: "rb_ok rb" and cap: "0 < rb_capacity rb"
  shows "\<exists>rb'. rb_push_back v rb = Inr rb' \<and> rb_ok rb' \<and> rb_capacity rb' = rb_capacity rb \<and>
    rb_to_vector rb' = drop (Suc (rb_sz rb) - rb_capacity rb) (rb_to_vector rb @ [v])"
proof -
  define n f s where "n = rb_capacity rb" and "f = rb_first rb" and "s = rb_sz rb"
  have b: "length (rb_data rb) = n" "s \<le> n" "f < n" "rb_pos rb = (f + s) mod n" "0 < n"
    using ok cap unfolding rb_ok_def n_def f_def s_def by auto
  define f' where "f' = (if s = n then (f + 1) mod n else f)"
  define s' where "s' = (if s = n then s else s + 1)"
  define rb' where "rb' = rb\<lparr>rb_sz := s', rb_first := f', rb_data := (rb_data rb)[rb_pos rb := v], rb_pos := (rb_pos rb + 1) mod n\<rparr>"
  have push: "rb_push_back v rb = Inr rb'"
    using cap by (simp add: rb_push_back_def rb'_def n_def s'_def f'_def s_def f_def)
  have ok': "rb_ok rb'"
  proof -
    have "(rb_pos rb + 1) mod n = (f' + s') mod n"
    proof (cases "s = n")
      case True
      then show ?thesis using b by (simp add: f'_def s'_def)
    next
      case False
      then show ?thesis using b(4) by (simp add: f'_def s'_def mod_simps)
    qed
    moreover have "f' < n" "s' \<le> n" using b by (auto simp: f'_def s'_def)
    ultimately show ?thesis using b by (simp add: rb_ok_def rb'_def n_def [symmetric])
  qed
  have "rb_to_vector rb' ! i = drop (Suc s - n) (rb_to_vector rb @ [v]) ! i" if i: "i < s'" for i
  proof -
    have s': "s' = length (rb_to_vector rb')" by (simp add: rb'_def)
    have pos: "rb_pos rb = (if f + s < n then f + s else f + s - n)" using b wrap_add by simp
    have at: "rb_to_vector rb' ! i = (rb_data rb)[rb_pos rb := v] ! ((f' + i) mod n)"
      using i by (simp add: rb_to_vector_def rb'_def n_def [symmetric])
    have old: "rb_to_vector rb ! j = rb_data rb ! ((f + j) mod n)" if "j < s" for j
      using that by (simp add: rb_to_vector_def n_def f_def s_def)
    show ?thesis
    proof (cases "s = n")
      case True
      have idx: "(f' + i) mod n = (f + (i + 1)) mod n" using True by (simp add: f'_def mod_simps)
      have i1: "i + 1 \<le> n" using i True by (simp add: s'_def)
      show ?thesis
      proof (cases "i + 1 = n")
        case last: True
        then have "(f' + i) mod n = rb_pos rb" using idx b(4) True by simp
        then show ?thesis using at b last True pos by (auto simp: nth_append s_def)
      next
        case False
        then have "(f + (i + 1)) mod n \<noteq> f" using i1 b(3) wrap_add [of f n "i + 1"] by auto
        moreover have "rb_pos rb = f" using b True by simp
        moreover have "i < n - Suc 0" using i1 False by simp
        ultimately show ?thesis using at idx old [of "i + 1"] i1 False True by (simp add: nth_append s_def)
      qed
    next
      case False
      then have "f' = f" "s' = s + 1" by (simp_all add: f'_def s'_def)
      show ?thesis
      proof (cases "i = s")
        case True
        then show ?thesis using at \<open>f' = f\<close> b pos False by (auto simp: nth_append s_def)
      next
        case less: False
        then have "i < s" using i \<open>s' = s + 1\<close> by simp
        then have "(f + i) mod n \<noteq> rb_pos rb" unfolding pos using b(2,3,5) wrap_add [of f n i] False by auto
        then show ?thesis using at \<open>f' = f\<close> old [OF \<open>i < s\<close>] \<open>i < s\<close> False b(2) by (simp add: nth_append s_def)
      qed
    qed
  qed
  moreover have "length (rb_to_vector rb') = s'" by (simp add: rb'_def)
  moreover have "length (drop (Suc s - n) (rb_to_vector rb @ [v])) = s'" using b(2,5) by (auto simp: s'_def s_def)
  ultimately have "rb_to_vector rb' = drop (Suc s - n) (rb_to_vector rb @ [v])" by (auto intro: nth_equalityI)
  then show ?thesis using push ok' by (simp add: s_def n_def rb'_def)
qed

lemma rat_to_vector:
  assumes "rb_ok rb" "i < rb_sz rb"
  shows "rb_rat rb i = Inr (rev (rb_to_vector rb) ! i)"
  using assms by (simp add: rb_rat_def rb_to_vector_def rev_nth)

lemma pop_front_to_vector:
  assumes "rb_ok rb" "rb_sz rb \<noteq> 0"
  shows "\<exists>rb'. rb_pop_front rb = Inr (hd (rb_to_vector rb), rb') \<and> rb_ok rb' \<and> rb_to_vector rb' = tl (rb_to_vector rb)"
proof -
  define n f s where "n = rb_capacity rb" and "f = rb_first rb" and "s = rb_sz rb"
  have b: "f < n" "0 < s" "s \<le> n" using assms unfolding rb_ok_def n_def f_def s_def by (auto split: if_splits)
  define rb' where "rb' = rb\<lparr>rb_first := (f + 1) mod n, rb_sz := s - 1\<rparr>"
  have up: "[0..<s] = 0 # map Suc [0..<s - 1]" using b(2) by (simp add: upt_conv_Cons map_Suc_upt)
  have "rb_to_vector rb = rb_data rb ! f # rb_to_vector rb'"
    using b(1) by (simp add: rb_to_vector_def rb'_def up n_def [symmetric] f_def [symmetric] s_def [symmetric] mod_simps)
  moreover have "((f + 1) mod n + (s - 1)) mod n = (f + s) mod n"
    using b(2) mod_add_left_eq [of "f + 1" n "s - 1"] by simp
  then have "rb_ok rb'"
    using assms(1) b by (auto simp: rb_ok_def rb'_def n_def f_def s_def split: if_splits)
  ultimately show ?thesis using b by (simp add: rb_pop_front_def rb'_def n_def f_def s_def)
qed

interpretation rb: token_history rb_ok rb_to_vector rb_capacity rb_sz rb_rat rb_push_back
proof unfold_locales
  fix h :: "'a ring_buffer" and v :: 'a
  assume "rb_ok h" "0 < rb_capacity h"
  then show "\<exists>h'. rb_push_back v h = Inr h' \<and> rb_ok h' \<and> rb_capacity h' = rb_capacity h \<and>
      rb_to_vector h' = drop (Suc (length (rb_to_vector h)) - rb_capacity h) (rb_to_vector h @ [v])"
    using push_to_vector [of h v] by (simp only: length_to_vector)
qed (simp_all add: rat_to_vector rb_ok_def)

lemma rb_new_ok: "rb_ok (rb_new z n)" "rb_to_vector (rb_new z n) = []" "rb_capacity (rb_new z n) = n"
  by (simp_all add: rb_ok_def rb_new_def rb_to_vector_def)

text \<open>
  The ring buffer holds the last elements. Whatever has been pushed onto a new buffer of positive
  capacity, its content is the end of the sequence, as many elements as it has room for, in order; reading
  from the back with \<open>rat\<close> returns the elements from the last one on, and fails beyond the first.
\<close>

lemma ring_buffer_last:
  assumes "0 < n"
  shows "\<exists>rb. rfold rb_push_back vs (rb_new z n) = Inr rb \<and> rb_to_vector rb = drop (length vs - n) vs \<and>
     (\<forall>i. rb_rat rb i = (if i < min n (length vs) then Inr (rev vs ! i) else Inl (Throw ''ring buffer: index out of bounds'')))"
proof -
  obtain rb where rb: "rfold rb_push_back vs (rb_new z n) = Inr rb" "rb_ok rb" "rb_to_vector rb = drop (length vs - n) vs"
    using rb.push_all [of "rb_new z n" vs] rb_new_ok [of z n] assms by auto
  then have sz: "rb_sz rb = min n (length vs)" using length_to_vector [of rb] by auto
  have "rev (drop (length vs - n) vs) ! i = rev vs ! i" if "i < min n (length vs)" for i
    using that by (auto simp: rev_nth)
  then have "rb_rat rb i = (if i < min n (length vs) then Inr (rev vs ! i) else Inl (Throw ''ring buffer: index out of bounds''))" for i
    using rat_to_vector [OF rb(2), of i] rb(3) sz by (auto simp: rb_rat_def)
  then show ?thesis using rb by blast
qed

text \<open>\<open>back\<close> reads the place that is written next: what was there before, or the oldest element.\<close>

lemma back_is_not_last:
  "rbind (rfold rb_push_back [1, 2] (rb_new (0 :: int) 3)) rb_back = Inr 0"
  "rbind (rfold rb_push_back [1, 2, 3] (rb_new (0 :: int) 3)) rb_back = Inr 1"
  by (simp_all add: rb_push_back_def rb_new_def rb_back_def)

end
