(* ===== verification/Dry_Sampler.thy ===== *)
theory Dry_Sampler
  imports Ring_Buffer "HOL-Library.AList" "HOL-Library.Sublist"
begin

text \<open>
  The sampler \<open>llama_sampler_dry\<close> of \<open>src/llama-sampling.cpp\<close>, which lowers the logits of tokens that would go on
  with a repetition. It looks for restart sequences, computes for every earlier position how far the text
  before it repeats the end of the text (the Z algorithm, backwards), keeps the longest repetition for
  each token that could follow, and applies a penalty. Of the floating point numbers the test that
  switches the sampler off, the largest exponent and the penalty for an exponent are fields; lengths and
  indices, which are \<open>int\<close> and never negative, are natural numbers.
\<close>

section \<open>Definitions\<close>

record 'f dry_candidate =
  cand_id :: int
  cand_logit :: 'f

record 'f llama_sampler_dry =
  total_context_size :: int
  dry_off :: bool
  dry_max_exponent :: int
  dry_penalize :: "int \<Rightarrow> 'f \<Rightarrow> 'f"
  dry_allowed_length :: int
  dry_penalty_last_n :: int
  dry_processed_breakers :: "(int \<times> int list) list"
  dry_repeat_count :: "nat list"
  dry_max_token_repeat :: "(int \<times> nat) list"
  last_tokens :: "int ring_buffer"

definition effective_last_n :: "int \<Rightarrow> int \<Rightarrow> int" where
  "effective_last_n context_size last_n = (if last_n = -1 then context_size else max last_n 0)"

subsection \<open>Restart sequences from strings\<close>

text \<open>
  A string that restarts the text becomes pairs of a token and the tokens that have to follow it: the token
  contains the string, or it ends with a beginning of the string and the rest is tokenized. The text
  of a token and the tokenizer are arguments. \<open>compare_from\<close> returns the index at which the comparison stopped.
\<close>

fun compare_from :: "'c list \<Rightarrow> 'c list \<Rightarrow> nat \<Rightarrow> nat option" where
  "compare_from (s # ss) (w # ws) i = (if w \<noteq> s then None else compare_from ss ws (i + 1))"
| "compare_from _ _ i = Some i"

definition add_overlap ::
  "('c list \<Rightarrow> int list result) \<Rightarrow> int \<Rightarrow> 'c list \<Rightarrow> int \<Rightarrow> 'c list \<Rightarrow> nat \<Rightarrow> (int \<times> int list) list \<Rightarrow> (int \<times> int list) list result" where
  "add_overlap tokenize max_tail_len str token_id word pos seqs =
     (case compare_from (tl str) (drop (pos + 1) word) 1 of
        None \<Rightarrow> Inr seqs
      | Some i \<Rightarrow> rbind (tokenize (drop i str)) (\<lambda>tokenization.
          let t = (if max_tail_len \<ge> 0 \<and> length tokenization > nat max_tail_len then take (nat max_tail_len) tokenization else tokenization) in
          Inr (if (token_id, t) \<in> set seqs then seqs else seqs @ [(token_id, t)])))"

definition contains_str :: "'c list \<Rightarrow> 'c list \<Rightarrow> bool" where
  "contains_str str word \<longleftrightarrow> (\<exists>pos \<in> set [0..<length word + 1]. take (length str) (drop pos word) = str)"

definition get_overlapping_token_sequences ::
  "(int \<Rightarrow> 'c list result) \<Rightarrow> ('c list \<Rightarrow> int list result) \<Rightarrow> nat \<Rightarrow> 'c list \<Rightarrow> int \<Rightarrow> (int \<times> int list) list \<Rightarrow> (int \<times> int list) list result" where
  "get_overlapping_token_sequences detok tokenize n_tokens str max_tail_len =
     rfold (\<lambda>token_id seqs. rbind (detok token_id) (\<lambda>word.
       if contains_str str word then Inr (seqs @ [(token_id, [])])
       else rfold (add_overlap tokenize max_tail_len str token_id word) (filter (\<lambda>pos. word ! pos = hd str) [0..<length word]) seqs))
     (map int [0..<n_tokens])"

definition process_breakers ::
  "(int \<Rightarrow> 'c list result) \<Rightarrow> ('c list \<Rightarrow> int list result) \<Rightarrow> nat \<Rightarrow> 'c list list \<Rightarrow> (int \<times> int list) list result" where
  "process_breakers detok tokenize n_tokens seq_breakers =
     rfold (\<lambda>str seqs. if str = [] then Inr seqs
       else get_overlapping_token_sequences detok tokenize n_tokens (if length str > 40 then take 40 str else str) 20 seqs) seq_breakers []"

text \<open>Construction; the size of the vocabulary goes to the breakers, the size of the context to the buffer.\<close>

definition llama_sampler_init_dry_impl ::
  "(int \<Rightarrow> 'c list result) \<Rightarrow> ('c list \<Rightarrow> int list result) \<Rightarrow> nat \<Rightarrow> bool \<Rightarrow> int \<Rightarrow> (int \<Rightarrow> 'f \<Rightarrow> 'f) \<Rightarrow> int \<Rightarrow> int \<Rightarrow> int \<Rightarrow> 'c list list \<Rightarrow>
   'f llama_sampler_dry result" where
  "llama_sampler_init_dry_impl detok tokenize n_tokens off max_exponent penalize context_size allowed_length penalty_last_n seq_breakers =
     (let dry_enabled = (\<not> off \<and> penalty_last_n \<noteq> 0); n = nat (effective_last_n context_size penalty_last_n) in
      rbind (if dry_enabled then process_breakers detok tokenize n_tokens seq_breakers else Inr []) (\<lambda>breakers.
      Inr \<lparr>total_context_size = context_size, dry_off = off, dry_max_exponent = max_exponent, dry_penalize = penalize,
       dry_allowed_length = allowed_length, dry_penalty_last_n = penalty_last_n,
       dry_processed_breakers = breakers,
       dry_repeat_count = (if dry_enabled then replicate n 0 else []), dry_max_token_repeat = [],
       last_tokens = rb_new 0 (if dry_enabled then n else 0)\<rparr>))"

text \<open>The function of the interface gives the size of the vocabulary for the size of the context.\<close>

definition llama_sampler_init_dry ::
  "(int \<Rightarrow> 'c list result) \<Rightarrow> ('c list \<Rightarrow> int list result) \<Rightarrow> nat \<Rightarrow> bool \<Rightarrow> int \<Rightarrow> (int \<Rightarrow> 'f \<Rightarrow> 'f) \<Rightarrow> int \<Rightarrow> int \<Rightarrow> 'c list list \<Rightarrow>
   'f llama_sampler_dry result" where
  "llama_sampler_init_dry detok tokenize n_tokens off max_exponent penalize allowed_length penalty_last_n seq_breakers =
     llama_sampler_init_dry_impl detok tokenize n_tokens off max_exponent penalize (int n_tokens) allowed_length penalty_last_n seq_breakers"

definition llama_sampler_dry_accept :: "int \<Rightarrow> 'f llama_sampler_dry \<Rightarrow> 'f llama_sampler_dry result" where
  "llama_sampler_dry_accept tok smpl =
     (if dry_off smpl \<or> dry_penalty_last_n smpl = 0 then Inr smpl
      else rbind (rb_push_back tok (last_tokens smpl)) (\<lambda>rb. Inr (smpl\<lparr>last_tokens := rb\<rparr>)))"

definition llama_sampler_dry_reset :: "'f llama_sampler_dry \<Rightarrow> 'f llama_sampler_dry" where
  "llama_sampler_dry_reset smpl =
     smpl\<lparr>last_tokens := rb_clear (last_tokens smpl), dry_repeat_count := [], dry_max_token_repeat := []\<rparr>"

subsection \<open>Step 1: restart sequences\<close>

text \<open>The tail of a restart sequence against the tokens that come after its head, which is \<open>i\<close> tokens from the end.\<close>

fun tail_matches :: "(nat \<Rightarrow> int result) \<Rightarrow> nat \<Rightarrow> int list \<Rightarrow> bool result" where
  "tail_matches rat i [] = Inr True"
| "tail_matches rat i (t # ts) = rbind (rat (i - 1)) (\<lambda>x. if t \<noteq> x then Inr False else tail_matches rat (i - 1) ts)"

definition longest_match :: "(nat \<Rightarrow> int result) \<Rightarrow> (int \<times> int list) list \<Rightarrow> nat \<Rightarrow> int \<Rightarrow> int result" where
  "longest_match rat breakers i tok =
     rfold (\<lambda>(_, seq) longest.
         if int (length seq) > longest \<and> length seq \<le> i
         then rbind (tail_matches rat i seq) (\<lambda>m. Inr (if m then int (length seq) else longest)) else Inr longest)
       (filter (\<lambda>b. fst b = tok) breakers) (-1)"

fun limit_loop :: "(nat \<Rightarrow> int result) \<Rightarrow> (int \<times> int list) list \<Rightarrow> nat \<Rightarrow> nat list \<Rightarrow> nat result" where
  "limit_loop rat breakers n [] = Inr n"
| "limit_loop rat breakers n (i # is') =
     rbind (rat i) (\<lambda>tok. rbind (longest_match rat breakers i tok) (\<lambda>longest.
     if longest \<ge> 0 then Inr (i - nat longest) else limit_loop rat breakers n is'))"

subsection \<open>Step 2: repeat counts\<close>

function scan_match :: "(nat \<Rightarrow> int result) \<Rightarrow> nat \<Rightarrow> nat \<Rightarrow> nat \<Rightarrow> nat result" where
  "scan_match rat n k m =
     (if m + k < n then rbind (rat m) (\<lambda>a. rbind (rat (m + k)) (\<lambda>b. if a = b then scan_match rat n k (m + 1) else Inr m))
      else Inr m)"
  by pat_completeness auto
termination by (relation "measure (\<lambda>(rat, n, k, m). n - (m + k))") auto

declare scan_match.simps [simp del]

text \<open>One round: the right and left end of the box, and the counts. The second scan goes on at \<open>rt + 1\<close>.\<close>

definition z_step :: "(nat \<Rightarrow> int result) \<Rightarrow> nat \<Rightarrow> nat \<Rightarrow> nat \<Rightarrow> nat \<times> nat \<times> nat list \<Rightarrow> (nat \<times> nat \<times> nat list) result" where
  "z_step rat n rep_limit k = (\<lambda>(rt, lt, counts).
     let last = n - 1 in
     if k > rt then
       rbind (scan_match rat n k 0) (\<lambda>m. let counts' = counts[last - k := min m rep_limit] in
       Inr (if m > 0 then (k + m - 1, k, counts') else (rt, lt, counts')))
     else
       let p = k - lt; right_part_len = rt - k + 1 in
       if counts ! (last - p) < right_part_len then Inr (rt, lt, counts[last - k := min (counts ! (last - p)) rep_limit])
       else rbind (scan_match rat n k (rt + 1 - k)) (\<lambda>m. Inr (m + k - 1, k, counts[last - k := min m rep_limit])))"

definition z_counts :: "(nat \<Rightarrow> int result) \<Rightarrow> nat \<Rightarrow> nat \<Rightarrow> nat list result" where
  "z_counts rat n rep_limit =
     rbind (rfold (z_step rat n rep_limit) [1..<n] (0, 0, replicate n 0)) (\<lambda>(_, _, counts). Inr counts)"

subsection \<open>Step 3: the longest repetition for each token\<close>

definition repeat_step :: "(nat \<Rightarrow> int result) \<Rightarrow> nat \<Rightarrow> int \<Rightarrow> nat list \<Rightarrow> nat \<Rightarrow> (int \<times> nat) list \<Rightarrow> (int \<times> nat) list result" where
  "repeat_step rat n allowed counts i tab =
     (let repeat_len = counts ! i in
      if int repeat_len \<ge> allowed then
        rbind (rat (n - 2 - i)) (\<lambda>tok.
        Inr (case map_of tab tok of None \<Rightarrow> AList.update tok repeat_len tab
             | Some m \<Rightarrow> if m < repeat_len then AList.update tok repeat_len tab else tab))
      else Inr tab)"

subsection \<open>Step 4: penalties\<close>

definition is_single_token_breaker :: "(int \<times> int list) list \<Rightarrow> int \<Rightarrow> bool" where
  "is_single_token_breaker breakers tok \<longleftrightarrow> (tok, []) \<in> set breakers"

definition dry_logit :: "'f llama_sampler_dry \<Rightarrow> nat \<Rightarrow> 'f \<Rightarrow> 'f" where
  "dry_logit smpl m l =
     (let repeat_exp = int m - dry_allowed_length smpl in
      dry_penalize smpl (if dry_max_exponent smpl > 0 \<and> repeat_exp > dry_max_exponent smpl then dry_max_exponent smpl else repeat_exp) l)"

definition penalize_candidate :: "'f llama_sampler_dry \<Rightarrow> int \<Rightarrow> nat \<Rightarrow> 'f dry_candidate \<Rightarrow> 'f dry_candidate" where
  "penalize_candidate smpl tok m c =
     (if is_single_token_breaker (dry_processed_breakers smpl) tok then c
      else c\<lparr>cand_logit := dry_logit smpl m (cand_logit c)\<rparr>)"

definition pxa_identity :: "(int \<times> nat) list \<Rightarrow> 'f dry_candidate list \<Rightarrow> bool" where
  "pxa_identity tab cands \<longleftrightarrow> (\<forall>(tok, _) \<in> set tab. 0 \<le> tok \<and> nat tok < length cands \<and> cand_id (cands ! nat tok) = tok)"

definition penalize_by_index :: "'f llama_sampler_dry \<Rightarrow> (int \<times> nat) list \<Rightarrow> 'f dry_candidate list \<Rightarrow> 'f dry_candidate list" where
  "penalize_by_index smpl tab cands = fold (\<lambda>(tok, m) cs. cs[nat tok := penalize_candidate smpl tok m (cs ! nat tok)]) tab cands"

definition penalize_by_scan :: "'f llama_sampler_dry \<Rightarrow> (int \<times> nat) list \<Rightarrow> 'f dry_candidate list \<Rightarrow> 'f dry_candidate list" where
  "penalize_by_scan smpl tab cands =
     map (\<lambda>c. case map_of tab (cand_id c) of None \<Rightarrow> c | Some m \<Rightarrow> penalize_candidate smpl (cand_id c) m c) cands"

definition llama_sampler_dry_apply ::
  "'f llama_sampler_dry \<Rightarrow> 'f dry_candidate list \<times> bool \<Rightarrow> ('f llama_sampler_dry \<times> 'f dry_candidate list \<times> bool) result" where
  "llama_sampler_dry_apply smpl = (\<lambda>(cands, is_sorted).
     if dry_off smpl \<or> dry_penalty_last_n smpl = 0 then Inr (smpl, cands, is_sorted)
     else
       let rat = rb_rat (last_tokens smpl);
           last_n_repeat = min (min (int (rb_sz (last_tokens smpl))) (effective_last_n (total_context_size smpl) (dry_penalty_last_n smpl))) (total_context_size smpl);
           n = nat last_n_repeat in
       if last_n_repeat \<le> dry_allowed_length smpl then Inr (smpl, cands, is_sorted)
       else if last_n_repeat < 0 then Inl (Throw ''length_error'')
       else
         let smpl1 = smpl\<lparr>dry_repeat_count := replicate n 0, dry_max_token_repeat := []\<rparr> in
         rbind (limit_loop rat (dry_processed_breakers smpl) n [0..<n]) (\<lambda>rep_limit.
         if int rep_limit < dry_allowed_length smpl then Inr (smpl1, cands, is_sorted)
         else rbind (z_counts rat n rep_limit) (\<lambda>counts.
         rbind (rfold (repeat_step rat n (dry_allowed_length smpl) counts) [0..<n - 1] []) (\<lambda>tab.
         Inr (smpl1\<lparr>dry_repeat_count := counts, dry_max_token_repeat := tab\<rparr>,
              if pxa_identity tab cands then penalize_by_index smpl tab cands else penalize_by_scan smpl tab cands, False)))))"

section \<open>Repetitions\<close>

text \<open>The tokens from the last one back; how far they repeat from position \<open>k\<close> on.\<close>

fun lcp :: "'a list \<Rightarrow> 'a list \<Rightarrow> nat" where
  "lcp (x # xs) (y # ys) = (if x = y then Suc (lcp xs ys) else 0)"
| "lcp _ _ = 0"

definition zlen :: "'a list \<Rightarrow> nat \<Rightarrow> nat" where
  "zlen xs k = lcp xs (drop k xs)"

lemma lcp_ge: "m \<le> lcp xs ys \<longleftrightarrow> m \<le> length xs \<and> m \<le> length ys \<and> (\<forall>i < m. xs ! i = ys ! i)"
proof (induction xs ys arbitrary: m rule: lcp.induct)
  case (1 x xs y ys)
  show ?case
  proof (cases m)
    case (Suc l)
    then show ?thesis using 1 [of l] by (auto simp: less_Suc_eq_0_disj)
  qed simp
qed auto

lemma zlen_ge: "k \<le> length xs \<Longrightarrow> m \<le> zlen xs k \<longleftrightarrow> k + m \<le> length xs \<and> (\<forall>i < m. xs ! i = xs ! (k + i))"
  unfolding zlen_def lcp_ge by auto

lemma zlen_end: "k \<le> length xs \<Longrightarrow> k + zlen xs k \<le> length xs"
  using zlen_ge [of k xs "zlen xs k"] by simp

lemma zlen_eq: "k \<le> length xs \<Longrightarrow> i < zlen xs k \<Longrightarrow> xs ! (k + i) = xs ! i"
  using zlen_ge [of k xs "zlen xs k"] by simp

lemma zlen_stop: "k \<le> length xs \<Longrightarrow> k + zlen xs k < length xs \<Longrightarrow> xs ! zlen xs k \<noteq> xs ! (k + zlen xs k)"
  using zlen_ge [of k xs "Suc (zlen xs k)"] zlen_eq [of k xs] by (auto simp: less_Suc_eq)

definition reads :: "(nat \<Rightarrow> int result) \<Rightarrow> int list \<Rightarrow> bool" where
  "reads rat xs \<longleftrightarrow> (\<forall>i < length xs. rat i = Inr (xs ! i))"

lemma scan_match_eq:
  assumes "reads rat xs" "k \<le> length xs"
  shows "m \<le> zlen xs k \<Longrightarrow> scan_match rat (length xs) k m = Inr (zlen xs k)"
proof (induction "zlen xs k - m" arbitrary: m)
  case 0
  then have m: "m = zlen xs k" by simp
  show ?case
  proof (cases "m + k < length xs")
    case True
    then have "xs ! m \<noteq> xs ! (m + k)" using zlen_stop [OF assms(2)] m by (simp add: add.commute)
    then show ?thesis using True assms(1) m unfolding reads_def by (subst scan_match.simps) simp
  qed (use m in \<open>subst scan_match.simps, simp\<close>)
next
  case (Suc d)
  then have m: "m < zlen xs k" by simp
  then have "m + k < length xs" "xs ! m = xs ! (m + k)"
    using zlen_end [OF assms(2)] zlen_eq [OF assms(2) m] by (auto simp: add.commute)
  then show ?case using Suc(1) [of "Suc m"] Suc(2) m assms(1) unfolding reads_def by (subst scan_match.simps) simp
qed

text \<open>Inside a box: the pair index stands for the position as far as the box reaches.\<close>

lemma box_pair:
  assumes k: "1 \<le> lt" "lt < k" "k \<le> rt" "k < length xs" and box: "rt + 1 = lt + zlen xs lt"
  shows "zlen xs (k - lt) < rt - k + 1 \<Longrightarrow> zlen xs k = zlen xs (k - lt)"
    and "rt - k + 1 \<le> zlen xs (k - lt) \<Longrightarrow> rt - k + 1 \<le> zlen xs k"
proof -
  define p r where "p = k - lt" and "r = rt - k + 1"
  have lt: "lt \<le> length xs" "p \<le> length xs" "k \<le> length xs" using k unfolding p_def by auto
  have ends: "rt + 1 \<le> length xs" "k + r = rt + 1" "p + r = zlen xs lt" "p < k"
    using zlen_end [OF lt(1)] box k unfolding p_def r_def by auto
  have pair: "xs ! (k + i) = xs ! (p + i)" if "i < r" for i
    using zlen_eq [OF lt(1), of "p + i"] that ends k unfolding p_def by (simp add: add.assoc [symmetric])
  show "zlen xs k = zlen xs p" if less: "zlen xs p < r"
  proof -
    have "p + zlen xs p < length xs" using less ends zlen_end [OF lt(1)] k(1) by linarith
    then have "xs ! zlen xs p \<noteq> xs ! (k + zlen xs p)" using zlen_stop [OF lt(2)] pair [OF less] by simp
    then have "\<not> Suc (zlen xs p) \<le> zlen xs k" using zlen_ge [OF lt(3), of "Suc (zlen xs p)"] by auto
    moreover have "zlen xs p \<le> zlen xs k"
      using zlen_ge [OF lt(3)] zlen_eq [OF lt(2)] pair less ends by auto
    ultimately show ?thesis by simp
  qed
  show "r \<le> zlen xs k" if "r \<le> zlen xs p"
    using zlen_ge [OF lt(3)] zlen_eq [OF lt(2)] pair that ends by auto
qed

definition z_inv :: "int list \<Rightarrow> nat \<Rightarrow> nat \<Rightarrow> nat \<times> nat \<times> nat list \<Rightarrow> bool" where
  "z_inv xs rep_limit k = (\<lambda>(rt, lt, counts). length counts = length xs \<and>
     (\<forall>j. 1 \<le> j \<and> j < k \<longrightarrow> counts ! (length xs - 1 - j) = min (zlen xs j) rep_limit) \<and>
     (k \<le> rt \<longrightarrow> 1 \<le> lt \<and> lt < k \<and> rt + 1 = lt + zlen xs lt))"

lemma z_step_inv:
  assumes rd: "reads rat xs" and k: "1 \<le> k" "k < length xs" and inv: "z_inv xs rep_limit k st"
  shows "\<exists>st'. z_step rat (length xs) rep_limit k st = Inr st' \<and> z_inv xs rep_limit (Suc k) st'"
proof -
  obtain rt lt counts where st: "st = (rt, lt, counts)" by (cases st) auto
  have c: "length counts = length xs" "\<And>j. 1 \<le> j \<Longrightarrow> j < k \<Longrightarrow> counts ! (length xs - 1 - j) = min (zlen xs j) rep_limit"
    and box: "k \<le> rt \<Longrightarrow> 1 \<le> lt \<and> lt < k \<and> rt + 1 = lt + zlen xs lt"
    using inv unfolding z_inv_def st by auto
  have new: "z_inv xs rep_limit (Suc k) (rt', lt', counts[length xs - 1 - k := min (zlen xs k) rep_limit])"
    if "Suc k \<le> rt' \<longrightarrow> 1 \<le> lt' \<and> lt' < Suc k \<and> rt' + 1 = lt' + zlen xs lt'" for rt' lt'
  proof -
    have "counts[length xs - 1 - k := min (zlen xs k) rep_limit] ! (length xs - 1 - j) = min (zlen xs j) rep_limit" if "1 \<le> j" "j < Suc k" for j
      using that c k by (cases "j = k") (auto simp: nth_list_update)
    then show ?thesis using that c(1) unfolding z_inv_def by auto
  qed
  show ?thesis
  proof (cases "k > rt")
    case True
    have "scan_match rat (length xs) k 0 = Inr (zlen xs k)" using scan_match_eq [OF rd] k by simp
    then show ?thesis using True new [of "k + zlen xs k - 1" k] new [of rt lt] k(1) unfolding st
      by (auto simp: z_step_def Let_def)
  next
    case False
    then have b: "1 \<le> lt" "lt < k" "k \<le> rt" "rt + 1 = lt + zlen xs lt" using box by auto
    have p: "counts ! (length xs - 1 - (k - lt)) = min (zlen xs (k - lt)) rep_limit" using c(2) [of "k - lt"] b by simp
    show ?thesis
    proof (cases "min (zlen xs (k - lt)) rep_limit < rt - k + 1")
      case True
      have "min (zlen xs (k - lt)) rep_limit = min (zlen xs k) rep_limit"
        using box_pair [OF b(1-3) k(2) b(4)] True by (cases "zlen xs (k - lt) < rt - k + 1") auto
      then show ?thesis using False True p new [of rt lt] b unfolding st by (auto simp: z_step_def Let_def min_def)
    next
      case far: False
      then have "rt - k + 1 \<le> zlen xs k" using box_pair(2) [OF b(1-3) k(2) b(4)] by simp
      then have "scan_match rat (length xs) k (rt + 1 - k) = Inr (zlen xs k)" using scan_match_eq [OF rd] k b(3) by simp
      then show ?thesis using False far p new [of "zlen xs k + k - 1" k] k(1) \<open>rt - k + 1 \<le> zlen xs k\<close> unfolding st
        by (auto simp: z_step_def Let_def)
    qed
  qed
qed

lemma z_counts_eq:
  assumes "reads rat xs"
  shows "\<exists>counts. z_counts rat (length xs) rep_limit = Inr counts \<and> length counts = length xs \<and>
    (\<forall>j. 1 \<le> j \<and> j < length xs \<longrightarrow> counts ! (length xs - 1 - j) = min (zlen xs j) rep_limit)"
proof -
  have "\<exists>st. rfold (z_step rat (length xs) rep_limit) [1..<k] (0, 0, replicate (length xs) 0) = Inr st \<and> z_inv xs rep_limit k st"
    if "1 \<le> k" "k \<le> length xs" for k
    using that
  proof (induction k rule: nat_induct_at_least)
    case base
    then show ?case by (simp add: z_inv_def)
  next
    case (Suc k)
    then obtain st where "rfold (z_step rat (length xs) rep_limit) [1..<k] (0, 0, replicate (length xs) 0) = Inr st" "z_inv xs rep_limit k st" by auto
    moreover from this obtain st' where "z_step rat (length xs) rep_limit k st = Inr st'" "z_inv xs rep_limit (Suc k) st'"
      using z_step_inv [OF assms Suc.hyps _ , of rep_limit st] Suc.prems by auto
    ultimately show ?case using Suc.hyps by (intro exI [of _ st']) (simp add: rfold_append)
  qed
  note loop = this
  show ?thesis
  proof (cases "xs = []")
    case False
    then have "1 \<le> length xs" by (simp add: Suc_leI)
    then obtain st where "rfold (z_step rat (length xs) rep_limit) [1..<length xs] (0, 0, replicate (length xs) 0) = Inr st" "z_inv xs rep_limit (length xs) st"
      using loop by blast
    then show ?thesis by (cases st) (auto simp: z_counts_def z_inv_def)
  qed (simp add: z_counts_def)
qed

section \<open>Restart sequences\<close>

text \<open>The lengths of the tails of the restart sequences whose head is \<open>i\<close> tokens from the end and that are complete.\<close>

definition restarts :: "int list \<Rightarrow> (int \<times> int list) list \<Rightarrow> nat \<Rightarrow> nat list" where
  "restarts xs breakers i = map (length \<circ> snd) (filter (\<lambda>(h, t). h = xs ! i \<and> prefix t (rev (take i xs))) breakers)"

definition restart_limit :: "int list \<Rightarrow> (int \<times> int list) list \<Rightarrow> nat" where
  "restart_limit xs breakers =
     (case List.find (\<lambda>i. restarts xs breakers i \<noteq> []) [0..<length xs] of
        None \<Rightarrow> length xs
      | Some i \<Rightarrow> i - Max (set (restarts xs breakers i)))"

lemma tail_matches_eq:
  assumes "reads rat xs"
  shows "length t \<le> i \<Longrightarrow> i \<le> length xs \<Longrightarrow> tail_matches rat i t = Inr (prefix t (rev (take i xs)))"
proof (induction t arbitrary: i)
  case (Cons a t)
  then obtain j where j: "i = Suc j" by (cases i) auto
  then have "rev (take i xs) = xs ! j # rev (take j xs)" using Cons.prems(2) by (simp add: take_Suc_conv_app_nth)
  then show ?case using Cons j assms unfolding reads_def by simp
qed simp

definition best_of :: "nat list \<Rightarrow> int" where
  "best_of ls = (if ls = [] then -1 else int (Max (set ls)))"

lemma best_of_snoc: "best_of (ls @ [x]) = max (best_of ls) (int x)"
proof (cases "ls = []")
  case False
  then show ?thesis by (simp add: best_of_def Max_insert max.commute of_nat_max)
qed (simp add: best_of_def)

lemma longest_match_eq:
  assumes "reads rat xs" "i < length xs"
  shows "longest_match rat breakers i (xs ! i) = Inr (best_of (restarts xs breakers i))"
proof -
  define step where "step = (\<lambda>(_ :: int, seq) longest.
         if int (length seq) > longest \<and> length seq \<le> i
         then rbind (tail_matches rat i seq) (\<lambda>m. Inr (if m then int (length seq) else longest)) else Inr longest)"
  have one: "step (xs ! i, t) (best_of ls) = Inr (best_of (ls @ (if prefix t (rev (take i xs)) then [length t] else [])))" for t ls
  proof (cases "length t \<le> i")
    case False
    then have "\<not> prefix t (rev (take i xs))" using prefix_length_le [of t "rev (take i xs)"] assms(2) by auto
    then show ?thesis using False by (simp add: step_def)
  next
    case True
    then show ?thesis using tail_matches_eq [OF assms(1) True] assms(2) by (auto simp: step_def best_of_snoc)
  qed
  have all: "rfold step (filter (\<lambda>b. fst b = xs ! i) bs) (best_of ls) = Inr (best_of (ls @ restarts xs bs i))" for bs ls
  proof (induction bs arbitrary: ls)
    case (Cons b bs)
    obtain h t where b: "b = (h, t)" by fastforce
    show ?case
    proof (cases "h = xs ! i")
      case True
      then show ?thesis using Cons.IH [of "ls @ (if prefix t (rev (take i xs)) then [length t] else [])"] one [of t ls] b
        by (simp add: restarts_def)
    next
      case False
      then show ?thesis using Cons.IH [of ls] b by (simp add: restarts_def)
    qed
  qed (simp add: restarts_def)
  show ?thesis using all [of breakers "[]"] unfolding longest_match_def step_def by (simp add: best_of_def)
qed

lemma limit_loop_eq:
  assumes "reads rat xs"
  shows "set is' \<subseteq> {..<length xs} \<Longrightarrow> limit_loop rat breakers n is' =
    Inr (case List.find (\<lambda>i. restarts xs breakers i \<noteq> []) is' of None \<Rightarrow> n | Some i \<Rightarrow> i - Max (set (restarts xs breakers i)))"
proof (induction is')
  case (Cons i is')
  then have "rat i = Inr (xs ! i)" "longest_match rat breakers i (xs ! i) = Inr (best_of (restarts xs breakers i))"
    using assms longest_match_eq [OF assms] unfolding reads_def by auto
  then show ?case using Cons by (simp add: best_of_def)
qed simp

section \<open>The longest repetition\<close>

text \<open>
  The lengths of the repetitions that a token would continue: the tokens before an earlier occurrence of the
  token repeat the end of the text.
\<close>

definition repeats :: "int list \<Rightarrow> nat \<Rightarrow> int \<Rightarrow> int \<Rightarrow> nat list" where
  "repeats xs rep_limit allowed tok =
     map (\<lambda>k. min (zlen xs k) rep_limit)
       (filter (\<lambda>k. xs ! (k - 1) = tok \<and> allowed \<le> int (min (zlen xs k) rep_limit)) [1..<length xs])"

definition longest_repeat :: "int list \<Rightarrow> nat \<Rightarrow> int \<Rightarrow> int \<Rightarrow> nat option" where
  "longest_repeat xs rep_limit allowed tok =
     (let ls = repeats xs rep_limit allowed tok in if ls = [] then None else Some (Max (set ls)))"

definition max_opt :: "nat set \<Rightarrow> nat option" where
  "max_opt A = (if A = {} then None else Some (Max A))"

lemma max_opt_insert: "finite A \<Longrightarrow> max_opt (insert x A) = (case max_opt A of None \<Rightarrow> Some x | Some m \<Rightarrow> Some (max x m))"
  by (simp add: max_opt_def)

definition counted :: "int list \<Rightarrow> int \<Rightarrow> nat list \<Rightarrow> nat list \<Rightarrow> int \<Rightarrow> nat set" where
  "counted xs allowed counts is' tok =
     (\<lambda>i. counts ! i) ` {i \<in> set is'. xs ! (length xs - 2 - i) = tok \<and> allowed \<le> int (counts ! i)}"

lemma repeat_fold:
  assumes "reads rat xs"
  shows "set is' \<subseteq> {i. Suc i < length xs} \<Longrightarrow>
    \<exists>tab. rfold (repeat_step rat (length xs) allowed counts) is' [] = Inr tab \<and> distinct (map fst tab) \<and>
      (\<forall>tok. map_of tab tok = max_opt (counted xs allowed counts is' tok))"
proof (induction is' rule: rev_induct)
  case (snoc i is')
  then obtain tab where tab: "rfold (repeat_step rat (length xs) allowed counts) is' [] = Inr tab" "distinct (map fst tab)"
    "\<forall>tok. map_of tab tok = max_opt (counted xs allowed counts is' tok)" by auto
  define tok where "tok = xs ! (length xs - 2 - i)"
  define c where "c = counts ! i"
  have rat: "rat (length xs - 2 - i) = Inr tok" using assms snoc.prems unfolding reads_def tok_def by auto
  show ?case
  proof (cases "allowed \<le> int c")
    case False
    then have "counted xs allowed counts (is' @ [i]) t = counted xs allowed counts is' t" for t
      unfolding counted_def c_def by auto
    moreover have "repeat_step rat (length xs) allowed counts i tab = Inr tab" using False by (simp add: repeat_step_def c_def)
    ultimately show ?thesis using tab by (simp add: rfold_append)
  next
    case True
    define tab' where "tab' = (case map_of tab tok of None \<Rightarrow> AList.update tok c tab | Some m \<Rightarrow> if m < c then AList.update tok c tab else tab)"
    have step: "repeat_step rat (length xs) allowed counts i tab = Inr tab'"
      using True rat unfolding tab'_def c_def by (simp add: repeat_step_def Let_def)
    have "counted xs allowed counts (is' @ [i]) t = (if t = tok then insert c (counted xs allowed counts is' t) else counted xs allowed counts is' t)" for t
      using True unfolding counted_def c_def tok_def by auto
    moreover have "finite (counted xs allowed counts is' t)" for t unfolding counted_def by simp
    ultimately have new: "max_opt (counted xs allowed counts (is' @ [i]) t) =
        (if t = tok then (case map_of tab t of None \<Rightarrow> Some c | Some m \<Rightarrow> Some (max c m)) else map_of tab t)" for t
      using tab(3) by (simp add: max_opt_insert)
    have "map_of tab' t = max_opt (counted xs allowed counts (is' @ [i]) t)" for t
      unfolding new tab'_def by (auto simp: update_conv' max_def split: option.split)
    moreover have "distinct (map fst tab')" using tab(2) unfolding tab'_def by (auto simp: distinct_update split: option.split)
    ultimately show ?thesis using tab(1) step by (simp add: rfold_append)
  qed
qed (simp add: counted_def max_opt_def)

lemma counted_repeats:
  assumes "length counts = length xs" "\<forall>j. 1 \<le> j \<and> j < length xs \<longrightarrow> counts ! (length xs - 1 - j) = min (zlen xs j) rep_limit"
  shows "max_opt (counted xs allowed counts [0..<length xs - 1] tok) = longest_repeat xs rep_limit allowed tok"
proof -
  have "counted xs allowed counts [0..<length xs - 1] tok = set (repeats xs rep_limit allowed tok)"
  proof (intro set_eqI iffI)
    fix m assume "m \<in> counted xs allowed counts [0..<length xs - 1] tok"
    then obtain i where i: "Suc i < length xs" "xs ! (length xs - 2 - i) = tok" "allowed \<le> int (counts ! i)" "m = counts ! i"
      unfolding counted_def by (auto simp: less_diff_conv)
    define k where "k = length xs - 1 - i"
    have k: "1 \<le> k" "k < length xs" "length xs - 1 - k = i" "k - 1 = length xs - 2 - i" using i(1) unfolding k_def by auto
    then have "counts ! i = min (zlen xs k) rep_limit" using assms(2) by metis
    then show "m \<in> set (repeats xs rep_limit allowed tok)" using i k unfolding repeats_def by auto
  next
    fix m assume "m \<in> set (repeats xs rep_limit allowed tok)"
    then obtain k where k: "1 \<le> k" "k < length xs" "xs ! (k - 1) = tok" "allowed \<le> int (min (zlen xs k) rep_limit)" "m = min (zlen xs k) rep_limit"
      unfolding repeats_def by auto
    define i where "i = length xs - 1 - k"
    have "i < length xs - 1" "length xs - 2 - i = k - 1" using k(1,2) unfolding i_def by auto
    moreover have "counts ! i = min (zlen xs k) rep_limit" using assms(2) k(1,2) unfolding i_def by blast
    ultimately show "m \<in> counted xs allowed counts [0..<length xs - 1] tok" using k unfolding counted_def by (intro image_eqI [of _ _ i]) auto
  qed
  then show ?thesis by (simp add: longest_repeat_def max_opt_def)
qed

section \<open>Penalties\<close>

text \<open>Going through the table by index gives what a scan of the candidates gives, when identifiers do not repeat.\<close>

lemma index_is_scan:
  assumes "distinct (map cand_id cands)" "distinct (map fst tab)" "pxa_identity tab cands"
  shows "penalize_by_index smpl tab cands = penalize_by_scan smpl tab cands"
proof -
  have by_index: "distinct (map fst tab) \<Longrightarrow> pxa_identity tab cands \<Longrightarrow> length cs = length cands \<Longrightarrow>
    (\<forall>i < length cands. int i \<in> fst ` set tab \<longrightarrow> cs ! i = cands ! i) \<Longrightarrow> j < length cands \<Longrightarrow>
    penalize_by_index smpl tab cs ! j =
      (case map_of tab (int j) of None \<Rightarrow> cs ! j | Some m \<Rightarrow> penalize_candidate smpl (int j) m (cands ! j))" for tab cs j
  proof (induction tab arbitrary: cs)
    case Nil
    then show ?case by (simp add: penalize_by_index_def)
  next
    case (Cons x tab)
    obtain tok m where x: "x = (tok, m)" by fastforce
    have pxa: "pxa_identity tab cands" using Cons.prems(2) unfolding pxa_identity_def by simp
    have tok: "0 \<le> tok" "nat tok < length cands" using Cons.prems(2) x unfolding pxa_identity_def by auto
    define cs' where "cs' = cs[nat tok := penalize_candidate smpl tok m (cs ! nat tok)]"
    have "cs' ! i = cands ! i" if "i < length cands" "int i \<in> fst ` set tab" for i
    proof -
      have "tok \<notin> fst ` set tab" using Cons.prems(1) x by simp
      then have "nat tok \<noteq> i" using that(2) tok(1) by (metis int_nat_eq)
      then show ?thesis using Cons.prems(4) that unfolding cs'_def by auto
    qed
    then have "penalize_by_index smpl tab cs' ! j =
        (case map_of tab (int j) of None \<Rightarrow> cs' ! j | Some m \<Rightarrow> penalize_candidate smpl (int j) m (cands ! j))"
      using Cons.prems pxa unfolding cs'_def by (intro Cons.IH) auto
    moreover have "penalize_by_index smpl (x # tab) cs = penalize_by_index smpl tab cs'" by (simp add: penalize_by_index_def x cs'_def)
    moreover have "map_of tab tok = None" using Cons.prems(1) x by (simp add: map_of_eq_None_iff)
    moreover have "cs ! nat tok = cands ! nat tok" using Cons.prems(4) tok x by simp
    ultimately show ?case using x tok Cons.prems(3,5) unfolding cs'_def
      by (cases "int j = tok") (auto simp: nth_list_update split: option.split)
  qed
  have "length (penalize_by_index smpl tab cs) = length cs" for cs
    unfolding penalize_by_index_def by (induction tab arbitrary: cs) auto
  moreover have "penalize_by_index smpl tab cands ! j = penalize_by_scan smpl tab cands ! j" if j: "j < length cands" for j
  proof (cases "map_of tab (cand_id (cands ! j))")
    case None
    have "map_of tab (int j) = None"
    proof (rule ccontr)
      assume "map_of tab (int j) \<noteq> None"
      then obtain m where m: "map_of tab (int j) = Some m" by blast
      then have "cand_id (cands ! j) = int j" using map_of_SomeD [OF m] assms(3) unfolding pxa_identity_def by auto
      then show False using None m by simp
    qed
    then show ?thesis using by_index [OF assms(2,3), of cands j] j None by (simp add: penalize_by_scan_def)
  next
    case (Some m)
    define tok where "tok = cand_id (cands ! j)"
    have tok: "nat tok < length cands" "cand_id (cands ! nat tok) = tok" "0 \<le> tok"
      using map_of_SomeD [OF Some] assms(3) unfolding pxa_identity_def tok_def by auto
    then have "nat tok = j" using assms(1) j unfolding tok_def by (metis length_map nth_eq_iff_index_eq nth_map)
    then have "int j = cand_id (cands ! j)" using tok(3) unfolding tok_def by simp
    then show ?thesis using by_index [OF assms(2,3), of cands j] j Some by (simp add: penalize_by_scan_def)
  qed
  ultimately show ?thesis by (intro nth_equalityI) (simp_all add: penalize_by_scan_def)
qed

lemma scan_cong: "(\<And>tok. map_of tab tok = f tok) \<Longrightarrow>
    penalize_by_scan smpl tab cands = map (\<lambda>c. case f (cand_id c) of None \<Rightarrow> c | Some m \<Rightarrow> penalize_candidate smpl (cand_id c) m c) cands"
  by (simp add: penalize_by_scan_def)

text \<open>The tokens the sampler looks at, from the last one back.\<close>

definition dry_window :: "'f llama_sampler_dry \<Rightarrow> int" where
  "dry_window smpl = min (min (int (rb_sz (last_tokens smpl))) (effective_last_n (total_context_size smpl) (dry_penalty_last_n smpl))) (total_context_size smpl)"

definition dry_text :: "'f llama_sampler_dry \<Rightarrow> int list" where
  "dry_text smpl = take (nat (dry_window smpl)) (rev (rb_to_vector (last_tokens smpl)))"

text \<open>
  C10. The sampler against repetition penalizes exactly the tokens that would continue one. For an active
  sampler with a valid buffer, and candidates whose identifiers do not repeat, it returns. When the window is
  longer than the allowed length and the limit that the nearest restart sequence sets is not below it,
  the logit of a candidate is lowered according to the longest repetition that the candidate would
  continue, where the repetitions are defined by comparing the end of the text with the text before every
  earlier occurrence and are cut off at the limit; candidates that would continue none of at least the
  allowed length, or are restart sequences themselves, are unchanged.
\<close>

theorem dry_apply_exact:
  fixes cands :: "'f dry_candidate list"
  assumes ok: "rb_ok (last_tokens smpl)" and on: "\<not> dry_off smpl" "dry_penalty_last_n smpl \<noteq> 0" "0 \<le> dry_window smpl"
    and ids: "distinct (map cand_id cands)"
  shows "\<exists>smpl'. llama_sampler_dry_apply smpl (cands, is_sorted) = Inr (smpl',
      let xs = dry_text smpl; limit = restart_limit xs (dry_processed_breakers smpl); allowed = dry_allowed_length smpl in
      if dry_window smpl \<le> allowed \<or> int limit < allowed then (cands, is_sorted)
      else (map (\<lambda>c. case longest_repeat xs limit allowed (cand_id c) of
                  None \<Rightarrow> c | Some m \<Rightarrow> penalize_candidate smpl (cand_id c) m c) cands, False))"
proof -
  define xs limit where "xs = dry_text smpl" and "limit = restart_limit xs (dry_processed_breakers smpl)"
  define rat allowed where "rat = rb_rat (last_tokens smpl)" and "allowed = dry_allowed_length smpl"
  have "nat (dry_window smpl) \<le> rb_sz (last_tokens smpl)" unfolding dry_window_def by auto
  then have len: "length xs = nat (dry_window smpl)" unfolding xs_def dry_text_def by simp
  have rd: "reads rat xs"
    using rb.rat_content [OF ok] unfolding reads_def rat_def xs_def dry_text_def by simp
  have lim: "limit_loop rat (dry_processed_breakers smpl) (length xs) [0..<length xs] = Inr limit"
    using limit_loop_eq [OF rd, of "[0..<length xs]" "dry_processed_breakers smpl" "length xs"]
    unfolding limit_def restart_limit_def xs_def by (simp add: lessThan_atLeast0)
  show ?thesis
  proof (cases "dry_window smpl \<le> allowed \<or> int limit < allowed")
    case True
    then show ?thesis using on lim len unfolding allowed_def
      by (auto simp: llama_sampler_dry_apply_def Let_def dry_window_def [symmetric] rat_def [symmetric] xs_def [symmetric] limit_def [symmetric])
  next
    case False
    obtain counts where counts: "z_counts rat (length xs) limit = Inr counts" "length counts = length xs"
      "\<forall>j. 1 \<le> j \<and> j < length xs \<longrightarrow> counts ! (length xs - 1 - j) = min (zlen xs j) limit"
      using z_counts_eq [OF rd] by blast
    obtain tab where tab: "rfold (repeat_step rat (length xs) allowed counts) [0..<length xs - 1] [] = Inr tab" "distinct (map fst tab)"
      "\<forall>tok. map_of tab tok = max_opt (counted xs allowed counts [0..<length xs - 1] tok)"
    proof -
      have "set [0..<length xs - 1] \<subseteq> {i. Suc i < length xs}" by auto
      then show ?thesis using that repeat_fold [OF rd, of "[0..<length xs - 1]" allowed counts] by blast
    qed
    have map: "map_of tab tok = longest_repeat xs limit allowed tok" for tok
      using tab(3) counted_repeats [OF counts(2,3)] by simp
    have "(if pxa_identity tab cands then penalize_by_index smpl tab cands else penalize_by_scan smpl tab cands) =
        map (\<lambda>c. case longest_repeat xs limit allowed (cand_id c) of None \<Rightarrow> c | Some m \<Rightarrow> penalize_candidate smpl (cand_id c) m c) cands"
      using index_is_scan [OF ids tab(2)] scan_cong [of tab, OF map] by simp
    then show ?thesis using on lim len counts(1) tab(1) False unfolding allowed_def
      by (simp add: llama_sampler_dry_apply_def Let_def dry_window_def [symmetric] rat_def [symmetric] xs_def [symmetric] limit_def [symmetric])
  qed
qed

text \<open>A text \<open>1 2 1\<close>, in a buffer that has dropped an older token: the second \<open>1\<close> would be followed by \<open>2\<close> again.\<close>

definition dry_example :: "int llama_sampler_dry" where
  "dry_example = \<lparr>total_context_size = 8, dry_off = False, dry_max_exponent = 0, dry_penalize = (\<lambda>e l. l - (e + 1)),
     dry_allowed_length = 1, dry_penalty_last_n = 3, dry_processed_breakers = [(5, [])], dry_repeat_count = [0, 0, 0],
     dry_max_token_repeat = [], last_tokens = \<lparr>rb_capacity = 3, rb_sz = 3, rb_first = 1, rb_pos = 1, rb_data = [1, 1, 2]\<rparr>\<rparr>"

theorem dry_apply_exact_witness:
  "\<exists>smpl'. llama_sampler_dry_apply dry_example
      ([\<lparr>cand_id = 0, cand_logit = 9\<rparr>, \<lparr>cand_id = 1, cand_logit = 9\<rparr>, \<lparr>cand_id = 2, cand_logit = 9\<rparr>], True) =
    Inr (smpl', [\<lparr>cand_id = 0, cand_logit = 9\<rparr>, \<lparr>cand_id = 1, cand_logit = 9\<rparr>, \<lparr>cand_id = 2, cand_logit = 8\<rparr>], False)"
proof -
  let ?cands = "[\<lparr>cand_id = 0, cand_logit = 9\<rparr>, \<lparr>cand_id = 1, cand_logit = 9\<rparr>, \<lparr>cand_id = 2, cand_logit = 9\<rparr>] :: int dry_candidate list"
  have ok: "rb_ok (last_tokens dry_example)" by code_simp
  have on: "\<not> dry_off dry_example" "dry_penalty_last_n dry_example \<noteq> 0" "0 \<le> dry_window dry_example"
    "distinct (map cand_id ?cands)" by code_simp+
  have "(let xs = dry_text dry_example; limit = restart_limit xs (dry_processed_breakers dry_example); allowed = dry_allowed_length dry_example in
      if dry_window dry_example \<le> allowed \<or> int limit < allowed then (?cands, True)
      else (map (\<lambda>c. case longest_repeat xs limit allowed (cand_id c) of
                  None \<Rightarrow> c | Some m \<Rightarrow> penalize_candidate dry_example (cand_id c) m c) ?cands, False)) =
    ([\<lparr>cand_id = 0, cand_logit = 9\<rparr>, \<lparr>cand_id = 1, cand_logit = 9\<rparr>, \<lparr>cand_id = 2, cand_logit = 8\<rparr>], False)"
    by code_simp
  then show ?thesis using dry_apply_exact [OF ok on, of True] by (simp only:)
qed

text \<open>Every accepted token goes to the buffer, which an active sampler has when its window has a size.\<close>

lemma accept_all_history:
  fixes smpl0 :: "'f llama_sampler_dry"
  assumes "\<not> off" "n = -1 \<and> 0 < ctx \<or> 0 < n"
    "llama_sampler_init_dry_impl detok tokenize n_tokens off e pen ctx allowed n seq_breakers = Inr smpl0"
  shows "\<exists>smpl. rfold llama_sampler_dry_accept toks smpl0 = Inr smpl \<and>
    rb_to_vector (last_tokens smpl) = drop (length toks - nat (effective_last_n ctx n)) toks"
proof -
  have push: "rfold llama_sampler_dry_accept toks s =
      rbind (rfold rb_push_back toks (last_tokens s)) (\<lambda>rb. Inr (s\<lparr>last_tokens := rb\<rparr>))"
    if "\<not> dry_off s" "dry_penalty_last_n s \<noteq> 0" for s :: "'f llama_sampler_dry"
    using that
  proof (induction toks arbitrary: s)
    case (Cons t toks)
    then show ?case by (cases "rb_push_back t (last_tokens s)") (simp_all add: llama_sampler_dry_accept_def)
  qed simp
  have s: "\<not> dry_off smpl0" "dry_penalty_last_n smpl0 \<noteq> 0" "last_tokens smpl0 = rb_new 0 (nat (effective_last_n ctx n))"
    using assms by (auto simp: llama_sampler_init_dry_impl_def Let_def result_simps)
  have "0 < nat (effective_last_n ctx n)" using assms(2) by (auto simp: effective_last_n_def)
  then obtain rb where "rfold rb_push_back toks (rb_new 0 (nat (effective_last_n ctx n))) = Inr rb"
    "rb_to_vector rb = drop (length toks - nat (effective_last_n ctx n)) toks"
    using rb.push_all [of "rb_new 0 (nat (effective_last_n ctx n))" toks] by (auto simp: rb_new_ok)
  then show ?thesis using push [OF s(1,2)] s(3) by auto
qed

text \<open>With a negative window other than \<open>-1\<close> the sampler is active and its buffer has no room: accepting throws.\<close>

lemma negative_window_accept_throws:
  assumes "\<not> off" "n < -1" "llama_sampler_init_dry_impl detok tokenize n_tokens off e pen ctx allowed n seq_breakers = Inr smpl"
  shows "llama_sampler_dry_accept tok smpl = Inl (Throw ''ring buffer: capacity is zero'')"
  using assms by (auto simp: llama_sampler_dry_accept_def llama_sampler_init_dry_impl_def effective_last_n_def
      rb_push_back_def rb_new_def Let_def result_simps)

text \<open>The size of the vocabulary bounds the window, whatever context size is asked for.\<close>

lemma vocabulary_bounds_window:
  assumes "llama_sampler_init_dry detok tokenize n_tokens off e pen allowed n seq_breakers = Inr smpl"
  shows "dry_window (smpl\<lparr>last_tokens := rb\<rparr>) \<le> int n_tokens"
  using assms by (auto simp: dry_window_def llama_sampler_init_dry_def llama_sampler_init_dry_impl_def Let_def result_simps split: if_splits)

section \<open>Breakers\<close>

lemma compare_from_iff:
  "compare_from ss ws k = Some i \<longleftrightarrow> i = k + min (length ss) (length ws) \<and> take (length ws) ss = take (length ss) ws"
  by (induction ss ws k rule: compare_from.induct) auto

lemma contains_iff: "contains_str str word \<longleftrightarrow> (\<exists>a b. word = a @ str @ b)"
proof
  assume "contains_str str word"
  then obtain pos where "take (length str) (drop pos word) = str" unfolding contains_str_def by blast
  then show "\<exists>a b. word = a @ str @ b" by (metis append_take_drop_id)
next
  assume "\<exists>a b. word = a @ str @ b"
  then obtain a b where "word = a @ str @ b" by blast
  then show "contains_str str word" unfolding contains_str_def by (intro bexI [of _ "length a"]) auto
qed

text \<open>A comparison that starts inside a word without the string ends at the end of the word.\<close>

lemma overlap_is_suffix:
  assumes "str \<noteq> []" "\<not> contains_str str word" "pos < length word" "word ! pos = hd str"
  shows "compare_from (tl str) (drop (pos + 1) word) 1 = Some i \<longleftrightarrow> i = length word - pos \<and> i < length str \<and> drop pos word = take i str"
proof -
  obtain c cs where str: "str = c # cs" using assms(1) by (cases str) auto
  have w: "drop pos word = c # drop (pos + 1) word" using Cons_nth_drop_Suc [OF assms(3)] assms(4) str by simp
  define rest where "rest = drop (pos + 1) word"
  have len: "length word - pos = Suc (length rest)" using assms(3) unfolding rest_def by simp
  have short: "length rest < length cs" if "take (length rest) cs = take (length cs) rest"
  proof (rule ccontr)
    assume "\<not> length rest < length cs"
    then have "cs = take (length cs) rest" using that by simp
    then have "word = take pos word @ str @ drop (length cs) rest"
      using append_take_drop_id [of pos word] append_take_drop_id [of "length cs" rest] w str unfolding rest_def by (metis append_Cons)
    then show False using assms(2) unfolding contains_iff by blast
  qed
  show ?thesis using short unfolding compare_from_iff w str len rest_def [symmetric] by auto
qed

lemma overlap_place:
  assumes "str \<noteq> []" "\<not> contains_str str word"
  shows "(\<exists>pos. pos < length word \<and> word ! pos = hd str \<and> compare_from (tl str) (drop (pos + 1) word) 1 = Some i) \<longleftrightarrow>
    0 < i \<and> i < length str \<and> suffix (take i str) word"
proof
  assume "\<exists>pos. pos < length word \<and> word ! pos = hd str \<and> compare_from (tl str) (drop (pos + 1) word) 1 = Some i"
  then obtain pos where pos: "pos < length word" "i = length word - pos" "i < length str" "drop pos word = take i str"
    using overlap_is_suffix [OF assms] by blast
  then show "0 < i \<and> i < length str \<and> suffix (take i str) word" using suffix_drop [of pos word] by auto
next
  assume i: "0 < i \<and> i < length str \<and> suffix (take i str) word"
  then obtain a where a: "word = a @ take i str" unfolding suffix_def by blast
  define pos where "pos = length a"
  have "pos < length word" "i = length word - pos" "drop pos word = take i str" using a i unfolding pos_def by auto
  moreover have "word ! pos = hd str" using a i assms(1) unfolding pos_def by (simp add: hd_conv_nth nth_append)
  ultimately show "\<exists>pos. pos < length word \<and> word ! pos = hd str \<and> compare_from (tl str) (drop (pos + 1) word) 1 = Some i"
    using overlap_is_suffix [OF assms, of pos i] i by blast
qed

definition cut_tail :: "int \<Rightarrow> int list \<Rightarrow> int list" where
  "cut_tail n ts = (if n \<ge> 0 \<and> length ts > nat n then take (nat n) ts else ts)"

text \<open>
  The sequences for one string: the tokens that contain it, alone, and the tokens that end with a proper
  beginning of it, with the tokens of the rest.
\<close>

lemma get_overlapping_exact:
  assumes str: "str \<noteq> []" and word: "\<And>t. detok t = Inr (word t)" and tok: "\<And>s. tokenize s = Inr (tk s)"
  shows "\<exists>seqs'. get_overlapping_token_sequences detok tokenize n str max_tail seqs = Inr seqs' \<and>
    set seqs' = set seqs \<union> {(t, []) |t. 0 \<le> t \<and> t < int n \<and> contains_str str (word t)} \<union>
      {(t, cut_tail max_tail (tk (drop i str))) |t i. 0 \<le> t \<and> t < int n \<and> \<not> contains_str str (word t) \<and>
         0 < i \<and> i < length str \<and> suffix (take i str) (word t)}"
proof -
  define new where "new = (\<lambda>t. if contains_str str (word t) then {(t, [])} else
     {(t, cut_tail max_tail (tk (drop i str))) |i. 0 < i \<and> i < length str \<and> suffix (take i str) (word t)})"
  define here where "here = (\<lambda>t pos. {(t, cut_tail max_tail (tk (drop i str))) |i. compare_from (tl str) (drop (pos + 1) (word t)) 1 = Some i})"
  have one: "\<exists>seqs'. rfold (add_overlap tokenize max_tail str t (word t)) ps seqs = Inr seqs' \<and>
      set seqs' = set seqs \<union> (\<Union>pos \<in> set ps. here t pos)" for t ps seqs
  proof (induction ps arbitrary: seqs)
    case (Cons pos ps)
    obtain seqs1 where s1: "add_overlap tokenize max_tail str t (word t) pos seqs = Inr seqs1"
      "set seqs1 = set seqs \<union> here t pos"
    proof (cases "compare_from (tl str) (drop (pos + 1) (word t)) 1")
      case (Some i)
      define p where "p = (t, cut_tail max_tail (tk (drop i str)))"
      have "add_overlap tokenize max_tail str t (word t) pos seqs = Inr (if p \<in> set seqs then seqs else seqs @ [p])"
        using Some unfolding add_overlap_def p_def cut_tail_def tok by (simp add: Let_def)
      moreover have "set (if p \<in> set seqs then seqs else seqs @ [p]) = insert p (set seqs)" by auto
      ultimately show ?thesis using that Some unfolding p_def here_def by simp
    qed (use that in \<open>auto simp: add_overlap_def here_def\<close>)
    then show ?case using Cons.IH [of seqs1] by auto
  qed simp
  have ends: "(\<Union>pos \<in> set (filter (\<lambda>pos. word t ! pos = hd str) [0..<length (word t)]). here t pos) = new t" if none: "\<not> contains_str str (word t)" for t
  proof -
    note place = overlap_place [OF str none]
    have "(\<Union>pos \<in> set (filter (\<lambda>pos. word t ! pos = hd str) [0..<length (word t)]). here t pos) =
        {(t, cut_tail max_tail (tk (drop i str))) |i. \<exists>pos. pos < length (word t) \<and> word t ! pos = hd str \<and>
           compare_from (tl str) (drop (pos + 1) (word t)) 1 = Some i}"
      unfolding here_def by auto
    then show ?thesis using none unfolding place new_def by simp
  qed
  define f where "f = (\<lambda>token_id seqs. rbind (detok token_id) (\<lambda>word.
       if contains_str str word then Inr (seqs @ [(token_id, [])])
       else rfold (add_overlap tokenize max_tail str token_id word) (filter (\<lambda>pos. word ! pos = hd str) [0..<length word]) seqs))"
  have step: "\<exists>seqs'. f t seqs = Inr seqs' \<and> set seqs' = set seqs \<union> new t" for t seqs
  proof (cases "contains_str str (word t)")
    case True
    then show ?thesis unfolding f_def word new_def by simp
  next
    case False
    then show ?thesis using one [of t "filter (\<lambda>pos. word t ! pos = hd str) [0..<length (word t)]" seqs] ends [OF False]
      unfolding f_def word by simp
  qed
  have all: "\<exists>seqs'. rfold f ts seqs = Inr seqs' \<and> set seqs' = set seqs \<union> (\<Union>t \<in> set ts. new t)" for ts seqs
  proof (induction ts arbitrary: seqs)
    case (Cons t ts)
    obtain seqs1 where "f t seqs = Inr seqs1" "set seqs1 = set seqs \<union> new t" using step by blast
    then show ?case using Cons.IH [of seqs1] by auto
  qed simp
  have ids: "set (map int [0..<n]) = {t. 0 \<le> t \<and> t < int n}" by (auto simp: image_iff intro: nonneg_int_cases)
  have "(\<Union>t \<in> {t. 0 \<le> t \<and> t < int n}. new t) = {(t, []) |t. 0 \<le> t \<and> t < int n \<and> contains_str str (word t)} \<union>
      {(t, cut_tail max_tail (tk (drop i str))) |t i. 0 \<le> t \<and> t < int n \<and> \<not> contains_str str (word t) \<and>
         0 < i \<and> i < length str \<and> suffix (take i str) (word t)}"
    unfolding new_def by auto
  then show ?thesis using all [of "map int [0..<n]" seqs] unfolding ids get_overlapping_token_sequences_def f_def [symmetric]
    by (simp add: Un_assoc)
qed

end
