(* ===== verification/Suffix_Tree.thy ===== *)
theory Suffix_Tree
  imports Prelude "HOL-Library.AList" "HOL-Library.Sublist"
begin

text \<open>
  The suffix tree of \<open>common/suffix-tree.cpp\<close>, from which speculative decoding takes its drafts: a trie of the
  suffixes of the token history, cut off at a depth, with a count in every node. Children are kept in an
  association list, whose order stands for the order of the hash table. Floating point numbers only
  decide when a draft ends and which one wins; their operations are a parameter.
\<close>

section \<open>Definitions\<close>

datatype common_suffix_node = Node (node_count: int) (node_children: "(int \<times> common_suffix_node) list")

record common_suffix_tree =
  st_max_depth :: int
  st_root :: common_suffix_node
  st_tokens :: "int list"
  st_n_inserted :: nat

definition suffix_tree_new :: "int \<Rightarrow> common_suffix_tree" where
  "suffix_tree_new max_depth = \<lparr>st_max_depth = max_depth, st_root = Node 0 [], st_tokens = [], st_n_inserted = 0\<rparr>"

definition suffix_tree_clear :: "common_suffix_tree \<Rightarrow> common_suffix_tree" where
  "suffix_tree_clear st = st\<lparr>st_root := Node 0 [], st_tokens := [], st_n_inserted := 0\<rparr>"

text \<open>The loop that goes down the tree along tokens and counts them, creating the nodes that are missing.\<close>

fun count_path :: "int list \<Rightarrow> common_suffix_node \<Rightarrow> common_suffix_node" where
  "count_path [] nd = nd"
| "count_path (tok # toks) (Node c ch) =
     (case map_of ch tok of
        None \<Rightarrow> Node c (AList.update tok (count_path toks (Node 1 [])) ch)
      | Some child \<Rightarrow> Node c (AList.update tok (count_path toks (Node (node_count child + 1) (node_children child))) ch))"

definition insert_suffix :: "common_suffix_tree \<Rightarrow> nat \<Rightarrow> common_suffix_node \<Rightarrow> common_suffix_node" where
  "insert_suffix st start_pos root =
     (let len = min (int (length (st_tokens st)) - int start_pos) (st_max_depth st) in
      if len \<le> 0 then root else count_path (take (nat len) (drop start_pos (st_tokens st))) root)"

text \<open>Down along the tokens that have been counted, then on with those that have not.\<close>

fun extend_path :: "int list \<Rightarrow> int list \<Rightarrow> common_suffix_node \<Rightarrow> common_suffix_node" where
  "extend_path [] new nd = count_path new nd"
| "extend_path (tok # old) new (Node c ch) =
     (case map_of ch tok of
        None \<Rightarrow> Node c ch
      | Some child \<Rightarrow> Node c (AList.update tok (extend_path old new child) ch))"

definition extend_suffix :: "common_suffix_tree \<Rightarrow> nat \<Rightarrow> nat \<Rightarrow> nat \<Rightarrow> common_suffix_node \<Rightarrow> common_suffix_node" where
  "extend_suffix st start_pos old_len new_len root =
     extend_path (take old_len (drop start_pos (st_tokens st)))
       (take (new_len - old_len) (drop (start_pos + old_len) (st_tokens st))) root"

definition extend_step :: "common_suffix_tree \<Rightarrow> nat \<Rightarrow> nat \<Rightarrow> common_suffix_node \<Rightarrow> common_suffix_node" where
  "extend_step st old_size i root =
     (if i < st_n_inserted st then
        let old_len = min (int old_size - int i) (st_max_depth st);
            new_len = min (int (length (st_tokens st)) - int i) (st_max_depth st) in
        if new_len > old_len then extend_suffix st i (nat old_len) (nat new_len) root else root
      else insert_suffix st i root)"

definition suffix_tree_extend :: "int list \<Rightarrow> common_suffix_tree \<Rightarrow> common_suffix_tree" where
  "suffix_tree_extend toks st =
     (if toks = [] then st
      else let old_size = length (st_tokens st); st1 = st\<lparr>st_tokens := st_tokens st @ toks\<rparr>; new_size = length (st_tokens st1);
               reinsert_from = nat (max 0 (int old_size - st_max_depth st)) in
        st1\<lparr>st_root := fold (extend_step st1 old_size) [reinsert_from..<new_size] (st_root st1), st_n_inserted := new_size\<rparr>)"

subsection \<open>Drafts\<close>

record 'f float_ops =
  f_of_int :: "int \<Rightarrow> 'f"
  f_mul :: "'f \<Rightarrow> 'f \<Rightarrow> 'f"
  f_div :: "'f \<Rightarrow> 'f \<Rightarrow> 'f"
  f_add :: "'f \<Rightarrow> 'f \<Rightarrow> 'f"
  f_less :: "'f \<Rightarrow> 'f \<Rightarrow> bool"

fun match_context :: "int list \<Rightarrow> common_suffix_node \<Rightarrow> common_suffix_node option" where
  "match_context [] nd = Some nd"
| "match_context (tok # toks) nd =
     (case map_of (node_children nd) tok of None \<Rightarrow> None | Some child \<Rightarrow> match_context toks child)"

definition best_child :: "(int \<times> common_suffix_node) list \<Rightarrow> int \<times> int" where
  "best_child ch = fold (\<lambda>(tok, child) (best_tok, best_count).
      if node_count child > best_count then (tok, node_count child) else (best_tok, best_count)) ch (-1, 0)"

text \<open>The greedy loop; \<open>at\<close> throws when there is no child for the token.\<close>

fun draft_loop :: "'f float_ops \<Rightarrow> 'f \<Rightarrow> nat \<Rightarrow> common_suffix_node \<Rightarrow> 'f \<Rightarrow> 'f \<Rightarrow> (int list \<times> 'f) result" where
  "draft_loop F min_token_prob 0 nd prob score = Inr ([], score)"
| "draft_loop F min_token_prob (Suc n) nd prob score =
     (if node_children nd = [] then Inr ([], score)
      else let (best_tok, best_count) = best_child (node_children nd);
               prob' = f_mul F prob (f_div F (f_of_int F best_count) (f_of_int F (node_count nd))) in
        if f_less F prob' min_token_prob then Inr ([], score)
        else case map_of (node_children nd) best_tok of
            None \<Rightarrow> Inl (Throw ''out_of_range'')
          | Some child \<Rightarrow> rbind (draft_loop F min_token_prob n child prob' (f_add F score prob'))
              (\<lambda>(draft, total_score). Inr (best_tok # draft, total_score)))"

fun match_loop :: "'f float_ops \<Rightarrow> 'f \<Rightarrow> int \<Rightarrow> int \<Rightarrow> common_suffix_node \<Rightarrow> int list \<Rightarrow> nat list \<Rightarrow> int list \<times> 'f \<Rightarrow> int list result" where
  "match_loop F min_token_prob min_match_count max_spec root context [] (best_draft, best_score) = Inr best_draft"
| "match_loop F min_token_prob min_match_count max_spec root context (match_len # lens) (best_draft, best_score) =
     (case match_context (drop (length context - match_len) context) root of
        None \<Rightarrow> Inr best_draft
      | Some nd \<Rightarrow>
          if node_count nd < min_match_count \<or> node_children nd = [] then
            match_loop F min_token_prob min_match_count max_spec root context lens (best_draft, best_score)
          else rbind (draft_loop F min_token_prob (nat (min max_spec (int match_len + 8))) nd (f_of_int F 1) (f_of_int F 0)) (\<lambda>(draft, score).
            match_loop F min_token_prob min_match_count max_spec root context lens
              (if f_less F best_score score \<and> draft \<noteq> [] then (draft, score) else (best_draft, best_score))))"

definition speculate ::
  "'f float_ops \<Rightarrow> int list \<Rightarrow> int \<Rightarrow> 'f \<Rightarrow> int \<Rightarrow> int \<Rightarrow> common_suffix_tree \<Rightarrow> int list result" where
  "speculate F context max_spec_tokens min_token_prob min_match_count min_match_len st =
     (if context = [] \<or> max_spec_tokens \<le> 0 then Inr []
      else let ctx = (if int (length context) > st_max_depth st then drop (nat (int (length context) - st_max_depth st)) context else context) in
        match_loop F min_token_prob min_match_count max_spec_tokens (st_root st) ctx
          [nat (max 1 min_match_len)..<length ctx + 1] ([], f_of_int F 0))"

subsection \<open>Loading a corpus\<close>

definition suffix_estimated_insert_work :: "nat \<Rightarrow> int \<Rightarrow> u64" where
  "suffix_estimated_insert_work n_tokens max_depth = of_nat n_tokens * of_int (max max_depth 1)"

definition suffix_corpus_check_limit :: "nat \<Rightarrow> int \<Rightarrow> bool" where
  "suffix_corpus_check_limit n_tokens max_depth \<longleftrightarrow> suffix_estimated_insert_work n_tokens max_depth \<le> 256 * 1024 * 1024"

text \<open>The texts of a JSON corpus, tokenized.\<close>

fun load_texts :: "nat \<Rightarrow> int list list \<Rightarrow> common_suffix_tree \<Rightarrow> bool \<times> common_suffix_tree" where
  "load_texts total_tokens [] st = (if total_tokens = 0 then (False, suffix_tree_clear st) else (True, st))"
| "load_texts total_tokens (toks # texts) st =
     (if toks = [] then load_texts total_tokens texts st
      else if \<not> suffix_corpus_check_limit (total_tokens + length toks) (st_max_depth st) then (False, suffix_tree_clear st)
      else load_texts (total_tokens + length toks) texts (suffix_tree_extend toks st))"

text \<open>The chunks of a binary corpus as they are read; the flag says that reading ended with an error.\<close>

fun load_chunks :: "nat \<Rightarrow> bool \<Rightarrow> int list list \<Rightarrow> common_suffix_tree \<Rightarrow> bool \<times> common_suffix_tree" where
  "load_chunks total_tokens read_error [] st =
     (if read_error then (False, suffix_tree_clear st) else (total_tokens \<noteq> 0, st))"
| "load_chunks total_tokens read_error (toks # chunks) st =
     (if \<not> suffix_corpus_check_limit (total_tokens + length toks) (st_max_depth st) then (False, suffix_tree_clear st)
      else load_chunks (total_tokens + length toks) read_error chunks (suffix_tree_extend toks st))"

section \<open>Counts along a path\<close>

definition count_at :: "common_suffix_node \<Rightarrow> int list \<Rightarrow> int" where
  "count_at nd w = (case match_context w nd of None \<Rightarrow> 0 | Some n \<Rightarrow> node_count n)"

lemma count_at_Nil [simp]: "count_at nd [] = node_count nd"
  by (simp add: count_at_def)

lemma count_at_Cons: "count_at nd (t # w) = (case map_of (node_children nd) t of None \<Rightarrow> 0 | Some child \<Rightarrow> count_at child w)"
  by (simp add: count_at_def split: option.split)

lemma count_at_incr: "count_at (Node (node_count nd + 1) (node_children nd)) w = count_at nd w + (if w = [] then 1 else 0)"
  by (cases w) (simp_all add: count_at_Cons)

lemma count_at_leaf: "count_at (Node 1 []) w = (if w = [] then 1 else 0)"
  by (cases w) (simp_all add: count_at_Cons)

lemma match_incr: "match_context w (Node c (node_children nd)) = None \<longleftrightarrow> match_context w nd = None"
  by (cases w) simp_all

lemma count_path_counts:
  "count_at (count_path toks nd) w = count_at nd w + (if w \<noteq> [] \<and> prefix w toks then 1 else 0)"
proof (induction toks arbitrary: nd w)
  case (Cons t toks)
  obtain c ch where nd: "nd = Node c ch" by (cases nd)
  show ?case
  proof (cases w)
    case Nil
    then show ?thesis using nd by (simp split: option.split)
  next
    case (Cons v w')
    then show ?thesis using nd Cons.IH
      by (auto simp: count_at_Cons update_conv' count_at_incr count_at_leaf split: option.split)
  qed
qed simp

lemma count_path_paths:
  "match_context w (count_path toks nd) = None \<longleftrightarrow> match_context w nd = None \<and> \<not> prefix w toks"
proof (induction toks arbitrary: nd w)
  case Nil
  then show ?case by (cases w) simp_all
next
  case (Cons t toks)
  obtain c ch where nd: "nd = Node c ch" by (cases nd)
  show ?case
  proof (cases w)
    case (Cons v w')
    have "match_context w' (Node 1 []) = None \<longleftrightarrow> w' \<noteq> []" by (cases w') simp_all
    then show ?thesis using nd Cons.IH Cons
      by (auto simp: update_conv' match_incr split: option.split)
  qed simp
qed

lemma extend_path_counts:
  "match_context old nd \<noteq> None \<Longrightarrow>
    count_at (extend_path old new nd) w = count_at nd w + (if length old < length w \<and> prefix w (old @ new) then 1 else 0)"
proof (induction old arbitrary: nd w)
  case Nil
  then show ?case using count_path_counts [of new nd w] by auto
next
  case (Cons t old)
  obtain c ch where nd: "nd = Node c ch" by (cases nd)
  then obtain child where child: "map_of ch t = Some child" "match_context old child \<noteq> None"
    using Cons.prems by (auto split: option.splits)
  show ?case
  proof (cases w)
    case Nil
    then show ?thesis using nd child by simp
  next
    case (Cons v w')
    then show ?thesis using nd child Cons.IH [OF child(2)] by (simp add: count_at_Cons update_conv')
  qed
qed

lemma extend_path_paths:
  "match_context old nd \<noteq> None \<Longrightarrow>
    match_context w (extend_path old new nd) = None \<longleftrightarrow> match_context w nd = None \<and> \<not> prefix w (old @ new)"
proof (induction old arbitrary: nd w)
  case Nil
  then show ?case using count_path_paths by simp
next
  case (Cons t old)
  obtain c ch where nd: "nd = Node c ch" by (cases nd)
  then obtain child where child: "map_of ch t = Some child" "match_context old child \<noteq> None"
    using Cons.prems by (auto split: option.splits)
  show ?case
  proof (cases w)
    case (Cons v w')
    then show ?thesis using nd child Cons.IH [OF child(2)] by (simp add: update_conv')
  qed simp
qed

lemma match_prefix: "prefix w v \<Longrightarrow> match_context v nd \<noteq> None \<Longrightarrow> match_context w nd \<noteq> None"
proof (induction w arbitrary: v nd)
  case (Cons t w)
  then obtain v' where "v = t # v'" "prefix w v'" by (cases v) auto
  then show ?case using Cons.prems(2) Cons.IH by (auto split: option.splits)
qed simp

section \<open>The tree counts occurrences\<close>

text \<open>How often a sequence of tokens occurs in the history.\<close>

definition occurrences :: "int list \<Rightarrow> int list \<Rightarrow> nat" where
  "occurrences w xs = length (filter (\<lambda>i. prefix w (drop i xs)) [0..<length xs])"

text \<open>A path is in the tree exactly when something has been counted on it.\<close>

definition live_counts :: "common_suffix_node \<Rightarrow> bool" where
  "live_counts nd \<longleftrightarrow> (\<forall>w. w \<noteq> [] \<longrightarrow> 0 \<le> count_at nd w \<and> (match_context w nd = None \<longleftrightarrow> count_at nd w = 0))"

definition counts_history :: "common_suffix_tree \<Rightarrow> bool" where
  "counts_history st \<longleftrightarrow> live_counts (st_root st) \<and> st_n_inserted st = length (st_tokens st) \<and>
     (\<forall>w. w \<noteq> [] \<longrightarrow> count_at (st_root st) w =
        (if int (length w) \<le> st_max_depth st then int (occurrences w (st_tokens st)) else 0))"

lemma live_count_path:
  assumes "live_counts nd"
  shows "live_counts (count_path toks nd)"
  unfolding live_counts_def
proof (intro allI impI)
  fix w :: "int list" assume "w \<noteq> []"
  then show "0 \<le> count_at (count_path toks nd) w \<and> (match_context w (count_path toks nd) = None \<longleftrightarrow> count_at (count_path toks nd) w = 0)"
    using assms unfolding live_counts_def count_path_counts count_path_paths by (cases "prefix w toks") force+
qed

lemma live_extend_path:
  assumes "live_counts nd" "match_context old nd \<noteq> None"
  shows "live_counts (extend_path old new nd)"
proof -
  have "match_context w nd \<noteq> None" if "prefix w (old @ new)" "length w \<le> length old" for w
    using match_prefix [of w old nd] that assms(2) prefix_length_prefix [of w "old @ new" old] by auto
  note known = this
  show ?thesis unfolding live_counts_def
  proof (intro allI impI)
    fix w :: "int list" assume "w \<noteq> []"
    then show "0 \<le> count_at (extend_path old new nd) w \<and>
        (match_context w (extend_path old new nd) = None \<longleftrightarrow> count_at (extend_path old new nd) w = 0)"
      using assms(1) known [of w] unfolding live_counts_def extend_path_counts [OF assms(2)] extend_path_paths [OF assms(2)]
      by (cases "prefix w (old @ new)"; cases "length w \<le> length old") force+
  qed
qed

text \<open>The occurrences that one position adds when the history had \<open>m\<close> tokens before: those that reach into the new part.\<close>

definition hit :: "common_suffix_tree \<Rightarrow> nat \<Rightarrow> int list \<Rightarrow> nat \<Rightarrow> bool" where
  "hit st m w i \<longleftrightarrow> int (length w) \<le> st_max_depth st \<and> prefix w (drop i (st_tokens st)) \<and> m < i + length w"

lemma prefix_take_iff: "prefix w (take n xs) \<longleftrightarrow> prefix w xs \<and> length w \<le> n"
proof
  assume "prefix w (take n xs)"
  then show "prefix w xs \<and> length w \<le> n"
    using prefix_length_le [of w "take n xs"] prefix_order.trans [OF _ take_is_prefix [of n xs]] by auto
next
  assume *: "prefix w xs \<and> length w \<le> n"
  then have "w = take (length w) (take n xs)" by (auto simp: prefix_def min_def)
  then show "prefix w (take n xs)" by (metis take_is_prefix)
qed

lemma extend_step_counts:
  fixes st :: common_suffix_tree
  assumes inserted: "st_n_inserted st = m" "m \<le> length (st_tokens st)" and i: "i < length (st_tokens st)"
    and old: "i < m \<Longrightarrow> 0 < st_max_depth st \<Longrightarrow>
       match_context (take (nat (min (int m - int i) (st_max_depth st))) (drop i (st_tokens st))) root \<noteq> None"
    and live_counts: "live_counts root"
  shows "w \<noteq> [] \<Longrightarrow> count_at (extend_step st m i root) w = count_at root w + (if hit st m w i then 1 else 0)"
    and "live_counts (extend_step st m i root)"
proof -
  define D xs where "D = st_max_depth st" and "xs = st_tokens st"
  have "(w \<noteq> [] \<longrightarrow> count_at (extend_step st m i root) w = count_at root w + (if hit st m w i then 1 else 0)) \<and>
    live_counts (extend_step st m i root)"
  proof (cases "0 < D")
    case False
    then have "\<not> hit st m w i" if "w \<noteq> []" using that unfolding hit_def D_def by (cases w) auto
    moreover have "extend_step st m i root = root"
      using False i unfolding extend_step_def insert_suffix_def D_def inserted(1) by (auto simp: Let_def)
    ultimately show ?thesis using live_counts by auto
  next
    case D: True
    show ?thesis
    proof (cases "i < m")
      case True
      define l where "l = nat (min (int m - int i) D)"
      define k where "k = nat (min (int (length xs) - int i) D)"
      have lk: "0 < l" "l \<le> k" using True D inserted(2) unfolding l_def k_def xs_def by auto
      have parts: "take l (drop i xs) @ take (k - l) (drop (i + l) xs) = take k (drop i xs)"
        using lk(2) take_add [of l "k - l" "drop i xs"] by (simp add: add.commute)
      have len: "length (take l (drop i xs)) = l" using True inserted(2) unfolding l_def xs_def by auto
      have "hit st m w i \<longleftrightarrow> prefix w (take k (drop i xs)) \<and> l < length w" if "w \<noteq> []"
        using True D prefix_length_le [of w "drop i xs"]
        unfolding hit_def prefix_take_iff l_def k_def D_def xs_def by auto
      note hit = this
      have match: "match_context (take l (drop i xs)) root \<noteq> None" using old True D unfolding l_def D_def xs_def by simp
      show ?thesis
      proof (cases "l < k")
        case less: True
        then have "extend_step st m i root = extend_path (take l (drop i xs)) (take (k - l) (drop (i + l) xs)) root"
          using True lk unfolding extend_step_def extend_suffix_def inserted(1) l_def k_def D_def xs_def by (auto simp: Let_def)
        then show ?thesis using extend_path_counts [OF match] live_extend_path [OF live_counts match] hit len parts by auto
      next
        case False
        then have "extend_step st m i root = root"
          using True unfolding extend_step_def inserted(1) l_def k_def D_def xs_def by (auto simp: Let_def)
        moreover have "\<not> hit st m w i" if "w \<noteq> []" using hit [OF that] False unfolding prefix_take_iff by auto
        ultimately show ?thesis using live_counts by auto
      qed
    next
      case False
      define k where "k = nat (min (int (length xs) - int i) D)"
      have "extend_step st m i root = count_path (take k (drop i xs)) root"
        using False D i unfolding extend_step_def insert_suffix_def inserted(1) k_def D_def xs_def by (auto simp: Let_def)
      moreover have "hit st m w i \<longleftrightarrow> prefix w (take k (drop i xs))" if "w \<noteq> []"
        using that False D i prefix_length_le [of w "drop i xs"] unfolding hit_def prefix_take_iff k_def D_def xs_def by (cases w) auto
      ultimately show ?thesis using count_path_counts live_count_path [OF live_counts] by simp
    qed
  qed
  then show "w \<noteq> [] \<Longrightarrow> count_at (extend_step st m i root) w = count_at root w + (if hit st m w i then 1 else 0)"
    and "live_counts (extend_step st m i root)" by blast+
qed

lemma fold_counts:
  assumes inserted: "st_n_inserted st = m" "m \<le> length (st_tokens st)"
  shows "live_counts root \<Longrightarrow> (\<forall>i \<in> set is'. i < length (st_tokens st)) \<Longrightarrow>
    (\<forall>i. i < m \<longrightarrow> 0 < st_max_depth st \<longrightarrow>
       0 < count_at root (take (nat (min (int m - int i) (st_max_depth st))) (drop i (st_tokens st)))) \<Longrightarrow>
    live_counts (fold (extend_step st m) is' root) \<and>
    (\<forall>w. w \<noteq> [] \<longrightarrow> count_at (fold (extend_step st m) is' root) w = count_at root w + int (length (filter (hit st m w) is')))"
proof (induction is' arbitrary: root)
  case (Cons i is')
  define old where "old = (\<lambda>i. take (nat (min (int m - int i) (st_max_depth st))) (drop i (st_tokens st)))"
  have len: "old i \<noteq> []" if "i < m" "0 < st_max_depth st" for i
    using that inserted(2) unfolding old_def by auto
  have match: "match_context (old i) root \<noteq> None" if "i < m" "0 < st_max_depth st" for i
  proof -
    have "count_at root (old i) \<noteq> 0" using Cons.prems(3) that unfolding old_def by fastforce
    then show ?thesis using Cons.prems(1) len [OF that] unfolding live_counts_def by blast
  qed
  have i: "i < length (st_tokens st)" using Cons.prems(2) by simp
  define root' where "root' = extend_step st m i root"
  note step = extend_step_counts [OF inserted i match [unfolded old_def] Cons.prems(1)]
  have live_counts: "live_counts root'" using step(2) unfolding root'_def by blast
  have count: "count_at root' w = count_at root w + (if hit st m w i then 1 else 0)" if "w \<noteq> []" for w
    using step(1) that unfolding root'_def by blast
  have "0 < count_at root' (old i)" if "i < m" "0 < st_max_depth st" for i
    using count [OF len [OF that]] Cons.prems(3) that unfolding old_def by auto
  then show ?case using Cons.IH [OF live_counts] Cons.prems(2) count unfolding old_def root'_def by auto
qed simp

lemma occurrences_card: "occurrences w xs = card {i. i < length xs \<and> prefix w (drop i xs)}"
  unfolding occurrences_def by (simp add: length_filter_conv_card conj_commute cong: conj_cong)

text \<open>The occurrences in a longer history are the old ones and those that reach into the new part.\<close>

lemma occurrences_append:
  assumes "w \<noteq> []" "int (length w) \<le> D"
  shows "occurrences w (xs @ ys) = occurrences w xs +
    length (filter (\<lambda>i. prefix w (drop i (xs @ ys)) \<and> length xs < i + length w) [nat (max 0 (int (length xs) - D))..<length (xs @ ys)])"
proof -
  define r where "r = nat (max 0 (int (length xs) - D))"
  define A where "A = {i. i < length xs \<and> prefix w (drop i xs)}"
  define B where "B = {i. r \<le> i \<and> i < length (xs @ ys) \<and> prefix w (drop i (xs @ ys)) \<and> length xs < i + length w}"
  have old: "prefix w (drop i (xs @ ys)) \<longleftrightarrow> prefix w (drop i xs)" if "i + length w \<le> length xs" for i
    using that by (auto simp: prefix_append simp flip: length_0_conv)
  have fits: "i + length w \<le> length xs" if "i < length xs" "prefix w (drop i xs)" for i
    using that prefix_length_le [of w "drop i xs"] by auto
  have "{i. i < length (xs @ ys) \<and> prefix w (drop i (xs @ ys))} = A \<union> B"
  proof (intro set_eqI iffI)
    fix i assume i: "i \<in> {i. i < length (xs @ ys) \<and> prefix w (drop i (xs @ ys))}"
    show "i \<in> A \<union> B"
    proof (cases "i + length w \<le> length xs")
      case True
      then show ?thesis using i old [OF True] assms(1) unfolding A_def by (cases w) auto
    next
      case False
      then show ?thesis using i assms(2) unfolding B_def r_def by auto
    qed
  next
    fix i assume "i \<in> A \<union> B"
    then show "i \<in> {i. i < length (xs @ ys) \<and> prefix w (drop i (xs @ ys))}"
      using old fits unfolding A_def B_def by auto
  qed
  moreover have "A \<inter> B = {}" "finite A" "finite B" using fits unfolding A_def B_def by fastforce+
  moreover have "card B = length (filter (\<lambda>i. prefix w (drop i (xs @ ys)) \<and> length xs < i + length w) [r..<length (xs @ ys)])"
  proof -
    have "B = set (filter (\<lambda>i. prefix w (drop i (xs @ ys)) \<and> length xs < i + length w) [r..<length (xs @ ys)])"
      unfolding B_def by auto
    then show ?thesis using distinct_card [of "filter (\<lambda>i. prefix w (drop i (xs @ ys)) \<and> length xs < i + length w) [r..<length (xs @ ys)]"] by simp
  qed
  ultimately show ?thesis unfolding occurrences_card r_def [symmetric] by (simp add: card_Un_disjoint A_def)
qed

lemma new_counts_history: "counts_history (suffix_tree_new D)"
proof -
  have "match_context w (Node 0 []) = None" "count_at (Node 0 []) w = 0" if "w \<noteq> []" for w
    using that by (cases w; simp add: count_at_Cons)+
  then show ?thesis by (simp add: counts_history_def suffix_tree_new_def live_counts_def occurrences_def)
qed

lemma extend_counts_history:
  assumes "counts_history st"
  shows "counts_history (suffix_tree_extend toks st)"
proof (cases "toks = []")
  case False
  define D xs m where "D = st_max_depth st" and "xs = st_tokens st" and "m = length xs"
  define st1 where "st1 = st\<lparr>st_tokens := xs @ toks\<rparr>"
  define is' where "is' = [nat (max 0 (int m - D))..<length (xs @ toks)]"
  have st: "st_n_inserted st1 = m" "m \<le> length (st_tokens st1)" "live_counts (st_root st)"
    using assms unfolding st1_def counts_history_def m_def xs_def by auto
  have "0 < count_at (st_root st) (take (nat (min (int m - int i) D)) (drop i (xs @ toks)))" if i: "i < m" "0 < D" for i
  proof -
    define w where "w = take (nat (min (int m - int i) D)) (drop i xs)"
    have w: "take (nat (min (int m - int i) D)) (drop i (xs @ toks)) = w" "w \<noteq> []" "int (length w) \<le> D"
      using i unfolding w_def m_def by auto
    have "i \<in> {i. i < length xs \<and> prefix w (drop i xs)}" using i unfolding w_def m_def by (simp add: take_is_prefix)
    then have "0 < occurrences w xs" unfolding occurrences_card by (auto simp: card_gt_0_iff)
    then show ?thesis using assms w unfolding counts_history_def D_def xs_def by simp
  qed
  then have fold: "live_counts (fold (extend_step st1 m) is' (st_root st))"
    "\<And>w. w \<noteq> [] \<Longrightarrow> count_at (fold (extend_step st1 m) is' (st_root st)) w = count_at (st_root st) w + int (length (filter (hit st1 m w) is'))"
    using fold_counts [OF st(1,2) st(3), of is'] unfolding is'_def st1_def D_def by auto
  have root: "suffix_tree_extend toks st = st1\<lparr>st_root := fold (extend_step st1 m) is' (st_root st), st_n_inserted := length (xs @ toks)\<rparr>"
    using False unfolding suffix_tree_extend_def st1_def is'_def m_def xs_def D_def by (simp add: Let_def)
  have "count_at (st_root st) w + int (length (filter (hit st1 m w) is')) = (if int (length w) \<le> D then int (occurrences w (xs @ toks)) else 0)"
    if w: "w \<noteq> []" for w
  proof (cases "int (length w) \<le> D")
    case True
    then have "hit st1 m w = (\<lambda>i. prefix w (drop i (xs @ toks)) \<and> length xs < i + length w)"
      unfolding hit_def st1_def D_def m_def by (simp add: fun_eq_iff)
    then show ?thesis using assms w True occurrences_append [OF w True, of xs toks]
      unfolding counts_history_def is'_def m_def D_def xs_def by simp
  next
    case False
    then have "filter (hit st1 m w) is' = []" unfolding hit_def st1_def D_def by simp
    then show ?thesis using assms w False unfolding counts_history_def D_def by simp
  qed
  then show ?thesis using fold unfolding root counts_history_def st1_def D_def by simp
qed (use assms in \<open>simp add: suffix_tree_extend_def\<close>)

lemma extend_tokens: "st_tokens (suffix_tree_extend toks st) = st_tokens st @ toks"
  by (simp add: suffix_tree_extend_def Let_def)

lemma extend_max_depth [simp]: "st_max_depth (suffix_tree_extend toks st) = st_max_depth st"
  by (simp add: suffix_tree_extend_def Let_def)

lemma extend_all_counts_history:
  "counts_history st \<Longrightarrow> counts_history (fold suffix_tree_extend chunks st) \<and>
    st_tokens (fold suffix_tree_extend chunks st) = st_tokens st @ concat chunks \<and>
    st_max_depth (fold suffix_tree_extend chunks st) = st_max_depth st"
  by (induction chunks arbitrary: st) (auto simp: extend_counts_history extend_tokens)

text \<open>
  C20. The tree counts occurrences. In whatever pieces the history has arrived, the node that a non-empty sequence of
  tokens leads to carries the number of times that the sequence occurs in the whole history, overlaps and
  seams between the pieces included, as long as the sequence is not longer than the depth of the tree; longer
  sequences are not in the tree.
\<close>

theorem suffix_tree_counts:
  assumes "w \<noteq> []"
  shows "count_at (st_root (fold suffix_tree_extend chunks (suffix_tree_new max_depth))) w =
    (if int (length w) \<le> max_depth then int (occurrences w (concat chunks)) else 0)"
  using extend_all_counts_history [OF new_counts_history [of max_depth], of chunks] assms
  by (simp add: counts_history_def suffix_tree_new_def)

theorem suffix_tree_counts_witness:
  "count_at (st_root (fold suffix_tree_extend [[1, 2, 1], [2, 1]] (suffix_tree_new 3))) [1, 2, 1] = 2"
proof -
  have "occurrences [1, 2, 1] (concat [[1, 2, 1], [2, 1]]) = 2" by code_simp
  then show ?thesis using suffix_tree_counts [of "[1, 2, 1]" "[[1, 2, 1], [2, 1]]" 3] by simp
qed

section \<open>Drafts occur in the history\<close>

text \<open>No two children of a node have the same token.\<close>

fun tidy :: "common_suffix_node \<Rightarrow> bool" where
  "tidy (Node c ch) \<longleftrightarrow> distinct (map fst ch) \<and> (\<forall>x \<in> set ch. tidy (snd x))"

lemma set_update_cases: "x \<in> set (AList.update k v al) \<Longrightarrow> x = (k, v) \<or> x \<in> set al"
  by (induction al) (auto split: if_splits)

lemma tidy_update: "tidy (Node c ch) \<Longrightarrow> tidy child \<Longrightarrow> tidy (Node c (AList.update t child ch))"
  using set_update_cases [of _ t child ch] by (fastforce simp: distinct_update)

lemma tidy_child: "tidy nd \<Longrightarrow> map_of (node_children nd) t = Some child \<Longrightarrow> tidy child"
  by (cases nd) (fastforce dest: map_of_SomeD)

lemma tidy_recount: "tidy nd \<Longrightarrow> tidy (Node c (node_children nd))"
  by (cases nd) simp

lemma tidy_leaf [simp]: "tidy (Node c [])"
  by simp

declare tidy.simps [simp del]

lemma tidy_count_path: "tidy nd \<Longrightarrow> tidy (count_path toks nd)"
proof (induction toks arbitrary: nd)
  case (Cons t toks)
  obtain c ch where nd: "nd = Node c ch" by (cases nd)
  show ?case
  proof (cases "map_of ch t")
    case None
    then show ?thesis using Cons nd tidy_update by simp
  next
    case (Some child)
    then have "tidy child" using tidy_child [OF Cons.prems, of t] nd by simp
    then show ?thesis using Some Cons nd tidy_update tidy_recount by simp
  qed
qed simp

lemma tidy_extend_path: "tidy nd \<Longrightarrow> tidy (extend_path old new nd)"
proof (induction old arbitrary: nd)
  case (Cons t old)
  obtain c ch where nd: "nd = Node c ch" by (cases nd)
  show ?case
  proof (cases "map_of ch t")
    case (Some child)
    then have "tidy child" using tidy_child [OF Cons.prems, of t] nd by simp
    then show ?thesis using Some Cons nd tidy_update by simp
  qed (use Cons.prems nd in simp)
qed (simp add: tidy_count_path)

lemma tidy_extend: "tidy (st_root st) \<Longrightarrow> tidy (st_root (suffix_tree_extend toks st))"
proof -
  have "tidy root \<Longrightarrow> tidy (fold (extend_step st1 m) is' root)" for st1 m is' root
    by (induction is' arbitrary: root)
      (simp_all add: extend_step_def insert_suffix_def extend_suffix_def tidy_count_path tidy_extend_path Let_def)
  then show "tidy (st_root st) \<Longrightarrow> tidy (st_root (suffix_tree_extend toks st))"
    by (simp add: suffix_tree_extend_def Let_def)
qed

lemma tidy_extend_all: "tidy (st_root st) \<Longrightarrow> tidy (st_root (fold suffix_tree_extend chunks st))"
  by (induction chunks arbitrary: st) (simp_all add: tidy_extend)

lemma match_append: "match_context (u @ v) nd = (case match_context u nd of None \<Rightarrow> None | Some n \<Rightarrow> match_context v n)"
  by (induction u arbitrary: nd) (auto split: option.split)

lemma count_at_append: "match_context u nd = Some n \<Longrightarrow> count_at nd (u @ v) = count_at n v"
  by (simp add: count_at_def match_append)

lemma live_below: "live_counts nd \<Longrightarrow> match_context u nd = Some n \<Longrightarrow> live_counts n"
  unfolding live_counts_def by (metis Nil_is_append_conv count_at_append match_append option.simps(5))

lemma tidy_below: "tidy nd \<Longrightarrow> match_context u nd = Some n \<Longrightarrow> tidy n"
  by (induction u arbitrary: nd) (auto split: option.splits intro: tidy_child)

text \<open>The child that is followed has the largest count, which is positive.\<close>

lemma best_child_max:
  assumes "live_counts nd" "tidy nd" "node_children nd \<noteq> []" "best_child (node_children nd) = (tok, c)"
  shows "c = count_at nd [tok] \<and> 0 < c \<and> (\<forall>t. count_at nd [t] \<le> c) \<and> (\<exists>child. map_of (node_children nd) tok = Some child)"
proof -
  define ch where "ch = node_children nd"
  define step where "step = (\<lambda>(tok :: int, child) (best_tok :: int, best_count). if node_count child > best_count then (tok, node_count child) else (best_tok, best_count))"
  have max: "(fold step ch b = b \<or> (\<exists>child. (fst (fold step ch b), child) \<in> set ch \<and> snd (fold step ch b) = node_count child)) \<and>
      snd b \<le> snd (fold step ch b) \<and> (\<forall>x \<in> set ch. node_count (snd x) \<le> snd (fold step ch b))" for b ch
  proof (induction ch arbitrary: b)
    case (Cons x ch)
    show ?case using Cons.IH [of "step x b"] by (cases x; cases b) (auto simp: step_def split: if_splits)
  qed simp
  have dist: "distinct (map fst ch)" using assms(2) unfolding ch_def by (cases nd) (simp add: tidy.simps)
  have count: "count_at nd [t] = (case map_of ch t of None \<Rightarrow> 0 | Some child \<Rightarrow> node_count child)" for t
    by (simp add: count_at_Cons ch_def split: option.split)
  have pos: "0 < node_count (snd x)" if "x \<in> set ch" for x
  proof -
    have "map_of ch (fst x) = Some (snd x)" using map_of_is_SomeI [OF dist] that by simp
    then have "match_context [fst x] nd \<noteq> None" "count_at nd [fst x] = node_count (snd x)" using count unfolding ch_def by auto
    then show ?thesis using assms(1) unfolding live_counts_def by (metis list.distinct(1) order_le_less)
  qed
  have best: "fold step ch (-1, 0) = (tok, c)" using assms(4) unfolding best_child_def step_def ch_def .
  obtain x where "x \<in> set ch" using assms(3) unfolding ch_def by (meson list.set_sel(1))
  then have "0 < node_count (snd x)" "node_count (snd x) \<le> c" using pos max [of ch "(-1, 0)"] best by auto
  then have c: "0 < c" by simp
  then obtain child where child: "(tok, child) \<in> set ch" "c = node_count child" using max [of ch "(-1, 0)"] best by auto
  then have "map_of ch tok = Some child" using map_of_is_SomeI [OF dist] by simp
  moreover have "count_at nd [t] \<le> c" for t
    using max [of ch "(-1, 0)"] best c unfolding count by (cases "map_of ch t") (force dest: map_of_SomeD)+
  ultimately show ?thesis using c child count [of tok] unfolding ch_def by auto
qed

lemma draft_loop_greedy:
  "live_counts nd \<Longrightarrow> tidy nd \<Longrightarrow> \<exists>draft score'. draft_loop F p n nd prob score = Inr (draft, score') \<and> length draft \<le> n \<and>
     match_context draft nd \<noteq> None \<and> (\<forall>i < length draft. \<forall>t. count_at nd (take i draft @ [t]) \<le> count_at nd (take (Suc i) draft))"
proof (induction n arbitrary: nd prob score)
  case (Suc n)
  obtain tok c where best: "best_child (node_children nd) = (tok, c)" by fastforce
  define prob' where "prob' = f_mul F prob (f_div F (f_of_int F c) (f_of_int F (node_count nd)))"
  show ?case
  proof (cases "node_children nd = [] \<or> f_less F prob' p")
    case True
    then show ?thesis using best by (auto simp: prob'_def)
  next
    case False
    then obtain child where child: "map_of (node_children nd) tok = Some child" "\<forall>t. count_at nd [t] \<le> count_at nd [tok]"
      using best_child_max [OF Suc.prems _ best] by auto
    then have m: "match_context [tok] nd = Some child" by simp
    obtain draft score' where ih: "draft_loop F p n child prob' (f_add F score prob') = Inr (draft, score')" "length draft \<le> n"
      "match_context draft child \<noteq> None"
      "\<forall>i < length draft. \<forall>t. count_at child (take i draft @ [t]) \<le> count_at child (take (Suc i) draft)"
      using Suc.IH [OF live_below [OF Suc.prems(1) m] tidy_below [OF Suc.prems(2) m]] by blast
    have "count_at nd (take i (tok # draft) @ [t]) \<le> count_at nd (take (Suc i) (tok # draft))" if "i < length (tok # draft)" for i t
      using that ih(4) child count_at_append [OF m] by (cases i) auto
    then show ?thesis using False best ih(1,2,3) child(1) by (auto simp: prob'_def)
  qed
qed simp

text \<open>What is said of a draft: it continues an end of the context the way the history has done most often.\<close>

definition frequent_draft :: "common_suffix_node \<Rightarrow> int list \<Rightarrow> int \<Rightarrow> nat list \<Rightarrow> int list \<Rightarrow> bool" where
  "frequent_draft root context max_spec lens draft \<longleftrightarrow> draft = [] \<or>
     (\<exists>m \<in> set lens. let ctx = drop (length context - m) context in
        match_context (ctx @ draft) root \<noteq> None \<and> int (length draft) \<le> min max_spec (int m + 8) \<and>
        (\<forall>i < length draft. \<forall>t. count_at root (ctx @ take i draft @ [t]) \<le> count_at root (ctx @ take (Suc i) draft)))"

lemma match_loop_frequent:
  assumes "live_counts root" "tidy root" "0 < max_spec"
  shows "frequent_draft root context max_spec all best_draft \<Longrightarrow> set lens \<subseteq> set all \<Longrightarrow>
    \<exists>draft. match_loop F p c max_spec root context lens (best_draft, best_score) = Inr draft \<and> frequent_draft root context max_spec all draft"
proof (induction lens arbitrary: best_draft best_score)
  case (Cons m lens)
  define ctx where "ctx = drop (length context - m) context"
  show ?case
  proof (cases "match_context ctx root")
    case None
    then show ?thesis using Cons.prems unfolding ctx_def by simp
  next
    case (Some nd)
    obtain draft score where d: "draft_loop F p (nat (min max_spec (int m + 8))) nd (f_of_int F 1) (f_of_int F 0) = Inr (draft, score)"
      "length draft \<le> nat (min max_spec (int m + 8))" "match_context draft nd \<noteq> None"
      "\<forall>i < length draft. \<forall>t. count_at nd (take i draft @ [t]) \<le> count_at nd (take (Suc i) draft)"
      using draft_loop_greedy [OF live_below [OF assms(1) Some] tidy_below [OF assms(2) Some], where F = F and p = p] by blast
    have "int (length draft) \<le> min max_spec (int m + 8)" using d(2) assms(3) by linarith
    then have frequent: "frequent_draft root context max_spec all draft"
      using Cons.prems(2) d(3,4) Some unfolding frequent_draft_def ctx_def
      by (auto simp: Let_def match_append count_at_append intro!: bexI [of _ m])
    have sub: "set lens \<subseteq> set all" using Cons.prems(2) by simp
    show ?thesis
    proof (cases "node_count nd < c \<or> node_children nd = []")
      case True
      then show ?thesis using Cons.IH [OF Cons.prems(1) sub, of best_score] Some unfolding ctx_def by simp
    next
      case False
      then show ?thesis using Cons.IH [OF Cons.prems(1) sub, of best_score] Cons.IH [OF frequent sub, of score] Some d(1)
        unfolding ctx_def by simp
    qed
  qed
qed simp

lemma match_occurs:
  assumes "counts_history st" "w \<noteq> []" "match_context w (st_root st) \<noteq> None"
  shows "int (length w) \<le> st_max_depth st \<and> 0 < occurrences w (st_tokens st)"
proof -
  have live_counts: "live_counts (st_root st)" and count: "count_at (st_root st) w =
      (if int (length w) \<le> st_max_depth st then int (occurrences w (st_tokens st)) else 0)"
    using assms(1,2) unfolding counts_history_def by simp_all
  have "match_context w (st_root st) = None \<longleftrightarrow> count_at (st_root st) w = 0"
    using live_counts assms(2) unfolding live_counts_def by (elim allE [of _ w]) simp
  then have "count_at (st_root st) w \<noteq> 0" using assms(3) by simp
  then show ?thesis unfolding count by (simp split: if_splits)
qed

text \<open>In terms of the history: the draft after an end of the context occurs there, and no other token was more frequent at any place.\<close>

lemma frequent_draft_occurs:
  assumes st: "counts_history st" and draft: "frequent_draft (st_root st) context max_spec lens draft" "draft \<noteq> []"
    and lens: "\<forall>m \<in> set lens. 0 < m \<and> m \<le> length context"
  shows "\<exists>m \<in> set lens. let ctx = drop (length context - m) context in
    0 < occurrences (ctx @ draft) (st_tokens st) \<and> int (length draft) \<le> min max_spec (int m + 8) \<and>
    (\<forall>i < length draft. \<forall>t. occurrences (ctx @ take i draft @ [t]) (st_tokens st) \<le> occurrences (ctx @ take i draft @ [draft ! i]) (st_tokens st))"
proof -
  obtain m where m: "m \<in> set lens" and d: "match_context (drop (length context - m) context @ draft) (st_root st) \<noteq> None"
    "int (length draft) \<le> min max_spec (int m + 8)"
    "\<forall>i < length draft. \<forall>t. count_at (st_root st) (drop (length context - m) context @ take i draft @ [t]) \<le>
       count_at (st_root st) (drop (length context - m) context @ take (Suc i) draft)"
    using draft unfolding frequent_draft_def Let_def by blast
  define ctx where "ctx = drop (length context - m) context"
  have occ: "int (length (ctx @ draft)) \<le> st_max_depth st" "0 < occurrences (ctx @ draft) (st_tokens st)"
    using match_occurs [OF st _ d(1)] draft(2) unfolding ctx_def by auto
  have "occurrences (ctx @ take i draft @ [t]) (st_tokens st) \<le> occurrences (ctx @ take i draft @ [draft ! i]) (st_tokens st)"
    if i: "i < length draft" for i t
  proof -
    have "count_at (st_root st) (ctx @ take i draft @ [v]) = int (occurrences (ctx @ take i draft @ [v]) (st_tokens st))" for v
      using st occ(1) i unfolding counts_history_def by simp
    note count = this
    have "count_at (st_root st) (ctx @ take i draft @ [t]) \<le> count_at (st_root st) (ctx @ take i draft @ [draft ! i])"
      using d(3) i unfolding ctx_def [symmetric] by (metis take_Suc_conv_app_nth)
    then show ?thesis unfolding count by simp
  qed
  then show ?thesis using m occ(2) d(2) unfolding ctx_def by (auto simp: Let_def)
qed

text \<open>
  C8. Drafts come from the history. Whatever floating point arithmetic does, and in whatever pieces the history has
  arrived, \<open>speculate\<close> returns. A draft that is not empty is not longer than asked for and follows some end of the
  context, cut to the depth of the tree and at least as long as the least match: that end and the draft together
  occur in the history, and at every place of the draft no other token followed more often.
\<close>

theorem speculate_frequent:
  assumes "st = fold suffix_tree_extend chunks (suffix_tree_new max_depth)"
  shows "\<exists>draft. speculate F context max_spec min_token_prob min_match_count min_match_len st = Inr draft \<and>
    (draft \<noteq> [] \<longrightarrow> (\<exists>m. max 1 min_match_len \<le> int m \<and> int m \<le> min (int (length context)) max_depth \<and>
      (let ctx = drop (length context - m) context in
       0 < occurrences (ctx @ draft) (concat chunks) \<and> int (length draft) \<le> min max_spec (int m + 8) \<and>
       (\<forall>i < length draft. \<forall>t. occurrences (ctx @ take i draft @ [t]) (concat chunks) \<le>
          occurrences (ctx @ take i draft @ [draft ! i]) (concat chunks)))))"
proof (cases "context = [] \<or> max_spec \<le> 0")
  case True
  then show ?thesis by (auto simp: speculate_def)
next
  case False
  have st: "counts_history st" "st_tokens st = concat chunks" "st_max_depth st = max_depth"
    using extend_all_counts_history [OF new_counts_history [of max_depth], of chunks] assms
    by (simp_all add: suffix_tree_new_def)
  have tidy: "tidy (st_root st)" using tidy_extend_all assms by (simp add: suffix_tree_new_def)
  define c where "c = (if int (length context) > max_depth then drop (nat (int (length context) - max_depth)) context else context)"
  define lens where "lens = [nat (max 1 min_match_len)..<length c + 1]"
  have len: "int (length c) \<le> max 0 max_depth" "length c \<le> length context" unfolding c_def by auto
  obtain draft where draft: "match_loop F min_token_prob min_match_count max_spec (st_root st) c lens ([], f_of_int F 0) = Inr draft"
    "frequent_draft (st_root st) c max_spec lens draft"
  proof -
    have "live_counts (st_root st)" "0 < max_spec" "frequent_draft (st_root st) c max_spec lens []"
      using st(1) False unfolding counts_history_def frequent_draft_def by auto
    then show ?thesis
      using that match_loop_frequent [OF _ tidy, of max_spec c lens "[]" lens F min_token_prob min_match_count "f_of_int F 0"] by auto
  qed
  have spec: "speculate F context max_spec min_token_prob min_match_count min_match_len st = Inr draft"
    using draft(1) False st(3) unfolding speculate_def by (simp only: Let_def c_def [symmetric] lens_def [symmetric] if_False)
  show ?thesis
  proof (cases "draft = []")
    case False
    obtain m where m: "m \<in> set lens" and d: "let ctx = drop (length c - m) c in
      0 < occurrences (ctx @ draft) (st_tokens st) \<and> int (length draft) \<le> min max_spec (int m + 8) \<and>
      (\<forall>i < length draft. \<forall>t. occurrences (ctx @ take i draft @ [t]) (st_tokens st) \<le> occurrences (ctx @ take i draft @ [draft ! i]) (st_tokens st))"
    proof -
      have "\<forall>m \<in> set lens. 0 < m \<and> m \<le> length c" unfolding lens_def by auto
      then show ?thesis using that frequent_draft_occurs [OF st(1) draft(2) False] by blast
    qed
    have bounds: "max 1 min_match_len \<le> int m" "m \<le> length c" "0 < m" using m unfolding lens_def by auto
    then have "int m \<le> min (int (length context)) max_depth" using len by auto
    moreover have "drop (length c - m) c = drop (length context - m) context"
      using bounds(2,3) unfolding c_def by (auto simp: add.commute intro!: arg_cong [of _ _ "\<lambda>n. drop n context"])
    ultimately show ?thesis using spec d bounds(1) st(2) by auto
  qed (use spec in simp)
qed

definition int_ops :: "int float_ops" where
  "int_ops = \<lparr>f_of_int = (\<lambda>i. i), f_mul = (*), f_div = (div), f_add = (+), f_less = (<)\<rparr>"

theorem speculate_frequent_witness:
  "speculate int_ops [7, 1] 4 1 1 1 (fold suffix_tree_extend [[1, 2], [3]] (suffix_tree_new 5)) = Inr [2, 3] \<and>
    0 < occurrences [1, 2, 3] [1, 2, 3]"
proof -
  let ?st = "fold suffix_tree_extend [[1, 2], [3]] (suffix_tree_new 5)"
  have draft: "speculate int_ops [7, 1] 4 1 1 1 ?st = Inr [2, 3]" by code_simp
  have "\<exists>m. 1 \<le> m \<and> m \<le> 2 \<and> 0 < occurrences (drop (2 - m) [7, 1] @ [2, 3]) [1, 2, 3]"
    using speculate_frequent [OF refl, of int_ops "[7, 1]" 4 1 1 1 "[[1, 2], [3]]" 5] draft by (auto simp: Let_def numeral_2_eq_2)
  then obtain m where m: "1 \<le> m" "m \<le> 2" "0 < occurrences (drop (2 - m) [7, 1] @ [2, 3]) [1, 2, 3]" by blast
  have "occurrences [7, 1, 2, 3] [1, 2, 3] = 0" by code_simp
  then have "m = 1" using m by (cases "m = 2") (auto simp: numeral_2_eq_2)
  then show ?thesis using m(3) draft by simp
qed

section \<open>Corpora\<close>

lemma clear_counts_history: "counts_history (suffix_tree_clear st)" "st_tokens (suffix_tree_clear st) = []"
  using new_counts_history [of "st_max_depth st"]
  by (simp_all add: suffix_tree_clear_def suffix_tree_new_def counts_history_def)

text \<open>A corpus is loaded as a whole, or the tree is empty afterwards.\<close>

lemma load_texts_whole:
  "counts_history st \<Longrightarrow> load_texts n texts st = (ok, st') \<Longrightarrow>
    counts_history st' \<and> st_tokens st' = (if ok then st_tokens st @ concat texts else [])"
proof (induction n texts st rule: load_texts.induct)
  case (2 n toks texts st)
  then show ?case by (auto simp: clear_counts_history extend_counts_history extend_tokens split: if_splits)
qed (auto simp: clear_counts_history split: if_splits)

lemma load_chunks_whole:
  "counts_history st \<Longrightarrow> load_chunks n err chunks st = (ok, st') \<Longrightarrow>
    counts_history st' \<and> (st_tokens st' = st_tokens st @ concat chunks \<or> \<not> ok \<and> st_tokens st' = [])"
proof (induction n err chunks st rule: load_chunks.induct)
  case (2 n err toks chunks st)
  then show ?case by (auto simp: clear_counts_history extend_counts_history extend_tokens split: if_splits)
qed (auto simp: clear_counts_history split: if_splits)

end
