(* ===== verification/Spec2Isabelle.thy ===== *)
theory Spec2Isabelle
  imports Reasoning_Budget Kv_Defrag Vocab_Load Dry_Sampler Suffix_Tree
begin

text \<open>
  Verification development for \<open>pxq_llama.cpp\<close>, a C++ inference engine for large language models.

  \<^bold>\<open>The parts of the program.\<close> The engine loads a model file, splits a text into words and
  tokens, evaluates the network on batches of tokens with a cache of keys and values for what it has
  seen, samples the next token from the logits, and may constrain the sampling by a grammar. The
  development models the parts in between the numerics: the text machinery (\<open>src/unicode.cpp\<close>,
  \<open>common/unicode.cpp\<close>), the vocabulary and its tokenizers (\<open>src/llama-vocab.cpp\<close>), the grammar engine (\<open>src/llama-grammar.cpp\<close>) and the bookkeeping of the KV
  caches (\<open>src/llama-context.h\<close>, \<open>src/llama.cpp\<close>, the defragmentation in
  \<open>src/llama-build-context.cpp\<close>), two samplers that are about tokens more than about
  numbers (\<open>common/reasoning-budget.cpp\<close>, the sampler against repetition in \<open>src/llama-sampling.cpp\<close> with its ring
  buffer in \<open>src/llama-impl.h\<close>), and the suffix tree of speculative decoding (\<open>common/suffix-tree.cpp\<close>).

  \<^bold>\<open>Conventions\<close> (\<open>Prelude\<close>). A C++ call that may throw, abort or run into undefined behaviour
  returns a \<open>result\<close>: \<open>Throw\<close> is an exception, \<open>Abort\<close> a failed assertion, \<open>Undefined\<close> undefined
  behaviour (an index out of range, a signed overflow), \<open>OutOfFuel\<close> a loop that used up its fuel. An
  object that a method changes is a record that is passed and returned. \<open>uint32_t\<close> arithmetic is on words
  or on naturals with the wrap-around written out (\<open>u32_add\<close>, \<open>u32_sub\<close>, \<open>u32_dec\<close>), \<open>int32_t\<close>
  arithmetic is on integers with the overflow check written out (\<open>i32\<close>). A \<open>std::string\<close> is a list of
  bytes.

  \<^bold>\<open>Grammars.\<close> \<open>Grammar_Elements\<close> has the elements of a rule and the matching of one character;
  \<open>Grammar_Stacks\<close> the stacks of a parse, their expansion and the acceptance of a character;
  \<open>Grammar_Left_Recursion\<close> the check of a grammar before it is used; \<open>Grammar_Utf8\<close> the decoding of
  token pieces with a sequence carried over; \<open>Grammar_Reject\<close> the filter on candidate tokens;
  \<open>Grammar_Parser\<close> and \<open>Grammar_Parser_Correct\<close> the parser of grammar texts; \<open>Grammar_Api\<close> the
  grammar object: construction, sampling, acceptance, lazy triggers. The meaning of a grammar is the
  language its rules generate, defined from derivations and not from the engine. Accepting is the
  derivative of that language (C1), the engine recognises it (C2), it returns on grammars that pass the
  check and whose nullable rules have an empty alternate (C3), the check is exact (C4) and the
  condition of C3 is needed (C5); the filter keeps exactly the candidates a stack can follow (C12) and
  agrees with acceptance (C13, C17); the parser answers on every text (C14), its rules are well formed
  (C15), its symbol table is one to one, and the object built from a text is ready for the engine (C18); a lazy grammar replays exactly the text from its trigger on (C19).

  \<^bold>\<open>Text.\<close> \<open>Unicode\<close> has the two UTF-8 codecs, the completeness test and the byte alphabet, with
  round trips through the codec and the alphabet (C6); \<open>Grammar_Utf8\<close> shows that decoding in pieces is
  decoding and \<open>Grammar_Reject\<close> what a sequence cut short can match. \<open>Unicode_Split\<close> has the splitters
  that run before tokenization, and \<open>Unicode_Split_Correct\<close> shows that they return, never violate their
  assertions, only cut (C30), and that the words put together are the text (C31).

  \<^bold>\<open>Vocabulary and tokenizers.\<close> \<open>Vocab\<close> has the tables of a vocabulary, the lookups, byte tokens and
  escaping; \<open>Vocab_Load\<close> how the tables are filled from a model file: a vocabulary that loads is
  consistent (C7), which gives the tokenizers what they rely on. \<open>Std_Heap\<close> is the binary heap of the
  standard library's priority queue. \<open>Bigram_Merge\<close> is the merge loop that the byte pair and the sentence
  piece tokenizer share: a doubly linked chain of symbols in an array, a heap of candidate pairs of which
  some are outdated. It is shown to compute the textbook algorithm: merge the best adjacent pair, leftmost
  first, until there is none. \<open>Tokenizer_Bpe\<close> instantiates it (C38); \<open>Tokenizer_Bpe_Correct\<close> follows a text
  through splitting, byte encoding, merging and lookup and back through \<open>detokenize\<close> (C39).
  \<open>Tokenizer_Spm\<close> and \<open>Tokenizer_Spm_Correct\<close> are the same for sentence pieces. \<open>Naive_Trie\<close> has the prefix
  tree, which is a map, and the RWKV tokenizer, which is greedy longest match, unless a byte starts a
  token and is none, when it may never end; \<open>Tokenizer_Wpm\<close> the word piece tokenizer, greedy by words (C16);
  \<open>Tokenizer_Ugm\<close> the unigram tokenizer, which finds a tokenization of highest score (C11).
  \<open>Special_Tokens\<close> cuts a text at its special tokens and loses nothing (C9). \<open>Detokenize\<close> goes back from tokens
  to text: the cache of pieces changes no answer, and cleaning up deletes blanks only. \<open>Llama_Tokenize\<close> is
  the entry point over all kinds; through it and \<open>detokenize\<close> a text makes the round trip with a sentence
  piece vocabulary (C40).

  \<^bold>\<open>KV caches.\<close> \<open>Kv_Cell\<close> has a cell with the shadow of its owner set, and that the fast lookup
  is the slow one. \<open>Kv_Cache\<close> has the operations of one cache, \<open>Kv_Invariant\<close> the loop over the
  cells in closed form and the invariant, \<open>Kv_Slots\<close> the search for a slot, exact for both allocators
  (C21, C24). \<open>Kv_Table\<close> takes the operations as a machine: reachable states keep the invariant (C22)
  and every run is a run of an abstract table from cells to positions and owners (C23). \<open>Kv_Swa\<close> has
  the window cache beside the full one: eviction drops exactly what no query can reach (C25), a batch
  goes into both caches or none (C26). \<open>Kv_Window\<close>: a removal leaves no hole in a window (C27), the
  extent handed to the attention kernels covers the cells in use (C28), and the sampled variant of the
  full cache does not always (C29). \<open>Kv_Defrag\<close>: the defragmentation plan loses and duplicates nothing
  and compacts the cache (C35), the block copies built from it move every row with its cell (C36), and
  an update between two batches at most rearranges the contents (C37).

  \<^bold>\<open>Reasoning budget.\<close> \<open>Reasoning_Budget\<close> has the sampler that ends a reasoning block: its matcher
  is exact on sequences whose first token does not repeat (C32), a block does not outlive its budget
  (C33), and what it forces is the closing sequence (C34).

  \<^bold>\<open>Repetition.\<close> \<open>Ring_Buffer\<close> keeps the last tokens: what has been pushed, as far as there is room.
  \<open>Dry_Sampler\<close> is the sampler that lowers the logits of tokens which would continue a repetition. Restart
  sequences come from strings, exactly the ways in which a token can contain the string or begin it. The
  sampler computes with the Z algorithm, backwards and cut off at the nearest restart sequence, and applies the
  penalty by index where it can; it is shown to penalize what a direct comparison of the end of the text with
  every earlier place defines (C10).

  \<^bold>\<open>Speculation.\<close> \<open>Suffix_Tree\<close> counts token sequences of the history in a trie: each node carries the
  number of occurrences, in whatever pieces the history arrived (C20), and a draft follows the history where it
  was most frequent (C8).

  \<^bold>\<open>Interfaces.\<close> A codec (\<open>utf8_codec\<close>) is interpreted by both codecs; a search on a ring of cells
  (\<open>ring_search\<close>) and an allocator (\<open>slot_allocator\<close>) by both caches; a machine that refines a
  specification (\<open>refined_machine\<close>) by the cache; a step of a splitter (\<open>splitter\<close>,
  \<open>exact_splitter\<close>) by the six splitters, and a function that cuts one segment (\<open>segment_cutter\<close>) by
  them and by the splitter over an engine; the order of a heap (\<open>weak_order\<close>) and what a tokenizer has to
  provide to the merge loop (\<open>bigram_engine\<close>: the order of the pairs, the test for an outdated pair, the
  proposal of a new one) by the byte pair and the sentence piece tokenizer; a history of tokens
  (\<open>token_history\<close>) by the ring buffer.

  \<^bold>\<open>Fuel and bounds.\<close> The stack expansion may run forever, so it has fuel; C3 says that enough fuel
  exists and C5 that for one grammar none is. The parser's fuel is a function of the length of the text
  (C14). The slot searches have fuel \<open>2 * size + 2\<close>: a lap visits a cell at most once and there are at
  most two (C21, C24 prove that it suffices). The splitters have the length of a segment, as every step
  takes at least one code point (C30). The merge loop has four rounds per symbol: each merge takes a symbol
  away and proposes at most two pairs. Walks of a chain of symbols have its length, the
  partition one more than the length of the text, the unigram loops the length of the text; C9, C11 and C38
  prove that this suffices. The RWKV loop has the length of the text, which suffices where every byte that starts a token is one. The caches have fewer than \<open>2 ^ 30\<close> cells, so that the sums of
  two of their \<open>uint32_t\<close> indices do not wrap; a cache of \<open>2 ^ 30\<close> tokens is beyond any model.

  \<^bold>\<open>Parameters.\<close> The vocabulary of the grammar, the regular expression engine of the standard library and the
  tables of \<open>src/unicode-data.cpp\<close> are arguments of the definitions that use them. What is assumed of
  the engine is that its matches come in order, without overlap and inside the text (\<open>engine_ok\<close>).
  The scores of tokens are of an ordered type. Where the unigram tokenizer adds scores, \<open>float\<close> and \<open>double\<close> are
  a record of operations (\<open>floats\<close>), of which it is assumed that addition is monotone, as rounded addition is.
  The session of the PLaMo-2 tokenizer is an argument. The penalty of the repetition sampler is a function of
  the exponent and the logit, and the arithmetic on the probabilities of a draft (\<open>float_ops\<close>) is arbitrary: nothing
  is assumed of either.

  \<^bold>\<open>Not modelled.\<close> The tensor library, its kernels and backends, the compute graphs of the models
  and the other samplers compute on floating point numbers; the model loader, the state files, the server and
  the command line tools are input and output; the argument and template machinery of \<open>common/\<close> is glue
  around them. Of the vocabulary the PLaMo-2 tokenizer, the choice of regular expressions by the name
  of the pre-tokenizer, and the reading of flags from the model file are not modelled. Of the cache the allocation of the tensors behind
  the cells, the checkpoints and the serialization are not modelled, and of an update the graphs that
  rotate the keys or copy recurrent states.
\<close>

end
